(* ===== verification/Prelude.thy ===== *)
theory Prelude
  imports Main "HOL-Library.Word"
begin

text \<open>
  Shared by every component: the names of the machine types, the byte memory with its
  little-endian loads and stores, the counting loop \<open>for (i = 0; i < n; ++i)\<close> with its
  invariant rule, conversions of C integers, and the lemma collections the component
  proofs use.
\<close>

unbundle bit_operations_syntax

section \<open>Machine types\<close>

type_synonym u8 = "8 word"
type_synonym u16 = "16 word"
type_synonym u32 = "32 word"
type_synonym u64 = "64 word"

type_synonym mem = "u64 \<Rightarrow> u8"

named_theorems mem_simps "loads after stores, and memory left alone by an operation"
named_theorems frame_simps "fields of a state an operation does not write"

text \<open>The conversion of an unsigned 64-bit value to a C \<open>int\<close>: the low 32 bits, signed.\<close>

definition c_int :: "u64 \<Rightarrow> int" where
  "c_int w = sint (ucast w :: u32)"

section \<open>Counting loops\<close>

text \<open>\<open>for_n n f s\<close> runs \<open>f 0\<close>, \<open>f 1\<close>, ..., \<open>f (n - 1)\<close> on the state, in this order.\<close>

primrec for_n :: "nat \<Rightarrow> (nat \<Rightarrow> 's \<Rightarrow> 's) \<Rightarrow> 's \<Rightarrow> 's" where
  "for_n 0 f s = s"
| "for_n (Suc n) f s = f n (for_n n f s)"

lemma for_n_invariant:
  assumes "P 0 s" and "\<And>i t. i < n \<Longrightarrow> P i t \<Longrightarrow> P (Suc i) (f i t)"
  shows "P n (for_n n f s)"
  using assms by (induction n) auto

lemma for_n_cong:
  "n = n' \<Longrightarrow> s = s' \<Longrightarrow> (\<And>i t. i < n' \<Longrightarrow> f i t = g i t) \<Longrightarrow> for_n n f s = for_n n' g s'"
  by (induction n' arbitrary: n) auto

lemma for_n_preserve:
  assumes "\<And>i t. i < n \<Longrightarrow> p (f i t) = p t"
  shows "p (for_n n f s) = p s"
  using assms by (induction n) auto

lemma for_n_add: "for_n (a + b) f s = for_n b (\<lambda>i. f (a + i)) (for_n a f s)"
  by (induction b) simp_all

lemma for_n_numeral [simp]:
  "for_n (numeral k) f s = f (pred_numeral k) (for_n (pred_numeral k) f s)"
  by (simp add: numeral_eq_Suc)

lemma All_less_numeral:
  "(\<forall>i<numeral k. P i) \<longleftrightarrow> P (pred_numeral k) \<and> (\<forall>i<pred_numeral k. P i)"
  by (simp add: numeral_eq_Suc All_less_Suc)

section \<open>Little-endian words\<close>

fun word_le :: "u8 list \<Rightarrow> 'a::len word" where
  "word_le [] = 0"
| "word_le (b # bs) = ucast b OR push_bit 8 (word_le bs)"

definition bytes_le :: "nat \<Rightarrow> 'a::len word \<Rightarrow> u8 list" where
  "bytes_le n w = map (\<lambda>i. ucast (drop_bit (8 * i) w)) [0..<n]"

lemma length_bytes_le [simp]: "length (bytes_le n w) = n"
  by (simp add: bytes_le_def)

lemma nth_bytes_le [simp]: "i < n \<Longrightarrow> bytes_le n w ! i = ucast (drop_bit (8 * i) w)"
  by (simp add: bytes_le_def)

lemma word_le_zeros: "set bs \<subseteq> {0} \<Longrightarrow> word_le bs = 0"
  by (induction bs) auto

lemma bit_word_le:
  "bit (word_le bs :: 'a::len word) k \<longleftrightarrow>
     k < LENGTH('a) \<and> k div 8 < length bs \<and> bit (bs ! (k div 8)) (k mod 8)"
proof (induction bs arbitrary: k)
  case Nil
  then show ?case by simp
next
  case (Cons b bs)
  show ?case
  proof (cases "k < 8")
    case True
    then show ?thesis
      by (auto simp: bit_or_iff bit_push_bit_iff bit_ucast_iff)
  next
    case False
    then have k: "k div 8 = Suc ((k - 8) div 8)" "k mod 8 = (k - 8) mod 8"
      by (auto simp: le_div_geq le_mod_geq)
    have "\<not> bit b k" using False bit_imp_le_length [of b k] by auto
    with False show ?thesis
      by (auto simp: bit_or_iff bit_push_bit_iff bit_ucast_iff Cons.IH k)
  qed
qed

lemma word_le_bytes_le:
  assumes "LENGTH('a::len) \<le> 8 * n"
  shows "word_le (bytes_le n w) = (w :: 'a word)"
proof (rule bit_word_eqI)
  fix k assume "k < LENGTH('a)"
  with assms have "k div 8 < n" by auto
  moreover have "8 * (k div 8) + k mod 8 = k" by simp
  ultimately show "bit (word_le (bytes_le n w) :: 'a word) k = bit w k"
    using \<open>k < LENGTH('a)\<close>
    by (auto simp: bit_word_le bit_ucast_iff bit_drop_bit_eq)
qed

lemma bytes_le_word_le:
  assumes "8 * length bs \<le> LENGTH('a::len)" and "n = length bs"
  shows "bytes_le n (word_le bs :: 'a word) = bs"
proof (rule nth_equalityI)
  fix i assume "i < length (bytes_le n (word_le bs :: 'a word))"
  with assms have i: "i < length bs" by simp
  show "bytes_le n (word_le bs :: 'a word) ! i = bs ! i"
  proof (rule bit_word_eqI)
    fix k assume k: "k < LENGTH(8)"
    then have "8 * i + k < LENGTH('a)" using i assms by auto
    moreover have "(8 * i + k) div 8 = i" "(8 * i + k) mod 8 = k" using k by auto
    ultimately show "bit (bytes_le n (word_le bs :: 'a word) ! i) k = bit (bs ! i) k"
      using i k assms by (auto simp: bit_word_le bit_ucast_iff bit_drop_bit_eq)
  qed
qed (simp add: assms)

text \<open>Bytes written into a buffer.\<close>

definition put_bytes :: "nat \<Rightarrow> u8 list \<Rightarrow> u8 list \<Rightarrow> u8 list" where
  "put_bytes off bs buf = take off buf @ bs @ drop (off + length bs) buf"

lemma length_put_bytes [simp]: "off + length bs \<le> length buf \<Longrightarrow> length (put_bytes off bs buf) = length buf"
  by (simp add: put_bytes_def)

lemma nth_put_bytes:
  "off + length bs \<le> length buf \<Longrightarrow> k < length buf \<Longrightarrow>
     put_bytes off bs buf ! k = (if off \<le> k \<and> k < off + length bs then bs ! (k - off) else buf ! k)"
  by (auto simp: put_bytes_def nth_append)

lemma put_bytes_append:
  "off + length b1 + length b2 \<le> length buf \<Longrightarrow> n = length b1 \<Longrightarrow>
     put_bytes (off + n) b2 (put_bytes off b1 buf) = put_bytes off (b1 @ b2) buf"
  by (simp add: put_bytes_def ac_simps)

section \<open>The byte memory\<close>

text \<open>
  Loads and stores of an \<open>n\<close>-byte little-endian value at a 64-bit address. Addresses
  wrap around as pointers do.
\<close>

definition load :: "nat \<Rightarrow> mem \<Rightarrow> u64 \<Rightarrow> 'a::len word" where
  "load n m a = word_le (map (\<lambda>i. m (a + of_nat i)) [0..<n])"

definition store :: "nat \<Rightarrow> mem \<Rightarrow> u64 \<Rightarrow> 'a::len word \<Rightarrow> mem" where
  "store n m a w = (\<lambda>x. if unat (x - a) < n then ucast (drop_bit (8 * unat (x - a)) w) else m x)"

abbreviation load16 :: "mem \<Rightarrow> u64 \<Rightarrow> u16" where "load16 \<equiv> load 2"
abbreviation load32 :: "mem \<Rightarrow> u64 \<Rightarrow> u32" where "load32 \<equiv> load 4"
abbreviation load64 :: "mem \<Rightarrow> u64 \<Rightarrow> u64" where "load64 \<equiv> load 8"
abbreviation store16 :: "mem \<Rightarrow> u64 \<Rightarrow> u16 \<Rightarrow> mem" where "store16 \<equiv> store 2"
abbreviation store32 :: "mem \<Rightarrow> u64 \<Rightarrow> u32 \<Rightarrow> mem" where "store32 \<equiv> store 4"
abbreviation store64 :: "mem \<Rightarrow> u64 \<Rightarrow> u64 \<Rightarrow> mem" where "store64 \<equiv> store 8"

text \<open>\<open>in_range a n x\<close>: address \<open>x\<close> is one of the \<open>n\<close> bytes from \<open>a\<close> on.\<close>

definition in_range :: "u64 \<Rightarrow> nat \<Rightarrow> u64 \<Rightarrow> bool" where
  "in_range a n x \<longleftrightarrow> unat (x - a) < n"

lemma unat_bound_u64: "unat (x :: u64) < 2 ^ 64"
  using unsigned_less [where w = x and 'a = nat] by simp

lemma unat_of_nat_u64: "n < 2 ^ 64 \<Longrightarrow> unat (of_nat n :: u64) = n"
  by (simp add: unat_of_nat take_bit_nat_eq_self)

lemma unat_add_nat: "unat (a :: u64) + i < 2 ^ 64 \<Longrightarrow> unat (a + of_nat i) = unat a + i"
  by (simp add: unat_plus_if' unat_of_nat_u64)

lemma unat_add_u64: "unat (a :: u64) + unat b < 2 ^ 64 \<Longrightarrow> unat (a + b) = unat a + unat b"
  by (simp add: unat_plus_if')

lemma unat_offset_diff:
  "unat (a :: u64) + i < 2 ^ 64 \<Longrightarrow> unat (a + of_nat i - b)
     = (if unat b \<le> unat a + i then unat a + i - unat b else unat a + i + 2 ^ 64 - unat b)"
  using unat_add_nat [of a i] unat_bound_u64 [of b] by (simp add: unat_sub_if_size word_size)

lemma in_range_offset: "i < n \<Longrightarrow> n \<le> 2 ^ 64 \<Longrightarrow> in_range a n (a + of_nat i)"
  by (simp add: in_range_def unat_of_nat_u64)

lemma in_rangeE:
  assumes "in_range a n x"
  obtains i where "i < n" and "x = a + of_nat i"
proof
  show "unat (x - a) < n" using assms by (simp add: in_range_def)
  show "x = a + of_nat (unat (x - a))" by simp
qed

lemma in_range_0 [simp]: "\<not> in_range a 0 x"
  by (simp add: in_range_def)

lemma in_range_Suc:
  assumes "Suc n \<le> 2 ^ 64"
  shows "in_range a (Suc n) x \<longleftrightarrow> in_range a n x \<or> x = a + of_nat n"
proof -
  have "x = a + of_nat (unat (x - a))" by simp
  with assms show ?thesis
    by (auto simp: in_range_def less_Suc_eq unat_of_nat_u64)
qed

lemma store_outside [mem_simps]: "\<not> in_range a n x \<Longrightarrow> store n m a w x = m x"
  by (simp add: store_def in_range_def)

lemma load_cong:
  "(\<And>i. i < n \<Longrightarrow> m (a + of_nat i) = m' (a + of_nat i)) \<Longrightarrow> load n m a = load n m' a"
  unfolding load_def by (rule arg_cong [where f = word_le]) simp

lemma load_store_same:
  assumes "LENGTH('a::len) \<le> 8 * n" and "n \<le> 2 ^ 64"
  shows "load n (store n m a w) a = (w :: 'a word)"
proof -
  have "map (\<lambda>i. store n m a w (a + of_nat i)) [0..<n] = bytes_le n w"
    using assms(2) by (auto simp: bytes_le_def store_def unat_of_nat_u64)
  with assms(1) show ?thesis by (simp add: load_def word_le_bytes_le)
qed

lemma load64_store64 [simp, mem_simps]: "load64 (store64 m a v) a = v"
  and load32_store32 [simp, mem_simps]: "load32 (store32 m a w) a = w"
  and load16_store16 [simp, mem_simps]: "load16 (store16 m a h) a = h"
  by (simp_all add: load_store_same)

lemma store64_twice: "store64 (store64 m a v) a w = store64 m a w"
  by (simp add: store_def fun_eq_iff)

lemma store64_load64 [simp]: "store64 m a (load64 m a) = m"
proof
  fix x
  show "store64 m a (load64 m a) x = m x"
  proof (cases "unat (x - a) < 8")
    case True
    let ?bs = "map (\<lambda>i. m (a + of_nat i)) [0..<8]"
    have "x = a + of_nat (unat (x - a))" by simp
    have "bytes_le 8 (word_le ?bs :: u64) ! unat (x - a) = ?bs ! unat (x - a)"
      by (subst bytes_le_word_le) simp_all
    then have "ucast (drop_bit (8 * unat (x - a)) (word_le ?bs :: u64)) = m x"
      using True by (simp add: nth_bytes_le del: upt_rec_numeral)
    with True show ?thesis by (simp add: store_def load_def del: upt_rec_numeral)
  qed (simp add: store_def)
qed

text \<open>Two ranges with no byte in common.\<close>

definition disjoint_ranges :: "u64 \<Rightarrow> nat \<Rightarrow> u64 \<Rightarrow> nat \<Rightarrow> bool" where
  "disjoint_ranges a n b k \<longleftrightarrow> (\<forall>i<k. \<not> in_range a n (b + of_nat i))"

lemma load_store_disjoint:
  "disjoint_ranges a n b k \<Longrightarrow> load k (store n m a w) b = load k m b"
  by (rule load_cong) (simp add: disjoint_ranges_def store_outside)

lemma disjoint_ranges_elements:
  assumes "i \<noteq> j" and "n * (i + 1) \<le> 2 ^ 64" and "n * (j + 1) \<le> 2 ^ 64"
  shows "disjoint_ranges (b + of_nat (n * i)) n (b + of_nat (n * j)) n"
  unfolding disjoint_ranges_def in_range_def
proof (intro allI impI)
  fix k assume k: "k < n"
  have d: "(b + of_nat (n * j) + of_nat k) - (b + of_nat (n * i)) = of_nat (n * j + k) - (of_nat (n * i) :: u64)"
    by simp
  show "\<not> unat ((b + of_nat (n * j) + of_nat k) - (b + of_nat (n * i))) < n"
  proof (cases "i < j")
    case True
    then have "Suc i \<le> j" by simp
    then have le: "n * i + n \<le> n * j" by (metis mult_Suc_right add.commute mult_le_mono2)
    then have "of_nat (n * j + k) - (of_nat (n * i) :: u64) = of_nat (n * j + k - n * i)"
      by (simp add: of_nat_diff)
    moreover have "n * j + k - n * i < 2 ^ 64" using assms(3) k by (simp add: algebra_simps)
    ultimately have "unat (of_nat (n * j + k) - (of_nat (n * i) :: u64)) = n * j + k - n * i"
      by (simp add: unat_of_nat_u64 del: of_nat_diff)
    with le k show ?thesis unfolding d by simp
  next
    case False
    with assms(1) have "Suc j \<le> i" by simp
    then have le: "n * j + n \<le> n * i" by (metis mult_Suc_right add.commute mult_le_mono2)
    define x where "x = n * i - (n * j + k)"
    have x: "0 < x" "x + n \<le> 2 ^ 64" using le k assms(2) by (auto simp: x_def algebra_simps)
    have "n * i = n * j + k + x" using le k by (simp add: x_def)
    then have "of_nat (n * j + k) - (of_nat (n * i) :: u64) = - of_nat x" by simp
    also have "\<dots> = of_nat (2 ^ 64 - x)" using x by (simp add: of_nat_diff)
    finally have "unat (of_nat (n * j + k) - (of_nat (n * i) :: u64)) = 2 ^ 64 - x"
      using x by (simp add: unat_of_nat_u64 del: of_nat_diff)
    with x show ?thesis unfolding d by simp
  qed
qed

lemma disjoint_ranges_unat:
  assumes "unat a + n \<le> unat b \<or> unat b + k \<le> unat a" and "unat a + n \<le> 2 ^ 64" and "unat b + k \<le> 2 ^ 64"
  shows "disjoint_ranges a n b k"
  unfolding disjoint_ranges_def in_range_def
proof (intro allI impI)
  fix i assume i: "i < k"
  have "unat b + i < 2 ^ 64" using i assms(3) by linarith
  from unat_offset_diff [OF this, of a] i assms show "\<not> unat (b + of_nat i - a) < n"
    by (auto split: if_splits)
qed

lemma load_store_element:
  assumes "i \<noteq> j" and "n * (i + 1) \<le> 2 ^ 64" and "n * (j + 1) \<le> 2 ^ 64"
  shows "load n (store n m (b + of_nat (n * i)) w) (b + of_nat (n * j)) = load n m (b + of_nat (n * j))"
  using assms by (intro load_store_disjoint disjoint_ranges_elements)

text \<open>\<open>same_outside a n m m'\<close>: the two memories agree on all bytes but the \<open>n\<close> from \<open>a\<close> on.\<close>

definition same_outside :: "u64 \<Rightarrow> nat \<Rightarrow> mem \<Rightarrow> mem \<Rightarrow> bool" where
  "same_outside a n m m' \<longleftrightarrow> (\<forall>x. \<not> in_range a n x \<longrightarrow> m' x = m x)"

lemma same_outside_refl [simp]: "same_outside a n m m"
  by (simp add: same_outside_def)

lemma same_outside_trans: "same_outside a n m m1 \<Longrightarrow> same_outside a n m1 m2 \<Longrightarrow> same_outside a n m m2"
  by (simp add: same_outside_def)

lemma in_subrange:
  assumes "off + k \<le> n" and "n \<le> 2 ^ 64" and "in_range (a + of_nat off) k x"
  shows "in_range a n x"
proof -
  from assms(3) obtain i where i: "i < k" "x = a + of_nat off + of_nat i" by (rule in_rangeE)
  then have "x - a = of_nat (off + i)" by simp
  moreover have "unat (of_nat (off + i) :: u64) = off + i" using i(1) assms(1,2) by (intro unat_of_nat_u64) simp
  ultimately show ?thesis using i(1) assms(1) by (simp add: in_range_def)
qed


end
