(* ===== verification/CString.thy ===== *)
theory CString
  imports Prelude
begin

text \<open>
  The freestanding C library of src/libc: the block operations of src/libc/string and
  src/libc/strings on the byte memory, with their loops and return values as written.
  The loops with no bound (\<open>strlen\<close>, \<open>strcmp\<close>) are partial functions whose
  \<open>None\<close> is "does not return".
\<close>

section \<open>Operations\<close>

text \<open>The copy loops; each function also returns \<open>dst + sz\<close>.\<close>

definition copy_up :: "u64 \<Rightarrow> u64 \<Rightarrow> nat \<Rightarrow> mem \<Rightarrow> mem" where
  "copy_up dst src n m = for_n n (\<lambda>i m. m(dst + of_nat i := m (src + of_nat i))) m"

definition copy_down :: "u64 \<Rightarrow> u64 \<Rightarrow> nat \<Rightarrow> mem \<Rightarrow> mem" where
  "copy_down dst src n m =
     for_n n (\<lambda>i m. m(dst + of_nat (n - i - 1) := m (src + of_nat (n - i - 1)))) m"

definition memcpy :: "mem \<Rightarrow> u64 \<Rightarrow> u64 \<Rightarrow> u64 \<Rightarrow> mem \<times> u64" where
  "memcpy m dst src sz = (copy_up dst src (unat sz) m, dst + sz)"

definition memmove :: "mem \<Rightarrow> u64 \<Rightarrow> u64 \<Rightarrow> u64 \<Rightarrow> mem \<times> u64" where
  "memmove m dst src sz =
     (if dst < src \<or> src + sz \<le> dst
      then (copy_up dst src (unat sz) m, dst + sz)
      else (copy_down dst src (unat sz) m, dst + sz))"

definition memset :: "mem \<Rightarrow> u64 \<Rightarrow> u32 \<Rightarrow> u64 \<Rightarrow> mem \<times> u64" where
  "memset m dst c sz = (for_n (unat sz) (\<lambda>i m. m(dst + of_nat i := ucast c)) m, dst + sz)"

definition bzero :: "mem \<Rightarrow> u64 \<Rightarrow> u64 \<Rightarrow> mem" where
  "bzero m dst sz = fst (memset m dst 0 sz)"

fun memcmp_from :: "mem \<Rightarrow> u64 \<Rightarrow> u64 \<Rightarrow> nat \<Rightarrow> nat \<Rightarrow> int" where
  "memcmp_from m s1 s2 i 0 = 0"
| "memcmp_from m s1 s2 i (Suc k) =
     (let diff = uint (m (s2 + of_nat i)) - uint (m (s1 + of_nat i))
      in if diff \<noteq> 0 then diff else memcmp_from m s1 s2 (Suc i) k)"

definition memcmp :: "mem \<Rightarrow> u64 \<Rightarrow> u64 \<Rightarrow> u64 \<Rightarrow> int" where
  "memcmp m s1 s2 n = memcmp_from m s1 s2 0 (unat n)"

partial_function (option) strlen_from :: "mem \<Rightarrow> u64 \<Rightarrow> u64 \<Rightarrow> u64 option" where
  "strlen_from m str i = (if m (str + i) = 0 then Some i else strlen_from m str (i + 1))"

definition strlen :: "mem \<Rightarrow> u64 \<Rightarrow> u64 option" where
  "strlen m str = strlen_from m str 0"

text \<open>The loop of \<open>strcmp\<close> never advances its index.\<close>

partial_function (option) strcmp_at :: "mem \<Rightarrow> u64 \<Rightarrow> u64 \<Rightarrow> u64 \<Rightarrow> int option" where
  "strcmp_at m s1 s2 i =
     (let c1 = uint (m (s1 + i)); c2 = uint (m (s2 + i)); diff = c2 - c1
      in if diff \<noteq> 0 then Some diff
         else if c1 = 0 then Some 0
         else strcmp_at m s1 s2 i)"

definition strcmp :: "mem \<Rightarrow> u64 \<Rightarrow> u64 \<Rightarrow> int option" where
  "strcmp m s1 s2 = strcmp_at m s1 s2 0"

section \<open>Block copies\<close>

text \<open>The memory after \<open>n\<close> bytes from \<open>src\<close> in \<open>m\<close> were put at \<open>dst\<close>.\<close>

definition blit :: "u64 \<Rightarrow> u64 \<Rightarrow> nat \<Rightarrow> mem \<Rightarrow> mem" where
  "blit dst src n m = (\<lambda>x. if in_range dst n x then m (src + (x - dst)) else m x)"

definition fill :: "u64 \<Rightarrow> nat \<Rightarrow> u8 \<Rightarrow> mem \<Rightarrow> mem" where
  "fill dst n c m = (\<lambda>x. if in_range dst n x then c else m x)"

lemma copy_up_blit:
  assumes "n \<le> 2 ^ 64" and "\<And>i. i < n \<Longrightarrow> \<not> in_range dst i (src + of_nat i)"
  shows "copy_up dst src n m = blit dst src n m"
proof -
  have "copy_up dst src k m = blit dst src k m" if "k \<le> n" for k
    using that
  proof (induction k)
    case 0
    show ?case by (simp add: copy_up_def blit_def in_range_def)
  next
    case (Suc k)
    then have k: "Suc k \<le> 2 ^ 64" "\<not> in_range dst k (src + of_nat k)"
      using assms by auto
    have "copy_up dst src (Suc k) m
        = (blit dst src k m)(dst + of_nat k := blit dst src k m (src + of_nat k))"
      using Suc by (simp add: copy_up_def)
    also have "\<dots> = blit dst src (Suc k) m"
      using k by (auto simp: blit_def in_range_Suc fun_eq_iff)
    finally show ?case .
  qed
  then show ?thesis by simp
qed

lemma copy_down_blit:
  assumes "n \<le> 2 ^ 64"
    and "\<And>i j. i < j \<Longrightarrow> j < n \<Longrightarrow> src + of_nat i \<noteq> dst + of_nat j"
  shows "copy_down dst src n m = blit dst src n m"
proof -
  let ?f = "\<lambda>i m. m(dst + of_nat (n - i - 1) := m (src + of_nat (n - i - 1)))"
  have "for_n k ?f m = (\<lambda>x. if in_range dst n x \<and> n - k \<le> unat (x - dst)
      then m (src + (x - dst)) else m x)" if "k \<le> n" for k
    using that
  proof (induction k)
    case 0
    show ?case by (auto simp: in_range_def fun_eq_iff)
  next
    case (Suc k)
    then obtain j where n: "n = Suc (k + j)" by (metis add_Suc less_eq_Suc_le less_imp_Suc_add)
    then have nk: "n - k = Suc j" and nj: "n - k - 1 = j" "n - Suc k = j" by simp_all
    have far: "\<not> (in_range dst n (src + of_nat j) \<and> n - k \<le> unat (src + of_nat j - dst))"
    proof
      assume a: "in_range dst n (src + of_nat j) \<and> n - k \<le> unat (src + of_nat j - dst)"
      let ?u = "unat (src + of_nat j - dst)"
      have "src + of_nat j = dst + of_nat ?u" by simp
      moreover have "j < ?u" "?u < n" using a n by (auto simp: in_range_def)
      ultimately show False using assms(2) by blast
    qed
    have jj: "unat (of_nat j :: u64) = j"
      using n assms(1) by (intro unat_of_nat_u64) linarith
    have idx: "in_range dst n x \<and> j \<le> unat (x - dst)
        \<longleftrightarrow> in_range dst n x \<and> Suc j \<le> unat (x - dst) \<or> x = dst + of_nat j" for x
    proof -
      have "x = dst + of_nat (unat (x - dst))" by simp
      moreover have "j = unat (x - dst) \<Longrightarrow> in_range dst n x" using n by (simp add: in_range_def)
      ultimately show ?thesis using jj n by (auto simp: in_range_def le_less Suc_le_eq)
    qed
    have IH: "for_n k ?f m = (\<lambda>x. if in_range dst n x \<and> Suc j \<le> unat (x - dst)
        then m (src + (x - dst)) else m x)"
      using Suc.IH [OF Suc_leD [OF Suc.prems]] unfolding nk .
    have "for_n (Suc k) ?f m = (for_n k ?f m)(dst + of_nat j := for_n k ?f m (src + of_nat j))"
      by (simp only: for_n.simps nj)
    also have "\<dots> = (\<lambda>x. if in_range dst n x \<and> j \<le> unat (x - dst)
        then m (src + (x - dst)) else m x)"
      unfolding IH using far n idx by (auto simp: fun_eq_iff)
    finally show ?case by (simp only: nj)
  qed
  from this [of n] show ?thesis
    by (simp add: copy_down_def blit_def)
qed

lemma memset_eq: "fst (memset m dst c sz) = fill dst (unat sz) (ucast c) m"
proof -
  have "for_n k (\<lambda>i m. m(dst + of_nat i := ucast c)) m = fill dst k (ucast c) m" if "k \<le> 2 ^ 64" for k
    using that by (induction k) (auto simp: fill_def in_range_Suc fun_eq_iff)
  then show ?thesis using unat_bound_u64 [of sz] by (simp add: memset_def)
qed

lemma bzero_eq: "bzero m dst sz = fill dst (unat sz) 0 m"
  by (simp add: bzero_def memset_eq)

lemma blit_at: "i < n \<Longrightarrow> n \<le> 2 ^ 64 \<Longrightarrow> blit dst src n m (dst + of_nat i) = m (src + of_nat i)"
  by (simp add: blit_def in_range_offset)

lemma blit_outside [mem_simps]: "\<not> in_range dst n x \<Longrightarrow> blit dst src n m x = m x"
  by (simp add: blit_def)

lemma fill_at [mem_simps]: "in_range dst n x \<Longrightarrow> fill dst n c m x = c"
  and fill_outside [mem_simps]: "\<not> in_range dst n x \<Longrightarrow> fill dst n c m x = m x"
  by (simp_all add: fill_def)

lemma memcpy_blit:
  assumes "disjoint_ranges dst (unat sz) src (unat sz)"
  shows "memcpy m dst src sz = (blit dst src (unat sz) m, dst + sz)"
proof -
  have "copy_up dst src (unat sz) m = blit dst src (unat sz) m"
    using assms unat_bound_u64 [of sz]
    by (intro copy_up_blit) (auto simp: disjoint_ranges_def in_range_def)
  then show ?thesis by (simp add: memcpy_def)
qed

text \<open>memcpy copies the block and nothing else when the two blocks have no byte in common
  (what \<open>restrict\<close> promises), and returns one past the end of the destination.\<close>

theorem memcpy_copies:
  assumes "disjoint_ranges dst (unat sz) src (unat sz)"
  shows "(\<forall>i<unat sz. fst (memcpy m dst src sz) (dst + of_nat i) = m (src + of_nat i))
    \<and> (\<forall>x. \<not> in_range dst (unat sz) x \<longrightarrow> fst (memcpy m dst src sz) x = m x)
    \<and> snd (memcpy m dst src sz) = dst + sz"
  using unat_bound_u64 [of sz]
  by (simp add: memcpy_blit [OF assms] blit_at blit_outside)

lemma memcpy_copies_witness:
  "fst (memcpy (\<lambda>x. ucast x) 0x100 0x234 4) (0x100 + of_nat 2) = 0x36
   \<and> fst (memcpy (\<lambda>x. ucast x) 0x100 0x234 4) 0x104 = 0x04"
proof -
  have "disjoint_ranges 0x100 (unat (4::u64)) 0x234 (unat (4::u64))"
    by (simp add: disjoint_ranges_def in_range_def All_less_numeral)
  from memcpy_copies [OF this, of "\<lambda>x. ucast x"] show ?thesis
    by (simp add: in_range_def All_less_numeral)
qed

lemma memmove_blit:
  assumes d: "unat dst + unat sz \<le> 2 ^ 64" and s: "unat src + unat sz < 2 ^ 64"
  shows "memmove m dst src sz = (blit dst src (unat sz) m, dst + sz)"
proof (cases "dst < src \<or> src + sz \<le> dst")
  case True
  then have "unat dst < unat src \<or> unat src + unat sz \<le> unat dst"
    using s by (simp add: word_less_nat_alt word_le_nat_alt unat_add_u64)
  then have "\<not> in_range dst i (src + of_nat i)" if "i < unat sz" for i
    using s that unat_bound_u64 [of dst] by (auto simp: in_range_def unat_offset_diff)
  then have "copy_up dst src (unat sz) m = blit dst src (unat sz) m"
    using unat_bound_u64 [of sz] by (intro copy_up_blit) auto
  with True show ?thesis by (simp add: memmove_def)
next
  case False
  have "src + of_nat i \<noteq> dst + of_nat j" if "i < j" "j < unat sz" for i j
  proof
    assume "src + of_nat i = dst + of_nat j"
    then have "unat (src + of_nat i) = unat (dst + of_nat j)" by simp
    then show False
      using False that d s by (simp add: unat_add_nat word_less_nat_alt)
  qed
  then have "copy_down dst src (unat sz) m = blit dst src (unat sz) m"
    using unat_bound_u64 [of sz] by (intro copy_down_blit) auto
  with False show ?thesis by (simp add: memmove_def)
qed

text \<open>C26. memmove behaves as a copy through a temporary buffer, whatever the overlap: every
  destination byte gets the byte the source had before the call, and no other byte changes. The
  source block may not end at the top of the address space.\<close>

theorem memmove_copies:
  assumes "unat dst + unat sz \<le> 2 ^ 64" and "unat src + unat sz < 2 ^ 64"
  shows "(\<forall>i<unat sz. fst (memmove m dst src sz) (dst + of_nat i) = m (src + of_nat i))
    \<and> (\<forall>x. \<not> in_range dst (unat sz) x \<longrightarrow> fst (memmove m dst src sz) x = m x)"
  using unat_bound_u64 [of sz]
  by (simp add: memmove_blit [OF assms] blit_at blit_outside)

lemma memmove_copies_witness:
  "fst (memmove (\<lambda>x. ucast x) 0x102 0x100 4) (0x102 + of_nat 3) = 0x03
   \<and> fst (memmove (\<lambda>x. ucast x) 0x102 0x100 4) 0x106 = 0x06"
  using memmove_copies [of "0x102" 4 "0x100" "\<lambda>x. ucast x"]
  by (simp add: in_range_def All_less_numeral)

section \<open>Comparison and length\<close>

lemma memcmp_from_zero:
  "memcmp_from m s1 s2 i k = 0 \<longleftrightarrow> (\<forall>j. i \<le> j \<and> j < i + k \<longrightarrow> m (s1 + of_nat j) = m (s2 + of_nat j))"
proof (induction k arbitrary: i)
  case 0
  show ?case by auto
next
  case (Suc k)
  have "(\<forall>j. i \<le> j \<and> j < i + Suc k \<longrightarrow> P j) \<longleftrightarrow> P i \<and> (\<forall>j. Suc i \<le> j \<and> j < Suc i + k \<longrightarrow> P j)" for P
    by (metis Suc_le_eq add_Suc add_Suc_right le_eq_less_or_eq le_add1 less_add_Suc1 order_less_le_trans)
  then show ?case by (auto simp: Suc.IH Let_def word_uint_eq_iff)
qed

lemma memcmp_from_mismatch:
  assumes "\<And>j. i \<le> j \<Longrightarrow> j < p \<Longrightarrow> m (s1 + of_nat j) = m (s2 + of_nat j)"
    and "m (s1 + of_nat p) \<noteq> m (s2 + of_nat p)" and "i \<le> p" and "p < i + k"
  shows "memcmp_from m s1 s2 i k = uint (m (s2 + of_nat p)) - uint (m (s1 + of_nat p))"
  using assms
proof (induction k arbitrary: i)
  case (Suc k)
  show ?case
  proof (cases "i = p")
    case True
    with Suc.prems show ?thesis by (simp add: Let_def word_uint_eq_iff)
  next
    case False
    then have "m (s1 + of_nat i) = m (s2 + of_nat i)" using Suc.prems by simp
    moreover have "memcmp_from m s1 s2 (Suc i) k = uint (m (s2 + of_nat p)) - uint (m (s1 + of_nat p))"
      using False Suc.prems by (intro Suc.IH) auto
    ultimately show ?thesis by (simp add: Let_def)
  qed
qed simp

text \<open>memcmp returns 0 exactly when the blocks are equal, and otherwise the difference
  \<open>s2[p] - s1[p]\<close> at the first position \<open>p\<close> where they differ: the sign is the opposite of the one
  the C standard prescribes.\<close>

theorem memcmp_first_difference:
  "(memcmp m s1 s2 n = 0 \<longleftrightarrow> (\<forall>j<unat n. m (s1 + of_nat j) = m (s2 + of_nat j)))
   \<and> (\<forall>p<unat n. (\<forall>j<p. m (s1 + of_nat j) = m (s2 + of_nat j)) \<and> m (s1 + of_nat p) \<noteq> m (s2 + of_nat p)
        \<longrightarrow> memcmp m s1 s2 n = uint (m (s2 + of_nat p)) - uint (m (s1 + of_nat p)))"
  by (auto simp: memcmp_def memcmp_from_zero memcmp_from_mismatch)

lemma memcmp_first_difference_witness:
  "memcmp (\<lambda>x. if x = 0x12 then 7 else 1) 0x10 0x20 4 = - 6"
  using memcmp_first_difference [of "\<lambda>x. if x = 0x12 then 7 else 1" "0x10" "0x20" 4]
  by (simp add: All_less_numeral)

text \<open>A NUL-terminated string with the characters \<open>bs\<close> at address \<open>s\<close>.\<close>

definition cstr_at :: "mem \<Rightarrow> u64 \<Rightarrow> u8 list \<Rightarrow> bool" where
  "cstr_at m s bs \<longleftrightarrow> length bs < 2 ^ 64 \<and> 0 \<notin> set bs
     \<and> (\<forall>i<length bs. m (s + of_nat i) = bs ! i) \<and> m (s + of_nat (length bs)) = 0"

text \<open>strlen returns, and its result is the number of characters before the first NUL.\<close>

theorem strlen_cstr:
  assumes "cstr_at m s bs"
  shows "strlen m s = Some (of_nat (length bs))"
proof -
  have "strlen_from m s (of_nat (length bs - k)) = Some (of_nat (length bs))" if "k \<le> length bs" for k
    using that
  proof (induction k)
    case 0
    show ?case using assms by (subst strlen_from.simps) (simp add: cstr_at_def)
  next
    case (Suc k)
    let ?i = "length bs - Suc k"
    have i: "?i < length bs" "Suc ?i = length bs - k" using Suc.prems by auto
    then have "m (s + of_nat ?i) \<noteq> 0"
      using assms by (metis cstr_at_def nth_mem)
    moreover have "(of_nat ?i :: u64) + 1 = of_nat (length bs - k)"
      by (metis i(2) add.commute of_nat_Suc)
    ultimately show ?case
      using Suc by (subst strlen_from.simps) (simp del: of_nat_diff)
  qed
  from this [of "length bs"] show ?thesis by (simp add: strlen_def)
qed

lemma strlen_cstr_witness: "strlen (\<lambda>x. if x = 0x10 \<or> x = 0x11 then 0x41 else 0) 0x10 = Some 2"
proof -
  have "cstr_at (\<lambda>x. if x = 0x10 \<or> x = 0x11 then 0x41 else 0) 0x10 [0x41, 0x41]"
    by (simp add: cstr_at_def All_less_Suc2)
  from strlen_cstr [OF this] show ?thesis by simp
qed

lemma strcmp_at_stuck: "strcmp_at m s1 s2 i = Some r \<Longrightarrow> \<not> (m (s1 + i) = m (s2 + i) \<and> m (s1 + i) \<noteq> 0)"
proof (rule strcmp_at.raw_induct [where P = "\<lambda>m s1 s2 i r. \<not> (m (s1 + i) = m (s2 + i) \<and> m (s1 + i) \<noteq> 0)"])
  fix f :: "mem \<Rightarrow> u64 \<Rightarrow> u64 \<Rightarrow> u64 \<Rightarrow> int option" and m s1 s2 i r
  assume IH: "\<And>m s1 s2 i r. f m s1 s2 i = Some r \<Longrightarrow> \<not> (m (s1 + i) = m (s2 + i) \<and> m (s1 + i) \<noteq> 0)"
    and eq: "(let c1 = uint (m (s1 + i)); c2 = uint (m (s2 + i)); diff = c2 - c1
      in if diff \<noteq> 0 then Some diff else if c1 = 0 then Some 0 else f m s1 s2 i) = Some r"
  show "\<not> (m (s1 + i) = m (s2 + i) \<and> m (s1 + i) \<noteq> 0)"
    using eq IH [of m s1 s2 i r] by (auto simp: Let_def uint_0_iff split: if_splits)
qed

text \<open>strcmp returns exactly when the first characters differ or are both NUL; on two
  strings that start with the same character its loop never advances and does not return.\<close>

theorem strcmp_first_character:
  "strcmp m s1 s2 = (if m s1 \<noteq> m s2 then Some (uint (m s2) - uint (m s1))
     else if m s1 = 0 then Some 0 else None)"
proof (cases "m s1 = m s2 \<and> m s1 \<noteq> 0")
  case True
  then have "strcmp_at m s1 s2 0 \<noteq> Some r" for r
    using strcmp_at_stuck [of m s1 s2 0 r] by auto
  then have "strcmp_at m s1 s2 0 = None" by (cases "strcmp_at m s1 s2 0") auto
  with True show ?thesis by (auto simp: strcmp_def)
next
  case False
  then show ?thesis
  proof (cases "m s1 = m s2")
    case True
    with False show ?thesis
      by (subst strcmp_def, subst strcmp_at.simps) (simp add: Let_def)
  next
    case ne: False
    then have "uint (m s2) - uint (m s1) \<noteq> 0" by (simp add: word_uint_eq_iff)
    with ne show ?thesis
      by (subst strcmp_def, subst strcmp_at.simps) (simp add: Let_def)
  qed
qed

end
