(* ===== verification/PhysMem.thy ===== *)
theory PhysMem
  imports Prelude
begin

text \<open>
  The physical page allocator of src/kernel/mem/alloc_page.c: one bitmap per memory block
  and order (a set bit is a page in use), filled from the regions the bootloader found.
  Holds its state, its operations, the invariant that ties the bitmaps to the blocks, the
  abstraction to the set of free pages and the interface \<open>page_allocator\<close> the paging
  code relies on.
\<close>

section \<open>State\<close>

text \<open>\<open>BootMemRegion\<close> of src/libboot/libboot.h.\<close>

record BootMemRegion =
  r_base :: u64
  r_size :: u64

text \<open>
  \<open>PhysicalMemoryBlock\<close>: the address of each bitmap (as \<open>init_physical_memory\<close> got it) and
  its bytes. The bitmaps are private to this component, so their bytes are kept here and not
  in the byte memory.
\<close>

record PhysicalMemoryBlock =
  pb_base :: u64
  pb_npages :: u64
  pb_bitmap_ptr :: "u64 list"
  pb_bitmap :: "u8 list list"

record PhysicalMemoryAllocator =
  pm_blocks :: "PhysicalMemoryBlock list"
  pages_total :: u64
  pages_free :: u64

definition PAGESIZE :: u64 where "PAGESIZE = 4096"
definition PMB_COUNT :: nat where "PMB_COUNT = 16"
definition PMB_MAX_ORDER :: nat where "PMB_MAX_ORDER = 8"
definition BADPAGE :: u64 where "BADPAGE = 0xffffffffffffffff"

definition page_count :: "u64 \<Rightarrow> u64" where
  "page_count sz = (sz + PAGESIZE - 1) div PAGESIZE"

definition page_round :: "u64 \<Rightarrow> u64" where
  "page_round sz = page_count sz * PAGESIZE"

section \<open>Operations\<close>

text \<open>The test \<open>page >= base && page < base + npages * PAGESIZE\<close>.\<close>

definition in_block :: "PhysicalMemoryBlock \<Rightarrow> u64 \<Rightarrow> bool" where
  "in_block b page \<longleftrightarrow> pb_base b \<le> page \<and> page < pb_base b + pb_npages b * PAGESIZE"

text \<open>
  \<open>3 << (bitmap_off & ~1)\<close> shifts a 32-bit \<open>int\<close>; the processor takes the count modulo 32
  (the C standard leaves counts of 32 and more undefined, and no property below rests on it).
\<close>

definition buddy_mask :: "u64 \<Rightarrow> u32" where
  "buddy_mask off = push_bit (unat (off AND NOT 1) mod 32) 3"

definition clear_bit_at :: "u64 \<Rightarrow> u8 list \<Rightarrow> u8 list" where
  "clear_bit_at off bm =
     bm[unat (off div 8) := bm ! unat (off div 8) AND NOT (push_bit (unat (off mod 8)) 1)]"

definition set_bit_at :: "u64 \<Rightarrow> u8 list \<Rightarrow> u8 list" where
  "set_bit_at off bm =
     bm[unat (off div 8) := bm ! unat (off div 8) OR push_bit (unat (off mod 8)) 1]"

text \<open>The loop over the orders \<open>j\<close>, with \<open>k\<close> orders to go.\<close>

fun clear_orders :: "nat \<Rightarrow> nat \<Rightarrow> u64 \<Rightarrow> u8 list list \<Rightarrow> u8 list list" where
  "clear_orders 0 j off bms = bms"
| "clear_orders (Suc k) j off bms =
     (let bms' = bms[j := clear_bit_at off (bms ! j)]
      in if (ucast (bms' ! j ! unat (off div 8)) :: u32) AND buddy_mask off = 0
         then clear_orders k (Suc j) (off div 2) bms'
         else bms')"

fun set_orders :: "nat \<Rightarrow> nat \<Rightarrow> u64 \<Rightarrow> u8 list list \<Rightarrow> u8 list list" where
  "set_orders 0 j off bms = bms"
| "set_orders (Suc k) j off bms =
     (if bms ! j ! unat (off div 8) AND push_bit (unat (off mod 8)) 1 \<noteq> 0 then bms
      else set_orders k (Suc j) (off div 2) (bms[j := set_bit_at off (bms ! j)]))"

text \<open>The loops over the blocks: the first block that holds the page is updated.\<close>

fun upd_block_of :: "(u64 \<Rightarrow> u8 list list \<Rightarrow> u8 list list) \<Rightarrow> u64
    \<Rightarrow> PhysicalMemoryBlock list \<Rightarrow> PhysicalMemoryBlock list" where
  "upd_block_of f page [] = []"
| "upd_block_of f page (b # bs) =
     (if in_block b page
      then b\<lparr>pb_bitmap := f ((page - pb_base b) div PAGESIZE) (pb_bitmap b)\<rparr> # bs
      else b # upd_block_of f page bs)"

definition mark_page_free :: "u64 \<Rightarrow> PhysicalMemoryAllocator \<Rightarrow> PhysicalMemoryAllocator" where
  "mark_page_free page a =
     a\<lparr>pm_blocks := upd_block_of (clear_orders PMB_MAX_ORDER 0) page (pm_blocks a)\<rparr>"

definition mark_page_used :: "u64 \<Rightarrow> PhysicalMemoryAllocator \<Rightarrow> PhysicalMemoryAllocator" where
  "mark_page_used page a =
     a\<lparr>pm_blocks := upd_block_of (set_orders PMB_MAX_ORDER 0) page (pm_blocks a)\<rparr>"

text \<open>
  The bitmap read as an array of 64-bit words, and the first clear bit of its first \<open>k\<close>
  words from word \<open>j\<close> on.
\<close>

definition bitmap_word :: "u8 list \<Rightarrow> nat \<Rightarrow> u64" where
  "bitmap_word bm j = word_le (map (\<lambda>i. bm ! (8 * j + i)) [0..<8])"

fun scan_words :: "u8 list \<Rightarrow> nat \<Rightarrow> nat \<Rightarrow> nat option" where
  "scan_words bm j 0 = None"
| "scan_words bm j (Suc n) =
     (let tmp = bitmap_word bm j
      in if tmp \<noteq> 0xffffffffffffffff
         then (case find (\<lambda>k. tmp AND push_bit k 1 = 0) [0..<64] of
                 Some k \<Rightarrow> Some (j * 64 + k)
               | None \<Rightarrow> scan_words bm (Suc j) n)
         else scan_words bm (Suc j) n)"

text \<open>The loop over the blocks stops at the first block without pages.\<close>

fun scan_blocks :: "PhysicalMemoryBlock list \<Rightarrow> u64 option" where
  "scan_blocks [] = None"
| "scan_blocks (b # bs) =
     (if pb_npages b = 0 then None
      else case scan_words (pb_bitmap b ! 0) 0 (unat ((pb_npages b + 63) div 64)) of
             Some i \<Rightarrow> Some (pb_base b + of_nat i * PAGESIZE)
           | None \<Rightarrow> scan_blocks bs)"

definition alloc_phys_pages ::
  "int \<Rightarrow> PhysicalMemoryAllocator \<Rightarrow> u64 \<times> PhysicalMemoryAllocator" where
  "alloc_phys_pages npages a =
     (if npages \<noteq> 1 then (BADPAGE, a)
      else case scan_blocks (pm_blocks a) of
             None \<Rightarrow> (BADPAGE, a)
           | Some page \<Rightarrow>
               (page, (mark_page_used page a)\<lparr>pages_free := pages_free a - 1\<rparr>))"

definition alloc_phys :: "u64 \<Rightarrow> PhysicalMemoryAllocator \<Rightarrow> u64 \<times> PhysicalMemoryAllocator" where
  "alloc_phys sz a = alloc_phys_pages (c_int ((sz + PAGESIZE - 1) div PAGESIZE)) a"

definition free_phys_pages :: "u64 \<Rightarrow> u64 \<Rightarrow> PhysicalMemoryAllocator \<Rightarrow> PhysicalMemoryAllocator" where
  "free_phys_pages page npages a =
     (let a' = for_n (unat npages) (\<lambda>i. mark_page_free (page + of_nat i * PAGESIZE)) a
      in a'\<lparr>pages_free := pages_free a' + npages\<rparr>)"

definition free_phys :: "u64 \<Rightarrow> u64 \<Rightarrow> PhysicalMemoryAllocator \<Rightarrow> PhysicalMemoryAllocator" where
  "free_phys page sz = free_phys_pages page (page_count sz)"

text \<open>
  The early allocator (\<open>npages * PAGESIZE\<close> is computed in \<open>int\<close>) takes from the first of the first
  32 free regions that is large enough, and returns 0 when there is none; \<open>early_found\<close> says that
  the loop finds one.
\<close>

fun take_early :: "u64 \<Rightarrow> BootMemRegion list \<Rightarrow> u64 \<times> BootMemRegion list" where
  "take_early sz [] = (0, [])"
| "take_early sz (r # rs) =
     (if sz \<le> r_size r
      then (r_base r, r\<lparr>r_base := r_base r + sz, r_size := r_size r - sz\<rparr> # rs)
      else (let (p, rs') = take_early sz rs in (p, r # rs')))"

definition alloc_phys_early :: "int \<Rightarrow> BootMemRegion list \<Rightarrow> u64 \<times> BootMemRegion list" where
  "alloc_phys_early npages mem_free =
     (let (p, rs) = take_early (scast (word_of_int (npages * 4096) :: u32)) (take 32 mem_free)
      in (p, rs @ drop 32 mem_free))"

definition early_found :: "int \<Rightarrow> BootMemRegion list \<Rightarrow> bool" where
  "early_found npages mem_free \<longleftrightarrow>
     (\<exists>r \<in> set (take 32 mem_free). scast (word_of_int (npages * 4096) :: u32) \<le> r_size r)"

definition physical_to_virtual :: "u64 \<Rightarrow> u64" where
  "physical_to_virtual physical = 0xffff800000000000 OR physical"

text \<open>
  \<open>init_physical_memory\<close>: the eight bitmaps of a block, all bits set; one block per region of
  the memory map; then every page of the first 32 free regions is marked free. The address
  \<open>reg->base + j * PAGESIZE\<close> is computed with an \<open>unsigned int\<close> product.

  \<open>None\<close> is a run the model does not follow: the C code leaves the map or the array of blocks, or
  no free region is large enough for a bitmap. In the last case \<open>alloc_phys_early\<close> returns 0, which
  the code does not test: it puts the bitmap at physical address 0, over whatever is there (another
  bitmap that found no room, for one), where bitmaps kept as separate lists would not be the
  code's memory any more.
\<close>

fun init_bitmaps :: "nat \<Rightarrow> u64 \<Rightarrow> BootMemRegion list
    \<Rightarrow> (u64 list \<times> u8 list list \<times> BootMemRegion list) option" where
  "init_bitmaps 0 size_pages mem_free = Some ([], [], mem_free)"
| "init_bitmaps (Suc k) size_pages mem_free =
     (if \<not> early_found (c_int size_pages) mem_free then None
      else let (p, mf1) = alloc_phys_early (c_int size_pages) mem_free
           in case init_bitmaps k ((size_pages + 1) div 2) mf1 of
                None \<Rightarrow> None
              | Some (ps, bms, mf2) \<Rightarrow>
                  Some (physical_to_virtual p # ps,
                        replicate (unat (size_pages * PAGESIZE)) 0xff # bms, mf2))"

fun init_blocks :: "BootMemRegion list \<Rightarrow> PhysicalMemoryBlock list \<Rightarrow> u64 \<Rightarrow> BootMemRegion list
    \<Rightarrow> (PhysicalMemoryBlock list \<times> u64 \<times> BootMemRegion list) option" where
  "init_blocks [] bs tot mem_free = None"
| "init_blocks (r # rs) bs tot mem_free =
     (if r_size r = 0 then Some (bs, tot, mem_free)
      else case bs of
             [] \<Rightarrow> None
           | b # bs' \<Rightarrow>
               (let np = r_size r div PAGESIZE;
                    size_pages = (np + PAGESIZE * 8 - 1) div (PAGESIZE * 8)
                in case init_bitmaps PMB_MAX_ORDER size_pages mem_free of
                     None \<Rightarrow> None
                   | Some (ptrs, bms, mf1) \<Rightarrow>
                       (case init_blocks rs bs' (tot + np) mf1 of
                          None \<Rightarrow> None
                        | Some (bs'', tot', mf2) \<Rightarrow>
                            Some (\<lparr>pb_base = r_base r, pb_npages = np, pb_bitmap_ptr = ptrs,
                                   pb_bitmap = bms\<rparr> # bs'', tot', mf2))))"

definition free_region :: "BootMemRegion \<Rightarrow> PhysicalMemoryAllocator \<Rightarrow> PhysicalMemoryAllocator" where
  "free_region r a =
     for_n (unat (r_size r div PAGESIZE))
       (\<lambda>j a. (mark_page_free (r_base r + ucast (of_nat j * 4096 :: u32)) a)
                \<lparr>pages_free := pages_free a + 1\<rparr>) a"

definition init_physical_memory :: "BootMemRegion list \<Rightarrow> BootMemRegion list
    \<Rightarrow> PhysicalMemoryAllocator \<Rightarrow> (PhysicalMemoryAllocator \<times> BootMemRegion list) option" where
  "init_physical_memory mem_map mem_free a =
     (case init_blocks mem_map (pm_blocks a) (pages_total a) mem_free of
        None \<Rightarrow> None
      | Some (bs, tot, mf) \<Rightarrow>
          Some (fold free_region (take 32 mf) (a\<lparr>pm_blocks := bs, pages_total := tot\<rparr>), mf))"

section \<open>Abstraction and invariant\<close>

definition bm_bit :: "u8 list \<Rightarrow> nat \<Rightarrow> bool" where
  "bm_bit bm i = bit (bm ! (i div 8)) (i mod 8)"

definition page_at :: "PhysicalMemoryBlock \<Rightarrow> nat \<Rightarrow> u64" where
  "page_at b i = pb_base b + of_nat i * PAGESIZE"

definition block_pages :: "PhysicalMemoryBlock \<Rightarrow> u64 set" where
  "block_pages b = page_at b ` {..<unat (pb_npages b)}"

definition block_free :: "PhysicalMemoryBlock \<Rightarrow> u64 set" where
  "block_free b = page_at b ` {i. i < unat (pb_npages b) \<and> \<not> bm_bit (pb_bitmap b ! 0) i}"

definition all_pages :: "PhysicalMemoryAllocator \<Rightarrow> u64 set" where
  "all_pages a = (\<Union>b \<in> set (pm_blocks a). block_pages b)"

definition free_pages :: "PhysicalMemoryAllocator \<Rightarrow> u64 set" where
  "free_pages a = (\<Union>b \<in> set (pm_blocks a). block_free b)"

text \<open>
  A block is well formed when it does not wrap around the address space, has its eight
  bitmaps, each with room for the bits of its order, and the bits beyond its pages are set.
\<close>

definition block_ok :: "PhysicalMemoryBlock \<Rightarrow> bool" where
  "block_ok b \<longleftrightarrow>
     unat (pb_base b) + unat (pb_npages b) * 4096 < 2 ^ 64
   \<and> length (pb_bitmap b) = PMB_MAX_ORDER
   \<and> (\<forall>j<PMB_MAX_ORDER. unat (pb_npages b) \<le> 8 * 2 ^ j * length (pb_bitmap b ! j))
   \<and> 8 dvd length (pb_bitmap b ! 0)
   \<and> (\<forall>i. unat (pb_npages b) \<le> i \<and> i < 8 * length (pb_bitmap b ! 0) \<longrightarrow> bm_bit (pb_bitmap b ! 0) i)"

definition apart :: "PhysicalMemoryBlock \<Rightarrow> PhysicalMemoryBlock \<Rightarrow> bool" where
  "apart b c \<longleftrightarrow> (\<forall>x. \<not> (in_block b x \<and> in_block c x))"

text \<open>Blocks without pages come last, and there is one (the loop over the blocks stops there).\<close>

fun ends_empty :: "PhysicalMemoryBlock list \<Rightarrow> bool" where
  "ends_empty [] = False"
| "ends_empty (b # bs) =
     (if pb_npages b = 0 then (\<forall>c \<in> set bs. pb_npages c = 0) else ends_empty bs)"

definition blocks_ok :: "PhysicalMemoryBlock list \<Rightarrow> bool" where
  "blocks_ok bs \<longleftrightarrow>
     (\<forall>b \<in> set bs. pb_npages b \<noteq> 0 \<longrightarrow> block_ok b) \<and> sorted_wrt apart bs \<and> ends_empty bs"

definition pm_inv :: "PhysicalMemoryAllocator \<Rightarrow> bool" where
  "pm_inv a \<longleftrightarrow> blocks_ok (pm_blocks a)"

section \<open>Bits of a bitmap\<close>

lemma unat_div_8 [simp]: "unat (off div 8 :: u64) = unat off div 8"
  and unat_mod_8 [simp]: "unat (off mod 8 :: u64) = unat off mod 8"
  by (simp_all add: unat_div unat_mod)

lemma length_clear_bit_at [simp]: "length (clear_bit_at off bm) = length bm"
  and length_set_bit_at [simp]: "length (set_bit_at off bm) = length bm"
  by (simp_all add: clear_bit_at_def set_bit_at_def)

lemma nth_update_if: "k < length xs \<Longrightarrow> xs[j := x] ! k = (if j = k then x else xs ! k)"
  by (simp add: nth_list_update)

lemma bit_index_eq: "(i::nat) div 8 = k div 8 \<Longrightarrow> i mod 8 = k mod 8 \<Longrightarrow> i = k"
  by (metis mult_div_mod_eq)

lemma bm_bit_clear:
  assumes "i < 8 * length bm"
  shows "bm_bit (clear_bit_at off bm) i \<longleftrightarrow> i \<noteq> unat off \<and> bm_bit bm i"
proof -
  have "i div 8 < length bm" using assms by auto
  moreover have "i mod 8 < 8" by simp
  ultimately show ?thesis
    using bit_index_eq [of i "unat off"]
    by (auto simp: bm_bit_def clear_bit_at_def nth_update_if bit_and_iff bit_not_iff bit_exp_iff)
qed

lemma bm_bit_set:
  assumes "i < 8 * length bm"
  shows "bm_bit (set_bit_at off bm) i \<longleftrightarrow> i = unat off \<or> bm_bit bm i"
proof -
  have "i div 8 < length bm" using assms by auto
  moreover have "i mod 8 < 8" by simp
  ultimately show ?thesis
    using bit_index_eq [of i "unat off"]
    by (auto simp: bm_bit_def set_bit_at_def nth_update_if bit_or_iff bit_exp_iff)
qed

lemma and_exp_zero: "(w :: 'a::len word) AND 2 ^ k = 0 \<longleftrightarrow> \<not> (k < LENGTH('a) \<and> bit w k)"
proof
  assume "w AND 2 ^ k = 0"
  then have "\<not> bit (w AND 2 ^ k) k" by simp
  then show "\<not> (k < LENGTH('a) \<and> bit w k)"
    by (auto simp: bit_and_iff bit_exp_iff)
next
  assume "\<not> (k < LENGTH('a) \<and> bit w k)"
  then show "w AND 2 ^ k = 0"
    by (intro bit_word_eqI) (auto simp: bit_and_iff bit_exp_iff)
qed

lemma clear_orders_below: "i < j \<Longrightarrow> clear_orders k j off bms ! i = bms ! i"
  by (induction k j off bms rule: clear_orders.induct) (auto simp: Let_def)

lemma set_orders_below: "i < j \<Longrightarrow> set_orders k j off bms ! i = bms ! i"
  by (induction k j off bms rule: set_orders.induct) (auto simp: Let_def)

lemma length_clear_orders [simp]: "length (clear_orders k j off bms) = length bms"
  by (induction k j off bms rule: clear_orders.induct) (auto simp: Let_def)

lemma length_set_orders [simp]: "length (set_orders k j off bms) = length bms"
  by (induction k j off bms rule: set_orders.induct) (auto simp: Let_def)

lemma length_nth_update: "length (xs[j := x] ! i) = length (xs ! i)" if "length x = length (xs ! j)"
  using that by (cases "i = j"; cases "j < length xs") (auto simp: list_update_beyond)

lemma length_nth_clear_orders [simp]: "length (clear_orders k j off bms ! i) = length (bms ! i)"
  by (induction k j off bms rule: clear_orders.induct) (auto simp: Let_def length_nth_update)

lemma length_nth_set_orders [simp]: "length (set_orders k j off bms ! i) = length (bms ! i)"
  by (induction k j off bms rule: set_orders.induct) (auto simp: Let_def length_nth_update)

lemma clear_orders_0: "bms \<noteq> [] \<Longrightarrow> 0 < k \<Longrightarrow> clear_orders k 0 off bms ! 0 = clear_bit_at off (bms ! 0)"
  by (cases k) (auto simp: Let_def clear_orders_below)

lemma set_orders_0:
  assumes "bms \<noteq> []" and "0 < k" and "unat off < 8 * length (bms ! 0)" and "i < 8 * length (bms ! 0)"
  shows "bm_bit (set_orders k 0 off bms ! 0) i \<longleftrightarrow> i = unat off \<or> bm_bit (bms ! 0) i"
proof -
  have "bms ! 0 ! unat (off div 8) AND push_bit (unat (off mod 8)) 1 \<noteq> 0 \<longleftrightarrow> bm_bit (bms ! 0) (unat off)"
    by (simp add: and_exp_zero bm_bit_def)
  with assms show ?thesis
    by (cases k) (auto simp: set_orders_below bm_bit_set)
qed

section \<open>Blocks\<close>

lemma ok_npages_small: "block_ok b \<Longrightarrow> unat (pb_npages b) * 4096 < 2 ^ 64"
  by (simp add: block_ok_def)

lemma unat_npages_bytes: "block_ok b \<Longrightarrow> unat (pb_npages b * PAGESIZE) = unat (pb_npages b) * 4096"
  using ok_npages_small [of b] by (simp add: PAGESIZE_def unat_mult_lem [THEN iffD1])

lemma unat_page_at:
  assumes "block_ok b" and "i < unat (pb_npages b)"
  shows "unat (page_at b i) = unat (pb_base b) + i * 4096"
proof -
  have "unat (pb_base b) + i * 4096 < 2 ^ 64" using assms by (simp add: block_ok_def)
  then show ?thesis
    using unat_add_nat [of "pb_base b" "i * 4096"] by (simp add: page_at_def PAGESIZE_def)
qed

lemma in_block_iff:
  assumes "block_ok b"
  shows "in_block b x \<longleftrightarrow> unat (pb_base b) \<le> unat x \<and> unat x < unat (pb_base b) + unat (pb_npages b) * 4096"
proof -
  have "unat (pb_base b + pb_npages b * PAGESIZE) = unat (pb_base b) + unat (pb_npages b) * 4096"
    using assms by (subst unat_add_u64) (auto simp: unat_npages_bytes block_ok_def)
  then show ?thesis by (simp add: in_block_def word_le_nat_alt word_less_nat_alt)
qed

lemma page_at_in_block: "block_ok b \<Longrightarrow> i < unat (pb_npages b) \<Longrightarrow> in_block b (page_at b i)"
  by (simp add: in_block_iff unat_page_at)

lemma page_index:
  assumes "block_ok b" and "i < unat (pb_npages b)"
  shows "unat ((page_at b i - pb_base b) div PAGESIZE) = i"
proof -
  have "unat (page_at b i - pb_base b) = i * 4096"
    using unat_page_at [OF assms] by (subst unat_sub) (auto simp: word_le_nat_alt)
  then show ?thesis by (simp add: PAGESIZE_def unat_div)
qed

lemma page_at_inj:
  "block_ok b \<Longrightarrow> i < unat (pb_npages b) \<Longrightarrow> k < unat (pb_npages b) \<Longrightarrow> page_at b i = page_at b k \<longleftrightarrow> i = k"
  by (metis page_index)

lemma block_free_in_block: "block_ok b \<Longrightarrow> p \<in> block_free b \<Longrightarrow> in_block b p"
  and block_pages_in_block: "block_ok b \<Longrightarrow> p \<in> block_pages b \<Longrightarrow> in_block b p"
  by (auto simp: block_free_def block_pages_def page_at_in_block)

lemma not_in_empty_block: "pb_npages b = 0 \<Longrightarrow> \<not> in_block b x"
  by (auto simp: in_block_def)

lemma empty_block_free [simp]: "pb_npages b = 0 \<Longrightarrow> block_free b = {}"
  and empty_block_pages [simp]: "pb_npages b = 0 \<Longrightarrow> block_pages b = {}"
  by (auto simp: block_free_def block_pages_def)

lemma ok_level_0: "block_ok b \<Longrightarrow> unat (pb_npages b) \<le> 8 * length (pb_bitmap b ! 0)"
  unfolding block_ok_def by (elim conjE allE [where x = 0]) (simp add: PMB_MAX_ORDER_def)

lemma ok_bitmap_nonempty: "block_ok b \<Longrightarrow> pb_bitmap b \<noteq> []"
  by (auto simp: block_ok_def PMB_MAX_ORDER_def)

text \<open>What marking page \<open>i\<close> of a block does to the block.\<close>

definition freed_block :: "nat \<Rightarrow> PhysicalMemoryBlock \<Rightarrow> PhysicalMemoryBlock" where
  "freed_block i b = b\<lparr>pb_bitmap := clear_orders PMB_MAX_ORDER 0 (of_nat i) (pb_bitmap b)\<rparr>"

definition used_block :: "nat \<Rightarrow> PhysicalMemoryBlock \<Rightarrow> PhysicalMemoryBlock" where
  "used_block i b = b\<lparr>pb_bitmap := set_orders PMB_MAX_ORDER 0 (of_nat i) (pb_bitmap b)\<rparr>"

lemma marked_block_fields [simp]:
  "pb_base (freed_block i b) = pb_base b" "pb_npages (freed_block i b) = pb_npages b"
  "pb_base (used_block i b) = pb_base b" "pb_npages (used_block i b) = pb_npages b"
  by (simp_all add: freed_block_def used_block_def)

lemma marked_block_same [simp]:
  "in_block (freed_block i b) x = in_block b x" "in_block (used_block i b) x = in_block b x"
  "page_at (freed_block i b) = page_at b" "page_at (used_block i b) = page_at b"
  "block_pages (freed_block i b) = block_pages b" "block_pages (used_block i b) = block_pages b"
  by (simp_all add: in_block_def page_at_def fun_eq_iff block_pages_def)

lemma bit_freed_block:
  assumes "block_ok b" and "i < unat (pb_npages b)" and "k < 8 * length (pb_bitmap b ! 0)"
  shows "bm_bit (pb_bitmap (freed_block i b) ! 0) k \<longleftrightarrow> k \<noteq> i \<and> bm_bit (pb_bitmap b ! 0) k"
proof -
  have "unat (of_nat i :: u64) = i"
    using assms ok_npages_small [of b] by (intro unat_of_nat_u64) simp
  with assms ok_bitmap_nonempty show ?thesis
    by (simp add: freed_block_def clear_orders_0 bm_bit_clear PMB_MAX_ORDER_def)
qed

lemma bit_used_block:
  assumes "block_ok b" and "i < unat (pb_npages b)" and "k < 8 * length (pb_bitmap b ! 0)"
  shows "bm_bit (pb_bitmap (used_block i b) ! 0) k \<longleftrightarrow> k = i \<or> bm_bit (pb_bitmap b ! 0) k"
proof -
  have "unat (of_nat i :: u64) = i"
    using assms ok_npages_small [of b] by (intro unat_of_nat_u64) simp
  with assms ok_bitmap_nonempty ok_level_0 [of b] show ?thesis
    by (simp add: used_block_def set_orders_0 PMB_MAX_ORDER_def)
qed

lemma block_ok_freed: "block_ok b \<Longrightarrow> i < unat (pb_npages b) \<Longrightarrow> block_ok (freed_block i b)"
  using bit_freed_block [of b i]
  by (auto simp: block_ok_def freed_block_def)

lemma block_ok_used: "block_ok b \<Longrightarrow> i < unat (pb_npages b) \<Longrightarrow> block_ok (used_block i b)"
  using bit_used_block [of b i]
  by (auto simp: block_ok_def used_block_def)

lemma block_free_freed:
  assumes "block_ok b" and "i < unat (pb_npages b)"
  shows "block_free (freed_block i b) = insert (page_at b i) (block_free b)"
  using assms bit_freed_block [OF assms] ok_level_0 [OF assms(1)]
  by (auto simp: block_free_def)

lemma block_free_used:
  assumes "block_ok b" and "i < unat (pb_npages b)"
  shows "block_free (used_block i b) = block_free b - {page_at b i}"
  using assms bit_used_block [OF assms] ok_level_0 [OF assms(1)]
  by (auto simp: block_free_def page_at_inj)

section \<open>Lists of blocks\<close>

lemma upd_block_of_first:
  "(\<forall>c \<in> set cs. \<not> in_block c p) \<Longrightarrow> in_block b p \<Longrightarrow>
     upd_block_of f p (cs @ b # ds)
       = cs @ b\<lparr>pb_bitmap := f ((p - pb_base b) div PAGESIZE) (pb_bitmap b)\<rparr> # ds"
  by (induction cs) auto

lemma upd_block_of_none: "(\<forall>c \<in> set cs. \<not> in_block c p) \<Longrightarrow> upd_block_of f p cs = cs"
  by (induction cs) auto

lemma upd_block_of_page:
  assumes "\<forall>c \<in> set cs. \<not> in_block c (page_at b i)" and "block_ok b" and "i < unat (pb_npages b)"
  shows "upd_block_of (clear_orders PMB_MAX_ORDER 0) (page_at b i) (cs @ b # ds) = cs @ freed_block i b # ds"
    and "upd_block_of (set_orders PMB_MAX_ORDER 0) (page_at b i) (cs @ b # ds) = cs @ used_block i b # ds"
proof -
  have "(page_at b i - pb_base b) div PAGESIZE = of_nat i"
    using arg_cong [where f = "of_nat :: nat \<Rightarrow> u64", OF page_index [OF assms(2,3)]] by simp
  with upd_block_of_first [OF assms(1) page_at_in_block [OF assms(2,3)]]
  show "upd_block_of (clear_orders PMB_MAX_ORDER 0) (page_at b i) (cs @ b # ds) = cs @ freed_block i b # ds"
    and "upd_block_of (set_orders PMB_MAX_ORDER 0) (page_at b i) (cs @ b # ds) = cs @ used_block i b # ds"
    by (simp_all add: freed_block_def used_block_def)
qed

lemma ends_empty_replace:
  "pb_npages b = pb_npages c \<Longrightarrow> ends_empty (cs @ b # ds) = ends_empty (cs @ c # ds)"
  by (induction cs) auto

lemma sorted_wrt_replace:
  "(\<And>x. in_block b x = in_block c x) \<Longrightarrow>
     sorted_wrt apart (cs @ b # ds) = sorted_wrt apart (cs @ c # ds)"
  by (simp add: sorted_wrt_append apart_def)

lemma blocks_ok_replace:
  assumes "blocks_ok (cs @ b # ds)" and "block_ok c" and "pb_npages b = pb_npages c"
    and "\<And>x. in_block b x = in_block c x"
  shows "blocks_ok (cs @ c # ds)"
  using assms ends_empty_replace [of b c cs ds] sorted_wrt_replace [of b c cs ds]
  by (auto simp: blocks_ok_def)

lemma page_split:
  assumes "blocks_ok bs" and "p \<in> (\<Union>b \<in> set bs. block_pages b)"
  obtains cs b ds i where "bs = cs @ b # ds" and "block_ok b" and "i < unat (pb_npages b)"
    and "p = page_at b i" and "\<forall>c \<in> set cs \<union> set ds. \<not> in_block c p"
proof -
  from assms(2) obtain b i where b: "b \<in> set bs" "i < unat (pb_npages b)" "p = page_at b i"
    by (auto simp: block_pages_def)
  then obtain cs ds where bs: "bs = cs @ b # ds" by (meson split_list)
  have "pb_npages b \<noteq> 0" using b(2) by auto
  then have ok: "block_ok b" using assms(1) b(1) by (auto simp: blocks_ok_def)
  have "in_block b p" using ok b by (simp add: page_at_in_block)
  then have "\<forall>c \<in> set cs \<union> set ds. \<not> in_block c p"
    using assms(1) bs by (auto simp: blocks_ok_def sorted_wrt_append apart_def)
  with that bs ok b show thesis by blast
qed

lemma free_in_block: "blocks_ok bs \<Longrightarrow> c \<in> set bs \<Longrightarrow> p \<in> block_free c \<Longrightarrow> in_block c p"
  by (metis block_free_in_block blocks_ok_def empty_block_free empty_iff)

section \<open>Finding a free page\<close>

lemma bit_bitmap_word: "k < 64 \<Longrightarrow> bit (bitmap_word bm j) k \<longleftrightarrow> bm_bit bm (64 * j + k)"
proof -
  assume k: "k < 64"
  have eq: "64 * j + k = k + 8 * (8 * j)" by simp
  have "(64 * j + k) div 8 = 8 * j + k div 8" "(64 * j + k) mod 8 = k mod 8"
    unfolding eq by (subst div_mult_self2; simp) (rule mod_mult_self2)
  with k show ?thesis
    by (auto simp: bitmap_word_def bit_word_le bm_bit_def)
qed

lemma find_upt_Some: "find P [a..<b] = Some k \<longleftrightarrow> a \<le> k \<and> k < b \<and> P k \<and> (\<forall>i. a \<le> i \<and> i < k \<longrightarrow> \<not> P i)"
proof
  assume "find P [a..<b] = Some k"
  then obtain n where n: "n < length [a..<b]" "P ([a..<b] ! n)" "k = [a..<b] ! n"
      "\<forall>i<n. \<not> P ([a..<b] ! i)"
    unfolding find_Some_iff by blast
  have "\<not> P i" if "a \<le> i" "i < k" for i
    using n that by (auto dest!: spec [where x = "i - a"])
  with n show "a \<le> k \<and> k < b \<and> P k \<and> (\<forall>i. a \<le> i \<and> i < k \<longrightarrow> \<not> P i)" by auto
next
  assume "a \<le> k \<and> k < b \<and> P k \<and> (\<forall>i. a \<le> i \<and> i < k \<longrightarrow> \<not> P i)"
  then show "find P [a..<b] = Some k"
    unfolding find_Some_iff by (intro exI [where x = "k - a"]) auto
qed

lemma scan_words_Some:
  "scan_words bm j n = Some i \<Longrightarrow>
     64 * j \<le> i \<and> i < 64 * (j + n) \<and> \<not> bm_bit bm i \<and> (\<forall>k. 64 * j \<le> k \<and> k < i \<longrightarrow> bm_bit bm k)"
proof (induction bm j n rule: scan_words.induct)
  case (1 bm j)
  then show ?case by simp
next
  case (2 bm j n)
  let ?w = "bitmap_word bm j"
  show ?case
  proof (cases "find (\<lambda>k. ?w AND push_bit k 1 = 0) [0..<64]")
    case None
    then have full: "bit ?w k" if "k < 64" for k
      using that by (auto simp: find_None_iff and_exp_zero)
    have below: "bm_bit bm k" if "64 * j \<le> k" "k < 64 * Suc j" for k
      using full [of "k - 64 * j"] that by (auto simp: bit_bitmap_word)
    from None "2.prems" have "scan_words bm (Suc j) n = Some i"
      by (auto simp: Let_def split: if_splits)
    with "2.IH" None have "64 * Suc j \<le> i \<and> i < 64 * (Suc j + n) \<and> \<not> bm_bit bm i
        \<and> (\<forall>k. 64 * Suc j \<le> k \<and> k < i \<longrightarrow> bm_bit bm k)"
      by blast
    with below show ?thesis by (auto simp: not_less [symmetric])
  next
    case (Some k)
    then have k: "k < 64" "\<not> bit ?w k" "\<forall>i<k. bit ?w i"
      by (auto simp: find_upt_Some and_exp_zero)
    have ne: "?w \<noteq> 0xffffffffffffffff"
    proof
      assume "?w = 0xffffffffffffffff"
      then have "?w = - 1" by simp
      with k show False by simp
    qed
    with Some "2.prems" have i: "i = j * 64 + k" by (simp add: Let_def)
    have "bm_bit bm l" if "64 * j \<le> l" "l < i" for l
      using k i that bit_bitmap_word [of "l - 64 * j" bm j] by auto
    then show ?thesis using k i bit_bitmap_word [of k bm j] by (auto simp: algebra_simps)
  qed
qed

lemma scan_words_None:
  "scan_words bm j n = None \<Longrightarrow> 64 * j \<le> i \<Longrightarrow> i < 64 * (j + n) \<Longrightarrow> bm_bit bm i"
proof (induction bm j n rule: scan_words.induct)
  case (1 bm j)
  then show ?case by simp
next
  case (2 bm j n)
  let ?w = "bitmap_word bm j"
  have rest: "scan_words bm (Suc j) n = None"
    using "2.prems" by (auto simp: Let_def split: if_splits option.splits)
  have full: "bit ?w k" if "k < 64" for k
  proof (cases "?w = 0xffffffffffffffff")
    case True
    then have "?w = - 1" by simp
    then show ?thesis using that by simp
  next
    case False
    then have "find (\<lambda>k. ?w AND push_bit k 1 = 0) [0..<64] = None"
      using "2.prems" by (auto simp: Let_def split: option.splits)
    then show ?thesis using that by (auto simp: find_None_iff and_exp_zero)
  qed
  show ?case
  proof (cases "i < 64 * Suc j")
    case True
    then show ?thesis using full [of "i - 64 * j"] "2.prems" by (auto simp: bit_bitmap_word)
  next
    case False
    then have "64 * Suc j \<le> i" "i < 64 * (Suc j + n)" using "2.prems" by auto
    moreover have "find (\<lambda>k. ?w AND push_bit k 1 = 0) [0..<64] = None" if "?w \<noteq> 0xffffffffffffffff"
      using full by (auto simp: find_None_iff and_exp_zero)
    ultimately show ?thesis
      using "2.IH" rest by (cases "?w = 0xffffffffffffffff") auto
  qed
qed

lemma words_of_block:
  assumes "block_ok b"
  shows "unat ((pb_npages b + 63) div 64) = (unat (pb_npages b) + 63) div 64"
    and "unat (pb_npages b) \<le> 64 * ((unat (pb_npages b) + 63) div 64)"
    and "64 * ((unat (pb_npages b) + 63) div 64) \<le> 8 * length (pb_bitmap b ! 0)"
proof -
  have "unat (pb_npages b + 63) = unat (pb_npages b) + 63"
    using ok_npages_small [OF assms] by (subst unat_add_u64) auto
  then show "unat ((pb_npages b + 63) div 64) = (unat (pb_npages b) + 63) div 64"
    by (simp add: unat_div)
  show "unat (pb_npages b) \<le> 64 * ((unat (pb_npages b) + 63) div 64)" by linarith
  obtain m where "length (pb_bitmap b ! 0) = 8 * m" using assms by (auto simp: block_ok_def)
  with ok_level_0 [OF assms] show "64 * ((unat (pb_npages b) + 63) div 64) \<le> 8 * length (pb_bitmap b ! 0)"
    by simp
qed

lemma scan_block_Some:
  assumes "block_ok b"
    and "scan_words (pb_bitmap b ! 0) 0 (unat ((pb_npages b + 63) div 64)) = Some i"
  shows "i < unat (pb_npages b)" and "page_at b i \<in> block_free b"
    and "\<forall>k<i. bm_bit (pb_bitmap b ! 0) k"
proof -
  have i: "i < 8 * length (pb_bitmap b ! 0)" "\<not> bm_bit (pb_bitmap b ! 0) i"
      "\<forall>k<i. bm_bit (pb_bitmap b ! 0) k"
    using scan_words_Some [OF assms(2)] words_of_block [OF assms(1)] by auto
  then show "i < unat (pb_npages b)" using assms(1) by (auto simp: block_ok_def not_less [symmetric])
  then show "page_at b i \<in> block_free b" using i by (auto simp: block_free_def)
  show "\<forall>k<i. bm_bit (pb_bitmap b ! 0) k" by (fact i(3))
qed

lemma scan_block_None:
  assumes "block_ok b"
    and "scan_words (pb_bitmap b ! 0) 0 (unat ((pb_npages b + 63) div 64)) = None"
  shows "block_free b = {}"
  using scan_words_None [OF assms(2)] words_of_block [OF assms(1)]
  by (force simp: block_free_def)

lemma blocks_ok_tail: "blocks_ok (b # bs) \<Longrightarrow> pb_npages b \<noteq> 0 \<Longrightarrow> block_ok b \<and> blocks_ok bs"
  by (simp add: blocks_ok_def)

lemma scan_blocks_Some: "blocks_ok bs \<Longrightarrow> scan_blocks bs = Some p \<Longrightarrow> p \<in> (\<Union>b \<in> set bs. block_free b)"
proof (induction bs)
  case (Cons b bs)
  show ?case
  proof (cases "pb_npages b = 0")
    case False
    with Cons.prems have ok: "block_ok b" "blocks_ok bs" by (auto dest: blocks_ok_tail)
    show ?thesis
    proof (cases "scan_words (pb_bitmap b ! 0) 0 (unat ((pb_npages b + 63) div 64))")
      case None
      with Cons False ok show ?thesis by simp
    next
      case (Some i)
      with Cons.prems False have "p = page_at b i" by (simp add: page_at_def)
      with scan_block_Some(2) [OF ok(1) Some] show ?thesis by simp
    qed
  qed (use Cons in simp)
qed simp

lemma scan_blocks_None: "blocks_ok bs \<Longrightarrow> scan_blocks bs = None \<Longrightarrow> (\<Union>b \<in> set bs. block_free b) = {}"
proof (induction bs)
  case (Cons b bs)
  show ?case
  proof (cases "pb_npages b = 0")
    case True
    with Cons.prems show ?thesis by (auto simp: blocks_ok_def)
  next
    case False
    with Cons.prems have ok: "block_ok b" "blocks_ok bs" by (auto dest: blocks_ok_tail)
    show ?thesis
    proof (cases "scan_words (pb_bitmap b ! 0) 0 (unat ((pb_npages b + 63) div 64))")
      case None
      with Cons False ok scan_block_None [OF ok(1) None] show ?thesis by simp
    next
      case (Some i)
      with Cons.prems False show ?thesis by simp
    qed
  qed
qed simp

section \<open>The operations on the set of free pages\<close>

lemma free_subset_all: "free_pages a \<subseteq> all_pages a"
  by (auto simp: free_pages_def all_pages_def block_free_def block_pages_def)

lemma mark_page_free_spec:
  assumes "pm_inv a" and "p \<in> all_pages a"
  shows "pm_inv (mark_page_free p a)" and "free_pages (mark_page_free p a) = insert p (free_pages a)"
    and "all_pages (mark_page_free p a) = all_pages a"
proof -
  obtain cs b ds i where bs: "pm_blocks a = cs @ b # ds" "block_ok b" "i < unat (pb_npages b)"
      "p = page_at b i" "\<forall>c \<in> set cs \<union> set ds. \<not> in_block c p"
    using assms page_split unfolding pm_inv_def all_pages_def by metis
  have m: "pm_blocks (mark_page_free p a) = cs @ freed_block i b # ds"
    using bs by (simp add: mark_page_free_def upd_block_of_page)
  show "pm_inv (mark_page_free p a)"
    using assms(1) bs unfolding pm_inv_def m
    by (auto intro: blocks_ok_replace block_ok_freed)
  show "free_pages (mark_page_free p a) = insert p (free_pages a)"
    using bs(2-4) unfolding free_pages_def m bs(1) by (auto simp: block_free_freed)
  show "all_pages (mark_page_free p a) = all_pages a"
    unfolding all_pages_def m bs(1) by simp
qed

lemma mark_page_used_spec:
  assumes "pm_inv a" and "p \<in> all_pages a"
  shows "pm_inv (mark_page_used p a)" and "free_pages (mark_page_used p a) = free_pages a - {p}"
    and "all_pages (mark_page_used p a) = all_pages a"
proof -
  obtain cs b ds i where bs: "pm_blocks a = cs @ b # ds" "block_ok b" "i < unat (pb_npages b)"
      "p = page_at b i" "\<forall>c \<in> set cs \<union> set ds. \<not> in_block c p"
    using assms page_split unfolding pm_inv_def all_pages_def by metis
  have m: "pm_blocks (mark_page_used p a) = cs @ used_block i b # ds"
    using bs by (simp add: mark_page_used_def upd_block_of_page)
  show "pm_inv (mark_page_used p a)"
    using assms(1) bs unfolding pm_inv_def m
    by (auto intro: blocks_ok_replace block_ok_used)
  have "p \<notin> block_free c" if "c \<in> set cs \<union> set ds" for c
  proof
    assume "p \<in> block_free c"
    then have "in_block c p"
      using assms(1) that bs by (intro free_in_block [where bs = "pm_blocks a"]) (auto simp: pm_inv_def)
    with bs(5) that show False by blast
  qed
  then show "free_pages (mark_page_used p a) = free_pages a - {p}"
    using bs(2-4) unfolding free_pages_def m bs(1) by (auto simp: block_free_used)
  show "all_pages (mark_page_used p a) = all_pages a"
    unfolding all_pages_def m bs(1) by simp
qed

lemma pm_inv_counters [simp]:
  "pm_inv (a\<lparr>pages_free := n\<rparr>) = pm_inv a" "pm_inv (a\<lparr>pages_total := n\<rparr>) = pm_inv a"
  "free_pages (a\<lparr>pages_free := n\<rparr>) = free_pages a"
  "all_pages (a\<lparr>pages_free := n\<rparr>) = all_pages a"
  by (simp_all add: pm_inv_def free_pages_def all_pages_def)

lemma BADPAGE_not_page: "pm_inv a \<Longrightarrow> BADPAGE \<notin> all_pages a"
proof
  assume inv: "pm_inv a" and "BADPAGE \<in> all_pages a"
  then obtain b i where b: "block_ok b" "i < unat (pb_npages b)" "page_at b i = BADPAGE"
    using page_split unfolding pm_inv_def all_pages_def by metis
  then have "unat BADPAGE = unat (pb_base b) + i * 4096" by (metis unat_page_at)
  moreover have "unat BADPAGE = 2 ^ 64 - 1" by (simp add: BADPAGE_def)
  ultimately show False using b by (simp add: block_ok_def)
qed

lemma alloc_phys_pages_empty:
  assumes "pm_inv a" and "free_pages a = {}"
  shows "alloc_phys_pages 1 a = (BADPAGE, a)"
proof -
  have "scan_blocks (pm_blocks a) = None"
    using assms scan_blocks_Some [of "pm_blocks a"]
    by (cases "scan_blocks (pm_blocks a)") (auto simp: pm_inv_def free_pages_def)
  then show ?thesis by (simp add: alloc_phys_pages_def)
qed

lemma alloc_phys_pages_some:
  assumes "pm_inv a" and "free_pages a \<noteq> {}" and "alloc_phys_pages 1 a = (p, a')"
  shows "p \<in> free_pages a" and "free_pages a' = free_pages a - {p}" and "pm_inv a'"
    and "all_pages a' = all_pages a" and "pages_free a' = pages_free a - 1"
proof -
  obtain q where q: "scan_blocks (pm_blocks a) = Some q"
    using assms scan_blocks_None [of "pm_blocks a"]
    by (cases "scan_blocks (pm_blocks a)") (auto simp: pm_inv_def free_pages_def)
  then have free: "q \<in> free_pages a"
    using assms(1) scan_blocks_Some [of "pm_blocks a" q] by (simp add: pm_inv_def free_pages_def)
  have eq: "p = q" "a' = (mark_page_used q a)\<lparr>pages_free := pages_free a - 1\<rparr>"
    using assms(3) q by (auto simp: alloc_phys_pages_def)
  note used = mark_page_used_spec [OF assms(1), of q]
  have "q \<in> all_pages a" using free free_subset_all by blast
  with used free show "p \<in> free_pages a" "free_pages a' = free_pages a - {p}" "pm_inv a'"
      "all_pages a' = all_pages a" "pages_free a' = pages_free a - 1"
    unfolding eq by simp_all
qed

lemma free_phys_pages_1:
  "free_phys_pages p 1 a = (mark_page_free p a)\<lparr>pages_free := pages_free (mark_page_free p a) + 1\<rparr>"
  by (simp add: free_phys_pages_def Let_def)

section \<open>The allocator as an interface\<close>

text \<open>
  What the clients of the page allocator rely on: \<open>avail\<close> is the set of pages that can be
  allocated, \<open>owned\<close> the pages it manages.
\<close>

locale page_allocator =
  fixes alloc :: "'s \<Rightarrow> 'p \<times> 's" and release :: "'p \<Rightarrow> 's \<Rightarrow> 's"
    and avail owned :: "'s \<Rightarrow> 'p set" and invar :: "'s \<Rightarrow> bool" and bad :: 'p
  assumes alloc_fails: "invar s \<Longrightarrow> avail s = {} \<Longrightarrow> alloc s = (bad, s)"
    and alloc_page: "invar s \<Longrightarrow> avail s \<noteq> {} \<Longrightarrow> fst (alloc s) \<in> avail s"
    and alloc_avail: "invar s \<Longrightarrow> avail s \<noteq> {} \<Longrightarrow> avail (snd (alloc s)) = avail s - {fst (alloc s)}"
    and alloc_invar: "invar s \<Longrightarrow> invar (snd (alloc s))"
    and alloc_owned: "invar s \<Longrightarrow> owned (snd (alloc s)) = owned s"
    and release_avail: "invar s \<Longrightarrow> p \<in> owned s \<Longrightarrow> avail (release p s) = insert p (avail s)"
    and release_invar: "invar s \<Longrightarrow> p \<in> owned s \<Longrightarrow> invar (release p s)"
    and release_owned: "invar s \<Longrightarrow> p \<in> owned s \<Longrightarrow> owned (release p s) = owned s"
    and avail_owned: "invar s \<Longrightarrow> avail s \<subseteq> owned s"
    and bad_not_owned: "invar s \<Longrightarrow> bad \<notin> owned s"

text \<open>\<open>n\<close> allocations in a row: the pages, first one first, and the state after them.\<close>

primrec alloc_run :: "('s \<Rightarrow> 'p \<times> 's) \<Rightarrow> nat \<Rightarrow> 's \<Rightarrow> 'p list \<times> 's" where
  "alloc_run alloc 0 s = ([], s)"
| "alloc_run alloc (Suc n) s =
     (let (p, s1) = alloc s; (ps, s2) = alloc_run alloc n s1 in (p # ps, s2))"

context page_allocator
begin

lemma alloc_then_release:
  assumes "invar s" and "avail s \<noteq> {}"
  shows "avail (release (fst (alloc s)) (snd (alloc s))) = avail s"
    and "invar (release (fst (alloc s)) (snd (alloc s)))"
proof -
  have "fst (alloc s) \<in> owned (snd (alloc s))"
    using assms alloc_page alloc_owned avail_owned by blast
  moreover have "invar (snd (alloc s))" using assms by (simp add: alloc_invar)
  ultimately show "avail (release (fst (alloc s)) (snd (alloc s))) = avail s"
    and "invar (release (fst (alloc s)) (snd (alloc s)))"
    using assms alloc_page [OF assms] by (auto simp: release_avail alloc_avail release_invar)
qed

lemma alloc_run_pages:
  assumes "invar s" and "finite (avail s)" and "n \<le> card (avail s)" and "alloc_run alloc n s = (ps, s')"
  shows "distinct ps \<and> length ps = n \<and> set ps \<subseteq> avail s \<and> avail s' = avail s - set ps \<and> invar s'"
  using assms
proof (induction n arbitrary: s ps s')
  case (Suc n)
  obtain p s1 where a: "alloc s = (p, s1)" by force
  obtain qs where r: "alloc_run alloc n s1 = (qs, s')" "ps = p # qs"
    using Suc.prems(4) a by (auto split: prod.splits)
  have ne: "avail s \<noteq> {}" using Suc.prems by auto
  have s1: "p \<in> avail s" "avail s1 = avail s - {p}" "invar s1"
    using alloc_page [OF Suc.prems(1) ne] alloc_avail [OF Suc.prems(1) ne] alloc_invar [OF Suc.prems(1)] a
    by simp_all
  have "n \<le> card (avail s1)" using Suc.prems s1 by simp
  with Suc.IH [OF s1(3) _ _ r(1)] Suc.prems(2) s1
  have "distinct qs \<and> length qs = n \<and> set qs \<subseteq> avail s1 \<and> avail s' = avail s1 - set qs \<and> invar s'" by simp
  with r s1 show ?case by auto
qed simp

lemma alloc_run_exhausts:
  assumes "invar s" and "finite (avail s)" and "card (avail s) = n" and "alloc_run alloc (Suc n) s = (ps, s')"
  shows "last ps = bad \<and> bad \<notin> set (butlast ps)"
  using assms
proof (induction n arbitrary: s ps s')
  case 0
  then have "alloc s = (bad, s)" by (simp add: alloc_fails)
  with 0 show ?case by auto
next
  case (Suc n)
  obtain p s1 where a: "alloc s = (p, s1)" by force
  obtain qs where r: "alloc_run alloc (Suc n) s1 = (qs, s')" "ps = p # qs"
    using Suc.prems(4) a by (auto split: prod.splits)
  have ne: "avail s \<noteq> {}" using Suc.prems by auto
  have s1: "p \<in> avail s" "avail s1 = avail s - {p}" "invar s1"
    using alloc_page [OF Suc.prems(1) ne] alloc_avail [OF Suc.prems(1) ne] alloc_invar [OF Suc.prems(1)] a
    by simp_all
  have "last qs = bad \<and> bad \<notin> set (butlast qs)"
    using Suc.IH [OF s1(3) _ _ r(1)] Suc.prems(2,3) s1 by simp
  moreover have "p \<noteq> bad" using s1(1) Suc.prems(1) avail_owned bad_not_owned by blast
  moreover have "qs \<noteq> []" using r(1) by (auto split: prod.splits)
  ultimately show ?case using r(2) by auto
qed

end

interpretation phys: page_allocator "alloc_phys_pages 1" "\<lambda>p. free_phys_pages p 1" free_pages all_pages pm_inv BADPAGE
proof unfold_locales
  fix a :: PhysicalMemoryAllocator
  assume inv: "pm_inv a"
  obtain p a' where r: "alloc_phys_pages 1 a = (p, a')" by force
  show "free_pages a = {} \<Longrightarrow> alloc_phys_pages 1 a = (BADPAGE, a)"
    using inv by (rule alloc_phys_pages_empty)
  show "free_pages a \<noteq> {} \<Longrightarrow> fst (alloc_phys_pages 1 a) \<in> free_pages a"
    and "free_pages a \<noteq> {} \<Longrightarrow> free_pages (snd (alloc_phys_pages 1 a)) = free_pages a - {fst (alloc_phys_pages 1 a)}"
    using alloc_phys_pages_some [OF inv _ r] r by simp_all
  show "pm_inv (snd (alloc_phys_pages 1 a))" "all_pages (snd (alloc_phys_pages 1 a)) = all_pages a"
    using alloc_phys_pages_some [OF inv _ r] alloc_phys_pages_empty [OF inv] inv r
    by (cases "free_pages a = {}"; simp)+
  show "free_pages a \<subseteq> all_pages a" by (rule free_subset_all)
  show "BADPAGE \<notin> all_pages a" using inv by (rule BADPAGE_not_page)
  fix p assume "p \<in> all_pages a"
  with inv show "free_pages (free_phys_pages p 1 a) = insert p (free_pages a)"
    "pm_inv (free_phys_pages p 1 a)" "all_pages (free_phys_pages p 1 a) = all_pages a"
    by (simp_all add: free_phys_pages_1 mark_page_free_spec)
qed

lemma finite_free_pages: "finite (free_pages a)"
  by (simp add: free_pages_def block_free_def)

text \<open>A small allocator for the examples: one block of two pages, both free.\<close>

definition sample_block :: PhysicalMemoryBlock where
  "sample_block = \<lparr>pb_base = 0x1000000, pb_npages = 2, pb_bitmap_ptr = [],
     pb_bitmap = replicate 8 [0xfc, 0xff, 0xff, 0xff, 0xff, 0xff, 0xff, 0xff]\<rparr>"

definition sample_allocator :: PhysicalMemoryAllocator where
  "sample_allocator = \<lparr>pm_blocks = [sample_block, \<lparr>pb_base = 0, pb_npages = 0, pb_bitmap_ptr = [],
     pb_bitmap = []\<rparr>], pages_total = 2, pages_free = 2\<rparr>"

lemma sample_bits: "i < 64 \<Longrightarrow> bm_bit [0xfc, 0xff, 0xff, 0xff, 0xff, 0xff, 0xff, 0xff] i \<longleftrightarrow> 2 \<le> i"
proof -
  have "\<forall>i<64. bm_bit [0xfc, 0xff, 0xff, 0xff, 0xff, 0xff, 0xff, 0xff] i \<longleftrightarrow> 2 \<le> i"
    by (simp add: All_less_numeral bm_bit_def)
  then show "i < 64 \<Longrightarrow> ?thesis" by blast
qed

lemma sample_allocator_inv: "pm_inv sample_allocator"
proof -
  have "2 \<le> 8 * 2 ^ j * length (replicate 8 [0xfc, 0xff, 0xff, 0xff, 0xff, 0xff, 0xff, 0xff :: u8] ! j)"
    if "j < 8" for j :: nat
    using that one_le_power [of "2 :: nat" j] by simp
  then have "block_ok sample_block"
    using sample_bits by (simp add: block_ok_def sample_block_def PMB_MAX_ORDER_def dvd_def)
      (rule exI [where x = 1], simp)
  then show ?thesis
    by (simp add: pm_inv_def blocks_ok_def sample_allocator_def apart_def in_block_def sample_block_def)
qed

lemma sample_free_pages: "free_pages sample_allocator = {0x1000000, 0x1001000}"
proof -
  have "{i. i < 2 \<and> \<not> bm_bit [0xfc, 0xff, 0xff, 0xff, 0xff, 0xff, 0xff, 0xff] i} = {0, 1}"
    using sample_bits by auto
  then show ?thesis
    by (simp add: free_pages_def sample_allocator_def sample_block_def block_free_def page_at_def PAGESIZE_def)
qed

text \<open>C1. Allocation refines "take an element of the free set": while a page is free,
  \<open>alloc_phys_pages 1\<close> returns a free page, which is then the only page no longer free; when none is
  free it returns BADPAGE and changes nothing. The invariant is kept.\<close>

theorem alloc_takes_free_page:
  assumes "pm_inv a"
  shows "(free_pages a = {} \<longrightarrow> alloc_phys_pages 1 a = (BADPAGE, a))
    \<and> (free_pages a \<noteq> {} \<longrightarrow> (\<exists>p a'. alloc_phys_pages 1 a = (p, a') \<and> p \<in> free_pages a
         \<and> free_pages a' = free_pages a - {p} \<and> all_pages a' = all_pages a \<and> pm_inv a'
         \<and> pages_free a' = pages_free a - 1))"
proof -
  obtain p a' where r: "alloc_phys_pages 1 a = (p, a')" by force
  show ?thesis
    using alloc_phys_pages_empty [OF assms] alloc_phys_pages_some [OF assms _ r] r by auto
qed

lemma alloc_takes_free_page_witness:
  "\<exists>p a'. alloc_phys_pages 1 sample_allocator = (p, a') \<and> p \<in> {0x1000000, 0x1001000} \<and> pages_free a' = 1"
  using alloc_takes_free_page [OF sample_allocator_inv]
  by (auto simp: sample_free_pages) (auto simp: sample_allocator_def)

text \<open>Successive allocations never hand out a page twice: as many as there are free pages
  give distinct free pages, and exactly those leave the free set.\<close>

theorem allocations_distinct:
  assumes "pm_inv a" and "n \<le> card (free_pages a)" and "alloc_run (alloc_phys_pages 1) n a = (ps, a')"
  shows "distinct ps \<and> length ps = n \<and> set ps \<subseteq> free_pages a \<and> free_pages a' = free_pages a - set ps \<and> pm_inv a'"
  by (rule phys.alloc_run_pages [OF assms(1) finite_free_pages assms(2,3)])

lemma allocations_distinct_witness:
  "set (fst (alloc_run (alloc_phys_pages 1) 2 sample_allocator)) = {0x1000000, 0x1001000}"
proof -
  obtain ps a' where r: "alloc_run (alloc_phys_pages 1) 2 sample_allocator = (ps, a')" by force
  have "2 \<le> card (free_pages sample_allocator)" by (simp add: sample_free_pages)
  from allocations_distinct [OF sample_allocator_inv this r]
  have "card (set ps) = card (free_pages sample_allocator)" "set ps \<subseteq> free_pages sample_allocator"
    by (auto simp: sample_free_pages distinct_card)
  then have "set ps = free_pages sample_allocator" by (intro card_subset_eq) (auto simp: sample_free_pages)
  then show ?thesis by (simp add: r sample_free_pages)
qed

text \<open>C16. Memory runs out exactly after all free pages: with \<open>n\<close> pages free the first \<open>n\<close>
  allocations succeed and allocation \<open>n + 1\<close> returns BADPAGE.\<close>

theorem allocations_exhaust:
  assumes "pm_inv a" and "card (free_pages a) = n" and "alloc_run (alloc_phys_pages 1) (Suc n) a = (ps, a')"
  shows "last ps = BADPAGE \<and> BADPAGE \<notin> set (butlast ps)"
  by (rule phys.alloc_run_exhausts [OF assms(1) finite_free_pages assms(2,3)])

lemma allocations_exhaust_witness:
  "last (fst (alloc_run (alloc_phys_pages 1) 3 sample_allocator)) = BADPAGE"
proof -
  obtain ps a' where r: "alloc_run (alloc_phys_pages 1) (Suc 2) sample_allocator = (ps, a')"
    by (cases "alloc_run (alloc_phys_pages 1) (Suc 2) sample_allocator")
  have "card (free_pages sample_allocator) = 2" by (simp add: sample_free_pages)
  from allocations_exhaust [OF sample_allocator_inv this r] r show ?thesis
    by (simp add: numeral_3_eq_3 numeral_2_eq_2)
qed

text \<open>C15. Allocating a page and freeing it again restores the set of free pages and the count.\<close>

theorem alloc_free_roundtrip:
  assumes "pm_inv a" and "free_pages a \<noteq> {}" and "alloc_phys_pages 1 a = (p, a')"
  shows "free_pages (free_phys_pages p 1 a') = free_pages a \<and> pm_inv (free_phys_pages p 1 a')
    \<and> pages_free (free_phys_pages p 1 a') = pages_free a"
proof -
  have "pages_free a' = pages_free a - 1"
    using alloc_phys_pages_some(5) [OF assms] .
  then have "pages_free (free_phys_pages p 1 a') = pages_free a"
    by (simp add: free_phys_pages_1 mark_page_free_def)
  with phys.alloc_then_release [OF assms(1,2)] assms(3) show ?thesis by simp
qed

lemma alloc_free_roundtrip_witness:
  "free_pages (free_phys_pages (fst (alloc_phys_pages 1 sample_allocator)) 1
     (snd (alloc_phys_pages 1 sample_allocator))) = {0x1000000, 0x1001000}"
proof -
  have "free_pages sample_allocator \<noteq> {}" by (simp add: sample_free_pages)
  from alloc_free_roundtrip [OF sample_allocator_inv this, of "fst (alloc_phys_pages 1 sample_allocator)"
      "snd (alloc_phys_pages 1 sample_allocator)"]
  show ?thesis by (simp add: sample_free_pages)
qed

section \<open>The buddy test\<close>

text \<open>The test of the buddy reads the wrong bits: for a page whose even index is between 8 and
  30 modulo 32 the shifted mask has no bit inside the byte, the buddy counts as free whatever its
  state, and the bit of the pair one order up is cleared.\<close>

theorem buddy_test_ignores_buddy:
  assumes "8 \<le> unat (off AND NOT 1) mod 32" and "1 < length bms"
    and "unat off div 2 < 8 * length (bms ! 1)"
  shows "(ucast (w :: u8) :: u32) AND buddy_mask off = 0
    \<and> \<not> bm_bit (clear_orders PMB_MAX_ORDER 0 off bms ! 1) (unat off div 2)"
proof -
  have test: "(ucast w :: u32) AND buddy_mask off = 0" for w :: u8
  proof (rule bit_word_eqI)
    fix k assume "k < LENGTH(32)"
    have "\<not> (k < 8 \<and> 8 \<le> k)" by simp
    then show "bit ((ucast w :: u32) AND buddy_mask off) k = bit 0 k"
      using assms(1) bit_imp_le_length [of w k]
      by (auto simp: buddy_mask_def bit_and_iff bit_push_bit_iff bit_ucast_iff)
  qed
  obtain k where k: "PMB_MAX_ORDER = Suc (Suc k)" by (simp add: PMB_MAX_ORDER_def)
  let ?bms = "bms[0 := clear_bit_at off (bms ! 0)]"
  have "clear_orders PMB_MAX_ORDER 0 off bms ! 1 = clear_bit_at (off div 2) (?bms ! 1)"
    using assms(2) test by (simp add: k Let_def clear_orders_below)
  moreover have "?bms ! 1 = bms ! 1" by simp
  moreover have "unat (off div 2) = unat off div 2" by (simp add: unat_div)
  ultimately show ?thesis
    using test assms(3) by (simp add: bm_bit_clear)
qed

lemma buddy_test_ignores_buddy_witness:
  "(ucast (0xff :: u8) :: u32) AND buddy_mask 8 = 0
   \<and> \<not> bm_bit (clear_orders PMB_MAX_ORDER 0 8 (replicate 8 [0xff, 0xff]) ! 1) 4"
  using buddy_test_ignores_buddy [of 8 "replicate 8 [0xff, 0xff]" "0xff"] by simp

section \<open>Early allocation\<close>

lemma c_int_small: "unat w < 2 ^ 31 \<Longrightarrow> c_int w = int (unat w)"
proof -
  assume w: "unat w < 2 ^ 31"
  then have "unat (ucast w :: u32) = unat w"
    by (simp add: unsigned_ucast_eq take_bit_nat_eq_self)
  then have u: "uint (ucast w :: u32) = int (unat w)" by (simp only: uint_nat)
  have "int (unat w) < int (2 ^ 31)" using w by (simp only: of_nat_less_iff)
  then have w': "int (unat w) < 2 ^ 31" by (simp only: of_nat_power of_nat_numeral)
  have "sint (ucast w :: u32) = signed_take_bit 31 (uint (ucast w :: u32))"
    using sint_uint [of "ucast w :: u32"] by simp
  also have "\<dots> = int (unat w)" unfolding u
    using w' by (intro signed_take_bit_int_eq_self) (simp_all only: order_trans [OF _ of_nat_0_le_iff] neg_le_0_iff_le zero_le_power zero_le_numeral)
  finally have "sint (ucast w :: u32) = int (unat w)" .
  then show ?thesis by (simp add: c_int_def)
qed

lemma unat_physical_to_virtual:
  assumes "unat t < 2 ^ 47"
  shows "unat (physical_to_virtual t) = 0xffff800000000000 + unat t"
proof -
  have "(0xffff800000000000 :: u64) AND t = 0"
  proof (rule bit_word_eqI)
    fix k assume "k < LENGTH(64)"
    have "take_bit 47 t = t"
      using assms by (simp add: word_unat_eq_iff unsigned_take_bit_eq take_bit_nat_eq_self)
    then have t: "bit t k \<Longrightarrow> k < 47" by (metis bit_take_bit_iff)
    have "(0xffff800000000000 :: u64) = NOT (mask 47)" by (simp add: mask_eq_exp_minus_1)
    then have "bit (0xffff800000000000 :: u64) k \<Longrightarrow> \<not> k < 47"
      by (simp add: bit_not_iff bit_mask_iff)
    with t show "bit ((0xffff800000000000 :: u64) AND t) k = bit 0 k"
      by (auto simp: bit_and_iff)
  qed
  then have "physical_to_virtual t = 0xffff800000000000 + t"
    using word_plus_and_or [of "0xffff800000000000" t] by (simp add: physical_to_virtual_def)
  then show ?thesis using assms by (simp add: unat_add_u64)
qed

definition region_bytes :: "BootMemRegion \<Rightarrow> u64 set" where
  "region_bytes r = {x. in_range (r_base r) (unat (r_size r)) x}"

lemma in_range_split:
  fixes sz :: u64
  assumes "n \<le> unat sz"
  shows "in_range b (unat sz) x \<longleftrightarrow> in_range b n x \<or> in_range (b + of_nat n) (unat sz - n) x"
    and "\<not> (in_range b n x \<and> in_range (b + of_nat n) (unat sz - n) x)"
proof -
  have n: "unat (of_nat n :: u64) = n"
    using assms unat_bound_u64 [of sz] by (intro unat_of_nat_u64) simp
  have d: "x - (b + of_nat n) = (x - b) - of_nat n" by simp
  have u: "unat (x - (b + of_nat n))
      = (if n \<le> unat (x - b) then unat (x - b) - n else unat (x - b) + 2 ^ 64 - n)"
    unfolding d by (simp add: unat_sub_if_size word_size n)
  show "in_range b (unat sz) x \<longleftrightarrow> in_range b n x \<or> in_range (b + of_nat n) (unat sz - n) x"
    and "\<not> (in_range b n x \<and> in_range (b + of_nat n) (unat sz - n) x)"
    using assms unat_bound_u64 [of sz] unat_bound_u64 [of "x - b"]
    by (auto simp: in_range_def u)
qed

lemma take_early_region:
  "\<exists>r \<in> set rs. sz \<le> r_size r \<Longrightarrow> take_early sz rs = (p, rs') \<Longrightarrow>
     sorted_wrt (\<lambda>r q. region_bytes r \<inter> region_bytes q = {}) rs \<Longrightarrow>
     \<Union> (region_bytes ` set rs) = {x. in_range p (unat sz) x} \<union> \<Union> (region_bytes ` set rs')
   \<and> {x. in_range p (unat sz) x} \<inter> \<Union> (region_bytes ` set rs') = {}
   \<and> sorted_wrt (\<lambda>r q. region_bytes r \<inter> region_bytes q = {}) rs'"
proof (induction rs arbitrary: p rs')
  case (Cons r rs)
  show ?case
  proof (cases "sz \<le> r_size r")
    case True
    let ?r = "r\<lparr>r_base := r_base r + sz, r_size := r_size r - sz\<rparr>"
    have eq: "p = r_base r" "rs' = ?r # rs" using True Cons.prems by auto
    have le: "unat sz \<le> unat (r_size r)" using True by (simp add: word_le_nat_alt)
    have "unat (r_size r - sz) = unat (r_size r) - unat sz" using True by (rule unat_sub)
    then have r: "region_bytes r = {x. in_range p (unat sz) x} \<union> region_bytes ?r"
      and d: "{x. in_range p (unat sz) x} \<inter> region_bytes ?r = {}"
      using in_range_split [OF le, of "r_base r"] eq by (auto simp: region_bytes_def)
    have q: "region_bytes ?r \<inter> region_bytes q = {}" "{x. in_range p (unat sz) x} \<inter> region_bytes q = {}"
      if "q \<in> set rs" for q
    proof -
      have "region_bytes r \<inter> region_bytes q = {}" using Cons.prems(3) that by simp
      then show "region_bytes ?r \<inter> region_bytes q = {}" "{x. in_range p (unat sz) x} \<inter> region_bytes q = {}"
        unfolding r by blast+
    qed
    then have "{x. in_range p (unat sz) x} \<inter> \<Union> (region_bytes ` set rs) = {}" by blast
    with d q Cons.prems(3) show ?thesis
      unfolding eq(2) by (simp add: r Un_assoc Int_Un_distrib)
  next
    case False
    then obtain rs'' where rs'': "take_early sz rs = (p, rs'')" "rs' = r # rs''"
      using Cons.prems(2) by (auto split: prod.splits)
    from False Cons.prems(1) have "\<exists>q \<in> set rs. sz \<le> r_size q" by auto
    then have all: "\<Union> (region_bytes ` set rs) = {x. in_range p (unat sz) x} \<union> \<Union> (region_bytes ` set rs'')
      \<and> {x. in_range p (unat sz) x} \<inter> \<Union> (region_bytes ` set rs'') = {}
      \<and> sorted_wrt (\<lambda>r q. region_bytes r \<inter> region_bytes q = {}) rs''"
      using Cons.prems(3) by (intro Cons.IH [OF _ rs''(1)]) simp_all
    then have IH: "\<Union> (region_bytes ` set rs) = {x. in_range p (unat sz) x} \<union> \<Union> (region_bytes ` set rs'')"
        "{x. in_range p (unat sz) x} \<inter> \<Union> (region_bytes ` set rs'') = {}"
        "sorted_wrt (\<lambda>r q. region_bytes r \<inter> region_bytes q = {}) rs''" by blast+
    have dis: "region_bytes r \<inter> \<Union> (region_bytes ` set rs) = {}" using Cons.prems(3) by auto
    then have "region_bytes r \<inter> {x. in_range p (unat sz) x} = {}"
        "\<forall>q \<in> set rs''. region_bytes r \<inter> region_bytes q = {}"
      unfolding IH(1) by blast+
    with IH show ?thesis unfolding rs''(2) by (simp add: Un_left_commute Int_Un_distrib Int_commute)
  qed
qed simp

lemma length_take_early: "length (snd (take_early sz rs)) = length rs"
  by (induction rs) (auto split: prod.splits)

lemma alloc_phys_early_split:
  assumes "alloc_phys_early npages mem_free = (p, mf)"
  shows "take_early (scast (word_of_int (npages * 4096) :: u32)) (take 32 mem_free) = (p, take 32 mf)
    \<and> drop 32 mf = drop 32 mem_free \<and> length mf = length mem_free"
proof -
  let ?t = "take_early (scast (word_of_int (npages * 4096) :: u32)) (take 32 mem_free)"
  obtain q rs where t: "?t = (q, rs)" by force
  have l: "length rs = min 32 (length mem_free)"
    using length_take_early [of "scast (word_of_int (npages * 4096) :: u32)" "take 32 mem_free"] t by (simp add: min.commute)
  have e: "p = q" "mf = rs @ drop 32 mem_free"
    using assms t by (auto simp: alloc_phys_early_def split: prod.splits)
  have "take 32 mf = rs \<and> drop 32 mf = drop 32 mem_free"
    unfolding e(2) by (cases "length mem_free \<le> 32") (simp_all add: l)
  then show ?thesis using t l by (simp add: e)
qed

text \<open>C19. The early allocator carves its pages out of the free regions it searches, the first 32 of
  the array: when these do not overlap and one of them is large enough, the bytes returned belonged to
  them and no longer do, their other bytes still do, and they stay disjoint; the entries behind them
  and the length of the array are unchanged.\<close>

theorem early_pages_leave_free_regions:
  assumes "alloc_phys_early npages mem_free = (p, mf)"
    and "sz = scast (word_of_int (npages * 4096) :: u32)" and "\<exists>r \<in> set (take 32 mem_free). sz \<le> r_size r"
    and "sorted_wrt (\<lambda>r q. region_bytes r \<inter> region_bytes q = {}) (take 32 mem_free)"
  shows "\<Union> (region_bytes ` set (take 32 mem_free))
        = {x. in_range p (unat sz) x} \<union> \<Union> (region_bytes ` set (take 32 mf))
    \<and> {x. in_range p (unat sz) x} \<inter> \<Union> (region_bytes ` set (take 32 mf)) = {}
    \<and> sorted_wrt (\<lambda>r q. region_bytes r \<inter> region_bytes q = {}) (take 32 mf)
    \<and> drop 32 mf = drop 32 mem_free \<and> length mf = length mem_free"
proof -
  from alloc_phys_early_split [OF assms(1)]
  have "take_early sz (take 32 mem_free) = (p, take 32 mf)" and rest: "drop 32 mf = drop 32 mem_free" "length mf = length mem_free"
    by (simp_all add: assms(2))
  from take_early_region [OF assms(3) this(1) assms(4)] rest show ?thesis by blast
qed

lemma early_pages_leave_free_regions_witness:
  "\<Union> (region_bytes ` set [\<lparr>r_base = 0x100000, r_size = 0x1000\<rparr>, \<lparr>r_base = 0x200000, r_size = 0x8000\<rparr>])
   = {x. in_range 0x200000 0x2000 x} \<union> \<Union> (region_bytes ` set
       [\<lparr>r_base = 0x100000, r_size = 0x1000\<rparr>, \<lparr>r_base = 0x202000, r_size = 0x6000\<rparr>])"
proof -
  let ?z = "\<lparr>r_base = 0, r_size = 0\<rparr>"
  let ?mf = "\<lparr>r_base = 0x100000, r_size = 0x1000\<rparr> # \<lparr>r_base = 0x200000, r_size = 0x8000\<rparr> # replicate 62 ?z"
  have a: "alloc_phys_early 2 ?mf
      = (0x200000, \<lparr>r_base = 0x100000, r_size = 0x1000\<rparr> # \<lparr>r_base = 0x202000, r_size = 0x6000\<rparr> # replicate 62 ?z)"
    by (simp add: alloc_phys_early_def drop_Cons' replicate_add [symmetric])
  have z: "region_bytes ?z = {}" by (simp add: region_bytes_def)
  have "in_range 0x100000 0x1000 x \<Longrightarrow> \<not> in_range 0x200000 0x8000 x" for x
    by (auto simp: in_range_def unat_sub_if_size word_size split: if_splits)
  moreover have "sorted_wrt (\<lambda>r q. region_bytes r \<inter> region_bytes q = {}) (replicate n ?z)" for n
    by (induction n) (simp_all add: z)
  ultimately have "sorted_wrt (\<lambda>r q. region_bytes r \<inter> region_bytes q = {}) (take 32 ?mf)"
    by (auto simp: take_Cons' z region_bytes_def)
  from early_pages_leave_free_regions [OF a _ _ this, of "0x2000"] show ?thesis
    by (simp add: take_Cons' z)
qed

end
