(* ===== verification/PhysMemInit.thy ===== *)
theory PhysMemInit
  imports PhysMem
begin

text \<open>
  Initialisation of the page allocator (\<open>init_physical_memory\<close> of
  src/kernel/mem/alloc_page.c): what the early allocations take from the free regions, and the
  memory of the bitmaps; the blocks it builds satisfy the allocator's invariant, and the pages it
  marks free are those left of the free regions, up to 4 GiB per region.
\<close>

section \<open>Early allocations\<close>

definition region_pages :: "BootMemRegion \<Rightarrow> u64 set" where
  "region_pages r = (\<lambda>j. r_base r + of_nat j * PAGESIZE) ` {..<unat (r_size r div PAGESIZE)}"

text \<open>The bytes of the regions the early allocator searches, and what it needs of them: they do not
  overlap and lie below the 512 GiB the direct map covers.\<close>

definition early_bytes :: "BootMemRegion list \<Rightarrow> u64 set" where
  "early_bytes mf = \<Union> (region_bytes ` set (take 32 mf))"

definition early_ok :: "BootMemRegion list \<Rightarrow> bool" where
  "early_ok mf \<longleftrightarrow> sorted_wrt (\<lambda>r q. region_bytes r \<inter> region_bytes q = {}) (take 32 mf)
     \<and> (\<forall>r \<in> set (take 32 mf). unat (r_base r) + unat (r_size r) \<le> 2 ^ 39)"

definition early_room :: "nat \<Rightarrow> BootMemRegion list \<Rightarrow> bool" where
  "early_room n mf \<longleftrightarrow> (\<exists>r \<in> set (take 32 mf). n \<le> unat (r_size r))"

text \<open>A region after pages were taken from its start.\<close>

definition shrinks :: "BootMemRegion \<Rightarrow> BootMemRegion \<Rightarrow> bool" where
  "shrinks r r' \<longleftrightarrow> (\<exists>k. r_base r' = r_base r + of_nat k * PAGESIZE \<and> unat (r_size r) = unat (r_size r') + k * 4096)"

lemma shrinks_refl [simp]: "shrinks r r"
  unfolding shrinks_def by (rule exI [where x = 0]) simp

lemma shrinks_trans:
  assumes "shrinks r q" and "shrinks q s"
  shows "shrinks r s"
proof -
  obtain j k where "r_base q = r_base r + of_nat j * PAGESIZE" "unat (r_size r) = unat (r_size q) + j * 4096"
    and "r_base s = r_base q + of_nat k * PAGESIZE" "unat (r_size q) = unat (r_size s) + k * 4096"
    using assms by (auto simp: shrinks_def)
  then show ?thesis
    unfolding shrinks_def by (intro exI [where x = "j + k"]) (simp add: distrib_right)
qed

lemma shrinks_end:
  assumes "shrinks r r'" and "unat (r_base r) + unat (r_size r) \<le> 2 ^ 39"
  shows "unat (r_base r') + unat (r_size r') = unat (r_base r) + unat (r_size r)"
proof -
  obtain k where k: "r_base r' = r_base r + of_nat k * PAGESIZE" "unat (r_size r) = unat (r_size r') + k * 4096"
    using assms(1) by (auto simp: shrinks_def)
  have "r_base r' = r_base r + of_nat (k * 4096)" by (simp add: k(1) PAGESIZE_def)
  moreover have "unat (r_base r + of_nat (k * 4096)) = unat (r_base r) + k * 4096"
    using assms(2) k(2) by (intro unat_add_nat) simp
  ultimately show ?thesis using k(2) by simp
qed

lemma shrinks_pages: "shrinks r r' \<Longrightarrow> region_pages r' \<subseteq> region_pages r"
proof
  fix p assume "shrinks r r'" "p \<in> region_pages r'"
  then obtain k j where k: "r_base r' = r_base r + of_nat k * PAGESIZE" "unat (r_size r) = unat (r_size r') + k * 4096"
    and j: "j < unat (r_size r') div 4096" "p = r_base r' + of_nat j * PAGESIZE"
    by (auto simp: shrinks_def region_pages_def unat_div PAGESIZE_def)
  then have "k + j < unat (r_size r) div 4096" by simp
  moreover have "p = r_base r + of_nat (k + j) * PAGESIZE" by (simp add: k j distrib_right)
  ultimately show "p \<in> region_pages r"
    unfolding region_pages_def by (intro image_eqI [where x = "k + j"]) (simp_all add: unat_div PAGESIZE_def)
qed

lemma shrinks_size: "shrinks r r' \<Longrightarrow> r_size r' \<le> r_size r"
  by (auto simp: shrinks_def word_le_nat_alt)

lemma early_size:
  assumes "n * 4096 < 2 ^ 31"
  shows "unat (scast (word_of_int (int n * 4096) :: u32) :: u64) = n * 4096"
proof -
  let ?w = "of_nat (n * 4096) :: u64"
  have u: "unat ?w = n * 4096" using assms by (intro unat_of_nat_u64) simp
  have "(ucast ?w :: u32) = word_of_int (uint ?w)" by (rule ucast_eq)
  also have "uint ?w = int (unat ?w)" by (rule uint_nat)
  also have "\<dots> = int n * 4096" unfolding u by simp
  finally have w: "(ucast ?w :: u32) = word_of_int (int n * 4096)" .
  have "c_int ?w = int (n * 4096)" using assms c_int_small [of ?w] by (simp only: u)
  then have s: "sint (word_of_int (int n * 4096) :: u32) = int (n * 4096)" by (simp only: c_int_def w)
  have "(scast (word_of_int (int n * 4096) :: u32) :: u64) = word_of_int (int (n * 4096))"
    unfolding scast_eq s ..
  also have "\<dots> = ?w" by simp
  finally show ?thesis by (simp only: u)
qed

lemma take_early_spec:
  assumes "\<exists>r \<in> set rs. unat sz + m \<le> unat (r_size r)" and "take_early sz rs = (p, rs')" and "unat sz = n * 4096"
  shows "list_all2 shrinks rs rs' \<and> (\<exists>r \<in> set rs'. m \<le> unat (r_size r)) \<and> (\<exists>r \<in> set rs. p = r_base r \<and> sz \<le> r_size r)"
  using assms(1,2)
proof (induction rs arbitrary: p rs')
  case (Cons r rs)
  show ?case
  proof (cases "sz \<le> r_size r")
    case True
    let ?r = "r\<lparr>r_base := r_base r + sz, r_size := r_size r - sz\<rparr>"
    have eq: "p = r_base r" "rs' = ?r # rs" using True Cons.prems by auto
    have u: "unat (r_size r - sz) = unat (r_size r) - unat sz" using True by (rule unat_sub)
    have "sz = of_nat (unat sz)" by simp
    then have b: "r_base ?r = r_base r + of_nat n * PAGESIZE" unfolding assms(3) by (simp add: PAGESIZE_def)
    have "unat (r_size r) = unat (r_size ?r) + n * 4096"
      using True by (simp add: u assms(3) word_le_nat_alt)
    with b have "shrinks r ?r" unfolding shrinks_def by blast
    moreover have "\<exists>q \<in> set (?r # rs). m \<le> unat (r_size q)"
    proof (cases "unat sz + m \<le> unat (r_size r)")
      case True
      then have "m \<le> unat (r_size ?r)" by (simp add: u)
      then show ?thesis by simp
    next
      case False
      then obtain q where "q \<in> set rs" "unat sz + m \<le> unat (r_size q)" using Cons.prems(1) by auto
      then show ?thesis by (auto intro: add_leD2)
    qed
    ultimately show ?thesis using True by (simp add: eq list_all2_refl)
  next
    case False
    then obtain rs'' where rs'': "take_early sz rs = (p, rs'')" "rs' = r # rs''"
      using Cons.prems(2) by (auto split: prod.splits)
    from False Cons.prems(1) have "\<exists>q \<in> set rs. unat sz + m \<le> unat (r_size q)" by (auto simp: word_le_nat_alt)
    from Cons.IH [OF this rs''(1)] show ?thesis by (auto simp: rs''(2))
  qed
qed simp

lemma list_all2_memberD: "list_all2 P xs ys \<Longrightarrow> y \<in> set ys \<Longrightarrow> \<exists>x \<in> set xs. P x y"
  by (induction rule: list_all2_induct) auto

lemma alloc_early_spec:
  assumes ok: "early_ok mf" and room: "early_room (n * 4096 + m) mf" and n: "n * 4096 < 2 ^ 31"
    and a: "alloc_phys_early (int n) mf = (p, mf')"
  shows "early_found (int n) mf \<and> early_ok mf' \<and> early_room m mf' \<and> list_all2 shrinks (take 32 mf) (take 32 mf')
    \<and> unat p + n * 4096 \<le> 2 ^ 39 \<and> {x. in_range p (n * 4096) x} \<subseteq> early_bytes mf - early_bytes mf'
    \<and> early_bytes mf' \<subseteq> early_bytes mf"
proof -
  let ?sz = "scast (word_of_int (int n * 4096) :: u32) :: u64"
  have sz: "unat ?sz = n * 4096" by (rule early_size [OF n])
  have t: "take_early ?sz (take 32 mf) = (p, take 32 mf')" using alloc_phys_early_split [OF a] by blast
  have r: "\<exists>r \<in> set (take 32 mf). unat ?sz + m \<le> unat (r_size r)" using room unfolding early_room_def sz .
  from take_early_spec [OF r t sz]
  have sh: "list_all2 shrinks (take 32 mf) (take 32 mf')" and rm: "early_room m mf'"
    and p: "\<exists>r \<in> set (take 32 mf). p = r_base r \<and> ?sz \<le> r_size r" by (auto simp: early_room_def)
  have f: "\<exists>r \<in> set (take 32 mf). ?sz \<le> r_size r" using p by blast
  have d: "sorted_wrt (\<lambda>r q. region_bytes r \<inter> region_bytes q = {}) (take 32 mf)" using ok by (simp add: early_ok_def)
  from take_early_region [OF f t d]
  have bytes: "early_bytes mf = {x. in_range p (n * 4096) x} \<union> early_bytes mf'"
      "{x. in_range p (n * 4096) x} \<inter> early_bytes mf' = {}"
      "sorted_wrt (\<lambda>r q. region_bytes r \<inter> region_bytes q = {}) (take 32 mf')"
    unfolding sz early_bytes_def by blast+
  have "unat (r_base r') + unat (r_size r') \<le> 2 ^ 39" if "r' \<in> set (take 32 mf')" for r'
  proof -
    obtain q where q: "q \<in> set (take 32 mf)" "shrinks q r'" using list_all2_memberD [OF sh \<open>r' \<in> _\<close>] by blast
    then have "unat (r_base q) + unat (r_size q) \<le> 2 ^ 39" using ok by (simp add: early_ok_def)
    with shrinks_end [OF q(2) this] show ?thesis by simp
  qed
  then have "early_ok mf'" using bytes(3) by (simp add: early_ok_def)
  moreover have "unat p + n * 4096 \<le> 2 ^ 39"
  proof -
    obtain q where q: "q \<in> set (take 32 mf)" "p = r_base q" "?sz \<le> r_size q" using p by blast
    then have "unat (r_base q) + unat (r_size q) \<le> 2 ^ 39" using ok by (simp add: early_ok_def)
    moreover have "n * 4096 \<le> unat (r_size q)" using q(3) unfolding word_le_nat_alt sz .
    ultimately show ?thesis unfolding q(2) by linarith
  qed
  ultimately show ?thesis using sh rm f bytes(1,2) unfolding early_found_def by blast
qed

section \<open>The memory of the bitmaps\<close>

text \<open>The areas of memory, start and length, that hold the bitmaps of the blocks.\<close>

definition bitmap_areas :: "PhysicalMemoryBlock list \<Rightarrow> (u64 \<times> nat) list" where
  "bitmap_areas bs =
     concat (map (\<lambda>b. zip (pb_bitmap_ptr b) (map length (pb_bitmap b))) (filter (\<lambda>b. pb_npages b \<noteq> 0) bs))"

definition areas_apart :: "u64 \<times> nat \<Rightarrow> u64 \<times> nat \<Rightarrow> bool" where
  "areas_apart a b \<longleftrightarrow> (\<forall>x. \<not> (in_range (fst a) (snd a) x \<and> in_range (fst b) (snd b) x))"

text \<open>Early allocations that turn the free regions \<open>mf\<close> into \<open>mf'\<close> and give the areas \<open>as\<close> of the
  direct map.\<close>

definition carved :: "(u64 \<times> nat) list \<Rightarrow> BootMemRegion list \<Rightarrow> BootMemRegion list \<Rightarrow> bool" where
  "carved as mf mf' \<longleftrightarrow> early_ok mf' \<and> early_bytes mf' \<subseteq> early_bytes mf
     \<and> list_all2 shrinks (take 32 mf) (take 32 mf') \<and> sorted_wrt areas_apart as
     \<and> (\<forall>a \<in> set as. {x. in_range (fst a) (snd a) x} \<subseteq> physical_to_virtual ` (early_bytes mf - early_bytes mf'))"

lemma region_bytes_below:
  assumes "unat (r_base r) + unat (r_size r) \<le> 2 ^ 39" and "x \<in> region_bytes r"
  shows "unat x < 2 ^ 39"
proof -
  obtain i where i: "i < unat (r_size r)" "x = r_base r + of_nat i"
    using assms(2) unfolding region_bytes_def by (auto elim: in_rangeE)
  then have "unat x = unat (r_base r) + i" using assms(1) by (simp add: unat_add_nat)
  then show ?thesis using i(1) assms(1) by simp
qed

lemma early_bytes_below: "early_ok mf \<Longrightarrow> x \<in> early_bytes mf \<Longrightarrow> unat x < 2 ^ 39"
  using region_bytes_below by (fastforce simp: early_ok_def early_bytes_def)

lemma physical_to_virtual_inj: "unat x < 2 ^ 39 \<Longrightarrow> unat y < 2 ^ 39 \<Longrightarrow> physical_to_virtual x = physical_to_virtual y \<Longrightarrow> x = y"
  using unat_physical_to_virtual [of x] unat_physical_to_virtual [of y] by (simp add: word_unat_eq_iff)

lemma direct_inj: "early_ok mf \<Longrightarrow> inj_on physical_to_virtual (early_bytes mf)"
  by (rule inj_onI) (blast intro: physical_to_virtual_inj early_bytes_below)

lemma direct_bytes:
  assumes "unat p + n \<le> 2 ^ 39"
  shows "{x. in_range (physical_to_virtual p) n x} \<subseteq> physical_to_virtual ` {x. in_range p n x}"
proof
  fix x assume "x \<in> {x. in_range (physical_to_virtual p) n x}"
  then obtain i where i: "i < n" "x = physical_to_virtual p + of_nat i" by (auto elim: in_rangeE)
  have p: "unat (physical_to_virtual p) = 0xffff800000000000 + unat p"
    using assms i(1) by (intro unat_physical_to_virtual) simp
  have "unat (p + of_nat i) = unat p + i" using assms i(1) by (intro unat_add_nat) simp
  moreover have "unat (physical_to_virtual p + of_nat i) = 0xffff800000000000 + unat p + i"
    using assms i(1) p by (subst unat_add_nat) simp_all
  ultimately have "unat x = unat (physical_to_virtual (p + of_nat i))"
    using assms i by (subst unat_physical_to_virtual) simp_all
  then have "x = physical_to_virtual (p + of_nat i)" by (simp only: word_unat_eq_iff)
  moreover have "in_range p n (p + of_nat i)" using i(1) assms by (intro in_range_offset) simp_all
  ultimately show "x \<in> physical_to_virtual ` {x. in_range p n x}" by blast
qed

lemma carved_nil: "early_ok mf \<Longrightarrow> carved [] mf mf"
  by (simp add: carved_def list_all2_refl)

lemma carved_append:
  assumes ok: "early_ok mf" and "carved as mf mf1" and "carved bs mf1 mf2"
  shows "carved (as @ bs) mf mf2"
proof -
  have a: "early_bytes mf1 \<subseteq> early_bytes mf" "list_all2 shrinks (take 32 mf) (take 32 mf1)" "sorted_wrt areas_apart as"
      "\<forall>a \<in> set as. {x. in_range (fst a) (snd a) x} \<subseteq> physical_to_virtual ` (early_bytes mf - early_bytes mf1)"
    using assms(2) by (simp_all add: carved_def)
  have b: "early_ok mf2" "early_bytes mf2 \<subseteq> early_bytes mf1" "list_all2 shrinks (take 32 mf1) (take 32 mf2)" "sorted_wrt areas_apart bs"
      "\<forall>b \<in> set bs. {x. in_range (fst b) (snd b) x} \<subseteq> physical_to_virtual ` (early_bytes mf1 - early_bytes mf2)"
    using assms(3) by (simp_all add: carved_def)
  have "areas_apart c d" if "c \<in> set as" "d \<in> set bs" for c d
  proof -
    have "physical_to_virtual ` (early_bytes mf - early_bytes mf1) \<inter> physical_to_virtual ` (early_bytes mf1 - early_bytes mf2) = {}"
      (is "?f ` ?A \<inter> ?f ` ?B = {}")
    proof -
      have "?A \<inter> ?B = {}" by blast
      moreover have "?A \<subseteq> early_bytes mf" "?B \<subseteq> early_bytes mf" using a(1) by blast+
      ultimately show ?thesis using inj_on_image_Int [OF direct_inj [OF ok], of ?A ?B] by simp
    qed
    moreover have "{x. in_range (fst c) (snd c) x} \<subseteq> physical_to_virtual ` (early_bytes mf - early_bytes mf1)"
      using a(4) that(1) by (rule bspec)
    moreover have "{x. in_range (fst d) (snd d) x} \<subseteq> physical_to_virtual ` (early_bytes mf1 - early_bytes mf2)"
      using b(5) that(2) by (rule bspec)
    ultimately have "{x. in_range (fst c) (snd c) x} \<inter> {x. in_range (fst d) (snd d) x} = {}" by (metis inf_mono subset_empty)
    then show ?thesis unfolding areas_apart_def by (simp add: set_eq_iff)
  qed
  then have "sorted_wrt areas_apart (as @ bs)" using a(3) b(4) by (simp add: sorted_wrt_append)
  moreover have "{x. in_range (fst c) (snd c) x} \<subseteq> physical_to_virtual ` (early_bytes mf - early_bytes mf2)"
    if "c \<in> set (as @ bs)" for c
  proof -
    have "early_bytes mf - early_bytes mf1 \<subseteq> early_bytes mf - early_bytes mf2"
        "early_bytes mf1 - early_bytes mf2 \<subseteq> early_bytes mf - early_bytes mf2"
      using a(1) b(2) by blast+
    note sub = image_mono [OF this(1)] image_mono [OF this(2)]
    from that consider "c \<in> set as" | "c \<in> set bs" by auto
    then show ?thesis
    proof cases
      case 1
      show ?thesis by (rule order_trans [OF bspec [OF a(4) 1] sub(1)])
    next
      case 2
      show ?thesis by (rule order_trans [OF bspec [OF b(5) 2] sub(2)])
    qed
  qed
  moreover have "list_all2 shrinks (take 32 mf) (take 32 mf2)"
    by (rule list_all2_trans [OF _ a(2) b(3)]) (rule shrinks_trans)
  ultimately show ?thesis using a(1) b(1,2) unfolding carved_def by blast
qed

text \<open>The pages the \<open>k\<close> bitmaps of a block take, the first one of \<open>n\<close> pages; the pages of all bitmaps
  of a region.\<close>

fun bitmap_pages :: "nat \<Rightarrow> nat \<Rightarrow> nat" where
  "bitmap_pages 0 n = 0"
| "bitmap_pages (Suc k) n = n + bitmap_pages k ((n + 1) div 2)"

definition region_need :: "BootMemRegion \<Rightarrow> nat" where
  "region_need r = bitmap_pages PMB_MAX_ORDER ((unat (r_size r) div 4096 + 32767) div 32768)"

lemma init_bitmaps_room:
  "early_ok mf \<Longrightarrow> early_room (bitmap_pages k (unat sp) * 4096 + m) mf \<Longrightarrow> unat sp * 4096 < 2 ^ 31 \<Longrightarrow>
     \<exists>ps bms mf'. init_bitmaps k sp mf = Some (ps, bms, mf') \<and> carved (zip ps (map length bms)) mf mf' \<and> early_room m mf'"
proof (induction k arbitrary: sp mf)
  case 0
  then show ?case by (simp add: carved_nil)
next
  case (Suc k)
  have c: "c_int sp = int (unat sp)" using Suc.prems(3) by (intro c_int_small) simp
  obtain p mf1 where e: "alloc_phys_early (int (unat sp)) mf = (p, mf1)" by force
  have half: "unat ((sp + 1) div 2) = (unat sp + 1) div 2"
    using Suc.prems(3) unat_add_u64 [of sp 1] by (simp add: unat_div)
  have "early_room (unat sp * 4096 + (bitmap_pages k (unat ((sp + 1) div 2)) * 4096 + m)) mf"
    using Suc.prems(2) unfolding half by (simp add: algebra_simps)
  note a = alloc_early_spec [OF Suc.prems(1) this Suc.prems(3) e]
  have "unat ((sp + 1) div 2) * 4096 < 2 ^ 31" using Suc.prems(3) unfolding half by simp
  with Suc.IH [of mf1 "(sp + 1) div 2"] a obtain ps bms mf' where
    r: "init_bitmaps k ((sp + 1) div 2) mf1 = Some (ps, bms, mf')" "carved (zip ps (map length bms)) mf1 mf'" "early_room m mf'"
    by blast
  have len: "unat (sp * PAGESIZE) = unat sp * 4096"
    using Suc.prems(3) by (simp add: PAGESIZE_def unat_mult_lem [THEN iffD1])
  have "{x. in_range (physical_to_virtual p) (unat sp * 4096) x} \<subseteq> physical_to_virtual ` {x. in_range p (unat sp * 4096) x}"
    using a by (intro direct_bytes) simp
  also have "\<dots> \<subseteq> physical_to_virtual ` (early_bytes mf - early_bytes mf1)" using a by (intro image_mono) simp
  finally have "carved [(physical_to_virtual p, unat sp * 4096)] mf mf1" using a by (simp add: carved_def)
  from carved_append [OF Suc.prems(1) this r(2)] have
    "carved (zip (physical_to_virtual p # ps) (map length (replicate (unat (sp * PAGESIZE)) 0xff # bms))) mf mf'"
    by (simp add: len)
  moreover have "early_found (c_int sp) mf" "alloc_phys_early (c_int sp) mf = (p, mf1)"
    using a unfolding c by (simp_all only: e)
  then have "init_bitmaps (Suc k) sp mf = Some (physical_to_virtual p # ps, replicate (unat (sp * PAGESIZE)) 0xff # bms, mf')"
    by (simp add: r(1))
  ultimately show ?case using r(3) by blast
qed

section \<open>The bitmaps of a block\<close>

lemma init_bitmaps_spec:
  assumes "init_bitmaps k sp mf = Some (ps, bms, mf')" and "unat sp * 4096 < 2 ^ 64"
  shows "length ps = k \<and> length bms = k
    \<and> (\<forall>j<k. unat sp * 4096 \<le> 2 ^ j * length (bms ! j) \<and> 8 dvd length (bms ! j) \<and> set (bms ! j) \<subseteq> {0xff})"
  using assms
proof (induction k arbitrary: sp mf ps bms mf')
  case (Suc k)
  obtain p mf1 where e: "alloc_phys_early (c_int sp) mf = (p, mf1)" by force
  obtain ps' bms' where r: "init_bitmaps k ((sp + 1) div 2) mf1 = Some (ps', bms', mf')"
      "ps = physical_to_virtual p # ps'" "bms = replicate (unat (sp * PAGESIZE)) 0xff # bms'"
    using Suc.prems(1) e by (auto split: prod.splits option.splits if_splits)
  have len: "unat (sp * PAGESIZE) = unat sp * 4096"
    using Suc.prems(2) by (simp add: PAGESIZE_def unat_mult_lem [THEN iffD1])
  have half: "unat ((sp + 1) div 2) = (unat sp + 1) div 2"
    using Suc.prems(2) unat_add_u64 [of sp 1] by (simp add: unat_div)
  then have "unat ((sp + 1) div 2) * 4096 < 2 ^ 64" using Suc.prems(2) by simp
  from Suc.IH [OF r(1) this]
  have IH: "length ps' = k" "length bms' = k"
      "\<And>j. j < k \<Longrightarrow> unat ((sp + 1) div 2) * 4096 \<le> 2 ^ j * length (bms' ! j)
        \<and> 8 dvd length (bms' ! j) \<and> set (bms' ! j) \<subseteq> {0xff}"
    by blast+
  have "unat sp * 4096 \<le> 2 ^ j * length (bms ! j) \<and> 8 dvd length (bms ! j) \<and> set (bms ! j) \<subseteq> {0xff}"
    if "j < Suc k" for j
  proof (cases j)
    case 0
    then show ?thesis by (auto simp: r(3) len)
  next
    case (Suc i)
    then have i: "unat ((sp + 1) div 2) * 4096 \<le> 2 ^ i * length (bms' ! i)"
        "8 dvd length (bms' ! i)" "set (bms' ! i) \<subseteq> {0xff}"
      using IH(3) [of i] that by simp_all
    have "unat sp * 4096 \<le> 2 * (unat ((sp + 1) div 2) * 4096)" unfolding half by linarith
    also have "\<dots> \<le> 2 * (2 ^ i * length (bms' ! i))" using i(1) by (rule mult_left_mono) simp
    finally have "unat sp * 4096 \<le> 2 ^ Suc i * length (bms' ! i)" by (simp add: mult.assoc)
    then show ?thesis using i(2,3) by (simp add: r(3) Suc)
  qed
  with IH r show ?case by simp
qed simp

lemma bm_bit_ones:
  assumes "set bm \<subseteq> {0xff}" and "i < 8 * length bm"
  shows "bm_bit bm i"
proof -
  have "i div 8 < length bm" using assms(2) by auto
  then have "bm ! (i div 8) = - 1" using assms(1) nth_mem by fastforce
  then show ?thesis by (simp add: bm_bit_def)
qed

section \<open>The blocks\<close>

definition region_ok :: "BootMemRegion \<Rightarrow> bool" where
  "region_ok r \<longleftrightarrow> PAGESIZE \<le> r_size r \<and> unat (r_base r) + unat (r_size r) < 2 ^ 64"

definition region_apart :: "BootMemRegion \<Rightarrow> BootMemRegion \<Rightarrow> bool" where
  "region_apart r q \<longleftrightarrow> unat (r_base r) + unat (r_size r) \<le> unat (r_base q)
     \<or> unat (r_base q) + unat (r_size q) \<le> unat (r_base r)"

text \<open>The regions of the memory map: those before the first one of size 0.\<close>

definition map_regions :: "BootMemRegion list \<Rightarrow> BootMemRegion list" where
  "map_regions mem_map = takeWhile (\<lambda>r. r_size r \<noteq> 0) mem_map"

definition fresh_block :: "BootMemRegion \<Rightarrow> PhysicalMemoryBlock \<Rightarrow> bool" where
  "fresh_block r b \<longleftrightarrow> pb_base b = r_base r \<and> pb_npages b = r_size r div PAGESIZE
     \<and> block_ok b \<and> block_free b = {}"

lemma unat_bitmap_size:
  "unat ((sz div PAGESIZE + PAGESIZE * 8 - 1) div (PAGESIZE * 8)) = (unat sz div 4096 + 32767) div 32768"
proof -
  let ?np = "sz div PAGESIZE"
  have np: "unat ?np = unat sz div 4096" by (simp add: PAGESIZE_def unat_div)
  have "unat (?np + 32767) = unat ?np + 32767"
    using unat_bound_u64 [of sz] by (subst unat_add_u64) (auto simp: np)
  then have "unat ((?np + 32767) div 32768) = (unat ?np + 32767) div 32768"
    by (simp only: unat_div) simp
  moreover have "(?np + PAGESIZE * 8 - 1) div (PAGESIZE * 8) = (?np + 32767) div 32768" by (simp add: PAGESIZE_def add.commute)
  ultimately show ?thesis by (simp add: np)
qed

lemma fresh_blockI:
  assumes r: "region_ok r" and np: "np = r_size r div PAGESIZE"
    and init: "init_bitmaps PMB_MAX_ORDER ((np + PAGESIZE * 8 - 1) div (PAGESIZE * 8)) mf = Some (ptrs, bms, mf')"
  shows "fresh_block r \<lparr>pb_base = r_base r, pb_npages = np, pb_bitmap_ptr = ptrs, pb_bitmap = bms\<rparr>"
    (is "fresh_block r ?b")
proof -
  have np': "unat np = unat (r_size r) div 4096" by (simp add: np PAGESIZE_def unat_div)
  let ?sp = "(np + PAGESIZE * 8 - 1) div (PAGESIZE * 8)"
  have sp: "unat ?sp = (unat np + 32767) div 32768"
    unfolding np' using unat_bitmap_size [of "r_size r"] by (simp add: np)
  have "unat np * 4096 \<le> unat (r_size r)" unfolding np' by simp
  then have small: "unat (r_base r) + unat np * 4096 < 2 ^ 64" using r by (simp add: region_ok_def)
  have "(unat np + 32767) div 32768 * 32768 \<le> unat np + 32767" by simp
  with small have "unat ?sp * 4096 < 2 ^ 64" unfolding sp by simp
  from init_bitmaps_spec [OF init this]
  have bms: "length bms = PMB_MAX_ORDER"
      "\<And>j. j < PMB_MAX_ORDER \<Longrightarrow> unat ?sp * 4096 \<le> 2 ^ j * length (bms ! j)
         \<and> 8 dvd length (bms ! j) \<and> set (bms ! j) \<subseteq> {0xff}" by blast+
  have room: "unat np \<le> 8 * 2 ^ j * length (bms ! j)" if "j < PMB_MAX_ORDER" for j
  proof -
    have "unat np \<le> 8 * (unat ?sp * 4096)" unfolding sp by linarith
    also have "\<dots> \<le> 8 * (2 ^ j * length (bms ! j))"
      using bms(2) [OF that] by (intro mult_left_mono) simp_all
    finally show ?thesis by simp
  qed
  have zero: "0 < PMB_MAX_ORDER" by (simp add: PMB_MAX_ORDER_def)
  have set: "bm_bit (bms ! 0) i" if "i < 8 * length (bms ! 0)" for i
    using bms(2) [OF zero] that by (simp add: bm_bit_ones)
  have "block_ok ?b"
    using small bms(1) bms(2) [OF zero] room set by (simp add: block_ok_def)
  moreover have "block_free ?b = {}"
    using set room [OF zero] by (auto simp: block_free_def)
  ultimately show ?thesis by (simp add: fresh_block_def np)
qed

lemma init_blocks_spec:
  assumes "init_blocks mem_map bs tot mf = Some (bs', tot', mf')"
    and "\<forall>r \<in> set (map_regions mem_map). region_ok r"
  shows "\<exists>new. bs' = new @ drop (length (map_regions mem_map)) bs
    \<and> list_all2 fresh_block (map_regions mem_map) new"
  using assms
proof (induction mem_map arbitrary: bs tot mf bs' tot' mf')
  case (Cons r rs)
  show ?case
  proof (cases "r_size r = 0")
    case True
    with Cons.prems show ?thesis by (simp add: map_regions_def)
  next
    case False
    let ?np = "r_size r div PAGESIZE"
    obtain b cs where bs: "bs = b # cs" using Cons.prems False by (cases bs) auto
    obtain ptrs bms mf1 where i: "init_bitmaps PMB_MAX_ORDER ((?np + PAGESIZE * 8 - 1) div (PAGESIZE * 8)) mf = Some (ptrs, bms, mf1)"
      using Cons.prems(1) False by (auto simp: bs Let_def split: option.splits)
    obtain cs' tot2 mf2 where r: "init_blocks rs cs (tot + ?np) mf1 = Some (cs', tot2, mf2)"
        "bs' = \<lparr>pb_base = r_base r, pb_npages = ?np, pb_bitmap_ptr = ptrs, pb_bitmap = bms\<rparr> # cs'"
      using Cons.prems(1) False i by (auto simp: bs Let_def split: option.splits prod.splits)
    have regs: "map_regions (r # rs) = r # map_regions rs" using False by (simp add: map_regions_def)
    with Cons.prems(2) have "\<forall>q \<in> set (map_regions rs). region_ok q" and ok: "region_ok r" by auto
    from Cons.IH [OF r(1) this(1)] obtain new where
      "cs' = new @ drop (length (map_regions rs)) cs" "list_all2 fresh_block (map_regions rs) new"
      by blast
    moreover have "fresh_block r \<lparr>pb_base = r_base r, pb_npages = ?np, pb_bitmap_ptr = ptrs, pb_bitmap = bms\<rparr>"
      using ok i by (intro fresh_blockI) auto
    ultimately show ?thesis
      by (intro exI [where x = "\<lparr>pb_base = r_base r, pb_npages = ?np, pb_bitmap_ptr = ptrs, pb_bitmap = bms\<rparr> # new"])
        (simp add: regs bs r(2))
  qed
qed simp

lemma fresh_block_pages: "fresh_block r b \<Longrightarrow> block_pages b = region_pages r"
  by (auto simp: fresh_block_def block_pages_def region_pages_def page_at_def)

lemma fresh_block_apart:
  assumes "fresh_block r b" and "fresh_block q c" and "region_apart r q"
  shows "apart b c"
proof -
  have "unat (pb_npages b) * 4096 \<le> unat (r_size r)" "unat (pb_npages c) * 4096 \<le> unat (r_size q)"
    using assms(1,2) by (simp_all add: fresh_block_def PAGESIZE_def unat_div)
  then show ?thesis
    using assms by (auto simp: apart_def fresh_block_def in_block_iff region_apart_def)
qed

lemma fresh_blocks_apart:
  "list_all2 fresh_block rs bs \<Longrightarrow> sorted_wrt region_apart rs \<Longrightarrow> sorted_wrt apart bs"
proof (induction rule: list_all2_induct)
  case (Cons r rs b bs)
  have "apart b c" if c: "c \<in> set bs" for c
  proof -
    obtain q where "q \<in> set rs" "fresh_block q c"
      using list_all2_memberD [OF Cons.hyps(2) c] by blast
    then show ?thesis using Cons.prems Cons.hyps(1) by (auto intro: fresh_block_apart)
  qed
  with Cons show ?case by simp
qed simp

lemma ends_empty_append:
  "(\<forall>b \<in> set bs. pb_npages b \<noteq> 0) \<Longrightarrow> cs \<noteq> [] \<Longrightarrow> (\<forall>c \<in> set cs. pb_npages c = 0) \<Longrightarrow> ends_empty (bs @ cs)"
proof (induction bs)
  case Nil
  then show ?case by (cases cs) auto
qed auto

lemma init_blocks_ok:
  assumes "init_blocks mem_map bs tot mf = Some (bs', tot', mf')"
    and "\<forall>r \<in> set (map_regions mem_map). region_ok r"
    and "sorted_wrt region_apart (map_regions mem_map)"
    and "length (map_regions mem_map) < length bs" and "\<forall>b \<in> set bs. pb_npages b = 0"
  shows "blocks_ok bs' \<and> (\<Union>b \<in> set bs'. block_free b) = {}
    \<and> (\<Union>b \<in> set bs'. block_pages b) = (\<Union>r \<in> set (map_regions mem_map). region_pages r)"
proof -
  let ?rs = "map_regions mem_map"
  let ?zs = "drop (length ?rs) bs"
  obtain new where new: "bs' = new @ ?zs" "list_all2 fresh_block ?rs new"
    using init_blocks_spec [OF assms(1,2)] by blast
  have zs: "?zs \<noteq> []" "\<forall>z \<in> set ?zs. pb_npages z = 0"
    using assms(4,5) by (auto dest: in_set_dropD)
  have fresh: "\<exists>r \<in> set ?rs. fresh_block r b" if "b \<in> set new" for b
    using list_all2_memberD [OF new(2) that] .
  have pages: "pb_npages b \<noteq> 0" if b: "b \<in> set new" for b
  proof -
    obtain r where r: "r \<in> set ?rs" "fresh_block r b" using fresh [OF b] by blast
    then have "4096 \<le> unat (r_size r)"
      using assms(2) by (auto simp: region_ok_def PAGESIZE_def word_le_nat_alt)
    then have "unat (pb_npages b) \<noteq> 0"
      using r(2) by (simp add: fresh_block_def PAGESIZE_def unat_div)
    then show ?thesis by auto
  qed
  have empty: "apart b z" if "z \<in> set ?zs" for b z
    using that zs by (auto simp: apart_def not_in_empty_block)
  have "sorted_wrt apart ?zs"
    using empty [OF nth_mem] by (simp add: sorted_wrt_iff_nth_less)
  then have "sorted_wrt apart bs'"
    using fresh_blocks_apart [OF new(2) assms(3)] empty by (simp add: new(1) sorted_wrt_append)
  moreover have "ends_empty bs'" unfolding new(1) using pages zs by (intro ends_empty_append) auto
  moreover have "\<forall>b \<in> set bs'. pb_npages b \<noteq> 0 \<longrightarrow> block_ok b"
    using fresh zs by (auto simp: new(1) fresh_block_def)
  moreover have "(\<Union>b \<in> set new. block_pages b) = (\<Union>r \<in> set ?rs. region_pages r)"
  proof -
    have "map block_pages new = map region_pages ?rs"
      using list_all2_lengthD [OF new(2)] list_all2_nthD [OF new(2)]
      by (intro nth_equalityI) (simp_all add: fresh_block_pages)
    then have "set (map block_pages new) = set (map region_pages ?rs)" by simp
    then show ?thesis by simp
  qed
  moreover have "block_free b = {}" if "b \<in> set bs'" for b
    using that fresh zs by (auto simp: new(1) fresh_block_def)
  moreover have "(\<Union>b \<in> set ?zs. block_pages b) = {}" using zs by auto
  ultimately show ?thesis by (simp add: blocks_ok_def new(1))
qed

text \<open>With room for all bitmaps every early allocation succeeds, and the bitmaps are carved out of the
  free regions.\<close>

lemma init_blocks_room:
  "\<exists>r \<in> set mem_map. r_size r = 0 \<Longrightarrow> \<forall>r \<in> set (map_regions mem_map). region_ok r \<and> unat (r_size r) \<le> 2 ^ 45 \<Longrightarrow>
   length (map_regions mem_map) \<le> length bs \<Longrightarrow> \<forall>b \<in> set bs. pb_npages b = 0 \<Longrightarrow> early_ok mf \<Longrightarrow>
   early_room (sum_list (map region_need (map_regions mem_map)) * 4096) mf \<Longrightarrow>
     \<exists>bs' tot' mf'. init_blocks mem_map bs tot mf = Some (bs', tot', mf') \<and> carved (bitmap_areas bs') mf mf'"
proof (induction mem_map arbitrary: bs tot mf)
  case (Cons r rs)
  show ?case
  proof (cases "r_size r = 0")
    case True
    have "bitmap_areas bs = []" using Cons.prems(4) by (simp add: bitmap_areas_def)
    with True Cons.prems(5) show ?thesis by (simp add: carved_nil)
  next
    case False
    let ?np = "r_size r div PAGESIZE"
    let ?sp = "(?np + PAGESIZE * 8 - 1) div (PAGESIZE * 8)"
    have regs: "map_regions (r # rs) = r # map_regions rs" using False by (simp add: map_regions_def)
    then obtain b cs where bs: "bs = b # cs" using Cons.prems(3) by (cases bs) auto
    have sp: "unat ?sp = (unat (r_size r) div 4096 + 32767) div 32768" by (rule unat_bitmap_size)
    have need: "region_need r = bitmap_pages PMB_MAX_ORDER (unat ?sp)" by (simp only: region_need_def sp)
    have r: "region_ok r" "unat (r_size r) \<le> 2 ^ 45" using Cons.prems(2) by (simp_all add: regs)
    have "unat ?sp * 4096 < 2 ^ 31" using r(2) unfolding sp by simp
    moreover have "early_room (bitmap_pages PMB_MAX_ORDER (unat ?sp) * 4096 + sum_list (map region_need (map_regions rs)) * 4096) mf"
      using Cons.prems(6) by (simp only: regs list.map sum_list.Cons need distrib_right)
    ultimately obtain ps bms mf1 where i: "init_bitmaps PMB_MAX_ORDER ?sp mf = Some (ps, bms, mf1)"
        "carved (zip ps (map length bms)) mf mf1" "early_room (sum_list (map region_need (map_regions rs)) * 4096) mf1"
      using init_bitmaps_room [OF Cons.prems(5)] by blast
    have "\<exists>bs' tot' mf'. init_blocks rs cs (tot + ?np) mf1 = Some (bs', tot', mf') \<and> carved (bitmap_areas bs') mf1 mf'"
    proof (rule Cons.IH)
      show "\<exists>q \<in> set rs. r_size q = 0" using Cons.prems(1) False by auto
      show "\<forall>q \<in> set (map_regions rs). region_ok q \<and> unat (r_size q) \<le> 2 ^ 45" using Cons.prems(2) by (simp add: regs)
      show "length (map_regions rs) \<le> length cs" using Cons.prems(3) by (simp add: regs bs)
      show "\<forall>c \<in> set cs. pb_npages c = 0" using Cons.prems(4) by (simp add: bs)
      show "early_ok mf1" using i(2) by (simp add: carved_def)
    qed (rule i(3))
    then obtain cs' tot' mf' where rec: "init_blocks rs cs (tot + ?np) mf1 = Some (cs', tot', mf')"
        "carved (bitmap_areas cs') mf1 mf'" by blast
    let ?b = "\<lparr>pb_base = r_base r, pb_npages = ?np, pb_bitmap_ptr = ps, pb_bitmap = bms\<rparr>"
    have "init_blocks (r # rs) bs tot mf = Some (?b # cs', tot', mf')"
      using False by (simp add: bs Let_def i(1) rec(1))
    moreover have "4096 \<le> unat (r_size r)" using r(1) by (simp add: region_ok_def PAGESIZE_def word_le_nat_alt)
    then have "unat ?np \<noteq> 0" by (simp add: PAGESIZE_def unat_div)
    then have "bitmap_areas (?b # cs') = zip ps (map length bms) @ bitmap_areas cs'"
      by (auto simp: bitmap_areas_def)
    with carved_append [OF Cons.prems(5) i(2) rec(2)] have "carved (bitmap_areas (?b # cs')) mf mf'" by simp
    ultimately show ?thesis by blast
  qed
qed simp

text \<open>Freeing pages does not move the bitmaps.\<close>

lemma lengths_clear_orders: "map length (clear_orders k j off bms) = map length bms"
proof (induction k j off bms rule: clear_orders.induct)
  case (2 k j off bms)
  have "map length (bms[j := clear_bit_at off (bms ! j)]) = map length bms"
    by (cases "j < length bms") (simp_all add: map_update list_update_same_conv list_update_beyond)
  with 2 show ?case by (simp add: Let_def)
qed simp

lemma bitmap_areas_mark: "bitmap_areas (pm_blocks (mark_page_free page a)) = bitmap_areas (pm_blocks a)"
proof -
  have "bitmap_areas (upd_block_of (clear_orders k 0) page bs) = bitmap_areas bs" for k bs
    by (induction bs) (auto simp: bitmap_areas_def lengths_clear_orders)
  then show ?thesis by (simp add: mark_page_free_def)
qed

lemma bitmap_areas_region: "bitmap_areas (pm_blocks (free_region r a)) = bitmap_areas (pm_blocks a)"
  unfolding free_region_def
  by (rule for_n_invariant [where P = "\<lambda>i s. bitmap_areas (pm_blocks s) = bitmap_areas (pm_blocks a)"])
    (simp_all add: bitmap_areas_mark)

lemma bitmap_areas_regions: "bitmap_areas (pm_blocks (fold free_region rs a)) = bitmap_areas (pm_blocks a)"
  by (induction rs arbitrary: a) (simp_all add: bitmap_areas_region)

lemma region_page_bytes:
  assumes "unat (r_base r) + unat (r_size r) \<le> 2 ^ 39" and "q \<in> region_pages r"
  shows "{x. in_range q 4096 x} \<subseteq> region_bytes r \<and> unat q + 4096 \<le> 2 ^ 39"
proof -
  obtain j where j: "j < unat (r_size r) div 4096" "q = r_base r + of_nat j * PAGESIZE"
    using assms(2) by (auto simp: region_pages_def unat_div PAGESIZE_def)
  have q: "q = r_base r + of_nat (j * 4096)" by (simp add: j(2) PAGESIZE_def)
  have le: "j * 4096 + 4096 \<le> unat (r_size r)" using j(1) by linarith
  have "unat q = unat (r_base r) + j * 4096" unfolding q using le assms(1) by (intro unat_add_nat) simp
  with le assms(1) have "unat q + 4096 \<le> 2 ^ 39" by linarith
  moreover have "in_range (r_base r) (unat (r_size r)) x" if "in_range q 4096 x" for x
    using in_subrange [OF le _ that [unfolded q]] unat_bound_u64 [of "r_size r"] by simp
  ultimately show ?thesis by (auto simp: region_bytes_def)
qed

lemma carved_apart_page:
  assumes ok: "early_ok mf" and c: "carved as mf mf'" and a: "a \<in> set as" and q: "q \<in> (\<Union>r \<in> set (take 32 mf'). region_pages r)"
  shows "areas_apart a (physical_to_virtual q, 4096)"
proof -
  have m: "early_bytes mf' \<subseteq> early_bytes mf" and ok': "early_ok mf'"
    and sub: "{x. in_range (fst a) (snd a) x} \<subseteq> physical_to_virtual ` (early_bytes mf - early_bytes mf')"
    using c a by (simp_all add: carved_def)
  obtain r where r: "r \<in> set (take 32 mf')" "q \<in> region_pages r" using q by blast
  then have "unat (r_base r) + unat (r_size r) \<le> 2 ^ 39" using ok' by (simp add: early_ok_def)
  note page = region_page_bytes [OF this r(2)]
  have "{x. in_range (physical_to_virtual q) 4096 x} \<subseteq> physical_to_virtual ` {x. in_range q 4096 x}"
    using page by (intro direct_bytes) simp
  also have "\<dots> \<subseteq> physical_to_virtual ` early_bytes mf'"
    using page r(1) unfolding early_bytes_def by (intro image_mono) blast
  finally have sub': "{x. in_range (physical_to_virtual q) 4096 x} \<subseteq> physical_to_virtual ` early_bytes mf'" .
  have "(early_bytes mf - early_bytes mf') \<inter> early_bytes mf' = {}" by blast
  then have "physical_to_virtual ` (early_bytes mf - early_bytes mf') \<inter> physical_to_virtual ` early_bytes mf' = {}"
    using inj_on_image_Int [OF direct_inj [OF ok], of "early_bytes mf - early_bytes mf'" "early_bytes mf'"] m by (simp add: Diff_subset)
  with sub sub' have "{x. in_range (fst a) (snd a) x} \<inter> {x. in_range (physical_to_virtual q) 4096 x} = {}"
    by (metis inf_mono subset_empty)
  then show ?thesis unfolding areas_apart_def by (simp add: set_eq_iff)
qed

section \<open>Freeing the regions\<close>

lemma page_product_32: "ucast (of_nat i * 4096 :: u32) = (of_nat (i mod 2 ^ 20) * PAGESIZE :: u64)"
proof -
  have "(of_nat i * 4096 :: u32) = of_nat (i * 4096)" by simp
  moreover have "i * 4096 mod 2 ^ 32 = (i mod 2 ^ 20) * 4096"
    using mult_mod_left [of i "2 ^ 20 :: nat" 4096] by simp
  then have "unat (of_nat (i * 4096) :: u32) = (i mod 2 ^ 20) * 4096"
    by (simp add: unat_of_nat take_bit_eq_mod del: of_nat_mult)
  moreover have "i mod 2 ^ 20 < 2 ^ 20" by simp
  then have "i mod 2 ^ 20 * 4096 < 2 ^ 20 * 4096" by (rule mult_strict_right_mono) simp
  then have "i mod 2 ^ 20 * 4096 < 2 ^ 64" by (rule order_less_trans) simp
  then have "unat (of_nat ((i mod 2 ^ 20) * 4096) :: u64) = (i mod 2 ^ 20) * 4096"
    by (rule unat_of_nat_u64)
  ultimately have "ucast (of_nat i * 4096 :: u32) = (of_nat ((i mod 2 ^ 20) * 4096) :: u64)"
    by (simp add: word_unat_eq_iff unsigned_ucast_eq take_bit_nat_eq_self del: of_nat_mult)
  then show ?thesis by (simp add: PAGESIZE_def)
qed

text \<open>The pages of a region the loop reaches: the 32-bit product wraps after \<open>2 ^ 20\<close> pages.\<close>

definition reached_pages :: "BootMemRegion \<Rightarrow> u64 set" where
  "reached_pages r = (\<lambda>j. r_base r + of_nat j * PAGESIZE) ` {..<min (2 ^ 20) (unat (r_size r div PAGESIZE))}"

lemma reached_pages_region: "reached_pages r \<subseteq> region_pages r"
  by (auto simp: reached_pages_def region_pages_def)

lemma reached_pages_4GiB: "r_size r \<le> 0x100000000 \<Longrightarrow> reached_pages r = region_pages r"
proof -
  assume "r_size r \<le> 0x100000000"
  then have "unat (r_size r div PAGESIZE) \<le> 2 ^ 20"
    by (simp add: unat_div PAGESIZE_def word_le_nat_alt)
  then show ?thesis by (simp add: reached_pages_def region_pages_def min_absorb2)
qed

lemma image_mod_Suc:
  assumes "(0::nat) < m"
  shows "insert (f (i mod m)) (f ` {..<min m i}) = f ` {..<min m (Suc i)}"
proof (cases "i < m")
  case True
  then have "min m i = i" "min m (Suc i) = Suc i" by auto
  with True show ?thesis by (simp add: lessThan_Suc)
next
  case False
  then have "min m i = m" "min m (Suc i) = m" by auto
  moreover have "i mod m \<in> {..<m}" using assms by simp
  ultimately show ?thesis by (auto simp del: mod_less)
qed

lemma free_region_spec:
  assumes "pm_inv a" and "region_pages r \<subseteq> all_pages a"
  shows "free_pages (free_region r a) = free_pages a \<union> reached_pages r
    \<and> pm_inv (free_region r a) \<and> all_pages (free_region r a) = all_pages a
    \<and> pages_free (free_region r a) = pages_free a + r_size r div PAGESIZE"
proof -
  let ?n = "unat (r_size r div PAGESIZE)"
  let ?f = "\<lambda>j a. (mark_page_free (r_base r + ucast (of_nat j * 4096 :: u32)) a) \<lparr>pages_free := pages_free a + 1\<rparr>"
  let ?p = "\<lambda>j. r_base r + of_nat j * PAGESIZE"
  define D where "D i = ?p ` {..<min (2 ^ 20) i}" for i
  let ?P = "\<lambda>i s. free_pages s = free_pages a \<union> D i \<and> pm_inv s
      \<and> all_pages s = all_pages a \<and> pages_free s = pages_free a + of_nat i"
  have step: "?P (Suc i) (?f i s)" if i: "i < ?n" and s: "?P i s" for i s
  proof -
    let ?i = "i mod 2 ^ 20"
    have addr: "r_base r + ucast (of_nat i * 4096 :: u32) = ?p ?i" by (simp add: page_product_32)
    have "?i < ?n" using i by (meson le_less_trans mod_less_eq_dividend)
    then have "?p ?i \<in> region_pages r" by (auto simp: region_pages_def)
    then have "?p ?i \<in> all_pages s" using assms(2) s by blast
    from mark_page_free_spec [OF _ this] s
    have "free_pages (?f i s) = insert (?p ?i) (free_pages s)" "pm_inv (?f i s)" "all_pages (?f i s) = all_pages a"
      unfolding addr by simp_all
    moreover have "insert (?p ?i) (D i) = D (Suc i)"
      unfolding D_def by (rule image_mod_Suc) simp
    ultimately show ?thesis using s by simp blast
  qed
  have "D 0 = {}" by (simp add: D_def)
  then have "?P ?n (for_n ?n ?f a)"
    by (intro for_n_invariant [where P = ?P]) (use assms step in auto)
  then show ?thesis by (simp add: free_region_def reached_pages_def D_def)
qed

lemma free_regions_spec:
  assumes "pm_inv a" and "\<forall>r \<in> set rs. region_pages r \<subseteq> all_pages a"
  shows "free_pages (fold free_region rs a) = free_pages a \<union> (\<Union>r \<in> set rs. reached_pages r)
    \<and> pm_inv (fold free_region rs a) \<and> all_pages (fold free_region rs a) = all_pages a"
  using assms
proof (induction rs arbitrary: a)
  case (Cons r rs)
  from free_region_spec [of a r] Cons.prems
  have r: "pm_inv (free_region r a)" "all_pages (free_region r a) = all_pages a"
      "free_pages (free_region r a) = free_pages a \<union> reached_pages r" by auto
  with Cons.IH [of "free_region r a"] Cons.prems show ?case by (simp add: Un_assoc)
qed simp

text \<open>A free region of any size below 16 TiB: the loop marks free only the pages in its first
  4 GiB (the product \<open>j * PAGESIZE\<close> is computed in 32 bits), while the count of free pages grows by
  all of them.\<close>

theorem free_region_first_4GiB:
  assumes "pm_inv a" and "region_pages r \<subseteq> all_pages a"
  shows "free_pages (free_region r a) = free_pages a \<union> reached_pages r
    \<and> pages_free (free_region r a) = pages_free a + r_size r div PAGESIZE
    \<and> reached_pages r \<subseteq> {p. p - r_base r < 0x100000000}"
proof -
  have "of_nat j * PAGESIZE < (0x100000000 :: u64)" if "j < 2 ^ 20" for j
  proof -
    have "j * 4096 < 2 ^ 32" using that by simp
    then have "unat (of_nat (j * 4096) :: u64) < 2 ^ 32" by (subst unat_of_nat_u64) auto
    then show ?thesis by (simp add: PAGESIZE_def word_less_nat_alt)
  qed
  then have "reached_pages r \<subseteq> {p. p - r_base r < 0x100000000}" by (auto simp: reached_pages_def)
  with free_region_spec [OF assms] show ?thesis by blast
qed

lemma region_pages_small:
  "r_size r div PAGESIZE = of_nat n \<Longrightarrow> n < 2 ^ 64 \<Longrightarrow>
     region_pages r = (\<lambda>j. r_base r + of_nat j * PAGESIZE) ` {..<n}"
  by (simp add: region_pages_def unat_of_nat_u64)

lemma free_region_first_4GiB_witness:
  "free_pages (free_region \<lparr>r_base = 0x1000000, r_size = 0x2fff\<rparr> sample_allocator) = {0x1000000, 0x1001000}"
proof -
  have r: "region_pages \<lparr>r_base = 0x1000000, r_size = 0x2fff\<rparr> = {0x1000000, 0x1001000}"
    by (subst region_pages_small [where n = 2]) (auto simp: PAGESIZE_def lessThan_nat_numeral)
  then have "region_pages \<lparr>r_base = 0x1000000, r_size = 0x2fff\<rparr> \<subseteq> all_pages sample_allocator"
    using free_subset_all [of sample_allocator] by (simp add: sample_free_pages)
  from free_region_first_4GiB [OF sample_allocator_inv this] r
    reached_pages_region [of "\<lparr>r_base = 0x1000000, r_size = 0x2fff\<rparr>"]
  show ?thesis by (auto simp: sample_free_pages)
qed

text \<open>C10. \<open>init_physical_memory\<close> establishes the allocator. Let the memory map end with a region of
  size 0 and have fewer regions than there are blocks, of a page to 32 TiB, that do not overlap; let the
  first 32 free regions not overlap, lie below 512 GiB and in pages of the map, be at most 4 GiB each, and
  one of them have room for all the bitmaps (\<open>region_need\<close>). Then no early allocation fails, and the call
  ends with the invariant, the pages of the map as the allocator's pages, and exactly the pages of what the
  early allocations left of the free regions as its free pages. The bitmaps lie in memory that was taken
  from the free regions, no two of them overlap, and none overlaps a free page, so no page the allocator
  hands out is part of a bitmap.\<close>

theorem init_establishes_allocator:
  assumes "\<exists>r \<in> set mem_map. r_size r = 0"
    and "\<forall>r \<in> set (map_regions mem_map). region_ok r \<and> unat (r_size r) \<le> 2 ^ 45"
    and "sorted_wrt region_apart (map_regions mem_map)"
    and "length (map_regions mem_map) < length (pm_blocks a)" and "\<forall>b \<in> set (pm_blocks a). pb_npages b = 0"
    and "early_ok mem_free" and "early_room (sum_list (map region_need (map_regions mem_map)) * 4096) mem_free"
    and "\<forall>r \<in> set (take 32 mem_free). r_size r \<le> 0x100000000
      \<and> region_pages r \<subseteq> (\<Union>q \<in> set (map_regions mem_map). region_pages q)"
  shows "\<exists>a' mf. init_physical_memory mem_map mem_free a = Some (a', mf)
    \<and> pm_inv a' \<and> all_pages a' = (\<Union>q \<in> set (map_regions mem_map). region_pages q)
    \<and> list_all2 shrinks (take 32 mem_free) (take 32 mf) \<and> free_pages a' = (\<Union>r \<in> set (take 32 mf). region_pages r)
    \<and> sorted_wrt areas_apart (bitmap_areas (pm_blocks a'))
    \<and> (\<forall>c \<in> set (bitmap_areas (pm_blocks a')).
          {x. in_range (fst c) (snd c) x} \<subseteq> physical_to_virtual ` (early_bytes mem_free - early_bytes mf)
        \<and> (\<forall>q \<in> free_pages a'. areas_apart c (physical_to_virtual q, 4096)))"
proof -
  have ok: "\<forall>r \<in> set (map_regions mem_map). region_ok r" using assms(2) by blast
  obtain bs tot mf where b: "init_blocks mem_map (pm_blocks a) (pages_total a) mem_free = Some (bs, tot, mf)"
      "carved (bitmap_areas bs) mem_free mf"
    using init_blocks_room [OF assms(1,2) _ assms(5-7)] assms(4) by (meson less_imp_le)
  let ?a = "a\<lparr>pm_blocks := bs, pages_total := tot\<rparr>"
  let ?a' = "fold free_region (take 32 mf) ?a"
  have i: "init_physical_memory mem_map mem_free a = Some (?a', mf)" by (simp add: init_physical_memory_def b(1))
  have a: "pm_inv ?a" "free_pages ?a = {}" "all_pages ?a = (\<Union>q \<in> set (map_regions mem_map). region_pages q)"
    using init_blocks_ok [OF b(1) ok assms(3-5)] by (simp_all add: pm_inv_def free_pages_def all_pages_def)
  have sh: "list_all2 shrinks (take 32 mem_free) (take 32 mf)" using b(2) by (simp add: carved_def)
  have small: "r_size r \<le> 0x100000000 \<and> region_pages r \<subseteq> all_pages ?a" if "r \<in> set (take 32 mf)" for r
  proof -
    obtain q where q: "q \<in> set (take 32 mem_free)" "shrinks q r" using list_all2_memberD [OF sh \<open>r \<in> _\<close>] by blast
    with assms(8) shrinks_pages [OF q(2)] shrinks_size [OF q(2)] show ?thesis unfolding a(3) by fastforce
  qed
  then have "(\<Union>r \<in> set (take 32 mf). reached_pages r) = (\<Union>r \<in> set (take 32 mf). region_pages r)"
    by (simp add: reached_pages_4GiB)
  with free_regions_spec [of ?a "take 32 mf"] a small
  have f: "pm_inv ?a'" "all_pages ?a' = (\<Union>q \<in> set (map_regions mem_map). region_pages q)"
      "free_pages ?a' = (\<Union>r \<in> set (take 32 mf). region_pages r)" by simp_all
  have areas: "bitmap_areas (pm_blocks ?a') = bitmap_areas bs" by (simp add: bitmap_areas_regions)
  have page: "areas_apart c (physical_to_virtual q, 4096)" if "c \<in> set (bitmap_areas (pm_blocks ?a'))" "q \<in> free_pages ?a'" for c q
    using carved_apart_page [OF assms(6) b(2)] that unfolding f(3) areas by blast
  have "sorted_wrt areas_apart (bitmap_areas (pm_blocks ?a'))"
    and "\<forall>c \<in> set (bitmap_areas (pm_blocks ?a')). {x. in_range (fst c) (snd c) x} \<subseteq> physical_to_virtual ` (early_bytes mem_free - early_bytes mf)"
    using b(2) unfolding carved_def areas by simp_all
  then show ?thesis
    by (intro exI [where x = ?a'] exI [where x = mf] conjI ballI i f sh page) (auto dest: bspec)
qed

lemma init_bitmaps_numeral:
  "init_bitmaps (numeral k) size_pages mem_free =
     (if \<not> early_found (c_int size_pages) mem_free then None
      else let (p, mf1) = alloc_phys_early (c_int size_pages) mem_free
           in case init_bitmaps (pred_numeral k) ((size_pages + 1) div 2) mf1 of
                None \<Rightarrow> None
              | Some (ps, bms, mf2) \<Rightarrow>
                  Some (physical_to_virtual p # ps, replicate (unat (size_pages * PAGESIZE)) 0xff # bms, mf2))"
  by (simp add: numeral_eq_Suc)

lemma replicate_8_16: "replicate 16 x = x # x # replicate 14 x"
  by (simp add: numeral_eq_Suc)

lemma bitmap_pages_numeral: "bitmap_pages (numeral k) n = n + bitmap_pages (pred_numeral k) ((n + 1) div 2)"
  by (simp add: numeral_eq_Suc)

definition sample_empty_block :: PhysicalMemoryBlock where
  "sample_empty_block = \<lparr>pb_base = 0, pb_npages = 0, pb_bitmap_ptr = [], pb_bitmap = []\<rparr>"

lemma init_establishes_allocator_witness:
  "\<exists>a'. init_physical_memory [\<lparr>r_base = 0x100000, r_size = 0xa000\<rparr>, \<lparr>r_base = 0, r_size = 0\<rparr>]
      [\<lparr>r_base = 0x100000, r_size = 0xa000\<rparr>]
      \<lparr>pm_blocks = replicate PMB_COUNT sample_empty_block, pages_total = 0, pages_free = 0\<rparr>
      = Some (a', [\<lparr>r_base = 0x108000, r_size = 0x2000\<rparr>])
    \<and> pm_inv a' \<and> free_pages a' = {0x108000, 0x109000} \<and> sorted_wrt areas_apart (bitmap_areas (pm_blocks a'))"
proof -
  let ?r = "\<lparr>r_base = 0x100000, r_size = 0xa000\<rparr>"
  let ?q = "\<lparr>r_base = 0x108000, r_size = 0x2000\<rparr>"
  let ?map = "[?r, \<lparr>r_base = 0, r_size = 0\<rparr>]"
  let ?a = "\<lparr>pm_blocks = replicate PMB_COUNT sample_empty_block, pages_total = 0, pages_free = 0\<rparr>"
  have "\<exists>bs tot. init_blocks ?map (pm_blocks ?a) 0 [?r] = Some (bs, tot, [?q])"
    by (simp add: PMB_COUNT_def PAGESIZE_def Let_def PMB_MAX_ORDER_def init_bitmaps_numeral
        replicate_8_16 alloc_phys_early_def early_found_def c_int_def del: replicate.simps)
  then obtain a2 where i: "init_physical_memory ?map [?r] ?a = Some (a2, [?q])"
    by (auto simp: init_physical_memory_def)
  have m: "map_regions ?map = [?r]" by (simp add: map_regions_def)
  have need: "region_need ?r = 8" by (simp add: region_need_def PMB_MAX_ORDER_def bitmap_pages_numeral)
  have p: "\<exists>a' mf. init_physical_memory ?map [?r] ?a = Some (a', mf)
    \<and> pm_inv a' \<and> all_pages a' = (\<Union>q \<in> set (map_regions ?map). region_pages q)
    \<and> list_all2 shrinks (take 32 [?r]) (take 32 mf) \<and> free_pages a' = (\<Union>r \<in> set (take 32 mf). region_pages r)
    \<and> sorted_wrt areas_apart (bitmap_areas (pm_blocks a'))
    \<and> (\<forall>c \<in> set (bitmap_areas (pm_blocks a')).
          {x. in_range (fst c) (snd c) x} \<subseteq> physical_to_virtual ` (early_bytes [?r] - early_bytes mf)
        \<and> (\<forall>q \<in> free_pages a'. areas_apart c (physical_to_virtual q, 4096)))"
    by (rule init_establishes_allocator)
      (simp_all add: m need region_ok_def PAGESIZE_def PMB_COUNT_def sample_empty_block_def early_ok_def early_room_def)
  then obtain a' where a': "init_physical_memory ?map [?r] ?a = Some (a', [?q])" "pm_inv a'"
      "free_pages a' = region_pages ?q" "sorted_wrt areas_apart (bitmap_areas (pm_blocks a'))"
    using i by auto
  have "region_pages ?q = (\<lambda>j. 0x108000 + of_nat j * PAGESIZE) ` {..<2}"
    by (subst region_pages_small [where n = 2]) (simp_all add: PAGESIZE_def)
  then have "region_pages ?q = {0x108000, 0x109000}"
    by (auto simp: PAGESIZE_def lessThan_nat_numeral)
  with a' show ?thesis by auto
qed

end
