(* ===== verification/Mmap.thy ===== *)
theory Mmap
  imports PhysMem CString
begin

text \<open>
  Paging (src/kernel/mem/mmap.c) and the I/O window (src/kernel/mem/alloc_io.c): the page
  table iterator, a coroutine in the code, as a state machine that yields one run of entries
  per call, the loops that drive it, and the mapping operations on the kernel state. The
  driving loop terminates for every iterator state, by a lexicographic measure.
\<close>

section \<open>Kernel state\<close>

text \<open>
  The fields of \<open>gKernel\<close> the memory code uses, the byte memory and the register CR3. Pointers
  into the direct map (\<open>physical_to_virtual\<close>) and pointers into the heap or the I/O window are
  addresses of \<open>memory\<close>. \<open>gKernel.cr3\<close> is a physical address used as a pointer: the code reads
  it through the identity mapping of low memory, here through the direct map of the same page.
\<close>

record Kernel =
  pmem :: PhysicalMemoryAllocator
  heap_size :: u64
  io_size :: u64
  nx_mask :: u64
  k_cr3 :: u64
  memory :: mem
  hw_cr3 :: u64

definition X86_PAGE_PRESENT :: u64 where "X86_PAGE_PRESENT = 0x01"
definition X86_PAGE_WRITE :: u64 where "X86_PAGE_WRITE = 0x02"
definition X86_PAGE_USER :: u64 where "X86_PAGE_USER = 0x04"
definition X86_PAGE_LARGE :: u64 where "X86_PAGE_LARGE = 0x80"
definition MMASK_PHYS :: u64 where "MMASK_PHYS = 0x7ffffffffffff000"
definition KPROT_READ :: u32 where "KPROT_READ = 1"
definition KPROT_WRITE :: u32 where "KPROT_WRITE = 2"
definition KPROT_EXECUTE :: u32 where "KPROT_EXECUTE = 4"
definition KPROT_USER :: u32 where "KPROT_USER = 8"
definition IO_BASE :: u64 where "IO_BASE = 0xffffc00000000000"

text \<open>Element \<open>i\<close> of an array of 64-bit words.\<close>

definition slot :: "u64 \<Rightarrow> nat \<Rightarrow> u64" where
  "slot dir i = dir + 8 * of_nat i"

section \<open>The iterator\<close>

text \<open>
  \<open>PageIterator\<close>: the arrays as functions of the level. \<open>index\<close>, \<open>len_current\<close> and the lower
  \<open>dir\<close> entries are written before they are read, so they start as 0 here.
\<close>

record PageIterator =
  it_dir :: "nat \<Rightarrow> u64"
  it_offset :: "nat \<Rightarrow> int"
  it_len :: "nat \<Rightarrow> int"
  it_len_current :: "nat \<Rightarrow> int"
  it_index :: "nat \<Rightarrow> int"
  it_state :: nat

definition page_iter_create :: "u64 \<Rightarrow> u64 \<Rightarrow> u64 \<Rightarrow> PageIterator" where
  "page_iter_create cr3 vaddr len =
     (let vpage = drop_bit 12 vaddr;
          vlen = drop_bit 12 (len + 4095)
      in \<lparr>it_dir = (\<lambda>_. 0)(3 := physical_to_virtual cr3),
          it_offset = (\<lambda>i. c_int (drop_bit (9 * i) vpage mod 512)),
          it_len = (\<lambda>i. c_int (drop_bit (9 * i) (vlen + push_bit (9 * i) 1 - 1))),
          it_len_current = (\<lambda>_. 0), it_index = (\<lambda>_. 0), it_state = 0\<rparr>)"

definition iter_compute_dir :: "mem \<Rightarrow> u64 \<Rightarrow> int \<Rightarrow> int \<Rightarrow> u64" where
  "iter_compute_dir m dir index offset =
     physical_to_virtual (load64 m (slot dir (nat (offset + index))) AND MMASK_PHYS)"

definition iter_compute_len :: "int \<Rightarrow> int \<Rightarrow> int" where
  "iter_compute_len len offset = (if len + offset > 512 then 512 else len + offset) - offset"

text \<open>The tables of level \<open>d\<close>, entered from entry \<open>index\<close> of level \<open>d + 1\<close>.\<close>

definition iter_enter :: "mem \<Rightarrow> nat \<Rightarrow> nat \<Rightarrow> PageIterator \<Rightarrow> PageIterator \<times> nat \<times> u64 \<times> int" where
  "iter_enter m d st it =
     (let dir = iter_compute_dir m (it_dir it (d + 1)) (it_index it (d + 1)) (it_offset it (d + 1));
          cur = iter_compute_len (it_len it d) (it_offset it d)
      in (it\<lparr>it_dir := (it_dir it)(d := dir), it_len_current := (it_len_current it)(d := cur),
             it_state := st\<rparr>,
          d, slot dir (nat (it_offset it d)), cur))"

text \<open>The code after the inner loop of level \<open>d\<close>.\<close>

definition iter_leave :: "nat \<Rightarrow> PageIterator \<Rightarrow> PageIterator" where
  "iter_leave d it =
     it\<lparr>it_len := (it_len it)(d := it_len it d - it_len_current it d),
        it_offset := (it_offset it)(d := 0),
        it_index := (it_index it)(d + 1 := it_index it (d + 1) + 1)\<rparr>"

definition iter_start :: "nat \<Rightarrow> PageIterator \<Rightarrow> PageIterator" where
  "iter_start d it = it\<lparr>it_index := (it_index it)(d := 0)\<rparr>"

text \<open>The heads of the three loops, outermost first; \<open>None\<close> is the return value 1.\<close>

definition iter_loop3 :: "mem \<Rightarrow> PageIterator \<Rightarrow> (PageIterator \<times> nat \<times> u64 \<times> int) option" where
  "iter_loop3 m it = (if it_index it 3 < it_len it 3 then Some (iter_enter m 2 2 it) else None)"

definition iter_loop2 :: "mem \<Rightarrow> PageIterator \<Rightarrow> (PageIterator \<times> nat \<times> u64 \<times> int) option" where
  "iter_loop2 m it =
     (if it_index it 2 < it_len it 2 then Some (iter_enter m 1 3 it)
      else iter_loop3 m (iter_leave 2 it))"

definition iter_loop1 :: "mem \<Rightarrow> PageIterator \<Rightarrow> (PageIterator \<times> nat \<times> u64 \<times> int) option" where
  "iter_loop1 m it =
     (if it_index it 1 < it_len it 1 then Some (iter_enter m 0 4 it)
      else iter_loop2 m (iter_leave 1 it))"

definition page_iter_next :: "mem \<Rightarrow> PageIterator \<Rightarrow> (PageIterator \<times> nat \<times> u64 \<times> int) option" where
  "page_iter_next m it =
     (if it_state it = 0 then
        Some (it\<lparr>it_state := 1\<rparr>, 3, slot (it_dir it 3) (nat (it_offset it 3)), it_len it 3)
      else if it_state it = 1 then iter_loop3 m (iter_start 3 it)
      else if it_state it = 2 then iter_loop2 m (iter_start 2 it)
      else if it_state it = 3 then iter_loop1 m (iter_start 1 it)
      else if it_state it = 4 then iter_loop1 m (iter_leave 0 it)
      else None)"

section \<open>The driving loop\<close>

text \<open>
  \<open>while (page_iter_next(...) == 0) body\<close>. The loops of the code differ only in the body;
  \<open>get\<close> is the memory of the state.
\<close>

definition iter_rank3 :: "PageIterator \<Rightarrow> nat" where
  "iter_rank3 it = (if it_state it = 0 then nat (it_len it 3) + 2
     else if it_state it = 1 then nat (it_len it 3) + 1 else nat (it_len it 3 - it_index it 3))"

definition iter_rank2 :: "PageIterator \<Rightarrow> nat" where
  "iter_rank2 it = (if it_state it = 2 then nat (it_len it 2) + 1 else nat (it_len it 2 - it_index it 2))"

definition iter_rank1 :: "PageIterator \<Rightarrow> nat" where
  "iter_rank1 it = (if it_state it = 3 then nat (it_len it 1) + 1 else nat (it_len it 1 - it_index it 1))"

lemmas iter_step_defs = iter_enter_def iter_leave_def iter_start_def Let_def
lemmas iter_rank_defs = iter_rank1_def iter_rank2_def iter_rank3_def

lemma iter_loop3_decreases:
  assumes "iter_loop3 m it = Some (it', r)"
  shows "it_state it' = 2 \<and> it_len it' 3 = it_len it 3 \<and> it_index it' 3 = it_index it 3 \<and> it_index it 3 < it_len it 3"
  using assms by (auto simp: iter_loop3_def iter_step_defs split: if_splits)

lemma iter_loop2_decreases:
  assumes "iter_loop2 m it = Some (it', r)"
  shows "it_len it' 3 = it_len it 3 \<and>
     (it_state it' = 3 \<and> it_index it' 3 = it_index it 3 \<and> it_len it' 2 = it_len it 2
        \<and> it_index it' 2 = it_index it 2 \<and> it_index it 2 < it_len it 2
      \<or> it_state it' = 2 \<and> it_index it' 3 = it_index it 3 + 1 \<and> it_index it 3 + 1 < it_len it 3)"
proof (cases "it_index it 2 < it_len it 2")
  case True
  with assms show ?thesis by (auto simp: iter_loop2_def iter_step_defs)
next
  case False
  with assms have "iter_loop3 m (iter_leave 2 it) = Some (it', r)" by (simp add: iter_loop2_def)
  from iter_loop3_decreases [OF this] show ?thesis by (auto simp: iter_leave_def)
qed

lemma iter_loop1_decreases:
  assumes "iter_loop1 m it = Some (it', r)"
  shows "it_len it' 3 = it_len it 3 \<and>
     (it_state it' = 4 \<and> it_index it' 3 = it_index it 3 \<and> it_len it' 2 = it_len it 2 \<and> it_index it' 2 = it_index it 2
        \<and> it_len it' 1 = it_len it 1 \<and> it_index it' 1 = it_index it 1 \<and> it_index it 1 < it_len it 1
      \<or> it_state it' = 3 \<and> it_index it' 3 = it_index it 3 \<and> it_len it' 2 = it_len it 2
        \<and> it_index it' 2 = it_index it 2 + 1 \<and> it_index it 2 + 1 < it_len it 2
      \<or> it_state it' = 2 \<and> it_index it' 3 = it_index it 3 + 1 \<and> it_index it 3 + 1 < it_len it 3)"
proof (cases "it_index it 1 < it_len it 1")
  case True
  with assms show ?thesis by (auto simp: iter_loop1_def iter_step_defs)
next
  case False
  with assms have "iter_loop2 m (iter_leave 1 it) = Some (it', r)" by (simp add: iter_loop1_def)
  from iter_loop2_decreases [OF this] show ?thesis by (auto simp: iter_leave_def numeral_2_eq_2 [symmetric])
qed

lemma page_iter_next_decreases:
  assumes "page_iter_next m it = Some (it', r)"
  shows "(it', it) \<in> measures [iter_rank3, iter_rank2, iter_rank1]"
proof -
  consider "it_state it = 0" | "it_state it = 1" | "it_state it = 2" | "it_state it = 3" | "it_state it = 4"
    using assms by (auto simp: page_iter_next_def split: if_splits)
  then show ?thesis
  proof cases
    case 1
    with assms show ?thesis by (auto simp: page_iter_next_def iter_rank_defs)
  next
    case 2
    with assms have "iter_loop3 m (iter_start 3 it) = Some (it', r)" by (simp add: page_iter_next_def)
    from iter_loop3_decreases [OF this] 2 show ?thesis by (auto simp: iter_rank_defs iter_start_def)
  next
    case 3
    with assms have "iter_loop2 m (iter_start 2 it) = Some (it', r)" by (simp add: page_iter_next_def)
    from iter_loop2_decreases [OF this] 3 show ?thesis by (auto simp: iter_rank_defs iter_start_def)
  next
    case 4
    with assms have "iter_loop1 m (iter_start 1 it) = Some (it', r)" by (simp add: page_iter_next_def)
    from iter_loop1_decreases [OF this] 4 show ?thesis by (auto simp: iter_rank_defs iter_start_def)
  next
    case 5
    with assms have "iter_loop1 m (iter_leave 0 it) = Some (it', r)" by (simp add: page_iter_next_def)
    from iter_loop1_decreases [OF this] 5 show ?thesis by (auto simp: iter_rank_defs iter_leave_def)
  qed
qed

function page_walk :: "('s \<Rightarrow> mem) \<Rightarrow> (nat \<Rightarrow> u64 \<Rightarrow> int \<Rightarrow> 's \<Rightarrow> 's) \<Rightarrow> PageIterator \<Rightarrow> 's \<Rightarrow> 's" where
  "page_walk get body it s =
     (case page_iter_next (get s) it of
        None \<Rightarrow> s
      | Some (it', depth, dir, n) \<Rightarrow> page_walk get body it' (body depth dir n s))"
  by pat_completeness auto
termination
proof (relation "inv_image (measures [iter_rank3, iter_rank2, iter_rank1]) (\<lambda>(g, b, it, s). it)")
  fix get :: "'s \<Rightarrow> mem" and body it s a it' b depth c dir n
  assume "page_iter_next (get s) it = Some a" "(it', b) = a" "(depth, c) = b" "(dir, n) = c"
  then have "page_iter_next (get s) it = Some (it', depth, dir, n)" by auto
  from page_iter_next_decreases [OF this]
  show "((get, body, it', body depth dir n s), get, body, it, s)
      \<in> inv_image (measures [iter_rank3, iter_rank2, iter_rank1]) (\<lambda>(g, b, it, s). it)"
    by simp
qed simp

declare page_walk.simps [simp del]

lemma page_walk_preserve:
  assumes "\<And>d dir n s. p (body d dir n s) = p s"
  shows "p (page_walk get body it s) = p s"
  using assms
proof (induction get body it s rule: page_walk.induct)
  case (1 get body it s)
  show ?case
  proof (cases "page_iter_next (get s) it")
    case None
    then show ?thesis by (subst page_walk.simps) simp
  next
    case (Some r)
    obtain it' depth dir n where r: "r = (it', depth, dir, n)" by (cases r) auto
    from "1.IH" [OF Some r [symmetric] refl refl] 1(2) have "p (page_walk get body it' (body depth dir n s)) = p s" by simp
    with Some show ?thesis by (subst page_walk.simps) (simp add: r)
  qed
qed

section \<open>Operations\<close>

definition alloc_zero_page :: "Kernel \<Rightarrow> u64 \<times> Kernel" where
  "alloc_zero_page k =
     (let (page, a) = alloc_phys_pages 1 (pmem k)
      in (page, k\<lparr>pmem := a, memory := bzero (memory k) (physical_to_virtual page) PAGESIZE\<rparr>))"

definition page_prot_flags :: "u64 \<Rightarrow> u32 \<Rightarrow> u64" where
  "page_prot_flags nx prot =
     (if prot AND KPROT_WRITE \<noteq> 0 then X86_PAGE_WRITE else 0)
     OR (if prot AND KPROT_USER \<noteq> 0 then X86_PAGE_USER else 0)
     OR (if prot AND KPROT_EXECUTE = 0 then nx else 0)"

definition cr3_write :: "Kernel \<Rightarrow> Kernel" where
  "cr3_write k = k\<lparr>hw_cr3 := k_cr3 k\<rparr>"

definition kmprotect_entry :: "u64 \<Rightarrow> u64 \<Rightarrow> u64 \<Rightarrow> Kernel \<Rightarrow> Kernel" where
  "kmprotect_entry pmask flags p k =
     k\<lparr>memory := store64 (memory k) p ((load64 (memory k) p AND pmask) OR flags)\<rparr>"

definition kmprotect :: "u64 \<Rightarrow> u64 \<Rightarrow> u32 \<Rightarrow> Kernel \<Rightarrow> Kernel" where
  "kmprotect addr sz prot k =
     (let pmask = NOT (X86_PAGE_USER OR X86_PAGE_WRITE OR nx_mask k);
          flags = page_prot_flags (nx_mask k) prot
      in cr3_write (page_walk memory
           (\<lambda>depth dir n k. if depth = 0
              then for_n (nat n) (\<lambda>i. kmprotect_entry pmask flags (slot dir i)) k else k)
           (page_iter_create (k_cr3 k) addr sz) k))"

text \<open>An entry above the page tables gets a fresh zeroed table when it has none.\<close>

definition ensure_table :: "u64 \<Rightarrow> Kernel \<Rightarrow> Kernel" where
  "ensure_table p k =
     (if load64 (memory k) p AND X86_PAGE_PRESENT = 0
      then (let (page, k') = alloc_zero_page k
            in k'\<lparr>memory := store64 (memory k') p
                 (page OR (X86_PAGE_PRESENT OR X86_PAGE_WRITE OR X86_PAGE_USER))\<rparr>)
      else k)"

definition kmapanon_entry :: "u64 \<Rightarrow> u64 \<Rightarrow> Kernel \<Rightarrow> Kernel" where
  "kmapanon_entry flags p k =
     (let (page, k') = alloc_zero_page k
      in k'\<lparr>memory := store64 (memory k') p (page OR (X86_PAGE_PRESENT OR flags))\<rparr>)"

definition kmapanon :: "u64 \<Rightarrow> u64 \<Rightarrow> u32 \<Rightarrow> Kernel \<Rightarrow> u64 \<times> Kernel" where
  "kmapanon addr sz prot k =
     (let flags = page_prot_flags (nx_mask k) prot
      in (addr, cr3_write (page_walk memory
           (\<lambda>depth dir n. for_n (nat n) (\<lambda>i.
              if depth \<noteq> 0 then ensure_table (slot dir i) else kmapanon_entry flags (slot dir i)))
           (page_iter_create (k_cr3 k) addr sz) k)))"

definition io_alloc :: "u64 \<Rightarrow> Kernel \<Rightarrow> u64 \<times> Kernel" where
  "io_alloc sz k = (IO_BASE + io_size k, k\<lparr>io_size := io_size k + page_round sz\<rparr>)"

definition kmap_entry :: "u64 \<Rightarrow> u64 \<Rightarrow> Kernel \<times> u64 \<Rightarrow> Kernel \<times> u64" where
  "kmap_entry flags p = (\<lambda>(k, phys).
     (k\<lparr>memory := store64 (memory k) p (phys OR (X86_PAGE_PRESENT OR flags))\<rparr>, phys + PAGESIZE))"

definition kmap :: "u64 \<Rightarrow> u64 \<Rightarrow> u64 \<Rightarrow> u32 \<Rightarrow> Kernel \<Rightarrow> u64 \<times> Kernel" where
  "kmap addr phys sz prot k =
     (let flags = page_prot_flags (nx_mask k) prot;
          (addr, k) = (if addr = 0 then io_alloc sz k else (addr, k))
      in (addr, cr3_write (fst (page_walk (\<lambda>s. memory (fst s))
           (\<lambda>depth dir n. for_n (nat n) (\<lambda>i s.
              if depth \<noteq> 0 then (ensure_table (slot dir i) (fst s), snd s)
              else kmap_entry flags (slot dir i) s))
           (page_iter_create (k_cr3 k) addr sz) (k, phys AND NOT 0xfff)))))"

definition kunmap_entry :: "u64 \<Rightarrow> Kernel \<Rightarrow> Kernel" where
  "kunmap_entry p k =
     k\<lparr>pmem := free_phys_pages (load64 (memory k) p AND MMASK_PHYS) 1 (pmem k),
       memory := store64 (memory k) p 0\<rparr>"

definition kunmapanon :: "u64 \<Rightarrow> u64 \<Rightarrow> Kernel \<Rightarrow> Kernel" where
  "kunmapanon addr sz k =
     cr3_write (page_walk memory
       (\<lambda>depth dir n k. if depth = 0 then for_n (nat n) (\<lambda>i. kunmap_entry (slot dir i)) k else k)
       (page_iter_create (k_cr3 k) addr sz) k)"

definition set_kernel_half :: "Kernel \<Rightarrow> Kernel" where
  "set_kernel_half k =
     for_n 256 (\<lambda>j k. let p = slot (physical_to_virtual (k_cr3 k)) (256 + j) in
        if load64 (memory k) p AND X86_PAGE_PRESENT = 0
        then (let (page, k') = alloc_zero_page k
              in k'\<lparr>memory := store64 (memory k') p (page OR X86_PAGE_PRESENT OR X86_PAGE_USER)\<rparr>)
        else k) k"

primrec set_kernel_hierarchy_mem_prot :: "nat \<Rightarrow> u64 \<Rightarrow> mem \<Rightarrow> mem" where
  "set_kernel_hierarchy_mem_prot 0 dir m =
     for_n 512 (\<lambda>i m. if load64 m (slot dir i) AND X86_PAGE_PRESENT \<noteq> 0
       then store64 m (slot dir i) (load64 m (slot dir i) OR X86_PAGE_WRITE) else m) m"
| "set_kernel_hierarchy_mem_prot (Suc d) dir m =
     for_n 512 (\<lambda>i m. if load64 m (slot dir i) AND X86_PAGE_PRESENT \<noteq> 0
       then (let e = load64 m (slot dir i) OR X86_PAGE_WRITE
             in set_kernel_hierarchy_mem_prot d (physical_to_virtual (e AND MMASK_PHYS))
                  (store64 m (slot dir i) e))
       else m) m"

text \<open>The sections of the kernel image, placed by the linker.\<close>

record KernelSections =
  exec_start :: u64
  exec_end :: u64
  rodata_start :: u64
  rodata_end :: u64
  data_start :: u64
  data_end :: u64
  bss_start :: u64
  bss_end :: u64

definition init_kernel_mem_prot :: "KernelSections \<Rightarrow> Kernel \<Rightarrow> Kernel" where
  "init_kernel_mem_prot s k0 =
     (let k1 = set_kernel_half k0;
          top = load64 (memory k1) (slot (physical_to_virtual (k_cr3 k1)) 511);
          k2 = k1\<lparr>memory := set_kernel_hierarchy_mem_prot 2 (physical_to_virtual (top AND MMASK_PHYS)) (memory k1)\<rparr>;
          k3 = kmprotect (exec_start s) (exec_end s - exec_start s) (KPROT_READ OR KPROT_EXECUTE) k2;
          k4 = kmprotect (rodata_start s) (rodata_end s - rodata_start s) KPROT_READ k3;
          k5 = kmprotect (data_start s) (data_end s - data_start s) (KPROT_READ OR KPROT_WRITE) k4
      in kmprotect (bss_start s) (bss_end s - bss_start s) (KPROT_READ OR KPROT_WRITE) k5)"

end
