(* ===== verification/PageTree.thy ===== *)
theory PageTree
  imports Mmap
begin

text \<open>
  The page tables as a tree: which table a path of indices leads to, what it means for the
  tables, the free pages and the frames in use to be kept apart, and how each single step of
  the mapping operations (a new table, a leaf entry) acts on the tree.
\<close>

section \<open>Frames and entries\<close>

text \<open>A page frame the direct map reaches: the one top-level entry of the map covers 512 GiB.\<close>

definition is_frame :: "u64 \<Rightarrow> bool" where
  "is_frame t \<longleftrightarrow> unat t < 2 ^ 39 \<and> 4096 dvd unat t"

definition entry :: "mem \<Rightarrow> u64 \<Rightarrow> nat \<Rightarrow> u64" where
  "entry m t i = load64 m (slot (physical_to_virtual t) i)"

lemma frame_room: "unat t < 2 ^ 47 \<Longrightarrow> 4096 dvd unat t \<Longrightarrow> unat t + 4096 \<le> 2 ^ 47"
  by (auto simp: dvd_def)

lemma unat_slot:
  assumes "unat t < 2 ^ 47" and "4096 dvd unat t" and "i < 512"
  shows "unat (slot (physical_to_virtual t) i) = 0xffff800000000000 + unat t + 8 * i"
proof -
  have "unat (physical_to_virtual t) + 8 * i < 2 ^ 64"
    using assms frame_room [of t] by (simp add: unat_physical_to_virtual)
  from unat_add_nat [OF this] assms(1) show ?thesis
    by (simp add: slot_def unat_physical_to_virtual)
qed

lemma frame_gap:
  "is_frame t \<Longrightarrow> is_frame u \<Longrightarrow> t \<noteq> u \<Longrightarrow> unat t + 4096 \<le> unat u \<or> unat u + 4096 \<le> unat t"
proof -
  assume t: "is_frame t" and u: "is_frame u" and "t \<noteq> u"
  obtain a b where ab: "unat t = 4096 * a" "unat u = 4096 * b"
    using t u by (auto simp: is_frame_def dvd_def)
  with \<open>t \<noteq> u\<close> have "a \<noteq> b" by (auto simp: word_unat_eq_iff)
  with ab show ?thesis by (cases "a < b") auto
qed

lemma frame_room39: "is_frame t \<Longrightarrow> unat t + 4096 \<le> 2 ^ 39"
  by (auto simp: is_frame_def dvd_def)

lemma slots_disjoint:
  assumes "is_frame t" and "is_frame u" and "i < 512" and "j < 512" and "(t, i) \<noteq> (u, j)"
  shows "disjoint_ranges (slot (physical_to_virtual t) i) 8 (slot (physical_to_virtual u) j) 8"
proof (rule disjoint_ranges_unat)
  have u: "unat (slot (physical_to_virtual t) i) = 0xffff800000000000 + unat t + 8 * i"
      "unat (slot (physical_to_virtual u) j) = 0xffff800000000000 + unat u + 8 * j"
    using assms(1-4) by (simp_all add: unat_slot is_frame_def)
  have "unat t + 4096 \<le> 2 ^ 47" "unat u + 4096 \<le> 2 ^ 47"
    using frame_room39 [OF assms(1)] frame_room39 [OF assms(2)] by simp_all
  with assms(3,4) show "unat (slot (physical_to_virtual t) i) + 8 \<le> 2 ^ 64"
    "unat (slot (physical_to_virtual u) j) + 8 \<le> 2 ^ 64" by (simp_all add: u)
  show "unat (slot (physical_to_virtual t) i) + 8 \<le> unat (slot (physical_to_virtual u) j)
      \<or> unat (slot (physical_to_virtual u) j) + 8 \<le> unat (slot (physical_to_virtual t) i)"
  proof (cases "t = u")
    case True
    with assms(5) have "i < j \<or> j < i" by auto
    with True show ?thesis unfolding u by auto
  next
    case False
    with frame_gap [OF assms(1,2)] assms(3,4) show ?thesis unfolding u by auto
  qed
qed

lemma entry_store:
  assumes "is_frame t" and "is_frame u" and "i < 512" and "j < 512"
  shows "entry (store64 m (slot (physical_to_virtual t) i) e) u j = (if t = u \<and> i = j then e else entry m u j)"
  using assms slots_disjoint [of t u i j] by (auto simp: entry_def load_store_disjoint)

text \<open>
  The bytes of the frames \<open>X\<close>, in the direct map, and every byte outside the direct map are the same.
\<close>

definition direct :: "u64 \<Rightarrow> bool" where
  "direct y \<longleftrightarrow> in_range 0xffff800000000000 (2 ^ 39) y"

definition same_frames :: "u64 set \<Rightarrow> mem \<Rightarrow> mem \<Rightarrow> bool" where
  "same_frames X m m' \<longleftrightarrow>
     (\<forall>x \<in> X. \<forall>i<4096. m' (physical_to_virtual x + of_nat i) = m (physical_to_virtual x + of_nat i))
     \<and> (\<forall>y. \<not> direct y \<longrightarrow> m' y = m y)"

lemma same_frames_refl: "same_frames X m m"
  and same_frames_trans: "same_frames X m m' \<Longrightarrow> same_frames X m' m'' \<Longrightarrow> same_frames X m m''"
  by (simp_all add: same_frames_def)

lemma same_frames_subset: "same_frames X m m' \<Longrightarrow> Y \<subseteq> X \<Longrightarrow> same_frames Y m m'"
  by (auto simp: same_frames_def)

lemma unat_frame_byte:
  "is_frame t \<Longrightarrow> i < 4096 \<Longrightarrow> unat (physical_to_virtual t + of_nat i) = 0xffff800000000000 + unat t + i"
  by (subst unat_add_nat) (auto simp: is_frame_def unat_physical_to_virtual)

lemma slot_bytes: "slot (physical_to_virtual t) i + of_nat j = physical_to_virtual t + of_nat (8 * i + j)"
  by (simp add: slot_def)

lemma direct_slot:
  assumes "is_frame t" and "i < 512" and "in_range (slot (physical_to_virtual t) i) 8 y"
  shows "direct y"
proof -
  obtain j where j: "j < 8" "y = slot (physical_to_virtual t) i + of_nat j" using assms(3) by (rule in_rangeE)
  have "8 * i + j < 4096" using j assms(2) by simp
  from unat_frame_byte [OF assms(1) this] frame_room39 [OF assms(1)] this assms(1)
  show ?thesis unfolding direct_def j(2) slot_bytes in_range_def by (subst unat_sub) (auto simp: word_le_nat_alt)
qed

lemma direct_frame:
  assumes "is_frame t" and "in_range (physical_to_virtual t) 4096 y"
  shows "direct y"
proof -
  obtain j where j: "j < 4096" "y = physical_to_virtual t + of_nat j" using assms(2) by (rule in_rangeE)
  from unat_frame_byte [OF assms(1) j(1)] frame_room39 [OF assms(1)] j(1)
  show ?thesis unfolding direct_def j(2) in_range_def by (subst unat_sub) (auto simp: word_le_nat_alt)
qed

lemma frame_byte_outside_slot:
  assumes "is_frame t" and "is_frame x" and "t \<noteq> x" and "i < 512" and "j < 4096"
  shows "\<not> in_range (slot (physical_to_virtual t) i) 8 (physical_to_virtual x + of_nat j)"
  using assms frame_gap [of t x] unat_frame_byte [of x j] unat_slot [of t i]
  by (auto simp: in_range_def unat_sub_if_size word_size is_frame_def)

lemma frame_byte_outside_frame:
  assumes "is_frame t" and "is_frame x" and "t \<noteq> x" and "j < 4096"
  shows "\<not> in_range (physical_to_virtual t) 4096 (physical_to_virtual x + of_nat j)"
  using assms frame_gap [of t x] unat_frame_byte [of x j] unat_physical_to_virtual [of t]
  by (auto simp: in_range_def unat_sub_if_size word_size is_frame_def)

lemma same_frames_store:
  assumes "is_frame t" and "i < 512" and "t \<notin> X" and "\<forall>x \<in> X. is_frame x"
  shows "same_frames X m (store64 m (slot (physical_to_virtual t) i) e)"
  unfolding same_frames_def
proof (intro conjI ballI allI impI)
  fix x and j :: nat assume x: "x \<in> X" and j: "j < 4096"
  then have "is_frame x" "t \<noteq> x" using assms(3,4) by auto
  from frame_byte_outside_slot [OF assms(1) this assms(2) j]
  show "store64 m (slot (physical_to_virtual t) i) e (physical_to_virtual x + of_nat j)
      = m (physical_to_virtual x + of_nat j)" by (rule store_outside)
next
  fix y assume "\<not> direct y"
  then have "\<not> in_range (slot (physical_to_virtual t) i) 8 y" using direct_slot [OF assms(1,2)] by blast
  then show "store64 m (slot (physical_to_virtual t) i) e y = m y" by (rule store_outside)
qed

abbreviation zero_frame :: "u64 \<Rightarrow> mem \<Rightarrow> mem" where
  "zero_frame t m \<equiv> bzero m (physical_to_virtual t) PAGESIZE"

lemma zero_frame_eq: "zero_frame t m = fill (physical_to_virtual t) 4096 0 m"
  by (simp add: bzero_eq PAGESIZE_def)

lemma same_frames_zero:
  assumes "is_frame t" and "t \<notin> X" and "\<forall>x \<in> X. is_frame x"
  shows "same_frames X m (zero_frame t m)"
  unfolding same_frames_def zero_frame_eq
proof (intro conjI ballI allI impI)
  fix x and j :: nat assume x: "x \<in> X" and j: "j < 4096"
  then have "is_frame x" "t \<noteq> x" using assms(2,3) by auto
  from frame_byte_outside_frame [OF assms(1) this j]
  show "fill (physical_to_virtual t) 4096 0 m (physical_to_virtual x + of_nat j) = m (physical_to_virtual x + of_nat j)"
    by (rule fill_outside)
next
  fix y assume "\<not> direct y"
  then have "\<not> in_range (physical_to_virtual t) 4096 y" using direct_frame [OF assms(1)] by blast
  then show "fill (physical_to_virtual t) 4096 0 m y = m y" by (rule fill_outside)
qed

lemma entry_same_frames:
  assumes "same_frames X m m'" and "t \<in> X" and "i < 512"
  shows "entry m' t i = entry m t i"
  unfolding entry_def
proof (rule load_cong)
  fix j :: nat assume "j < 8"
  then have "8 * i + j < 4096" using assms(3) by simp
  with assms(1,2) show "m' (slot (physical_to_virtual t) i + of_nat j) = m (slot (physical_to_virtual t) i + of_nat j)"
    unfolding slot_bytes same_frames_def by blast
qed

lemma entry_zero_other:
  "is_frame t \<Longrightarrow> is_frame u \<Longrightarrow> t \<noteq> u \<Longrightarrow> i < 512 \<Longrightarrow> entry (zero_frame t m) u i = entry m u i"
  by (rule entry_same_frames [where X = "{u}"]) (auto intro: same_frames_zero)

lemma entry_zero_same:
  assumes "i < 512"
  shows "entry (zero_frame t m) t i = 0"
proof -
  have "zero_frame t m (slot (physical_to_virtual t) i + of_nat j) = 0" if "j < 8" for j
    unfolding slot_bytes zero_frame_eq using assms that by (intro fill_at in_range_offset) auto
  then show ?thesis unfolding entry_def load_def by (intro word_le_zeros) auto
qed

section \<open>The tree\<close>

text \<open>
  An entry leads to a table when it is present and does not map a large page. \<open>table_at m t p\<close>
  follows the indices \<open>p\<close> from table \<open>t\<close>; \<open>ok_path\<close> are the paths to the four levels.
\<close>

definition child :: "u64 \<Rightarrow> u64 option" where
  "child e = (if e AND X86_PAGE_PRESENT \<noteq> 0 \<and> e AND X86_PAGE_LARGE = 0 then Some (e AND MMASK_PHYS) else None)"

primrec table_at :: "mem \<Rightarrow> u64 \<Rightarrow> nat list \<Rightarrow> u64 option" where
  "table_at m t [] = Some t"
| "table_at m t (i # p) = (case child (entry m t i) of None \<Rightarrow> None | Some u \<Rightarrow> table_at m u p)"

definition ok_path :: "nat list \<Rightarrow> bool" where
  "ok_path p \<longleftrightarrow> length p \<le> 3 \<and> (\<forall>i \<in> set p. i < 512)"

definition tables_ok :: "mem \<Rightarrow> u64 \<Rightarrow> bool" where
  "tables_ok m root \<longleftrightarrow>
     (\<forall>p t. ok_path p \<longrightarrow> table_at m root p = Some t \<longrightarrow> is_frame t
        \<and> (\<forall>q. ok_path q \<longrightarrow> table_at m root q = Some t \<longrightarrow> p = q))"

lemma child_0 [simp]: "child 0 = None"
  by (simp add: child_def)

lemma table_at_snoc:
  "table_at m t (p @ [i]) = (case table_at m t p of None \<Rightarrow> None | Some u \<Rightarrow> child (entry m u i))"
  by (induction p arbitrary: t) (auto split: option.splits)

lemma ok_path_snoc: "ok_path (p @ [i]) \<longleftrightarrow> ok_path p \<and> length p < 3 \<and> i < 512"
  by (auto simp: ok_path_def)

lemma ok_path_Nil [simp]: "ok_path []"
  by (simp add: ok_path_def)

lemma tables_okD:
  assumes "tables_ok m root" and "ok_path p" and "table_at m root p = Some t"
  shows "is_frame t" and "ok_path q \<Longrightarrow> table_at m root q = Some t \<Longrightarrow> q = p"
  using assms unfolding tables_ok_def by blast+

text \<open>The tables do not change when entries of frames that are no tables, or leaf entries, change.\<close>

lemma table_at_cong:
  assumes "\<And>q u j. ok_path q \<Longrightarrow> table_at m root q = Some u \<Longrightarrow> length q < 3 \<Longrightarrow> j < 512
      \<Longrightarrow> child (entry m' u j) = child (entry m u j)"
    and "ok_path p"
  shows "table_at m' root p = table_at m root p"
  using assms(2)
proof (induction p rule: rev_induct)
  case (snoc j q)
  then have q: "ok_path q" "length q < 3" "j < 512" by (auto simp: ok_path_snoc)
  with snoc.IH assms(1) [OF q(1) _ q(2,3)] show ?case
    by (auto simp: table_at_snoc split: option.splits)
qed simp

text \<open>Linking a fresh zeroed table at an entry that led nowhere adds one path and changes no other.\<close>

lemma table_at_link:
  assumes ok: "tables_ok m root" and p: "ok_path p" "length p < 3" "i < 512" "table_at m root p = Some t"
    and none: "child (entry m t i) = None"
    and fresh: "\<And>q u. ok_path q \<Longrightarrow> table_at m root q = Some u \<Longrightarrow> u \<noteq> f"
    and same: "\<And>u j. u \<noteq> f \<Longrightarrow> is_frame u \<Longrightarrow> j < 512 \<Longrightarrow> (u, j) \<noteq> (t, i) \<Longrightarrow> entry m' u j = entry m u j"
    and new: "child (entry m' t i) = Some f" "\<And>j. j < 512 \<Longrightarrow> entry m' f j = 0"
    and q: "ok_path q"
  shows "table_at m' root q = (if q = p @ [i] then Some f else table_at m root q)"
  using q
proof (induction q rule: rev_induct)
  case (snoc j q)
  then have q: "ok_path q" "length q < 3" "j < 512" by (auto simp: ok_path_snoc)
  note IH = snoc.IH [OF q(1)]
  show ?case
  proof (cases "q = p @ [i]")
    case True
    have "table_at m root q = None" using p(4) none True by (simp add: table_at_snoc)
    then have "table_at m root (q @ [j]) = None" by (simp add: table_at_snoc)
    moreover have "table_at m' root q = Some f" using IH True by simp
    then have "table_at m' root (q @ [j]) = None" using new(2) [OF q(3)] by (simp add: table_at_snoc)
    moreover have "q @ [j] \<noteq> p @ [i]" using True by simp
    ultimately show ?thesis by (simp only: if_False)
  next
    case False
    show ?thesis
    proof (cases "table_at m root q")
      case None
      then have "q \<noteq> p" using p(4) by auto
      with None IH False show ?thesis by (simp add: table_at_snoc)
    next
      case (Some u)
      have u: "is_frame u" "u \<noteq> f" using tables_okD(1) [OF ok q(1) Some] fresh [OF q(1) Some] by auto
      have root: "table_at m' root q = Some u" using IH False Some by simp
      show ?thesis
      proof (cases "(u, j) = (t, i)")
        case True
        then have "q = p" using tables_okD(2) [OF ok p(1) p(4) q(1)] Some by simp
        with True root new(1) show ?thesis by (simp add: table_at_snoc)
      next
        case neq: False
        then have "\<not> (q = p \<and> j = i)" using Some p(4) by auto
        with same [OF u(2,1) q(3) neq] root Some show ?thesis by (auto simp: table_at_snoc)
      qed
    qed
  qed
next
  case Nil
  then show ?case by simp
qed

section \<open>Allocator and tables together\<close>

text \<open>
  The invariant of the mapping code: the allocator is well formed, its free pages are frames,
  and the tables, the free pages and a set \<open>X\<close> of frames in use elsewhere are pairwise apart.
\<close>

definition tables :: "mem \<Rightarrow> u64 \<Rightarrow> u64 set" where
  "tables m root = {t. \<exists>p. ok_path p \<and> table_at m root p = Some t}"

definition vm_ok :: "u64 set \<Rightarrow> Kernel \<Rightarrow> bool" where
  "vm_ok X k \<longleftrightarrow> pm_inv (pmem k) \<and> (\<forall>p \<in> free_pages (pmem k). is_frame p) \<and> (\<forall>x \<in> X. is_frame x)
     \<and> tables_ok (memory k) (k_cr3 k) \<and> tables (memory k) (k_cr3 k) \<inter> free_pages (pmem k) = {}
     \<and> tables (memory k) (k_cr3 k) \<inter> X = {} \<and> X \<inter> free_pages (pmem k) = {}"

lemma alloc_zero_page_spec:
  assumes "vm_ok X k" and "free_pages (pmem k) \<noteq> {}"
  obtains f a where "alloc_zero_page k = (f, k\<lparr>pmem := a, memory := zero_frame f (memory k)\<rparr>)"
    and "f \<in> free_pages (pmem k)" and "free_pages a = free_pages (pmem k) - {f}" and "pm_inv a"
    and "all_pages a = all_pages (pmem k)" and "is_frame f" and "f \<notin> tables (memory k) (k_cr3 k)" and "f \<notin> X"
proof -
  obtain f a where r: "alloc_phys_pages 1 (pmem k) = (f, a)" by force
  have inv: "pm_inv (pmem k)" using assms(1) by (simp add: vm_ok_def)
  from alloc_phys_pages_some [OF inv assms(2) r] r assms(1) show ?thesis
    by (intro that [of f a]) (auto simp: alloc_zero_page_def vm_ok_def)
qed

text \<open>What the mapping code may do to the state: tables stay, entries with something in them stay.\<close>

definition vm_ext :: "u64 set \<Rightarrow> Kernel \<Rightarrow> Kernel \<Rightarrow> bool" where
  "vm_ext X k k' \<longleftrightarrow> k_cr3 k' = k_cr3 k \<and> nx_mask k' = nx_mask k \<and> io_size k' = io_size k
     \<and> heap_size k' = heap_size k \<and> all_pages (pmem k') = all_pages (pmem k)
     \<and> same_frames X (memory k) (memory k')
     \<and> (\<forall>q u. ok_path q \<longrightarrow> table_at (memory k) (k_cr3 k) q = Some u \<longrightarrow>
          table_at (memory k') (k_cr3 k) q = Some u
          \<and> (\<forall>j<512. (length q < 3 \<and> entry (memory k) u j AND X86_PAGE_PRESENT = 0)
               \<or> entry (memory k') u j = entry (memory k) u j))
     \<and> (\<forall>q u j. ok_path q \<longrightarrow> j < 512 \<longrightarrow> length q < 3 \<longrightarrow> table_at (memory k') (k_cr3 k) q = Some u \<longrightarrow>
          entry (memory k') u j AND X86_PAGE_PRESENT \<noteq> 0 \<longrightarrow> entry (memory k') u j AND X86_PAGE_LARGE \<noteq> 0 \<longrightarrow>
          table_at (memory k) (k_cr3 k) q = Some u \<and> entry (memory k) u j = entry (memory k') u j)"

lemma vm_ext_refl: "vm_ext X k k"
  by (simp add: vm_ext_def same_frames_refl)

lemma vm_ext_fields:
  assumes "vm_ext X k k'"
  shows "k_cr3 k' = k_cr3 k" and "nx_mask k' = nx_mask k" and "io_size k' = io_size k"
    and "heap_size k' = heap_size k" and "same_frames X (memory k) (memory k')"
    and "all_pages (pmem k') = all_pages (pmem k)"
  using assms by (simp_all add: vm_ext_def)

lemma vm_ext_table:
  assumes "vm_ext X k k'" and "ok_path q" and "table_at (memory k) (k_cr3 k) q = Some u"
  shows "table_at (memory k') (k_cr3 k) q = Some u"
    and "j < 512 \<Longrightarrow> (length q < 3 \<and> entry (memory k) u j AND X86_PAGE_PRESENT = 0)
      \<or> entry (memory k') u j = entry (memory k) u j"
  using assms unfolding vm_ext_def by blast+

lemma vm_ext_large:
  assumes "vm_ext X k k'" and "ok_path q" and "j < 512" and "length q < 3"
    and "table_at (memory k') (k_cr3 k) q = Some u"
    and "entry (memory k') u j AND X86_PAGE_PRESENT \<noteq> 0" and "entry (memory k') u j AND X86_PAGE_LARGE \<noteq> 0"
  shows "table_at (memory k) (k_cr3 k) q = Some u" and "entry (memory k) u j = entry (memory k') u j"
  using assms unfolding vm_ext_def by blast+

lemma vm_extI:
  assumes "k_cr3 k' = k_cr3 k" and "nx_mask k' = nx_mask k" and "io_size k' = io_size k"
    and "heap_size k' = heap_size k" and "all_pages (pmem k') = all_pages (pmem k)"
    and "same_frames X (memory k) (memory k')"
    and "\<And>q u. ok_path q \<Longrightarrow> table_at (memory k) (k_cr3 k) q = Some u \<Longrightarrow> table_at (memory k') (k_cr3 k) q = Some u"
    and "\<And>q u j. ok_path q \<Longrightarrow> table_at (memory k) (k_cr3 k) q = Some u \<Longrightarrow> j < 512 \<Longrightarrow>
      (length q < 3 \<and> entry (memory k) u j AND X86_PAGE_PRESENT = 0) \<or> entry (memory k') u j = entry (memory k) u j"
    and "\<And>q u j. ok_path q \<Longrightarrow> j < 512 \<Longrightarrow> length q < 3 \<Longrightarrow> table_at (memory k') (k_cr3 k) q = Some u \<Longrightarrow>
      entry (memory k') u j AND X86_PAGE_PRESENT \<noteq> 0 \<Longrightarrow> entry (memory k') u j AND X86_PAGE_LARGE \<noteq> 0 \<Longrightarrow>
      table_at (memory k) (k_cr3 k) q = Some u \<and> entry (memory k) u j = entry (memory k') u j"
  shows "vm_ext X k k'"
  unfolding vm_ext_def using assms by blast

lemma vm_ext_trans:
  assumes "vm_ext X k k'" and "vm_ext X k' k''"
  shows "vm_ext X k k''"
proof -
  note cr3 = vm_ext_fields(1) [OF assms(1)] vm_ext_fields(1) [OF assms(2)]
  have table: "table_at (memory k'') (k_cr3 k) q = Some u"
    and entries: "j < 512 \<Longrightarrow> (length q < 3 \<and> entry (memory k) u j AND X86_PAGE_PRESENT = 0)
           \<or> entry (memory k'') u j = entry (memory k) u j"
    if q: "ok_path q" "table_at (memory k) (k_cr3 k) q = Some u" for q u j
  proof -
    note t = vm_ext_table(1) [OF assms(1) q]
    with cr3 have t': "table_at (memory k') (k_cr3 k') q = Some u" by simp
    from vm_ext_table(1) [OF assms(2) q(1) t'] cr3 show "table_at (memory k'') (k_cr3 k) q = Some u" by simp
    assume j: "j < 512"
    show "(length q < 3 \<and> entry (memory k) u j AND X86_PAGE_PRESENT = 0)
        \<or> entry (memory k'') u j = entry (memory k) u j"
      using vm_ext_table(2) [OF assms(1) q j] vm_ext_table(2) [OF assms(2) q(1) t' j] by auto
  qed
  have large: "table_at (memory k) (k_cr3 k) q = Some u \<and> entry (memory k) u j = entry (memory k'') u j"
    if q: "ok_path q" "j < 512" "length q < 3" "table_at (memory k'') (k_cr3 k) q = Some u"
      "entry (memory k'') u j AND X86_PAGE_PRESENT \<noteq> 0" "entry (memory k'') u j AND X86_PAGE_LARGE \<noteq> 0" for q u j
  proof -
    have q4: "table_at (memory k'') (k_cr3 k') q = Some u" using q(4) cr3 by simp
    note 2 = vm_ext_large [OF assms(2) q(1-3) q4 q(5,6)]
    have 1: "table_at (memory k') (k_cr3 k) q = Some u" using 2(1) cr3 by simp
    from vm_ext_large [OF assms(1) q(1-3) 1] 2 q(5,6) show ?thesis by simp
  qed
  have "same_frames X (memory k) (memory k'')"
    using vm_ext_fields(5) [OF assms(1)] vm_ext_fields(5) [OF assms(2)] by (rule same_frames_trans)
  then show ?thesis
    using vm_ext_fields [OF assms(1)] vm_ext_fields [OF assms(2)]
    by (intro vm_extI table entries) (simp_all add: large)
qed

end
