(* ===== verification/PageIter.thy ===== *)
theory PageIter
  imports Mmap
begin

text \<open>
  What the page table iterator visits. For a range whose page count determines the number of
  page tables and that stays in one page directory (\<open>fits\<close>), the driving loop visits one entry
  of each of the two upper levels, the entries of the directory that cover the range, and then
  the entries of the range in order. For other ranges the counts the iterator starts from are
  too small and it misses pages.
\<close>

section \<open>Counts of the iterator\<close>

text \<open>Page number of an address and number of pages of a size, as \<open>page_iter_create\<close> computes them.\<close>

definition vpage :: "u64 \<Rightarrow> nat" where
  "vpage addr = unat (drop_bit 12 addr)"

definition vlen :: "u64 \<Rightarrow> nat" where
  "vlen sz = unat (drop_bit 12 (sz + 4095))"

definition ntables :: "nat \<Rightarrow> nat" where
  "ntables n = (n + 511) div 512"

text \<open>The tables counted stay in one directory (\<open>one_dir\<close>) and hold all pages of the range (\<open>fits\<close>).\<close>

definition one_dir :: "nat \<Rightarrow> nat \<Rightarrow> bool" where
  "one_dir v n \<longleftrightarrow> 0 < n \<and> v div 512 mod 512 + ntables n \<le> 512"

definition fits :: "nat \<Rightarrow> nat \<Rightarrow> bool" where
  "fits v n \<longleftrightarrow> 0 < n \<and> v mod 512 + n \<le> 512 * ntables n \<and> v div 512 mod 512 + ntables n \<le> 512"

lemma fits_one_dir: "fits v n \<Longrightarrow> one_dir v n"
  by (simp add: fits_def one_dir_def)

lemma unat_drop_bit: "unat (drop_bit k (w :: u64)) = unat w div 2 ^ k"
proof -
  have "take_bit 64 (unat w) = unat w" using unat_bound_u64 by (rule take_bit_nat_eq_self)
  then show ?thesis by (simp only: unsigned_drop_bit_eq) (simp add: drop_bit_eq_div)
qed

lemma iter_offset_create:
  "i < 4 \<Longrightarrow> it_offset (page_iter_create cr3 addr sz) i = int (vpage addr div 2 ^ (9 * i) mod 512)"
proof -
  have "unat (drop_bit (9 * i) (drop_bit 12 addr) mod 512 :: u64) = vpage addr div 2 ^ (9 * i) mod 512"
    by (simp add: unat_mod unat_drop_bit vpage_def power_add mult.commute [of _ 4096] div_mult2_eq)
  moreover have "vpage addr div 2 ^ (9 * i) mod 512 < 2 ^ 31"
    by (rule less_trans [where y = 512]) simp_all
  ultimately show ?thesis by (simp add: page_iter_create_def Let_def c_int_small)
qed

lemma vlen_bound: "vlen sz < 2 ^ 52"
  using unat_bound_u64 [of "sz + 4095"] by (simp add: vlen_def unat_drop_bit less_mult_imp_div_less)

lemma iter_len_create:
  assumes "i < 4" and "(vlen sz + 2 ^ (9 * i) - 1) div 2 ^ (9 * i) < 2 ^ 31"
  shows "it_len (page_iter_create cr3 addr sz) i = int ((vlen sz + 2 ^ (9 * i) - 1) div 2 ^ (9 * i))"
proof -
  let ?p = "push_bit (9 * i) 1 :: u64"
  have "(2::nat) ^ (9 * i) \<le> 2 ^ 27" using assms(1) by (intro power_increasing) auto
  moreover have p: "unat ?p = 2 ^ (9 * i)"
  proof -
    have "i = 0 \<or> i = 1 \<or> i = 2 \<or> i = 3" using assms(1) by auto
    then show ?thesis by auto
  qed
  ultimately have b: "vlen sz + 2 ^ (9 * i) < 2 ^ 64" using vlen_bound [of sz] by simp
  then have "unat (drop_bit 12 (sz + 4095) + ?p) = vlen sz + 2 ^ (9 * i)"
    using unat_add_u64 [of "drop_bit 12 (sz + 4095)" ?p] unfolding p vlen_def by simp
  moreover from this have "1 \<le> drop_bit 12 (sz + 4095) + ?p"
    using trans_le_add2 [OF one_le_power [of "2 :: nat" "9 * i"], of "vlen sz"] by (simp add: word_le_nat_alt)
  ultimately have "unat (drop_bit 12 (sz + 4095) + ?p - 1) = vlen sz + 2 ^ (9 * i) - 1"
    by (simp add: unat_sub)
  then have "unat (drop_bit (9 * i) (drop_bit 12 (sz + 4095) + ?p - 1)) = (vlen sz + 2 ^ (9 * i) - 1) div 2 ^ (9 * i)"
    by (simp only: unat_drop_bit)
  with assms(2) show ?thesis by (simp add: page_iter_create_def Let_def c_int_small)
qed

lemma one_dir_counts:
  assumes "one_dir v n"
  shows "n \<le> 262144" and "(n + 262143) div 262144 = 1" and "(n + 134217727) div 134217728 = 1" and "0 < ntables n"
proof -
  have n: "0 < n" "ntables n \<le> 512" using assms by (auto simp: one_dir_def)
  then show le: "n \<le> 262144" "0 < ntables n" by (simp_all add: ntables_def)
  have "n + 262143 = (n - 1) + 262144" "n - 1 < 262144" using n(1) le(1) by simp_all
  then show "(n + 262143) div 262144 = 1" by simp
  have "n + 134217727 = (n - 1) + 134217728" "n - 1 < 134217728" using n(1) le(1) by simp_all
  then show "(n + 134217727) div 134217728 = 1" by simp
qed

lemma iter_lens_create:
  assumes "one_dir v (vlen sz)"
  shows "it_len (page_iter_create cr3 addr sz) 0 = int (vlen sz)"
    and "it_len (page_iter_create cr3 addr sz) 1 = int (ntables (vlen sz))"
    and "it_len (page_iter_create cr3 addr sz) 2 = 1" and "it_len (page_iter_create cr3 addr sz) 3 = 1"
proof -
  note c = one_dir_counts [OF assms]
  have "ntables (vlen sz) \<le> 512" using assms by (simp add: one_dir_def)
  with c show "it_len (page_iter_create cr3 addr sz) 0 = int (vlen sz)"
    "it_len (page_iter_create cr3 addr sz) 1 = int (ntables (vlen sz))"
    "it_len (page_iter_create cr3 addr sz) 2 = 1" "it_len (page_iter_create cr3 addr sz) 3 = 1"
    using iter_len_create [of 0 sz cr3 addr] iter_len_create [of 1 sz cr3 addr]
      iter_len_create [of 2 sz cr3 addr] iter_len_create [of 3 sz cr3 addr]
    by (simp_all add: ntables_def)
qed

section \<open>The loop as visits\<close>

text \<open>The directory behind entry \<open>i\<close> of directory \<open>d\<close>.\<close>

definition dir_of :: "mem \<Rightarrow> u64 \<Rightarrow> nat \<Rightarrow> u64" where
  "dir_of m d i = physical_to_virtual (load64 m (slot d i) AND MMASK_PHYS)"

text \<open>
  The visits of \<open>c\<close> page tables from entry \<open>i\<close> of the directory \<open>d\<close> on, the first one from its
  entry \<open>off\<close>, with \<open>rem\<close> pages to go.
\<close>

primrec walk_tables :: "('s \<Rightarrow> mem) \<Rightarrow> (nat \<Rightarrow> u64 \<Rightarrow> int \<Rightarrow> 's \<Rightarrow> 's) \<Rightarrow> u64
    \<Rightarrow> nat \<Rightarrow> nat \<Rightarrow> nat \<Rightarrow> nat \<Rightarrow> 's \<Rightarrow> 's" where
  "walk_tables get body d 0 i off rem s = s"
| "walk_tables get body d (Suc c) i off rem s =
     (let cur = min rem (512 - off)
      in walk_tables get body d c (Suc i) 0 (rem - cur)
           (body 0 (slot (dir_of (get s) d i) off) (int cur) s))"

definition in_leaves :: "u64 \<Rightarrow> nat \<Rightarrow> nat \<Rightarrow> nat \<Rightarrow> PageIterator \<Rightarrow> bool" where
  "in_leaves d o1 c k it \<longleftrightarrow> it_index it 3 = 0 \<and> it_len it 3 = 1 \<and> it_index it 2 = 0 \<and> it_len it 2 = 1
     \<and> it_dir it 1 = d \<and> it_offset it 1 = int o1 \<and> it_len it 1 = int (k + c) \<and> it_index it 1 = int k"

lemma iter_compute_len_min:
  "iter_compute_len (int rem) (int off) = int (min rem (512 - off))" if "off \<le> 512"
  using that by (auto simp: iter_compute_len_def)

lemma iter_loop1_leaves:
  assumes "in_leaves d o1 (Suc c) k it" and "it_offset it 0 = int off" and "it_len it 0 = int rem" and "off < 512"
  obtains it' where "iter_loop1 m it = Some (it', 0, slot (dir_of m d (o1 + k)) off, int (min rem (512 - off)))"
    and "in_leaves d o1 (Suc c) k it'" and "it_offset it' 0 = int off" and "it_len it' 0 = int rem"
    and "it_len_current it' 0 = int (min rem (512 - off))" and "it_state it' = 4"
proof -
  have "it_index it 1 < it_len it 1" using assms(1) by (simp add: in_leaves_def)
  then have "iter_loop1 m it = Some (iter_enter m 0 4 it)" by (simp add: iter_loop1_def)
  moreover have "iter_compute_dir m (it_dir it 1) (it_index it 1) (it_offset it 1) = dir_of m d (o1 + k)"
    using assms(1) by (simp add: in_leaves_def iter_compute_dir_def dir_of_def nat_int_add)
  ultimately show ?thesis
    using assms iter_compute_len_min [of off rem]
    by (intro that [of "fst (iter_enter m 0 4 it)"]) (auto simp: iter_enter_def Let_def in_leaves_def)
qed

lemma page_walk_leaves:
  assumes "it_state it = 4" and "in_leaves d o1 (Suc c) k it" and "it_len it 0 - it_len_current it 0 = int rem"
  shows "page_walk get body it s = walk_tables get body d c (o1 + Suc k) 0 rem s"
  using assms
proof (induction c arbitrary: it s k rem)
  case 0
  have "page_iter_next (get s) it = None"
    using 0 by (simp add: page_iter_next_def iter_loop1_def iter_loop2_def iter_loop3_def iter_leave_def
        in_leaves_def numeral_2_eq_2 [symmetric] numeral_3_eq_3 [symmetric])
  then show ?case by (subst page_walk.simps) simp
next
  case (Suc c)
  let ?l = "iter_leave 0 it"
  have l: "in_leaves d o1 (Suc c) (Suc k) ?l" "it_offset ?l 0 = int 0" "it_len ?l 0 = int rem"
    using Suc.prems by (simp_all add: iter_leave_def in_leaves_def)
  obtain it' where it': "iter_loop1 (get s) ?l = Some (it', 0, slot (dir_of (get s) d (o1 + Suc k)) 0, int (min rem (512 - 0)))"
      "in_leaves d o1 (Suc c) (Suc k) it'" "it_offset it' 0 = int 0" "it_len it' 0 = int rem"
      "it_len_current it' 0 = int (min rem (512 - 0))" "it_state it' = 4"
    by (rule iter_loop1_leaves [OF l]) auto
  have next': "page_iter_next (get s) it = Some (it', 0, slot (dir_of (get s) d (o1 + Suc k)) 0, int (min rem 512))"
    using Suc.prems(1) it'(1) by (simp add: page_iter_next_def)
  have "it_len it' 0 - it_len_current it' 0 = int (rem - min rem 512)" using it'(4,5) by simp
  from Suc.IH [OF it'(6,2) this] show ?case
    by (subst page_walk.simps) (simp add: next' Let_def)
qed

lemma page_walk_one_dir:
  assumes f: "one_dir (vpage addr) (vlen sz)"
  defines "v \<equiv> vpage addr" and "n \<equiv> vlen sz"
  defines "o3 \<equiv> v div 134217728 mod 512" and "o2 \<equiv> v div 262144 mod 512" and "o1 \<equiv> v div 512 mod 512"
  shows "page_walk get body (page_iter_create cr3 addr sz) s =
    (let s3 = body 3 (slot (physical_to_virtual cr3) o3) 1 s;
         d2 = dir_of (get s3) (physical_to_virtual cr3) o3;
         s2 = body 2 (slot d2 o2) 1 s3;
         d1 = dir_of (get s2) d2 o2
     in walk_tables get body d1 (ntables n) o1 (v mod 512) n
          (body 1 (slot d1 o1) (int (ntables n)) s2))"
proof -
  let ?it = "page_iter_create cr3 addr sz"
  have off: "it_offset ?it 0 = int (v mod 512)" "it_offset ?it 1 = int o1" "it_offset ?it 2 = int o2" "it_offset ?it 3 = int o3"
    using iter_offset_create [of 0] iter_offset_create [of 1] iter_offset_create [of 2] iter_offset_create [of 3]
    by (simp_all add: v_def o1_def o2_def o3_def)
  note len = iter_lens_create [OF f, of cr3 addr, folded n_def]
  have start: "it_state ?it = 0" "it_dir ?it 3 = physical_to_virtual cr3"
    by (simp_all add: page_iter_create_def Let_def)
  obtain it where it: "it = ?it" by simp
  obtain c where c: "ntables n = Suc c" using one_dir_counts(4) [OF f] by (cases "ntables n") (auto simp: n_def)
  have o1: "o1 + ntables n \<le> 512" using f by (simp add: one_dir_def o1_def v_def n_def)
  have o2: "o2 < 512" by (simp add: o2_def)
  define s3 where "s3 = body 3 (slot (physical_to_virtual cr3) o3) 1 s"
  define d2 where "d2 = dir_of (get s3) (physical_to_virtual cr3) o3"
  define s2 where "s2 = body 2 (slot d2 o2) 1 s3"
  define d1 where "d1 = dir_of (get s2) d2 o2"
  define s1 where "s1 = body 1 (slot d1 o1) (int (ntables n)) s2"
  define it1 where "it1 = it\<lparr>it_state := 1\<rparr>"
  define it2 where "it2 = fst (iter_enter (get s3) 2 2 (iter_start 3 it1))"
  define it3 where "it3 = fst (iter_enter (get s2) 1 3 (iter_start 2 it2))"
  have len2: "iter_compute_len 1 (int o2) = 1" using o2 by (simp add: iter_compute_len_def)
  have n0: "page_iter_next (get s) it = Some (it1, 3, slot (physical_to_virtual cr3) o3, 1)"
    using start off len by (simp add: page_iter_next_def it1_def it)
  have n1: "page_iter_next (get s3) it1 = Some (it2, 2, slot d2 o2, 1)"
    using start off len len2
    by (simp add: page_iter_next_def it1_def it2_def it iter_loop3_def iter_start_def iter_enter_def Let_def
        iter_compute_dir_def d2_def dir_of_def numeral_3_eq_3 [symmetric])
  have i2: "it_state it2 = 2" "it_index it2 3 = 0" "it_len it2 3 = 1" "it_len it2 2 = 1" "it_dir it2 2 = d2"
      "it_offset it2 2 = int o2" "it_offset it2 1 = int o1" "it_len it2 1 = int (ntables n)"
      "it_offset it2 0 = int (v mod 512)" "it_len it2 0 = int n"
    using start off len
    by (simp_all add: it2_def it1_def it iter_start_def iter_enter_def Let_def iter_compute_dir_def d2_def
        dir_of_def numeral_3_eq_3 [symmetric])
  have n2: "page_iter_next (get s2) it2 = Some (it3, 1, slot d1 o1, int (ntables n))"
    using i2 o1
    by (simp add: page_iter_next_def it3_def iter_loop2_def iter_start_def iter_enter_def Let_def
        iter_compute_dir_def iter_compute_len_def d1_def dir_of_def numeral_2_eq_2 [symmetric])
  have i3: "it_state it3 = 3" "in_leaves d1 o1 (Suc c) 0 (iter_start 1 it3)"
      "it_offset (iter_start 1 it3) 0 = int (v mod 512)" "it_len (iter_start 1 it3) 0 = int n"
    using i2 c
    by (simp_all add: it3_def iter_start_def iter_enter_def Let_def iter_compute_dir_def d1_def dir_of_def
        in_leaves_def numeral_2_eq_2 [symmetric])
  have "v mod 512 < 512" by simp
  from iter_loop1_leaves [OF i3(2-4) this, where m = "get s1"]
  obtain it4 where it4: "iter_loop1 (get s1) (iter_start 1 it3)
        = Some (it4, 0, slot (dir_of (get s1) d1 o1) (v mod 512), int (min n (512 - v mod 512)))"
      "in_leaves d1 o1 (Suc c) 0 it4" "it_len it4 0 = int n"
      "it_len_current it4 0 = int (min n (512 - v mod 512))" "it_state it4 = 4"
    by auto
  have n3: "page_iter_next (get s1) it3 = Some (it4, 0, slot (dir_of (get s1) d1 o1) (v mod 512), int (min n (512 - v mod 512)))"
    using i3(1) it4(1) by (simp add: page_iter_next_def)
  have "it_len it4 0 - it_len_current it4 0 = int (n - min n (512 - v mod 512))" using it4 by simp
  note rest = page_walk_leaves [OF it4(5,2) this, where get = get and body = body]
  have "page_walk get body it s = page_walk get body it1 s3"
    by (subst page_walk.simps) (simp add: n0 s3_def)
  also have "\<dots> = page_walk get body it2 s2"
    by (subst page_walk.simps) (simp add: n1 s2_def)
  also have "\<dots> = page_walk get body it3 s1"
    by (subst page_walk.simps) (simp add: n2 s1_def)
  also have "\<dots> = walk_tables get body d1 (ntables n) o1 (v mod 512) n s1"
    by (subst page_walk.simps) (simp add: n3 rest c Let_def)
  finally show ?thesis by (simp add: it s1_def s2_def d1_def d2_def s3_def Let_def)
qed

lemmas page_walk_fits = page_walk_one_dir [OF fits_one_dir]
lemmas fits_counts = one_dir_counts [OF fits_one_dir]

section \<open>What the loop reaches\<close>

text \<open>C17. The driving loop ends: whatever the iterator and however the tables change between the calls,
  there is no infinite sequence of calls of page_iter_next that all return 0.\<close>

theorem page_iter_terminates: "wf {(it', it). \<exists>m r. page_iter_next m it = Some (it', r)}"
  by (rule wf_subset [where r = "measures [iter_rank3, iter_rank2, iter_rank1]"])
    (auto dest: page_iter_next_decreases simp del: in_measures)

lemma walk_tables_count:
  "off \<le> 512 \<Longrightarrow> walk_tables (\<lambda>_. m) (\<lambda>d dir n c. if d = 0 then c + n else c) d c i off rem s
     = s + int (min rem (512 * c - off))"
proof (induction c arbitrary: i off rem s)
  case (Suc c)
  have "min rem (512 - off) + min (rem - min rem (512 - off)) (512 * c - 0) = min rem (512 * Suc c - off)"
    using Suc.prems by auto
  then show ?case using Suc.IH [of 0] by (simp add: Let_def)
qed simp

text \<open>C18. How many pages of a range are visited, for a range that is not empty and whose counted page tables are entries of one
  page directory (the entry of the first page plus the number of tables is at most 512): the iterator counts the
  tables from the length alone, so when the range starts inside a table it reaches only the pages that fit the tables counted, and misses
  the rest of the range exactly when the range needs one table more. Ranges that go on in the next page directory are not covered: the
  loop of the code there reads past entry 511.\<close>

theorem page_iter_misses_tail:
  assumes "one_dir (vpage addr) (vlen sz)"
  shows "page_walk (\<lambda>_. m) (\<lambda>d dir n c. if d = 0 then c + n else c) (page_iter_create cr3 addr sz) 0
      = int (min (vlen sz) (512 * ntables (vlen sz) - vpage addr mod 512))
    \<and> (min (vlen sz) (512 * ntables (vlen sz) - vpage addr mod 512) = vlen sz \<longleftrightarrow> fits (vpage addr) (vlen sz))"
proof -
  have "vpage addr mod 512 < 512" by simp
  then have "walk_tables (\<lambda>_. m) (\<lambda>d dir n c. if d = 0 then c + n else c) d (ntables (vlen sz)) i (vpage addr mod 512) (vlen sz) 0
      = int (min (vlen sz) (512 * ntables (vlen sz) - vpage addr mod 512))" for d i
    by (simp add: walk_tables_count)
  moreover have "min (vlen sz) (512 * ntables (vlen sz) - vpage addr mod 512) = vlen sz \<longleftrightarrow> fits (vpage addr) (vlen sz)"
    using assms one_dir_counts(4) [OF assms] \<open>vpage addr mod 512 < 512\<close>
    by (auto simp: fits_def one_dir_def min_def)
  ultimately show ?thesis by (simp add: page_walk_one_dir [OF assms] Let_def)
qed

lemma page_iter_misses_tail_witness:
  "page_walk (\<lambda>_ _. 0) (\<lambda>d dir n c. if d = 0 then c + n else c) (page_iter_create 0x1000 0x1ff000 0x2000) 0 = 1
   \<and> vlen 0x2000 = 2"
proof -
  have v: "vpage 0x1ff000 = 511" "vlen 0x2000 = 2" by (simp_all add: vpage_def vlen_def drop_bit_eq_div)
  then have "one_dir (vpage 0x1ff000) (vlen 0x2000)" by (simp add: one_dir_def ntables_def)
  from page_iter_misses_tail [OF this, of "\<lambda>_. 0" "0x1000"] v show ?thesis by (simp add: ntables_def)
qed

end
