(* ===== verification/PageMap.thy ===== *)
theory PageMap
  imports PageTree PageIter
begin

text \<open>
  What the mapping operations do to the page tables: the single steps keep the invariant of
  PageTree, the iterator visits exactly the entries of the range when the range fits the
  tables it counts, and \<open>kmap\<close>, \<open>kmapanon\<close> and \<open>kmprotect\<close> set exactly the translations of
  the range.
\<close>

section \<open>Bits of an entry\<close>

lemma frame_bits: "is_frame f \<Longrightarrow> bit f k \<Longrightarrow> 12 \<le> k \<and> k < 47"
proof -
  assume f: "is_frame f" and b: "bit f k"
  have "take_bit 47 f = f" using f
    by (simp add: is_frame_def word_unat_eq_iff unsigned_take_bit_eq take_bit_nat_eq_self)
  with b have "k < 47" by (metis bit_take_bit_iff)
  have "take_bit 12 f = 0" using f
    by (simp add: is_frame_def word_unat_eq_iff unsigned_take_bit_eq take_bit_eq_mod dvd_eq_mod_eq_0 unat_mod)
  with b have "\<not> k < 12" by (metis bit_take_bit_iff bit_0_eq bot_apply bot_bool_def)
  with \<open>k < 47\<close> show ?thesis by simp
qed

lemma MMASK_PHYS_bits: "bit MMASK_PHYS k \<longleftrightarrow> 12 \<le> k \<and> k < 63"
proof -
  have m: "MMASK_PHYS = mask 63 AND NOT (mask 12)" by (simp add: MMASK_PHYS_def mask_eq_exp_minus_1)
  show ?thesis unfolding m by (auto simp: bit_and_iff bit_not_iff bit_mask_iff)
qed

lemma frame_entry_mask:
  assumes "is_frame f" and "\<And>k. bit g k \<Longrightarrow> k < 12 \<or> k = 63"
  shows "(f OR g) AND MMASK_PHYS = f"
proof (rule bit_word_eqI)
  fix k assume "k < LENGTH(64)"
  show "bit ((f OR g) AND MMASK_PHYS) k = bit f k"
    using frame_bits [OF assms(1), of k] assms(2) [of k]
    by (auto simp: bit_and_iff bit_or_iff MMASK_PHYS_bits)
qed

lemma page_flag_exps:
  "X86_PAGE_PRESENT = 2 ^ 0" "X86_PAGE_WRITE = 2 ^ 1" "X86_PAGE_USER = 2 ^ 2" "X86_PAGE_LARGE = 2 ^ 7"
  by (simp_all add: X86_PAGE_PRESENT_def X86_PAGE_WRITE_def X86_PAGE_USER_def X86_PAGE_LARGE_def)

lemma bit_page_flags [simp]:
  "bit X86_PAGE_PRESENT k \<longleftrightarrow> k = 0" "bit X86_PAGE_WRITE k \<longleftrightarrow> k = 1"
  "bit X86_PAGE_USER k \<longleftrightarrow> k = 2" "bit X86_PAGE_LARGE k \<longleftrightarrow> k = 7"
  unfolding page_flag_exps bit_exp_iff by auto

lemma flag_test_iff:
  "e AND X86_PAGE_PRESENT = 0 \<longleftrightarrow> \<not> bit e 0" "e AND X86_PAGE_LARGE = 0 \<longleftrightarrow> \<not> bit e 7"
  unfolding page_flag_exps and_exp_zero by auto

abbreviation table_flags :: u64 where
  "table_flags \<equiv> X86_PAGE_PRESENT OR X86_PAGE_WRITE OR X86_PAGE_USER"

lemma child_table_entry:
  assumes "is_frame f"
  shows "child (f OR table_flags) = Some f" and "(f OR table_flags) AND X86_PAGE_LARGE = 0"
    and "(f OR table_flags) AND MMASK_PHYS = f"
proof -
  show m: "(f OR table_flags) AND MMASK_PHYS = f"
    by (rule frame_entry_mask [OF assms]) (auto simp: bit_or_iff)
  show l: "(f OR table_flags) AND X86_PAGE_LARGE = 0"
    using frame_bits [OF assms, of 7] by (auto simp: flag_test_iff bit_or_iff)
  with m show "child (f OR table_flags) = Some f" by (simp add: child_def flag_test_iff bit_or_iff)
qed

section \<open>A new table\<close>

text \<open>Linking the fresh frame \<open>f\<close> below entry \<open>i\<close> of table \<open>t\<close>.\<close>

abbreviation link_table :: "u64 \<Rightarrow> nat \<Rightarrow> u64 \<Rightarrow> mem \<Rightarrow> mem" where
  "link_table t i f m \<equiv> store64 (zero_frame f m) (slot (physical_to_virtual t) i) (f OR table_flags)"

lemma entry_link_table:
  assumes "is_frame t" and "is_frame f" and "t \<noteq> f" and "i < 512" and "is_frame u" and "j < 512"
  shows "entry (link_table t i f m) u j =
    (if u = t \<and> j = i then f OR table_flags else if u = f then 0 else entry m u j)"
  using assms by (auto simp: entry_store entry_zero_same entry_zero_other)

text \<open>The same for any entry \<open>e\<close> that leads to \<open>f\<close>: one path is added and the tables stay apart.\<close>

lemma link_entry:
  assumes tok: "tables_ok m root" and p: "ok_path p" "length p < 3" "i < 512" "table_at m root p = Some t"
    and none: "child (entry m t i) = None" and f: "is_frame f" "f \<notin> tables m root" and e: "child e = Some f"
  defines "m' \<equiv> store64 (zero_frame f m) (slot (physical_to_virtual t) i) e"
  shows "ok_path q \<Longrightarrow> table_at m' root q = (if q = p @ [i] then Some f else table_at m root q)"
    and "tables m' root = insert f (tables m root)" and "tables_ok m' root"
    and "is_frame u \<Longrightarrow> j < 512 \<Longrightarrow> entry m' u j = (if u = t \<and> j = i then e else if u = f then 0 else entry m u j)"
proof -
  have t: "is_frame t" using tables_okD(1) [OF tok p(1,4)] .
  have "t \<in> tables m root" using p by (auto simp: tables_def)
  then have tf: "t \<noteq> f" using f(2) by auto
  have fresh: "\<And>q u. ok_path q \<Longrightarrow> table_at m root q = Some u \<Longrightarrow> u \<noteq> f" using f(2) by (auto simp: tables_def)
  have ent: "entry m' u j = (if u = t \<and> j = i then e else if u = f then 0 else entry m u j)"
    if "is_frame u" "j < 512" for u j
    unfolding m'_def using that t f(1) tf p(3) by (auto simp: entry_store entry_zero_same entry_zero_other)
  then show "is_frame u \<Longrightarrow> j < 512 \<Longrightarrow> entry m' u j = (if u = t \<and> j = i then e else if u = f then 0 else entry m u j)" .
  have link: "table_at m' root q = (if q = p @ [i] then Some f else table_at m root q)" if "ok_path q" for q
    using that t f(1) tf p(3) by (intro table_at_link [OF tok p none fresh]) (auto simp: ent e)
  then show "ok_path q \<Longrightarrow> table_at m' root q = (if q = p @ [i] then Some f else table_at m root q)" .
  have pi: "ok_path (p @ [i])" using p by (simp add: ok_path_snoc)
  have gone: "table_at m root (p @ [i]) = None" using p(4) none by (simp add: table_at_snoc)
  show "tables m' root = insert f (tables m root)"
    using link pi gone by (auto simp: tables_def split: if_splits) (metis option.distinct(1))+
  show "tables_ok m' root"
    unfolding tables_ok_def
  proof (intro allI impI conjI)
    fix q u assume q: "ok_path q" "table_at m' root q = Some u"
    then show "is_frame u" using link [OF q(1)] f(1) tables_okD(1) [OF tok q(1)] by (auto split: if_splits)
    fix r assume r: "ok_path r" "table_at m' root r = Some u"
    then show "q = r" using q link [OF q(1)] link [OF r(1)] fresh tables_okD(2) [OF tok]
      by (auto split: if_splits)
  qed
qed

lemma link_table_ok:
  assumes ok: "vm_ok X k" and p: "ok_path p" "length p < 3" "i < 512" "table_at (memory k) (k_cr3 k) p = Some t"
    and absent: "entry (memory k) t i AND X86_PAGE_PRESENT = 0"
    and f: "f \<in> free_pages (pmem k)" and a: "free_pages a = free_pages (pmem k) - {f}" "pm_inv a"
    "all_pages a = all_pages (pmem k)"
  defines "k' \<equiv> k\<lparr>pmem := a, memory := link_table t i f (memory k)\<rparr>"
  shows "vm_ok X k'" and "vm_ext X k k'" and "table_at (memory k') (k_cr3 k) (p @ [i]) = Some f"
proof -
  let ?m = "memory k" and ?root = "k_cr3 k" and ?m' = "link_table t i f (memory k)"
  have tok: "tables_ok ?m ?root" and fr: "is_frame f" and X: "\<forall>x \<in> X. is_frame x"
    and fX: "f \<notin> X" and ft: "f \<notin> tables ?m ?root"
    using ok f by (auto simp: vm_ok_def)
  have t: "is_frame t" using tables_okD(1) [OF tok p(1,4)] .
  have tt: "t \<in> tables ?m ?root" using p by (auto simp: tables_def)
  then have tf: "t \<noteq> f" and tX: "t \<notin> X" using ft ok by (auto simp: vm_ok_def)
  have fresh: "\<And>q u. ok_path q \<Longrightarrow> table_at ?m ?root q = Some u \<Longrightarrow> u \<noteq> f"
    using ft by (auto simp: tables_def)
  have none: "child (entry ?m t i) = None" using absent by (simp add: child_def)
  note link = link_entry(1) [OF tok p none fr ft child_table_entry(1) [OF fr]]
    and tabs = link_entry(2) [OF tok p none fr ft child_table_entry(1) [OF fr]]
    and tok' = link_entry(3) [OF tok p none fr ft child_table_entry(1) [OF fr]]
    and ent = link_entry(4) [OF tok p none fr ft child_table_entry(1) [OF fr]]
  have pi: "ok_path (p @ [i])" using p by (simp add: ok_path_snoc)
  have gone: "table_at ?m ?root (p @ [i]) = None" using p(4) absent by (simp add: table_at_snoc child_def)
  show "table_at (memory k') (k_cr3 k) (p @ [i]) = Some f" using link [OF pi] by (simp add: k'_def)
  have frames: "same_frames X ?m ?m'"
    using same_frames_zero [OF fr fX X] same_frames_store [OF t p(3) tX X] by (rule same_frames_trans)
  show "vm_ok X k'" using ok tabs tok' a f fX by (auto simp: vm_ok_def k'_def)
  show "vm_ext X k k'"
  proof (rule vm_extI)
    fix q u and j :: nat assume q: "ok_path q" "table_at (memory k) (k_cr3 k) q = Some u"
    from q gone link [OF q(1)] show "table_at (memory k') (k_cr3 k) q = Some u" by (auto simp: k'_def)
    assume "j < 512"
    then show "length q < 3 \<and> entry (memory k) u j AND X86_PAGE_PRESENT = 0
        \<or> entry (memory k') u j = entry (memory k) u j"
      using ent [OF tables_okD(1) [OF tok q]] fresh [OF q] absent p tables_okD(2) [OF tok q] by (auto simp: k'_def)
  next
    fix q u j assume q: "ok_path q" "j < 512" "length q < 3" "table_at (memory k') (k_cr3 k) q = Some u"
      and l: "entry (memory k') u j AND X86_PAGE_PRESENT \<noteq> 0" "entry (memory k') u j AND X86_PAGE_LARGE \<noteq> 0"
    have u: "is_frame u" using q(4) link [OF q(1)] fr tables_okD(1) [OF tok q(1)] by (auto simp: k'_def split: if_splits)
    from l have "\<not> (u = t \<and> j = i)" "u \<noteq> f" "entry ?m' u j = entry ?m u j"
      using ent [OF u q(2)] child_table_entry(2) [OF fr] by (auto simp: k'_def split: if_splits)
    with q(4) link [OF q(1)] show "table_at (memory k) (k_cr3 k) q = Some u \<and> entry (memory k) u j = entry (memory k') u j"
      by (auto simp: k'_def split: if_splits)
  qed (simp_all add: k'_def frames a)
qed

lemma ensure_table_spec:
  assumes ok: "vm_ok X k" and p: "ok_path p" "length p < 3" "i < 512" "table_at (memory k) (k_cr3 k) p = Some t"
    and small: "entry (memory k) t i AND X86_PAGE_PRESENT \<noteq> 0 \<Longrightarrow> entry (memory k) t i AND X86_PAGE_LARGE = 0"
    and room: "free_pages (pmem k) \<noteq> {}"
  shows "vm_ok X (ensure_table (slot (physical_to_virtual t) i) k)"
    and "vm_ext X k (ensure_table (slot (physical_to_virtual t) i) k)"
    and "\<exists>u. table_at (memory (ensure_table (slot (physical_to_virtual t) i) k)) (k_cr3 k) (p @ [i]) = Some u"
    and "card (free_pages (pmem k)) \<le> Suc (card (free_pages (pmem (ensure_table (slot (physical_to_virtual t) i) k))))"
    and "free_pages (pmem (ensure_table (slot (physical_to_virtual t) i) k)) \<subseteq> free_pages (pmem k)"
proof -
  let ?k' = "ensure_table (slot (physical_to_virtual t) i) k"
  have "vm_ok X ?k' \<and> vm_ext X k ?k' \<and> (\<exists>u. table_at (memory ?k') (k_cr3 k) (p @ [i]) = Some u)
      \<and> card (free_pages (pmem k)) \<le> Suc (card (free_pages (pmem ?k')))
      \<and> free_pages (pmem ?k') \<subseteq> free_pages (pmem k)"
  proof (cases "entry (memory k) t i AND X86_PAGE_PRESENT = 0")
    case False
    then have "?k' = k" by (simp add: ensure_table_def entry_def)
    moreover have "table_at (memory k) (k_cr3 k) (p @ [i]) = Some (entry (memory k) t i AND MMASK_PHYS)"
      using False small p(4) by (simp add: table_at_snoc child_def)
    ultimately show ?thesis using ok by (simp add: vm_ext_refl)
  next
    case True
    obtain f a where z: "alloc_zero_page k = (f, k\<lparr>pmem := a, memory := zero_frame f (memory k)\<rparr>)"
        "f \<in> free_pages (pmem k)" "free_pages a = free_pages (pmem k) - {f}" "pm_inv a"
        "all_pages a = all_pages (pmem k)"
      using alloc_zero_page_spec [OF ok room] by metis
    have k': "?k' = k\<lparr>pmem := a, memory := link_table t i f (memory k)\<rparr>"
      using True z(1) by (simp add: ensure_table_def entry_def)
    note link = link_table_ok [OF ok p True z(2-5)]
    have "card (free_pages (pmem k)) \<le> Suc (card (free_pages a))"
      using z(2,3) finite_free_pages [of "pmem k"] by (simp add: card_Diff_singleton)
    with link z(3) show ?thesis unfolding k' by auto
  qed
  then show "vm_ok X ?k'" "vm_ext X k ?k'" "\<exists>u. table_at (memory ?k') (k_cr3 k) (p @ [i]) = Some u"
    "card (free_pages (pmem k)) \<le> Suc (card (free_pages (pmem ?k')))"
    "free_pages (pmem ?k') \<subseteq> free_pages (pmem k)" by blast+
qed

section \<open>Translations\<close>

text \<open>The entry the processor finds for virtual page \<open>w\<close>, from the 36 index bits of its number.\<close>

definition page_path :: "nat \<Rightarrow> nat list" where
  "page_path w = [w div 134217728 mod 512, w div 262144 mod 512, w div 512 mod 512]"

definition translate :: "mem \<Rightarrow> u64 \<Rightarrow> nat \<Rightarrow> u64 option" where
  "translate m root w = (case table_at m root (page_path w) of None \<Rightarrow> None | Some t \<Rightarrow> Some (entry m t (w mod 512)))"

lemma ok_page_path [simp]: "ok_path (page_path w)" "length (page_path w) = 3"
  by (simp_all add: ok_path_def page_path_def)

definition same_entry :: "nat \<Rightarrow> nat \<Rightarrow> bool" where
  "same_entry w w' \<longleftrightarrow> page_path w = page_path w' \<and> w mod 512 = w' mod 512"

text \<open>A store to the leaf entry of page \<open>w\<close>.\<close>

lemma store_leaf_entry:
  assumes tok: "tables_ok m root" and t: "table_at m root (page_path w) = Some t"
    and m': "m' = store64 m (slot (physical_to_virtual t) (w mod 512)) e"
  shows "ok_path q \<Longrightarrow> table_at m' root q = table_at m root q"
    and "translate m' root w' = (if same_entry w' w then Some e else translate m root w')"
proof -
  have tf: "is_frame t" using tables_okD(1) [OF tok _ t] by simp
  have ent: "entry m' u j = (if t = u \<and> w mod 512 = j then e else entry m u j)" if "is_frame u" "j < 512" for u j
    unfolding m' using entry_store [OF tf that(1) _ that(2)] by simp
  have same: "table_at m' root q = table_at m root q" if q: "ok_path q" for q
  proof (rule table_at_cong [OF _ q])
    fix r u and j :: nat assume r: "ok_path r" "table_at m root r = Some u" "length r < 3" "j < 512"
    have "u \<noteq> t" using tables_okD(2) [OF tok _ t r(1)] r by auto
    then show "child (entry m' u j) = child (entry m u j)"
      using ent [OF tables_okD(1) [OF tok r(1,2)] r(4)] by auto
  qed
  then show "ok_path q \<Longrightarrow> table_at m' root q = table_at m root q" .
  have tab: "table_at m' root (page_path w') = table_at m root (page_path w')" by (simp add: same)
  show "translate m' root w' = (if same_entry w' w then Some e else translate m root w')"
  proof (cases "table_at m root (page_path w')")
    case None
    then have "\<not> same_entry w' w" using t by (auto simp: same_entry_def)
    with None tab show ?thesis by (simp add: translate_def)
  next
    case (Some u)
    have u: "is_frame u" using tables_okD(1) [OF tok _ Some] by simp
    have "t = u \<longleftrightarrow> page_path w' = page_path w"
    proof
      assume "t = u"
      with Some have "table_at m root (page_path w') = Some t" by (simp only:)
      from tables_okD(2) [OF tok ok_page_path(1) t ok_page_path(1) this] show "page_path w' = page_path w" .
    next
      assume "page_path w' = page_path w"
      with Some t show "t = u" by (simp only: option.inject)
    qed
    moreover have "translate m' root w' = Some (entry m' u (w' mod 512))" "translate m root w' = Some (entry m u (w' mod 512))"
      using tab Some by (simp_all add: translate_def)
    moreover have "entry m' u (w' mod 512) = (if t = u \<and> w mod 512 = w' mod 512 then e else entry m u (w' mod 512))"
      by (rule ent [OF u]) simp
    ultimately show ?thesis by (auto simp only: same_entry_def split: if_split)
  qed
qed

lemma page_path_inj:
  assumes "page_path w = page_path w'" and "w mod 512 = w' mod 512"
  shows "w mod 2 ^ 36 = w' mod 2 ^ 36"
proof -
  have split: "x mod 68719476736 = 512 * (512 * (512 * (x div 134217728 mod 512) + x div 262144 mod 512)
      + x div 512 mod 512) + x mod 512" for x :: nat
  proof -
    have a: "x mod (512 * 134217728) = 512 * (x div 512 mod 134217728) + x mod 512" by (rule mod_mult2_eq)
    have b: "x div 512 mod (512 * 262144) = 512 * (x div 512 div 512 mod 262144) + x div 512 mod 512"
      by (rule mod_mult2_eq)
    have c: "x div 512 div 512 mod (512 * 512) = 512 * (x div 512 div 512 div 512 mod 512) + x div 512 div 512 mod 512"
      by (rule mod_mult2_eq)
    have n: "(512 * 134217728 :: nat) = 68719476736" "(512 * 262144 :: nat) = 134217728" "(512 * 512 :: nat) = 262144"
      by simp_all
    have d: "x div 512 div 512 = x div 262144" "x div 262144 div 512 = x div 134217728"
      by (simp_all add: div_mult2_eq [symmetric] del: div_mult2_eq)
    show ?thesis using a b c by (simp only: n d)
  qed
  have "(2 :: nat) ^ 36 = 68719476736" by simp
  then show ?thesis using assms by (simp only: split page_path_def list.inject)
qed

lemma page_path_range:
  assumes "fits v n" and "j < n"
  shows "page_path (v + j) = [v div 134217728 mod 512, v div 262144 mod 512, v div 512 mod 512 + (v mod 512 + j) div 512]"
    and "(v + j) mod 512 = (v mod 512 + j) mod 512" and "(v mod 512 + j) div 512 < ntables n"
proof -
  let ?b = "(v mod 512 + j) div 512"
  have "v mod 512 + j < 512 * ntables n" using assms by (simp add: fits_def)
  then show b: "?b < ntables n" by (simp add: less_mult_imp_div_less mult.commute)
  have "v + j = 512 * (v div 512) + (v mod 512 + j)" by simp
  then have q: "(v + j) div 512 = v div 512 + ?b" by (metis div_mult_self4 add.commute zero_neq_numeral)
  have "v div 512 mod 512 + ?b < 512" using b assms(1) by (simp add: fits_def)
  moreover have "(v div 512 + ?b) mod 512 = (v div 512 mod 512 + ?b) mod 512" by (simp only: mod_add_left_eq)
  moreover have "v div 512 + ?b = (v div 512 mod 512 + ?b) + v div 512 div 512 * 512"
    using div_mult_mod_eq [of "v div 512" 512] by linarith
  then have "(v div 512 + ?b) div 512 = v div 512 div 512 + (v div 512 mod 512 + ?b) div 512"
    by (metis div_mult_self1 zero_neq_numeral)
  ultimately have m: "(v div 512 + ?b) mod 512 = v div 512 mod 512 + ?b" "(v div 512 + ?b) div 512 = v div 512 div 512"
    by (simp_all only: mod_less div_less add_0_right)
  show "(v + j) mod 512 = (v mod 512 + j) mod 512" by (simp add: mod_add_left_eq)
  have "(v + j) div 262144 = (v + j) div 512 div 512" "v div 262144 = v div 512 div 512"
    by (simp_all add: div_mult2_eq [symmetric])
  then have h: "(v + j) div 262144 = v div 262144" using q m by simp
  have "(v + j) div 134217728 = (v + j) div 262144 div 512" "v div 134217728 = v div 262144 div 512"
    by (simp_all add: div_mult2_eq [symmetric])
  with h q m show "page_path (v + j) = [v div 134217728 mod 512, v div 262144 mod 512, v div 512 mod 512 + ?b]"
    by (simp add: page_path_def)
qed

text \<open>No large page is mapped on the way to the page tables of page \<open>w\<close>.\<close>

definition no_large :: "mem \<Rightarrow> u64 \<Rightarrow> nat \<Rightarrow> bool" where
  "no_large m root w \<longleftrightarrow>
     (\<forall>q i r u. page_path w = q @ i # r \<longrightarrow> table_at m root q = Some u \<longrightarrow>
        entry m u i AND X86_PAGE_PRESENT \<noteq> 0 \<longrightarrow> entry m u i AND X86_PAGE_LARGE = 0)"

lemma no_large_ext:
  assumes "no_large (memory k) (k_cr3 k) w" and "vm_ext X k k'"
  shows "no_large (memory k') (k_cr3 k) w"
  unfolding no_large_def
proof (intro allI impI, rule ccontr)
  fix q i r u
  assume w: "page_path w = q @ i # r" and q: "table_at (memory k') (k_cr3 k) q = Some u"
    and p: "entry (memory k') u i AND X86_PAGE_PRESENT \<noteq> 0" and l: "entry (memory k') u i AND X86_PAGE_LARGE \<noteq> 0"
  have "ok_path (page_path w)" "length (page_path w) = 3" by simp_all
  then have ok: "ok_path q" "i < 512" "length q < 3" unfolding w by (simp_all add: ok_path_def)
  note e = vm_ext_large [OF assms(2) ok q p l]
  with assms(1) w p l show False unfolding no_large_def by metis
qed

end
