(* ===== verification/PageOps.thy ===== *)
theory PageOps
  imports PageMap
begin

text \<open>
  The mapping operations of mmap.c against the translations of PageMap: \<open>kmap\<close>, \<open>kmapanon\<close>
  and \<open>kmprotect\<close> on a range that fits one page directory.
\<close>

declare table_at.simps(2) [simp del]

section \<open>The levels above the page tables\<close>

lemma dir_of_child:
  "child (entry m t i) = Some u \<Longrightarrow> dir_of m (physical_to_virtual t) i = physical_to_virtual u"
  by (auto simp: dir_of_def entry_def child_def split: if_splits)

lemma table_at_child:
  assumes "table_at m root p = Some t" and "table_at m root (p @ [i]) = Some u"
  shows "dir_of m (physical_to_virtual t) i = physical_to_virtual u"
  using assms by (intro dir_of_child) (simp add: table_at_snoc)

lemma slot_slot: "slot (slot d i) j = slot d (i + j)"
  by (simp add: slot_def algebra_simps)

lemma ensure_path:
  assumes ok: "vm_ok X k" and big: "no_large (memory k) (k_cr3 k) w" and w: "page_path w = p @ i # r"
    and t: "table_at (memory k) (k_cr3 k) p = Some t" and room: "0 < card (free_pages (pmem k))"
  defines "k' \<equiv> ensure_table (slot (physical_to_virtual t) i) k"
  shows "vm_ok X k'" and "vm_ext X k k'" and "\<exists>u. table_at (memory k') (k_cr3 k) (p @ [i]) = Some u"
    and "card (free_pages (pmem k)) \<le> Suc (card (free_pages (pmem k')))"
    and "free_pages (pmem k') \<subseteq> free_pages (pmem k)"
proof -
  have "ok_path (page_path w)" "length (page_path w) = 3" by simp_all
  then have p: "ok_path p" "length p < 3" "i < 512" unfolding w by (simp_all add: ok_path_def)
  have s: "entry (memory k) t i AND X86_PAGE_PRESENT \<noteq> 0 \<Longrightarrow> entry (memory k) t i AND X86_PAGE_LARGE = 0"
    using big w t unfolding no_large_def by metis
  have "free_pages (pmem k) \<noteq> {}" using room by auto
  from ensure_table_spec [OF ok p t s this]
  show "vm_ok X k'" "vm_ext X k k'" "\<exists>u. table_at (memory k') (k_cr3 k) (p @ [i]) = Some u"
    "card (free_pages (pmem k)) \<le> Suc (card (free_pages (pmem k')))"
    "free_pages (pmem k') \<subseteq> free_pages (pmem k)"
    unfolding k'_def by blast+
qed

text \<open>The state after the upper levels of a range of \<open>c\<close> page tables from page \<open>v\<close> on.\<close>

definition upper_tables :: "nat \<Rightarrow> nat \<Rightarrow> Kernel \<Rightarrow> Kernel" where
  "upper_tables v c k =
     (let o3 = v div 134217728 mod 512; o2 = v div 262144 mod 512; o1 = v div 512 mod 512;
          k3 = ensure_table (slot (physical_to_virtual (k_cr3 k)) o3) k;
          d2 = dir_of (memory k3) (physical_to_virtual (k_cr3 k)) o3;
          k2 = ensure_table (slot d2 o2) k3;
          d1 = dir_of (memory k2) d2 o2
      in for_n c (\<lambda>i. ensure_table (slot d1 (o1 + i))) k2)"

definition upper_dir :: "nat \<Rightarrow> Kernel \<Rightarrow> u64" where
  "upper_dir v k =
     (let o3 = v div 134217728 mod 512; o2 = v div 262144 mod 512;
          k3 = ensure_table (slot (physical_to_virtual (k_cr3 k)) o3) k;
          d2 = dir_of (memory k3) (physical_to_virtual (k_cr3 k)) o3;
          k2 = ensure_table (slot d2 o2) k3
      in dir_of (memory k2) d2 o2)"

definition range_ok :: "Kernel \<Rightarrow> nat \<Rightarrow> nat \<Rightarrow> bool" where
  "range_ok k v n \<longleftrightarrow> fits v n \<and> (\<forall>j<n. no_large (memory k) (k_cr3 k) (v + j))"

text \<open>Every page table of the range is the table of one of its pages.\<close>

lemma range_table:
  assumes "fits v n" and "i < ntables n"
  obtains j where "j < n"
    and "page_path (v + j) = [v div 134217728 mod 512, v div 262144 mod 512, v div 512 mod 512 + i]"
proof -
  have n: "0 < n" using assms(1) by (simp add: fits_def)
  have i: "512 * i < n" using assms(2) by (simp add: ntables_def)
  let ?j = "512 * i - v mod 512"
  show ?thesis
  proof (cases "i = 0")
    case True
    then show ?thesis using page_path_range(1) [OF assms(1) n] that [of 0] n by simp
  next
    case False
    then have "512 \<le> 512 * i" by simp
    moreover have "v mod 512 < 512" by simp
    ultimately have "v mod 512 \<le> 512 * i" by linarith
    then have "v mod 512 + ?j = 512 * i" by simp
    moreover have "?j < n" using i by simp
    ultimately show ?thesis using page_path_range(1) [OF assms(1), of ?j] that [of ?j] by simp
  qed
qed

lemma upper_tables_spec:
  assumes ok: "vm_ok X k" and r: "range_ok k v n" and room: "ntables n + 2 \<le> card (free_pages (pmem k))"
  defines "k1 \<equiv> upper_tables v (ntables n) k" and "o3 \<equiv> v div 134217728 mod 512" and "o2 \<equiv> v div 262144 mod 512"
    and "o1 \<equiv> v div 512 mod 512"
  shows "vm_ok X k1" and "vm_ext X k k1" and "free_pages (pmem k1) \<subseteq> free_pages (pmem k)"
    and "card (free_pages (pmem k)) \<le> card (free_pages (pmem k1)) + ntables n + 2"
    and "\<exists>t. upper_dir v k = physical_to_virtual t \<and> table_at (memory k1) (k_cr3 k) [o3, o2] = Some t"
    and "\<And>i. i < ntables n \<Longrightarrow> \<exists>t. table_at (memory k1) (k_cr3 k) [o3, o2, o1 + i] = Some t"
proof -
  let ?root = "k_cr3 k"
  have f: "fits v n" and nl: "\<And>j. j < n \<Longrightarrow> no_large (memory k) ?root (v + j)" using r by (simp_all add: range_ok_def)
  have n: "0 < n" using f by (simp add: fits_def)
  have w: "page_path v = [o3, o2, o1]" by (simp add: page_path_def o3_def o2_def o1_def)
  have ok2: "ok_path [o3, o2]" by (simp add: ok_path_def o3_def o2_def)
  have nl0: "no_large (memory k) ?root v" using nl [OF n] by simp
  define k3 where "k3 = ensure_table (slot (physical_to_virtual ?root) o3) k"
  have 3: "vm_ok X k3" "vm_ext X k k3" "\<exists>u. table_at (memory k3) ?root [o3] = Some u"
      "card (free_pages (pmem k)) \<le> Suc (card (free_pages (pmem k3)))" "free_pages (pmem k3) \<subseteq> free_pages (pmem k)"
    using ensure_path [OF ok nl0, of "[]" o3 "[o2, o1]" ?root] w room by (simp_all add: k3_def)
  then obtain t2 where t2: "table_at (memory k3) ?root [o3] = Some t2" by blast
  have c3: "k_cr3 k3 = ?root" using vm_ext_fields(1) [OF 3(2)] .
  define d2 where "d2 = dir_of (memory k3) (physical_to_virtual ?root) o3"
  have d2: "d2 = physical_to_virtual t2"
    using table_at_child [of "memory k3" ?root "[]" ?root o3 t2] t2 by (simp add: d2_def)
  define k2 where "k2 = ensure_table (slot d2 o2) k3"
  have nl3: "no_large (memory k3) (k_cr3 k3) v" using no_large_ext [OF nl0 3(2)] by (simp add: c3)
  have 2: "vm_ok X k2" "vm_ext X k3 k2" "\<exists>u. table_at (memory k2) ?root [o3, o2] = Some u"
      "card (free_pages (pmem k3)) \<le> Suc (card (free_pages (pmem k2)))" "free_pages (pmem k2) \<subseteq> free_pages (pmem k3)"
    using ensure_path [OF 3(1) nl3, of "[o3]" o2 "[o1]" t2] w t2 3(4) room by (simp_all add: c3 k2_def d2)
  then obtain t1 where t1: "table_at (memory k2) ?root [o3, o2] = Some t1" by blast
  note ext2 = vm_ext_trans [OF 3(2) 2(2)]
  have c2: "k_cr3 k2 = ?root" using vm_ext_fields(1) [OF ext2] .
  have "ok_path [o3]" by (simp add: ok_path_def o3_def)
  with vm_ext_table(1) [OF 2(2)] t2 have t2': "table_at (memory k2) ?root [o3] = Some t2" by (simp add: c3)
  define d1 where "d1 = dir_of (memory k2) d2 o2"
  have d1: "d1 = physical_to_virtual t1"
    using table_at_child [of "memory k2" ?root "[o3]" t2 o2 t1] t1 t2' by (simp add: d1_def d2)
  define F where "F = (\<lambda>i. ensure_table (slot d1 (o1 + i)))"
  define P where "P = (\<lambda>c s. vm_ok X s \<and> vm_ext X k2 s \<and> free_pages (pmem s) \<subseteq> free_pages (pmem k2)
      \<and> card (free_pages (pmem k2)) \<le> card (free_pages (pmem s)) + c
      \<and> (\<forall>i<c. \<exists>t. table_at (memory s) ?root [o3, o2, o1 + i] = Some t))"
  have "P (ntables n) (for_n (ntables n) F k2)"
  proof (rule for_n_invariant)
    show "P 0 k2" using 2 by (simp add: P_def vm_ext_refl)
    fix i s assume i: "i < ntables n" and s: "P i s"
    then have s1: "vm_ok X s" "vm_ext X k2 s" by (simp_all add: P_def)
    have cs: "k_cr3 s = ?root" using vm_ext_fields(1) [OF s1(2)] c2 by simp
    obtain j where j: "j < n" "page_path (v + j) = [o3, o2, o1 + i]"
      using range_table [OF f i] by (metis o3_def o2_def o1_def)
    have nls: "no_large (memory s) (k_cr3 s) (v + j)"
      using no_large_ext [OF nl [OF j(1)] vm_ext_trans [OF ext2 s1(2)]] by (simp add: cs)
    have ts: "table_at (memory s) (k_cr3 s) [o3, o2] = Some t1"
      using vm_ext_table(1) [OF s1(2) ok2] t1 by (simp add: c2 cs)
    have "0 < card (free_pages (pmem s))" using s i room 3(4) 2(4) by (simp add: P_def)
    note e = ensure_path [OF s1(1) nls _ ts this, of "o1 + i" "[]", unfolded j(2), simplified]
    have "vm_ext X k2 (F i s)" using vm_ext_trans [OF s1(2) e(2)] by (simp add: F_def d1)
    moreover have "\<exists>t. table_at (memory (F i s)) ?root [o3, o2, o1 + l] = Some t" if l: "l < Suc i" for l
    proof (cases "l = i")
      case True
      then show ?thesis using e(3) by (simp add: F_def d1 cs)
    next
      case False
      with l have "l < i" by simp
      with s have "\<exists>t. table_at (memory s) ?root [o3, o2, o1 + l] = Some t" by (simp add: P_def)
      then obtain t where "table_at (memory s) ?root [o3, o2, o1 + l] = Some t" by blast
      moreover have "o1 + l < 512" using f l i by (simp add: fits_def o1_def)
      then have "ok_path [o3, o2, o1 + l]" using ok2 by (simp add: ok_path_def)
      ultimately show ?thesis using vm_ext_table(1) [OF e(2)] by (auto simp: cs F_def d1)
    qed
    ultimately show "P (Suc i) (F i s)"
      using e s by (auto simp: P_def F_def d1)
  qed
  moreover have "k1 = for_n (ntables n) F k2"
    by (simp add: k1_def upper_tables_def Let_def k3_def d2_def k2_def d1_def F_def o3_def o2_def o1_def)
  ultimately have K: "P (ntables n) k1" by simp
  have dir: "upper_dir v k = d1"
    by (simp add: upper_dir_def Let_def k3_def d2_def k2_def d1_def o3_def o2_def)
  from K show "vm_ok X k1" "\<And>i. i < ntables n \<Longrightarrow> \<exists>t. table_at (memory k1) ?root [o3, o2, o1 + i] = Some t"
    by (simp_all add: P_def)
  have K2: "vm_ext X k2 k1" using K by (simp add: P_def)
  from vm_ext_trans [OF ext2 K2] show "vm_ext X k k1" .
  show "free_pages (pmem k1) \<subseteq> free_pages (pmem k)" using K 2(5) 3(5) by (auto simp: P_def)
  show "card (free_pages (pmem k)) \<le> card (free_pages (pmem k1)) + ntables n + 2"
    using K 2(4) 3(4) by (simp add: P_def)
  show "\<exists>t. upper_dir v k = physical_to_virtual t \<and> table_at (memory k1) ?root [o3, o2] = Some t"
    using vm_ext_table(1) [OF K2 ok2] t1 by (auto simp: dir d1 c2)
qed

section \<open>Leaf entries\<close>

text \<open>The address of the entry of page \<open>w\<close>.\<close>

definition leaf_slot :: "Kernel \<Rightarrow> nat \<Rightarrow> u64" where
  "leaf_slot k w = slot (physical_to_virtual (the (table_at (memory k) (k_cr3 k) (page_path w)))) (w mod 512)"

abbreviation trans :: "Kernel \<Rightarrow> nat \<Rightarrow> u64 option" where
  "trans k w \<equiv> translate (memory k) (k_cr3 k) w"

definition tables_same :: "Kernel \<Rightarrow> Kernel \<Rightarrow> bool" where
  "tables_same k k' \<longleftrightarrow> k_cr3 k' = k_cr3 k
     \<and> (\<forall>q. ok_path q \<longrightarrow> table_at (memory k') (k_cr3 k) q = table_at (memory k) (k_cr3 k) q)"

lemma tables_same_refl: "tables_same k k"
  and tables_same_trans: "tables_same k k' \<Longrightarrow> tables_same k' k'' \<Longrightarrow> tables_same k k''"
  by (simp_all add: tables_same_def)

lemma leaf_slot_same: "tables_same k k' \<Longrightarrow> leaf_slot k' w = leaf_slot k w"
  by (simp add: leaf_slot_def tables_same_def)

lemma tables_same_tables: "tables_same k k' \<Longrightarrow> tables (memory k') (k_cr3 k') = tables (memory k) (k_cr3 k)"
  by (auto simp: tables_same_def tables_def)

lemma tables_same_ok: "tables_same k k' \<Longrightarrow> tables_ok (memory k) (k_cr3 k) \<Longrightarrow> tables_ok (memory k') (k_cr3 k')"
  by (simp add: tables_ok_def tables_same_def)

lemma store_leaf:
  fixes e :: u64
  assumes ok: "vm_ok X k" and t: "table_at (memory k) (k_cr3 k) (page_path w) = Some t"
  defines "k' \<equiv> k\<lparr>memory := store64 (memory k) (leaf_slot k w) e\<rparr>"
  shows "vm_ok X k'" and "tables_same k k'" and "same_frames X (memory k) (memory k')"
    and "trans k' w' = (if same_entry w' w then Some e else trans k w')"
proof -
  have tok: "tables_ok (memory k) (k_cr3 k)" and X: "\<forall>x \<in> X. is_frame x" using ok by (simp_all add: vm_ok_def)
  have tf: "is_frame t" using tables_okD(1) [OF tok _ t] by simp
  have tX: "t \<notin> X" using ok t ok_page_path(1) [of w] unfolding vm_ok_def tables_def by blast
  have k': "k_cr3 k' = k_cr3 k" "pmem k' = pmem k"
    "memory k' = store64 (memory k) (slot (physical_to_virtual t) (w mod 512)) e"
    by (simp_all add: k'_def leaf_slot_def t)
  show same: "tables_same k k'" using store_leaf_entry(1) [OF tok t k'(3)] by (simp add: tables_same_def k'(1))
  show "same_frames X (memory k) (memory k')" unfolding k' using same_frames_store [OF tf _ tX X] by simp
  show "vm_ok X k'" using ok tables_same_tables [OF same] tables_same_ok [OF same tok] by (simp add: vm_ok_def k'(2))
  show "trans k' w' = (if same_entry w' w then Some e else trans k w')"
    unfolding k'(1) by (rule store_leaf_entry(2) [OF tok t k'(3)])
qed

lemma alloc_leaf:
  assumes ok: "vm_ok X k" and t: "table_at (memory k) (k_cr3 k) (page_path w) = Some t"
    and room: "free_pages (pmem k) \<noteq> {}"
  obtains f where "f \<in> free_pages (pmem k)" and "vm_ok (insert f X) (kmapanon_entry flags (leaf_slot k w) k)"
    and "tables_same k (kmapanon_entry flags (leaf_slot k w) k)"
    and "same_frames X (memory k) (memory (kmapanon_entry flags (leaf_slot k w) k))"
    and "\<And>w'. trans (kmapanon_entry flags (leaf_slot k w) k) w'
      = (if same_entry w' w then Some (f OR (X86_PAGE_PRESENT OR flags)) else trans k w')"
    and "\<And>j. j < 4096 \<Longrightarrow> memory (kmapanon_entry flags (leaf_slot k w) k) (physical_to_virtual f + of_nat j) = 0"
    and "free_pages (pmem (kmapanon_entry flags (leaf_slot k w) k)) = free_pages (pmem k) - {f}"
    and "all_pages (pmem (kmapanon_entry flags (leaf_slot k w) k)) = all_pages (pmem k)"
proof -
  obtain f a where z: "alloc_zero_page k = (f, k\<lparr>pmem := a, memory := zero_frame f (memory k)\<rparr>)"
      "f \<in> free_pages (pmem k)" "free_pages a = free_pages (pmem k) - {f}" "pm_inv a"
      "all_pages a = all_pages (pmem k)" "is_frame f" "f \<notin> tables (memory k) (k_cr3 k)" "f \<notin> X"
    by (rule alloc_zero_page_spec [OF ok room])
  let ?k = "k\<lparr>pmem := a, memory := zero_frame f (memory k)\<rparr>"
  have tok: "tables_ok (memory k) (k_cr3 k)" and X: "\<forall>x \<in> X. is_frame x" using ok by (simp_all add: vm_ok_def)
  have keep: "entry (zero_frame f (memory k)) u j = entry (memory k) u j"
    if "u \<in> tables (memory k) (k_cr3 k)" "j < 512" for u j
    using that z(6,7) tables_okD(1) [OF tok] by (intro entry_zero_other) (auto simp: tables_def)
  have "table_at (zero_frame f (memory k)) (k_cr3 k) q = table_at (memory k) (k_cr3 k) q" if "ok_path q" for q
    using that by (intro table_at_cong arg_cong [where f = child] keep) (auto simp: tables_def)
  then have same: "tables_same k ?k" by (simp add: tables_same_def)
  have tr: "trans ?k w' = trans k w'" for w'
  proof (cases "table_at (memory k) (k_cr3 k) (page_path w')")
    case (Some u)
    then have "u \<in> tables (memory k) (k_cr3 k)" using ok_page_path(1) unfolding tables_def by blast
    from keep [OF this, of "w' mod 512"] Some same show ?thesis
      by (simp add: translate_def tables_same_def)
  qed (use same in \<open>simp add: translate_def tables_same_def\<close>)
  have vm: "vm_ok (insert f X) ?k"
    using ok z tables_same_tables [OF same] tables_same_ok [OF same tok] by (auto simp: vm_ok_def)
  have t': "table_at (memory ?k) (k_cr3 ?k) (page_path w) = Some t"
    using t same by (simp add: tables_same_def)
  note st = store_leaf [OF vm t', where e = "f OR (X86_PAGE_PRESENT OR flags)"]
  have eq: "kmapanon_entry flags (leaf_slot k w) k
      = ?k\<lparr>memory := store64 (memory ?k) (leaf_slot ?k w) (f OR (X86_PAGE_PRESENT OR flags))\<rparr>"
    using leaf_slot_same [OF same] z(1) by (simp add: kmapanon_entry_def)
  have "same_frames X (memory k) (memory ?k)" using same_frames_zero [OF z(6,8) X] by simp
  moreover have "same_frames X (memory ?k) (memory (kmapanon_entry flags (leaf_slot k w) k))"
    using st(3) unfolding eq same_frames_def by blast
  ultimately have fr: "same_frames X (memory k) (memory (kmapanon_entry flags (leaf_slot k w) k))"
    by (rule same_frames_trans)
  have "memory (kmapanon_entry flags (leaf_slot k w) k) (physical_to_virtual f + of_nat j) = 0" if j: "j < 4096" for j
  proof -
    have "in_range (physical_to_virtual f) 4096 (physical_to_virtual f + of_nat j)"
      using j by (intro in_range_offset) auto
    then have "memory ?k (physical_to_virtual f + of_nat j) = 0" by (simp add: zero_frame_eq fill_at)
    then show ?thesis using st(3) j unfolding eq same_frames_def by simp
  qed
  moreover have "free_pages (pmem (kmapanon_entry flags (leaf_slot k w) k)) = free_pages (pmem k) - {f}"
    unfolding eq using z(3) by simp
  moreover have "trans (kmapanon_entry flags (leaf_slot k w) k) w'
      = (if same_entry w' w then Some (f OR (X86_PAGE_PRESENT OR flags)) else trans k w')" for w'
    unfolding eq st(4) tr by simp
  moreover have "tables_same k (kmapanon_entry flags (leaf_slot k w) k)"
    unfolding eq using tables_same_trans [OF same st(2)] .
  moreover have "vm_ok (insert f X) (kmapanon_entry flags (leaf_slot k w) k)" unfolding eq using st(1) .
  moreover have "all_pages (pmem (kmapanon_entry flags (leaf_slot k w) k)) = all_pages (pmem k)"
    unfolding eq using z(5) by simp
  ultimately show ?thesis using fr z(2) by (intro that) auto
qed

end
