(* ===== verification/KernelMap.thy ===== *)
theory KernelMap
  imports PageOps
begin

text \<open>
  The properties of the mapping operations of mmap.c: what \<open>kmap\<close>, \<open>kmapanon\<close> and
  \<open>kmprotect\<close> do to the translations of a range, and that they leave every other translation
  and every frame in use alone.
\<close>

section \<open>The page tables of a range as one loop\<close>

lemma walk_tables_flat:
  fixes I :: "nat \<Rightarrow> 's \<Rightarrow> bool"
  assumes body: "\<And>dir cnt s. body 0 dir cnt s = for_n (nat cnt) (\<lambda>i. op (slot dir i)) s"
    and dir: "\<And>s j k. I j s \<Longrightarrow> k < c \<Longrightarrow> dir_of (get s) d (i + k) = T k"
    and keep: "\<And>s j. I j s \<Longrightarrow> j < n \<Longrightarrow> I (Suc j) (op (slot (T ((off + j) div 512)) ((off + j) mod 512)) s)"
    and I: "I 0 s" and off: "off < 512" and room: "off + n \<le> 512 * c"
  shows "walk_tables get body d c i off n s
    = for_n n (\<lambda>j. op (slot (T ((off + j) div 512)) ((off + j) mod 512))) s"
  using dir keep I off room
proof (induction c arbitrary: i off n s T I)
  case (Suc c)
  let ?F = "\<lambda>j. op (slot (T ((off + j) div 512)) ((off + j) mod 512))"
  define cur where "cur = min n (512 - off)"
  have first: "(off + j) div 512 = 0" "(off + j) mod 512 = off + j" if "j < cur" for j
    using that by (auto simp: cur_def)
  have d0: "dir_of (get s) d i = T 0" using Suc.prems(1) [OF Suc.prems(3), of 0] by simp
  have "body 0 (slot (T 0) off) (int cur) s = for_n cur ?F s"
    unfolding body by (rule for_n_cong) (simp_all add: slot_slot first)
  then have step: "walk_tables get body d (Suc c) i off n s
      = walk_tables get body d c (Suc i) 0 (n - cur) (for_n cur ?F s)"
    by (simp add: d0 cur_def [symmetric] Let_def)
  have I': "I cur (for_n cur ?F s)"
    by (rule for_n_invariant [where P = I]) (use Suc.prems(2,3) in \<open>auto simp: cur_def\<close>)
  show ?case
  proof (cases "n \<le> 512 - off")
    case True
    then have "cur = n" by (simp add: cur_def)
    moreover have "walk_tables get body d c (Suc i) 0 0 s' = s'" for s'
      by (induction c arbitrary: i) (simp_all add: body)
    ultimately show ?thesis using step by simp
  next
    case False
    then have c: "cur = 512 - off" by (simp add: cur_def)
    have idx: "(off + (cur + j)) div 512 = Suc (j div 512)" "(off + (cur + j)) mod 512 = j mod 512" for j
      using Suc.prems(4) by (simp_all add: c)
    have "walk_tables get body d c (Suc i) 0 (n - cur) (for_n cur ?F s)
        = for_n (n - cur) (\<lambda>j. op (slot (T (Suc ((0 + j) div 512))) ((0 + j) mod 512))) (for_n cur ?F s)"
    proof (rule Suc.IH [where I = "\<lambda>j. I (cur + j)"])
      show "\<And>s j k. I (cur + j) s \<Longrightarrow> k < c \<Longrightarrow> dir_of (get s) d (Suc i + k) = T (Suc k)"
        using Suc.prems(1) by (metis Suc_less_eq add_Suc_shift)
      show "I (cur + 0) (for_n cur ?F s)" using I' by simp
      show "I (cur + Suc j) (op (slot (T (Suc ((0 + j) div 512))) ((0 + j) mod 512)) s)"
        if "I (cur + j) s" "j < n - cur" for s j
        using Suc.prems(2) [of "cur + j" s] that idx [of j] by simp
      show "0 + (n - cur) \<le> 512 * c" using Suc.prems(4,5) c by simp
    qed simp
    also have "\<dots> = for_n (n - cur) (\<lambda>j. ?F (cur + j)) (for_n cur ?F s)"
      by (simp add: idx)
    also have "\<dots> = for_n n ?F s"
      using for_n_add [of cur "n - cur" ?F s] False by (simp add: cur_def)
    finally show ?thesis using step by simp
  qed
qed simp

lemma leaf_walk:
  fixes kern :: "'s \<Rightarrow> Kernel"
  assumes f: "fits v n" and k1: "kern s = k1"
    and body0: "\<And>dir cnt s. body 0 dir cnt s = for_n (nat cnt) (\<lambda>i. op (slot dir i)) s"
    and keep: "\<And>j s'. j < n \<Longrightarrow> Q j s' \<Longrightarrow> tables_same k1 (kern s') \<Longrightarrow>
      Q (Suc j) (op (leaf_slot k1 (v + j)) s') \<and> tables_same k1 (kern (op (leaf_slot k1 (v + j)) s'))"
    and Q0: "Q 0 s"
    and t1: "table_at (memory k1) (k_cr3 k1) [v div 134217728 mod 512, v div 262144 mod 512] = Some t1"
    and tabs: "\<And>i. i < ntables n \<Longrightarrow> \<exists>t. table_at (memory k1) (k_cr3 k1)
      [v div 134217728 mod 512, v div 262144 mod 512, v div 512 mod 512 + i] = Some t"
  shows "Q n (walk_tables (\<lambda>s. memory (kern s)) body (physical_to_virtual t1) (ntables n) (v div 512 mod 512) (v mod 512) n s)"
proof -
  define o3 o2 o1 where "o3 = v div 134217728 mod 512" and "o2 = v div 262144 mod 512" and "o1 = v div 512 mod 512"
  note os = o3_def o2_def o1_def
  note t1 = t1 [folded os] and tabs = tabs [folded os]
  define T where "T i = physical_to_virtual (the (table_at (memory k1) (k_cr3 k1) [o3, o2, o1 + i]))" for i
  have leaf: "slot (T ((v mod 512 + j) div 512)) ((v mod 512 + j) mod 512) = leaf_slot k1 (v + j)" if "j < n" for j
    using page_path_range [OF f that] by (simp add: T_def leaf_slot_def os)
  have ok2: "ok_path [o3, o2]" by (simp add: ok_path_def o3_def o2_def)
  have dir: "dir_of (memory (kern s')) (physical_to_virtual t1) (o1 + i) = T i"
    if s': "tables_same k1 (kern s')" and i: "i < ntables n" for s' i
  proof -
    obtain t where t: "table_at (memory k1) (k_cr3 k1) [o3, o2, o1 + i] = Some t" using tabs [OF i] by blast
    have "o1 + i < 512" using f i by (simp add: fits_def o1_def)
    then have "ok_path [o3, o2, o1 + i]" using ok2 by (simp add: ok_path_def)
    then have "table_at (memory (kern s')) (k_cr3 k1) ([o3, o2] @ [o1 + i]) = Some t"
      "table_at (memory (kern s')) (k_cr3 k1) [o3, o2] = Some t1"
      using s' ok2 t t1 by (simp_all add: tables_same_def)
    from table_at_child [OF this(2,1)] t show ?thesis by (simp add: T_def)
  qed
  define F where "F = (\<lambda>j. op (slot (T ((v mod 512 + j) div 512)) ((v mod 512 + j) mod 512)))"
  have run: "Q j (for_n j F s) \<and> tables_same k1 (kern (for_n j F s))" if "j \<le> n" for j
    using that
  proof (induction j)
    case 0
    show ?case using Q0 by (simp add: k1 tables_same_refl)
  next
    case (Suc j)
    then have "j < n" by simp
    with Suc keep [of j "for_n j F s"] leaf [of j] show ?case by (simp add: F_def)
  qed
  have "walk_tables (\<lambda>s. memory (kern s)) body (physical_to_virtual t1) (ntables n) o1 (v mod 512) n s = for_n n F s"
    unfolding F_def
  proof (rule walk_tables_flat [where I = "\<lambda>j s'. Q j s' \<and> tables_same k1 (kern s')" and body = body and op = op])
    show "\<And>dir cnt s. body 0 dir cnt s = for_n (nat cnt) (\<lambda>i. op (slot dir i)) s" by (rule body0)
    show "\<And>s' j i. Q j s' \<and> tables_same k1 (kern s') \<Longrightarrow> i < ntables n \<Longrightarrow>
        dir_of (memory (kern s')) (physical_to_virtual t1) (o1 + i) = T i" using dir by blast
    show "\<And>s' j. Q j s' \<and> tables_same k1 (kern s') \<Longrightarrow> j < n \<Longrightarrow>
        Q (Suc j) (op (slot (T ((v mod 512 + j) div 512)) ((v mod 512 + j) mod 512)) s')
        \<and> tables_same k1 (kern (op (slot (T ((v mod 512 + j) div 512)) ((v mod 512 + j) mod 512)) s'))"
      using keep leaf by simp
    show "Q 0 s \<and> tables_same k1 (kern s)" using Q0 by (simp add: k1 tables_same_refl)
    show "v mod 512 + n \<le> 512 * ntables n" using f by (simp add: fits_def)
  qed simp
  with run [of n] show ?thesis by (simp add: o1_def)
qed

text \<open>
  On a range the driving loop of a mapping operation is the upper levels followed by the leaf
  operation on the entry of each page in order. \<open>kern\<close> is the kernel state inside the state of
  the loop.
\<close>

lemma map_walk:
  fixes kern :: "'s \<Rightarrow> Kernel" and upd :: "Kernel \<Rightarrow> 's \<Rightarrow> 's"
  assumes ok: "vm_ok X (kern s)" and r: "range_ok (kern s) (vpage addr) (vlen sz)"
    and room: "ntables (vlen sz) + 2 \<le> card (free_pages (pmem (kern s)))"
    and upd: "\<And>k s. kern (upd k s) = k" "\<And>k k' s. upd k (upd k' s) = upd k s" "\<And>s. upd (kern s) s = s"
    and body0: "\<And>dir cnt s. body 0 dir cnt s = for_n (nat cnt) (\<lambda>i. op (slot dir i)) s"
    and bodyS: "\<And>d dir cnt s. body (Suc d) dir cnt s
      = for_n (nat cnt) (\<lambda>i s. upd (ensure_table (slot dir i) (kern s)) s) s"
    and keep: "\<And>j s'. j < vlen sz \<Longrightarrow> Q j s' \<Longrightarrow> tables_same k1 (kern s') \<Longrightarrow>
      Q (Suc j) (op (leaf_slot k1 (vpage addr + j)) s') \<and> tables_same k1 (kern (op (leaf_slot k1 (vpage addr + j)) s'))"
    and Q0: "Q 0 (upd k1 s)"
    and k1: "k1 = upper_tables (vpage addr) (ntables (vlen sz)) (kern s)"
  shows "Q (vlen sz) (page_walk (\<lambda>s. memory (kern s)) body (page_iter_create (k_cr3 (kern s)) addr sz) s)"
proof -
  let ?k = "kern s" and ?v = "vpage addr" and ?n = "vlen sz"
  have f: "fits ?v ?n" using r by (simp add: range_ok_def)
  note up = upper_tables_spec [OF ok r room, folded k1]
  have cr3: "k_cr3 k1 = k_cr3 ?k" using vm_ext_fields(1) [OF up(2)] .
  have for_upd: "for_n c (\<lambda>i s. upd (ensure_table (F i) (kern s)) s) (upd k' s) = upd (for_n c (\<lambda>i. ensure_table (F i)) k') s"
    for c F k' by (induction c) (simp_all add: upd)
  have for_upd0: "for_n c (\<lambda>i s. upd (ensure_table (F i) (kern s)) s) s = upd (for_n c (\<lambda>i. ensure_table (F i)) ?k) s"
    for c F using for_upd [of c F ?k] by (simp add: upd)
  have b: "body 3 dir cnt s' = for_n (nat cnt) (\<lambda>i s. upd (ensure_table (slot dir i) (kern s)) s) s'"
    "body 2 dir cnt s' = for_n (nat cnt) (\<lambda>i s. upd (ensure_table (slot dir i) (kern s)) s) s'"
    "body 1 dir cnt s' = for_n (nat cnt) (\<lambda>i s. upd (ensure_table (slot dir i) (kern s)) s) s'" for dir cnt s'
    using bodyS [of 2] bodyS [of 1] bodyS [of 0] by (simp_all add: numeral_3_eq_3 numeral_2_eq_2)
  have slot0: "slot d 0 = d" for d by (simp add: slot_def)
  obtain t1 where t1: "upper_dir ?v ?k = physical_to_virtual t1"
      "table_at (memory k1) (k_cr3 ?k) [?v div 134217728 mod 512, ?v div 262144 mod 512] = Some t1"
    using up(5) by auto
  have walk: "page_walk (\<lambda>s. memory (kern s)) body (page_iter_create (k_cr3 ?k) addr sz) s
      = walk_tables (\<lambda>s. memory (kern s)) body (physical_to_virtual t1) (ntables ?n) (?v div 512 mod 512) (?v mod 512) ?n (upd k1 s)"
    unfolding page_walk_fits [OF f] b t1(1) [symmetric]
    by (simp add: for_upd0 for_upd upd slot0 slot_slot Let_def k1 upper_tables_def upper_dir_def)
  show ?thesis
    unfolding walk
    by (rule leaf_walk [where kern = kern and Q = Q and op = op and body = body and ?k1.0 = k1, OF f])
      (use body0 keep Q0 in \<open>simp_all add: upd cr3 t1 up(6)\<close>)
qed

text \<open>The operations that create no table: on a range whose page tables are there.\<close>

definition tables_present :: "Kernel \<Rightarrow> nat \<Rightarrow> nat \<Rightarrow> bool" where
  "tables_present k v n \<longleftrightarrow> (\<forall>j<n. \<exists>t. table_at (memory k) (k_cr3 k) (page_path (v + j)) = Some t)"

lemma table_at_prefix:
  "table_at m root (p @ [i]) = Some t \<Longrightarrow> \<exists>u. table_at m root p = Some u \<and> dir_of m (physical_to_virtual u) i = physical_to_virtual t"
  by (cases "table_at m root p") (auto simp: table_at_snoc dir_of_child)

lemma leaf_only_walk:
  assumes f: "fits (vpage addr) (vlen sz)" and present: "tables_present k (vpage addr) (vlen sz)"
    and body0: "\<And>dir cnt s. body 0 dir cnt s = for_n (nat cnt) (\<lambda>i. op (slot dir i)) s"
    and bodyS: "\<And>d dir cnt s. body (Suc d) dir cnt s = s"
    and keep: "\<And>j s'. j < vlen sz \<Longrightarrow> Q j s' \<Longrightarrow> tables_same k s' \<Longrightarrow>
      Q (Suc j) (op (leaf_slot k (vpage addr + j)) s') \<and> tables_same k (op (leaf_slot k (vpage addr + j)) s')"
    and Q0: "Q 0 k"
  shows "Q (vlen sz) (page_walk memory body (page_iter_create (k_cr3 k) addr sz) k)"
proof -
  let ?v = "vpage addr" and ?n = "vlen sz"
  define o3 o2 o1 where "o3 = ?v div 134217728 mod 512" and "o2 = ?v div 262144 mod 512" and "o1 = ?v div 512 mod 512"
  note os = o3_def o2_def o1_def
  have b: "body 3 dir cnt s = s" "body 2 dir cnt s = s" "body 1 dir cnt s = s" for dir cnt s
    using bodyS [of 2] bodyS [of 1] bodyS [of 0] by (simp_all add: numeral_3_eq_3 numeral_2_eq_2)
  have tabs: "\<exists>t. table_at (memory k) (k_cr3 k) [o3, o2, o1 + i] = Some t" if i: "i < ntables ?n" for i
    using range_table [OF f i] present unfolding os tables_present_def by metis
  obtain t0 where t0: "table_at (memory k) (k_cr3 k) [o3, o2, o1 + 0] = Some t0"
    using tabs [of 0] fits_counts(4) [OF f] by blast
  then have "table_at (memory k) (k_cr3 k) ([o3, o2] @ [o1]) = Some t0" by simp
  from table_at_prefix [OF this] obtain t1 where t1: "table_at (memory k) (k_cr3 k) [o3, o2] = Some t1" by blast
  then have "table_at (memory k) (k_cr3 k) ([o3] @ [o2]) = Some t1" by simp
  from table_at_prefix [OF this] obtain t2 where t2: "table_at (memory k) (k_cr3 k) [o3] = Some t2"
      "dir_of (memory k) (physical_to_virtual t2) o2 = physical_to_virtual t1" by blast
  then have "table_at (memory k) (k_cr3 k) ([] @ [o3]) = Some t2" by simp
  from table_at_prefix [OF this] have "dir_of (memory k) (physical_to_virtual (k_cr3 k)) o3 = physical_to_virtual t2"
    by simp
  with t2 have walk: "page_walk memory body (page_iter_create (k_cr3 k) addr sz) k
      = walk_tables memory body (physical_to_virtual t1) (ntables ?n) o1 (?v mod 512) ?n k"
    unfolding page_walk_fits [OF f] b by (simp add: Let_def os)
  show ?thesis
    unfolding walk o1_def
    by (rule leaf_walk [where kern = "\<lambda>s. s" and Q = Q and op = op and body = body and ?k1.0 = k, OF f])
      (use body0 keep Q0 t1 tabs in \<open>simp_all add: os\<close>)
qed

section \<open>Pages of a range\<close>

lemma same_entry_range:
  assumes "fits v n" and "i < n" and "j < n" and "same_entry (v + i) (v + j)"
  shows "i = j"
proof -
  have eq: "page_path (v + i) = page_path (v + j)" "(v + i) mod 512 = (v + j) mod 512"
    using assms(4) unfolding same_entry_def by blast+
  have d: "(v mod 512 + i) div 512 = (v mod 512 + j) div 512"
    using eq(1) unfolding page_path_range(1) [OF assms(1,2)] page_path_range(1) [OF assms(1,3)]
    by (simp only: list.inject add_left_cancel)
  have m: "(v mod 512 + i) mod 512 = (v mod 512 + j) mod 512"
    using eq(2) unfolding page_path_range(2) [OF assms(1,2)] page_path_range(2) [OF assms(1,3)] .
  have "v mod 512 + i = 512 * ((v mod 512 + i) div 512) + (v mod 512 + i) mod 512" by (rule mult_div_mod_eq [symmetric])
  also have "\<dots> = v mod 512 + j" unfolding d m by (rule mult_div_mod_eq)
  finally show ?thesis by simp
qed

lemma same_entry_36: "same_entry w w' \<Longrightarrow> w mod 2 ^ 36 = w' mod 2 ^ 36"
  unfolding same_entry_def by (rule page_path_inj) blast+

lemma trans_ext:
  assumes "vm_ext X k k'" and "trans k w = Some e"
  shows "trans k' w = Some e"
proof -
  obtain t where t: "table_at (memory k) (k_cr3 k) (page_path w) = Some t" "e = entry (memory k) t (w mod 512)"
    using assms(2) by (auto simp: translate_def split: option.splits)
  have "w mod 512 < 512" by simp
  with vm_ext_table [OF assms(1) ok_page_path(1) t(1)] t(2) vm_ext_fields(1) [OF assms(1)] show ?thesis
    by (auto simp: translate_def)
qed

text \<open>The facts about the state after the upper levels that the leaf steps use.\<close>

lemma upper_range:
  assumes "vm_ok X k" and "range_ok k v n" and "ntables n + 2 \<le> card (free_pages (pmem k))"
    and "j < n" and "tables_same (upper_tables v (ntables n) k) s"
  shows "\<exists>t. table_at (memory s) (k_cr3 s) (page_path (v + j)) = Some t"
proof -
  have f: "fits v n" using assms(2) by (simp add: range_ok_def)
  note up = upper_tables_spec [OF assms(1-3)]
  have "\<exists>t. table_at (memory (upper_tables v (ntables n) k)) (k_cr3 k) (page_path (v + j)) = Some t"
    using up(6) page_path_range(1,3) [OF f assms(4)] by simp
  then show ?thesis using assms(5) vm_ext_fields(1) [OF up(2)] by (simp add: tables_same_def)
qed

text \<open>
  The states the leaf steps go through: \<open>val\<close> is the entry of each page done so far, all other
  translations are those before.
\<close>

definition mapped_upto :: "(nat \<Rightarrow> u64) \<Rightarrow> nat \<Rightarrow> nat \<Rightarrow> Kernel \<Rightarrow> Kernel \<Rightarrow> bool" where
  "mapped_upto val v j k1 s \<longleftrightarrow> (\<forall>i<j. trans s (v + i) = Some (val i))
     \<and> (\<forall>w. (\<forall>i<j. \<not> same_entry w (v + i)) \<longrightarrow> trans s w = trans k1 w)"

lemma mapped_upto_0: "mapped_upto val v 0 k1 k1"
  by (simp add: mapped_upto_def)

lemma mapped_upto_Suc:
  assumes "mapped_upto val v j k1 s" and "fits v n" and "j < n"
    and "\<And>w. trans s' w = (if same_entry w (v + j) then Some (val j) else trans s w)"
  shows "mapped_upto val v (Suc j) k1 s'"
proof -
  have "same_entry (v + j) (v + j)" by (simp add: same_entry_def)
  moreover have "\<not> same_entry (v + i) (v + j)" if "i < j" for i
    using same_entry_range [OF assms(2) _ assms(3), of i] that assms(3) by auto
  ultimately show ?thesis using assms(1,4) by (auto simp: mapped_upto_def less_Suc_eq)
qed

section \<open>kmap\<close>

lemma kmap_address:
  "addr \<noteq> 0 \<Longrightarrow> kmap addr phys sz prot k = (addr, cr3_write (fst (page_walk (\<lambda>s. memory (fst s))
     (\<lambda>depth dir n. for_n (nat n) (\<lambda>i s.
        if depth \<noteq> 0 then (ensure_table (slot dir i) (fst s), snd s)
        else kmap_entry (page_prot_flags (nx_mask k) prot) (slot dir i) s))
     (page_iter_create (k_cr3 k) addr sz) (k, phys AND NOT 0xfff))))"
  by (simp add: kmap_def)

lemma cr3_write_same [simp]:
  "memory (cr3_write k) = memory k" "k_cr3 (cr3_write k) = k_cr3 k" "pmem (cr3_write k) = pmem k"
  "nx_mask (cr3_write k) = nx_mask k" "hw_cr3 (cr3_write k) = k_cr3 k"
  "heap_size (cr3_write k) = heap_size k" "io_size (cr3_write k) = io_size k"
  by (simp_all add: cr3_write_def)

lemma vm_ok_cr3_write [simp]: "vm_ok X (cr3_write k) = vm_ok X k"
  by (simp add: vm_ok_def)

lemma mapped_upto_cr3_write [simp]: "mapped_upto val v j k1 (cr3_write s) = mapped_upto val v j k1 s"
  by (simp add: mapped_upto_def)

text \<open>C2. kmap maps the range: on a range that fits one page directory, with room for the tables it
  needs, page \<open>j\<close> of the range translates to physical page \<open>j\<close> with the requested protection, every
  translation outside the range is kept, no frame in use is written, and the invariant of tables and
  free pages is kept.\<close>

theorem kmap_maps_range:
  assumes "vm_ok X k" and "addr \<noteq> 0" and "range_ok k (vpage addr) (vlen sz)"
    and "ntables (vlen sz) + 2 \<le> card (free_pages (pmem k))" and "kmap addr phys sz prot k = (addr', k')"
  shows "addr' = addr \<and> vm_ok X k' \<and> hw_cr3 k' = k_cr3 k \<and> k_cr3 k' = k_cr3 k
    \<and> (\<forall>j<vlen sz. translate (memory k') (k_cr3 k') (vpage addr + j)
         = Some (((phys AND NOT 0xfff) + of_nat j * PAGESIZE)
             OR (X86_PAGE_PRESENT OR page_prot_flags (nx_mask k) prot)))
    \<and> (\<forall>w e. (\<forall>j<vlen sz. w mod 2 ^ 36 \<noteq> (vpage addr + j) mod 2 ^ 36) \<longrightarrow>
         translate (memory k) (k_cr3 k) w = Some e \<longrightarrow> translate (memory k') (k_cr3 k') w = Some e)
    \<and> same_frames X (memory k) (memory k')"
proof -
  let ?v = "vpage addr" and ?n = "vlen sz" and ?fl = "page_prot_flags (nx_mask k) prot"
  let ?k1 = "upper_tables ?v (ntables ?n) k" and ?phys = "phys AND NOT 0xfff"
  let ?val = "\<lambda>j. (?phys + of_nat j * PAGESIZE) OR (X86_PAGE_PRESENT OR ?fl)"
  let ?body = "\<lambda>depth dir n. for_n (nat n) (\<lambda>i s.
        if depth \<noteq> 0 then (ensure_table (slot dir i) (fst s), snd s) else kmap_entry ?fl (slot dir i) s)"
  note up = upper_tables_spec [OF assms(1,3,4)]
  have f: "fits ?v ?n" using assms(3) by (simp add: range_ok_def)
  define Q where "Q j s \<longleftrightarrow> vm_ok X (fst s) \<and> snd s = ?phys + of_nat j * PAGESIZE
      \<and> same_frames X (memory ?k1) (memory (fst s)) \<and> mapped_upto ?val ?v j ?k1 (fst s)
      \<and> k_cr3 (fst s) = k_cr3 ?k1" for j s
  let ?s = "page_walk (\<lambda>s. memory (fst s)) ?body (page_iter_create (k_cr3 k) addr sz) (k, ?phys)"
  have "Q ?n ?s"
  proof (rule map_walk [where kern = fst and s = "(k, ?phys)" and upd = "\<lambda>k s. (k, snd s)" and X = X
        and op = "kmap_entry ?fl", simplified fst_conv, OF assms(1,3,4)])
    show "Q 0 (?k1, snd (k, ?phys))"
      using up(1) by (simp add: Q_def same_frames_refl mapped_upto_0)
    fix j s assume j: "j < ?n" and Q: "Q j s" and t: "tables_same ?k1 (fst s)"
    obtain ks p where s: "s = (ks, p)" by force
    have ks: "vm_ok X ks" using Q by (simp add: Q_def s)
    obtain u where u: "table_at (memory ks) (k_cr3 ks) (page_path (?v + j)) = Some u"
      using upper_range [OF assms(1,3,4) j t] s by auto
    note st = store_leaf [OF ks u, where e = "p OR (X86_PAGE_PRESENT OR ?fl)"]
    have op: "kmap_entry ?fl (leaf_slot ?k1 (?v + j)) s
        = (ks\<lparr>memory := store64 (memory ks) (leaf_slot ks (?v + j)) (p OR (X86_PAGE_PRESENT OR ?fl))\<rparr>, p + PAGESIZE)"
      using leaf_slot_same [OF t] by (simp add: s kmap_entry_def)
    have p: "p = ?phys + of_nat j * PAGESIZE" using Q by (simp add: Q_def s)
    have "mapped_upto ?val ?v j ?k1 ks" using Q by (simp add: Q_def s)
    from mapped_upto_Suc [OF this f j st(4) [unfolded p]]
    have "mapped_upto ?val ?v (Suc j) ?k1 (fst (kmap_entry ?fl (leaf_slot ?k1 (?v + j)) s))"
      unfolding op p by simp
    moreover have "same_frames X (memory ?k1) (memory (fst (kmap_entry ?fl (leaf_slot ?k1 (?v + j)) s)))"
      using Q st(3) unfolding op by (auto simp: Q_def s intro: same_frames_trans)
    ultimately show "Q (Suc j) (kmap_entry ?fl (leaf_slot ?k1 (?v + j)) s)
        \<and> tables_same ?k1 (fst (kmap_entry ?fl (leaf_slot ?k1 (?v + j)) s))"
      using Q st(1) tables_same_trans [OF t [unfolded s fst_conv] st(2)] unfolding Q_def op
      by (simp add: s algebra_simps)
  qed simp_all
  then have Qs: "vm_ok X (fst ?s)" "same_frames X (memory ?k1) (memory (fst ?s))" "mapped_upto ?val ?v ?n ?k1 (fst ?s)"
      "k_cr3 (fst ?s) = k_cr3 ?k1"
    unfolding Q_def by blast+
  have k': "addr' = addr" "k' = cr3_write (fst ?s)"
    using assms(5) unfolding kmap_address [OF assms(2)] by (auto simp only: prod.inject)
  have Qn: "vm_ok X k'" "same_frames X (memory ?k1) (memory k')" "mapped_upto ?val ?v ?n ?k1 k'"
      "k_cr3 k' = k_cr3 ?k1"
    unfolding k'(2) cr3_write_same vm_ok_cr3_write mapped_upto_cr3_write using Qs .
  have cr3: "k_cr3 ?k1 = k_cr3 k" using vm_ext_fields(1) [OF up(2)] .
  have "trans k' w = Some e" if "\<forall>j<?n. w mod 2 ^ 36 \<noteq> (?v + j) mod 2 ^ 36" "trans k w = Some e" for w e
    using Qn(3) that same_entry_36 trans_ext [OF up(2)] unfolding mapped_upto_def by metis
  moreover have "same_frames X (memory k) (memory k')"
    using vm_ext_fields(5) [OF up(2)] Qn(2) by (rule same_frames_trans)
  moreover have "\<forall>j<?n. trans k' (?v + j) = Some (?val j)"
    using Qn(3) by (simp add: mapped_upto_def)
  moreover have "hw_cr3 k' = k_cr3 k'" unfolding k'(2) by simp
  then have "hw_cr3 k' = k_cr3 k" using Qn(4) cr3 by simp
  moreover have "k_cr3 k' = k_cr3 k" using Qn(4) cr3 by simp
  ultimately show ?thesis using k'(1) Qn(1) by blast
qed

section \<open>kmapanon\<close>

lemma mapped_upto_cong:
  "mapped_upto val v j k1 s \<Longrightarrow> (\<And>i. i < j \<Longrightarrow> val i = val' i) \<Longrightarrow> mapped_upto val' v j k1 s"
  by (simp add: mapped_upto_def)

lemma mapped_upto_all:
  assumes "mapped_upto val v n k1 k'" and "vm_ext X k k1"
  shows "(\<forall>j<n. trans k' (v + j) = Some (val j))
    \<and> (\<forall>w e. (\<forall>j<n. w mod 2 ^ 36 \<noteq> (v + j) mod 2 ^ 36) \<longrightarrow> trans k w = Some e \<longrightarrow> trans k' w = Some e)"
proof -
  have "trans k' w = Some e" if w: "\<forall>j<n. w mod 2 ^ 36 \<noteq> (v + j) mod 2 ^ 36" "trans k w = Some e" for w e
  proof -
    have "\<forall>j<n. \<not> same_entry w (v + j)" using w(1) same_entry_36 by blast
    then have "trans k' w = trans k1 w" using assms(1) by (simp add: mapped_upto_def)
    with trans_ext [OF assms(2) w(2)] show ?thesis by simp
  qed
  with assms(1) show ?thesis by (simp add: mapped_upto_def)
qed

lemma kmapanon_entry_nx: "nx_mask (kmapanon_entry flags p k) = nx_mask k"
  and kmapanon_entry_heap: "heap_size (kmapanon_entry flags p k) = heap_size k"
  by (simp_all add: kmapanon_entry_def alloc_zero_page_def split: prod.splits)

lemma kmapanon_spec:
  assumes "vm_ok X k" and "range_ok k (vpage addr) (vlen sz)"
    and "vlen sz + ntables (vlen sz) + 2 \<le> card (free_pages (pmem k))" and "kmapanon addr sz prot k = (addr', k')"
  shows "\<exists>fs. length fs = vlen sz \<and> distinct fs \<and> set fs \<subseteq> free_pages (pmem k)
    \<and> (\<forall>j<vlen sz. translate (memory k') (k_cr3 k') (vpage addr + j)
         = Some (fs ! j OR (X86_PAGE_PRESENT OR page_prot_flags (nx_mask k) prot)))
    \<and> (\<forall>f \<in> set fs. \<forall>i<4096. memory k' (physical_to_virtual f + of_nat i) = 0)
    \<and> (\<forall>w e. (\<forall>j<vlen sz. w mod 2 ^ 36 \<noteq> (vpage addr + j) mod 2 ^ 36) \<longrightarrow>
         translate (memory k) (k_cr3 k) w = Some e \<longrightarrow> translate (memory k') (k_cr3 k') w = Some e)
    \<and> same_frames X (memory k) (memory k') \<and> vm_ok (X \<union> set fs) k' \<and> addr' = addr
    \<and> all_pages (pmem k') = all_pages (pmem k) \<and> free_pages (pmem k') \<subseteq> free_pages (pmem k) - set fs
    \<and> card (free_pages (pmem k)) \<le> card (free_pages (pmem k')) + vlen sz + ntables (vlen sz) + 2
    \<and> nx_mask k' = nx_mask k \<and> heap_size k' = heap_size k \<and> k_cr3 k' = k_cr3 k"
proof -
  let ?v = "vpage addr" and ?n = "vlen sz" and ?fl = "page_prot_flags (nx_mask k) prot"
  let ?k1 = "upper_tables ?v (ntables ?n) k"
  let ?val = "\<lambda>fs j. fs ! j OR (X86_PAGE_PRESENT OR ?fl)"
  let ?body = "\<lambda>depth dir n. for_n (nat n) (\<lambda>i.
      if depth \<noteq> 0 then ensure_table (slot dir i) else kmapanon_entry ?fl (slot dir i))"
  have room: "ntables ?n + 2 \<le> card (free_pages (pmem k))" using assms(3) by simp
  note up = upper_tables_spec [OF assms(1,2) room]
  have f: "fits ?v ?n" using assms(2) by (simp add: range_ok_def)
  have enough: "?n \<le> card (free_pages (pmem ?k1))" using up(4) assms(3) by simp
  define R where "R fs s \<longleftrightarrow> distinct fs \<and> set fs \<subseteq> free_pages (pmem ?k1)
      \<and> vm_ok (X \<union> set fs) s \<and> free_pages (pmem s) = free_pages (pmem ?k1) - set fs
      \<and> same_frames X (memory ?k1) (memory s) \<and> k_cr3 s = k_cr3 ?k1 \<and> nx_mask s = nx_mask ?k1
      \<and> heap_size s = heap_size ?k1
      \<and> all_pages (pmem s) = all_pages (pmem ?k1)
      \<and> (\<forall>f \<in> set fs. \<forall>i<4096. memory s (physical_to_virtual f + of_nat i) = 0)" for fs s
  define Q where "Q j s \<longleftrightarrow> (\<exists>fs. length fs = j \<and> R fs s \<and> mapped_upto (?val fs) ?v j ?k1 s)" for j s
  have "Q ?n (page_walk memory ?body (page_iter_create (k_cr3 k) addr sz) k)"
  proof (rule map_walk [where kern = "\<lambda>s. s" and upd = "\<lambda>k s. k" and X = X and op = "kmapanon_entry ?fl"
        and Q = Q and ?k1.0 = ?k1 and body = ?body and s = k, OF assms(1,2) room])
    have "R [] ?k1" using up(1) by (simp add: R_def same_frames_refl)
    then show "Q 0 ?k1" unfolding Q_def using mapped_upto_0 by blast
    fix j s assume j: "j < ?n" and Q: "Q j s" and t: "tables_same ?k1 s"
    then obtain fs where fs: "length fs = j" "R fs s" "mapped_upto (?val fs) ?v j ?k1 s" by (auto simp: Q_def)
    have ok: "vm_ok (X \<union> set fs) s" and fr: "free_pages (pmem s) = free_pages (pmem ?k1) - set fs"
      using fs(2) by (simp_all add: R_def)
    have "card (set fs) < card (free_pages (pmem ?k1))"
      using fs(1,2) j enough by (simp add: R_def distinct_card)
    then have ne: "free_pages (pmem s) \<noteq> {}"
      unfolding fr by (metis Diff_eq_empty_iff card_mono finite_set leD)
    obtain u where u: "table_at (memory s) (k_cr3 s) (page_path (?v + j)) = Some u"
      using upper_range [OF assms(1,2) room j t] by blast
    let ?s' = "kmapanon_entry ?fl (leaf_slot s (?v + j)) s"
    obtain g where g: "g \<in> free_pages (pmem s)" "vm_ok (insert g (X \<union> set fs)) ?s'" "tables_same s ?s'"
        "same_frames (X \<union> set fs) (memory s) (memory ?s')"
        "\<And>w'. trans ?s' w' = (if same_entry w' (?v + j) then Some (g OR (X86_PAGE_PRESENT OR ?fl)) else trans s w')"
        "\<And>i. i < 4096 \<Longrightarrow> memory ?s' (physical_to_virtual g + of_nat i) = 0"
        "free_pages (pmem ?s') = free_pages (pmem s) - {g}"
        "all_pages (pmem ?s') = all_pages (pmem s)"
      by (rule alloc_leaf [OF ok u ne, where flags = ?fl]) (rule that)
    have R': "R (fs @ [g]) ?s'"
      unfolding R_def
    proof (intro conjI)
      show "distinct (fs @ [g])" "set (fs @ [g]) \<subseteq> free_pages (pmem ?k1)"
        using fs(2) g(1) fr by (auto simp: R_def)
      show "vm_ok (X \<union> set (fs @ [g])) ?s'" using g(2) by simp
      show "free_pages (pmem ?s') = free_pages (pmem ?k1) - set (fs @ [g])" using g(7) fr by auto
      show "same_frames X (memory ?k1) (memory ?s')"
        using fs(2) g(4) by (simp add: R_def same_frames_def)
      show "nx_mask ?s' = nx_mask ?k1" using fs(2) kmapanon_entry_nx by (simp add: R_def)
      show "heap_size ?s' = heap_size ?k1" using fs(2) kmapanon_entry_heap by (simp add: R_def)
      show "k_cr3 ?s' = k_cr3 ?k1" using fs(2) g(3) by (simp add: R_def tables_same_def)
      show "all_pages (pmem ?s') = all_pages (pmem ?k1)" using fs(2) g(8) by (simp add: R_def)
      show "\<forall>f \<in> set (fs @ [g]). \<forall>i<4096. memory ?s' (physical_to_virtual f + of_nat i) = 0"
        using fs(2) g(4,6) by (simp add: R_def same_frames_def)
    qed
    have "mapped_upto (?val (fs @ [g])) ?v j ?k1 s"
      by (rule mapped_upto_cong [OF fs(3)]) (simp add: fs(1) nth_append)
    then have "mapped_upto (?val (fs @ [g])) ?v (Suc j) ?k1 ?s'"
      by (rule mapped_upto_Suc [OF _ f j]) (use fs(1) in \<open>simp add: g(5) nth_append\<close>)
    moreover have "length (fs @ [g]) = Suc j" using fs(1) by simp
    ultimately have "Q (Suc j) ?s'" using R' unfolding Q_def by blast
    then show "Q (Suc j) (kmapanon_entry ?fl (leaf_slot ?k1 (?v + j)) s)
        \<and> tables_same ?k1 (kmapanon_entry ?fl (leaf_slot ?k1 (?v + j)) s)"
      using tables_same_trans [OF t g(3)] by (simp add: leaf_slot_same [OF t])
  qed simp_all
  then obtain fs where fs: "length fs = ?n" "R fs (page_walk memory ?body (page_iter_create (k_cr3 k) addr sz) k)"
      "mapped_upto (?val fs) ?v ?n ?k1 (page_walk memory ?body (page_iter_create (k_cr3 k) addr sz) k)"
    unfolding Q_def by blast
  have k': "addr' = addr" "k' = cr3_write (page_walk memory ?body (page_iter_create (k_cr3 k) addr sz) k)"
    using assms(4) unfolding kmapanon_def Let_def by (auto simp only: prod.inject)
  have R: "R fs k'" using fs(2) unfolding R_def k'(2) by simp
  have "mapped_upto (?val fs) ?v ?n ?k1 k'" using fs(3) unfolding k'(2) by simp
  note all = mapped_upto_all [OF this up(2)]
  have "set fs \<subseteq> free_pages (pmem k)" using R up(3) by (auto simp: R_def)
  moreover have "same_frames X (memory k) (memory k')"
    using vm_ext_fields(5) [OF up(2)] R unfolding R_def by (blast intro: same_frames_trans)
  moreover have "all_pages (pmem k') = all_pages (pmem k)"
    using R vm_ext_fields(6) [OF up(2)] by (simp add: R_def)
  moreover have fr: "free_pages (pmem k') = free_pages (pmem ?k1) - set fs" using R by (simp add: R_def)
  then have "free_pages (pmem k') \<subseteq> free_pages (pmem k) - set fs" using up(3) by blast
  moreover have "card (free_pages (pmem k)) \<le> card (free_pages (pmem k')) + ?n + ntables ?n + 2"
  proof -
    have "distinct fs" "set fs \<subseteq> free_pages (pmem ?k1)" using R by (simp_all add: R_def)
    then have "card (free_pages (pmem k')) = card (free_pages (pmem ?k1)) - ?n"
      unfolding fr using fs(1) by (simp add: card_Diff_subset distinct_card)
    then show ?thesis using up(4) enough by simp
  qed
  moreover have "heap_size k' = heap_size k" using R vm_ext_fields(4) [OF up(2)] by (simp add: R_def)
  moreover have "nx_mask k' = nx_mask k" "k_cr3 k' = k_cr3 k"
    using R vm_ext_fields(1,2) [OF up(2)] by (simp_all add: R_def)
  ultimately show ?thesis using fs(1) R all k'(1) unfolding R_def by blast
qed

text \<open>C8. kmapanon backs the range with fresh memory: on a range that fits one page directory, with enough free pages
  for it and the page tables it needs, there are distinct pages, free before, one per
  page of the range, that the range translates to with the requested protection, and all of their bytes
  are 0; every translation outside the range is kept, no frame in use is written, and the pages now count as
  in use.\<close>

theorem kmapanon_fresh_zeroed:
  assumes "vm_ok X k" and "range_ok k (vpage addr) (vlen sz)"
    and "vlen sz + ntables (vlen sz) + 2 \<le> card (free_pages (pmem k))" and "kmapanon addr sz prot k = (addr', k')"
  shows "\<exists>fs. length fs = vlen sz \<and> distinct fs \<and> set fs \<subseteq> free_pages (pmem k)
    \<and> (\<forall>j<vlen sz. translate (memory k') (k_cr3 k') (vpage addr + j)
         = Some (fs ! j OR (X86_PAGE_PRESENT OR page_prot_flags (nx_mask k) prot)))
    \<and> (\<forall>f \<in> set fs. \<forall>i<4096. memory k' (physical_to_virtual f + of_nat i) = 0)
    \<and> (\<forall>w e. (\<forall>j<vlen sz. w mod 2 ^ 36 \<noteq> (vpage addr + j) mod 2 ^ 36) \<longrightarrow>
         translate (memory k) (k_cr3 k) w = Some e \<longrightarrow> translate (memory k') (k_cr3 k') w = Some e)
    \<and> same_frames X (memory k) (memory k') \<and> vm_ok (X \<union> set fs) k'"
  using kmapanon_spec [OF assms] by blast

section \<open>kmprotect and kunmapanon\<close>

lemma load_leaf:
  assumes "table_at (memory k) (k_cr3 k) (page_path w) = Some t"
  shows "trans k w = Some (load64 (memory k) (leaf_slot k w))"
  using assms by (simp add: translate_def leaf_slot_def entry_def)

lemma present_table:
  assumes "tables_present k v n" and "j < n" and "tables_same k s"
  shows "\<exists>t. table_at (memory s) (k_cr3 s) (page_path (v + j)) = Some t"
  using assms by (simp add: tables_present_def tables_same_def)

lemma mapped_upto_later:
  assumes "mapped_upto val v j k s" and "fits v n" and "j < n"
  shows "trans s (v + j) = trans k (v + j)"
proof -
  have "\<not> same_entry (v + j) (v + i)" if "i < j" for i
    using same_entry_range [OF assms(2,3), of i] that assms(3) by auto
  with assms(1) show ?thesis by (simp add: mapped_upto_def)
qed

lemma kmprotect_spec:
  assumes "vm_ok X k" and "fits (vpage addr) (vlen sz)" and "tables_present k (vpage addr) (vlen sz)"
    and "k' = kmprotect addr sz prot k"
  shows "(\<forall>j<vlen sz. \<forall>e. translate (memory k) (k_cr3 k) (vpage addr + j) = Some e \<longrightarrow>
      translate (memory k') (k_cr3 k') (vpage addr + j)
        = Some ((e AND NOT (X86_PAGE_USER OR X86_PAGE_WRITE OR nx_mask k)) OR page_prot_flags (nx_mask k) prot))
    \<and> (\<forall>w. (\<forall>j<vlen sz. w mod 2 ^ 36 \<noteq> (vpage addr + j) mod 2 ^ 36) \<longrightarrow>
         translate (memory k') (k_cr3 k') w = translate (memory k) (k_cr3 k) w)
    \<and> vm_ok X k' \<and> same_frames X (memory k) (memory k')"
proof -
  let ?v = "vpage addr" and ?n = "vlen sz" and ?fl = "page_prot_flags (nx_mask k) prot"
  let ?m = "NOT (X86_PAGE_USER OR X86_PAGE_WRITE OR nx_mask k)"
  let ?val = "\<lambda>j. (the (trans k (?v + j)) AND ?m) OR ?fl"
  let ?body = "\<lambda>depth dir n k. if depth = 0 then for_n (nat n) (\<lambda>i. kmprotect_entry ?m ?fl (slot dir i)) k else k"
  define Q where "Q j s \<longleftrightarrow> vm_ok X s \<and> same_frames X (memory k) (memory s) \<and> mapped_upto ?val ?v j k s" for j s
  let ?s = "page_walk memory ?body (page_iter_create (k_cr3 k) addr sz) k"
  have "Q ?n ?s"
  proof (rule leaf_only_walk [where op = "kmprotect_entry ?m ?fl" and body = ?body and Q = Q, OF assms(2,3)])
    show "Q 0 k" using assms(1) by (simp add: Q_def same_frames_refl mapped_upto_0)
    fix j s assume j: "j < ?n" and Q: "Q j s" and t: "tables_same k s"
    obtain u where u: "table_at (memory s) (k_cr3 s) (page_path (?v + j)) = Some u"
      using present_table [OF assms(3) j t] by blast
    have ok: "vm_ok X s" and mu: "mapped_upto ?val ?v j k s" using Q by (simp_all add: Q_def)
    have e: "load64 (memory s) (leaf_slot s (?v + j)) = the (trans k (?v + j))"
      using load_leaf [OF u] mapped_upto_later [OF mu assms(2) j] by simp
    have op: "kmprotect_entry ?m ?fl (leaf_slot k (?v + j)) s
        = s\<lparr>memory := store64 (memory s) (leaf_slot s (?v + j)) (?val j)\<rparr>"
      by (simp add: kmprotect_entry_def leaf_slot_same [OF t, symmetric] e)
    note st = store_leaf [OF ok u, where e = "?val j"]
    have "mapped_upto ?val ?v (Suc j) k (kmprotect_entry ?m ?fl (leaf_slot k (?v + j)) s)"
      unfolding op by (rule mapped_upto_Suc [OF mu assms(2) j st(4)])
    moreover have "same_frames X (memory k) (memory (kmprotect_entry ?m ?fl (leaf_slot k (?v + j)) s))"
      using Q st(3) unfolding op Q_def by (blast intro: same_frames_trans)
    ultimately show "Q (Suc j) (kmprotect_entry ?m ?fl (leaf_slot k (?v + j)) s)
        \<and> tables_same k (kmprotect_entry ?m ?fl (leaf_slot k (?v + j)) s)"
      using st(1) tables_same_trans [OF t st(2)] unfolding Q_def op by blast
  qed simp_all
  then have Qs: "vm_ok X ?s" "same_frames X (memory k) (memory ?s)" "mapped_upto ?val ?v ?n k ?s"
    unfolding Q_def by blast+
  have k': "k' = cr3_write ?s" unfolding assms(4) kmprotect_def Let_def ..
  have Qn: "vm_ok X k'" "same_frames X (memory k) (memory k')" "mapped_upto ?val ?v ?n k k'"
    unfolding k' cr3_write_same vm_ok_cr3_write mapped_upto_cr3_write using Qs .
  have "trans k' w = trans k w" if "\<forall>j<?n. w mod 2 ^ 36 \<noteq> (?v + j) mod 2 ^ 36" for w
  proof -
    have "\<forall>j<?n. \<not> same_entry w (?v + j)" using that same_entry_36 by blast
    then show ?thesis using Qn(3) by (simp add: mapped_upto_def)
  qed
  moreover have "trans k' (?v + j) = Some ((e AND ?m) OR ?fl)" if "j < ?n" "trans k (?v + j) = Some e" for j e
    using Qn(3) that by (simp add: mapped_upto_def)
  ultimately show ?thesis using Qn(1,2) by blast
qed

text \<open>C11. kmprotect changes the protection bits of the range and nothing else: the entry of every page of
  a range with page tables keeps its address and its other bits and gets exactly the requested
  write, user and no-execute bits; no other translation changes.\<close>

theorem kmprotect_sets_protection:
  assumes "vm_ok X k" and "fits (vpage addr) (vlen sz)" and "tables_present k (vpage addr) (vlen sz)"
    and "k' = kmprotect addr sz prot k"
  shows "(\<forall>j<vlen sz. \<forall>e. translate (memory k) (k_cr3 k) (vpage addr + j) = Some e \<longrightarrow>
      translate (memory k') (k_cr3 k') (vpage addr + j)
        = Some ((e AND NOT (X86_PAGE_USER OR X86_PAGE_WRITE OR nx_mask k)) OR page_prot_flags (nx_mask k) prot))
    \<and> (\<forall>w. (\<forall>j<vlen sz. w mod 2 ^ 36 \<noteq> (vpage addr + j) mod 2 ^ 36) \<longrightarrow>
         translate (memory k') (k_cr3 k') w = translate (memory k) (k_cr3 k) w)
    \<and> vm_ok X k' \<and> same_frames X (memory k) (memory k')"
  by (rule kmprotect_spec [OF assms])

lemma vm_ok_free:
  assumes "vm_ok X k" and "p \<in> X" and "p \<in> all_pages (pmem k)"
  shows "vm_ok (X - {p}) (k\<lparr>pmem := free_phys_pages p 1 (pmem k)\<rparr>)"
    and "free_pages (free_phys_pages p 1 (pmem k)) = insert p (free_pages (pmem k))"
    and "all_pages (free_phys_pages p 1 (pmem k)) = all_pages (pmem k)"
proof -
  have inv: "pm_inv (pmem k)" using assms(1) by (simp add: vm_ok_def)
  show f: "free_pages (free_phys_pages p 1 (pmem k)) = insert p (free_pages (pmem k))"
    by (rule phys.release_avail [OF inv assms(3)])
  show "all_pages (free_phys_pages p 1 (pmem k)) = all_pages (pmem k)"
    by (rule phys.release_owned [OF inv assms(3)])
  show "vm_ok (X - {p}) (k\<lparr>pmem := free_phys_pages p 1 (pmem k)\<rparr>)"
    using assms phys.release_invar [OF inv assms(3)] by (auto simp: vm_ok_def f)
qed

lemma kunmapanon_spec:
  assumes "vm_ok X k" and "fits (vpage addr) (vlen sz)" and "tables_present k (vpage addr) (vlen sz)"
    and "\<forall>j<vlen sz. fr j = the (translate (memory k) (k_cr3 k) (vpage addr + j)) AND MMASK_PHYS"
    and "inj_on fr {..<vlen sz}" and "fr ` {..<vlen sz} \<subseteq> X \<inter> all_pages (pmem k)"
    and "k' = kunmapanon addr sz k"
  shows "free_pages (pmem k') = free_pages (pmem k) \<union> fr ` {..<vlen sz} \<and> vm_ok (X - fr ` {..<vlen sz}) k'
    \<and> (\<forall>j<vlen sz. translate (memory k') (k_cr3 k') (vpage addr + j) = Some 0)
    \<and> (\<forall>w. (\<forall>j<vlen sz. w mod 2 ^ 36 \<noteq> (vpage addr + j) mod 2 ^ 36) \<longrightarrow>
         translate (memory k') (k_cr3 k') w = translate (memory k) (k_cr3 k) w)
    \<and> same_frames (X - fr ` {..<vlen sz}) (memory k) (memory k') \<and> all_pages (pmem k') = all_pages (pmem k)"
proof -
  let ?v = "vpage addr" and ?n = "vlen sz"
  let ?body = "\<lambda>depth dir n k. if depth = 0 then for_n (nat n) (\<lambda>i. kunmap_entry (slot dir i)) k else k"
  define Q where "Q j s \<longleftrightarrow> vm_ok (X - fr ` {..<j}) s \<and> free_pages (pmem s) = free_pages (pmem k) \<union> fr ` {..<j}
      \<and> all_pages (pmem s) = all_pages (pmem k) \<and> mapped_upto (\<lambda>_. 0) ?v j k s
      \<and> same_frames (X - fr ` {..<j}) (memory k) (memory s)" for j s
  let ?s = "page_walk memory ?body (page_iter_create (k_cr3 k) addr sz) k"
  have "Q ?n ?s"
  proof (rule leaf_only_walk [where op = kunmap_entry and body = ?body and Q = Q, OF assms(2,3)])
    show "Q 0 k" using assms(1) by (simp add: Q_def mapped_upto_0 same_frames_refl)
    fix j s assume j: "j < ?n" and Q: "Q j s" and t: "tables_same k s"
    obtain u where u: "table_at (memory s) (k_cr3 s) (page_path (?v + j)) = Some u"
      using present_table [OF assms(3) j t] by blast
    have ok: "vm_ok (X - fr ` {..<j}) s" and mu: "mapped_upto (\<lambda>_. 0) ?v j k s" using Q by (simp_all add: Q_def)
    have e: "load64 (memory s) (leaf_slot s (?v + j)) AND MMASK_PHYS = fr j"
      using load_leaf [OF u] mapped_upto_later [OF mu assms(2) j] assms(4) j by simp
    let ?s1 = "s\<lparr>pmem := free_phys_pages (fr j) 1 (pmem s)\<rparr>"
    have op: "kunmap_entry (leaf_slot k (?v + j)) s = ?s1\<lparr>memory := store64 (memory ?s1) (leaf_slot ?s1 (?v + j)) 0\<rparr>"
      by (simp add: kunmap_entry_def leaf_slot_same [OF t, symmetric] e) (simp add: leaf_slot_def)
    have "fr j \<notin> fr ` {..<j}"
    proof
      assume "fr j \<in> fr ` {..<j}"
      then obtain i where i: "i < j" "fr j = fr i" by blast
      with inj_onD [OF assms(5) i(2)] j show False by simp
    qed
    then have "fr j \<in> X - fr ` {..<j}" "fr j \<in> all_pages (pmem s)" using assms(6) j Q by (auto simp: Q_def)
    note fr = vm_ok_free [OF ok this]
    have set: "X - fr ` {..<j} - {fr j} = X - fr ` {..<Suc j}" by (auto simp: lessThan_Suc)
    have u1: "table_at (memory ?s1) (k_cr3 ?s1) (page_path (?v + j)) = Some u" using u by simp
    note st = store_leaf [OF fr(1) u1, where e = 0]
    have "trans (kunmap_entry (leaf_slot k (?v + j)) s) w = (if same_entry w (?v + j) then Some 0 else trans s w)" for w
      unfolding op st(4) by simp
    from mapped_upto_Suc [OF mu assms(2) j this]
    have "mapped_upto (\<lambda>_. 0) ?v (Suc j) k (kunmap_entry (leaf_slot k (?v + j)) s)" .
    moreover have "free_pages (pmem (kunmap_entry (leaf_slot k (?v + j)) s)) = free_pages (pmem k) \<union> fr ` {..<Suc j}"
      "all_pages (pmem (kunmap_entry (leaf_slot k (?v + j)) s)) = all_pages (pmem k)"
      using Q fr(2,3) unfolding op by (auto simp: Q_def lessThan_Suc)
    moreover have "tables_same s ?s1" by (simp add: tables_same_def)
    then have "tables_same k (kunmap_entry (leaf_slot k (?v + j)) s)"
      using tables_same_trans [OF t] tables_same_trans st(2) unfolding op by blast
    moreover have "same_frames (X - fr ` {..<Suc j}) (memory k) (memory (kunmap_entry (leaf_slot k (?v + j)) s))"
    proof -
      have "same_frames (X - fr ` {..<j}) (memory k) (memory s)" using Q by (simp add: Q_def)
      then have "same_frames (X - fr ` {..<Suc j}) (memory k) (memory s)" by (rule same_frames_subset) auto
      moreover have "same_frames (X - fr ` {..<Suc j}) (memory s) (memory (kunmap_entry (leaf_slot k (?v + j)) s))"
        using st(3) unfolding op set by simp
      ultimately show ?thesis by (rule same_frames_trans)
    qed
    ultimately show "Q (Suc j) (kunmap_entry (leaf_slot k (?v + j)) s)
        \<and> tables_same k (kunmap_entry (leaf_slot k (?v + j)) s)"
      using st(1) unfolding Q_def op set by blast
  qed simp_all
  then have Qs: "vm_ok (X - fr ` {..<?n}) ?s" "free_pages (pmem ?s) = free_pages (pmem k) \<union> fr ` {..<?n}"
      "mapped_upto (\<lambda>_. 0) ?v ?n k ?s" "same_frames (X - fr ` {..<?n}) (memory k) (memory ?s)"
      "all_pages (pmem ?s) = all_pages (pmem k)"
    unfolding Q_def by blast+
  have k': "k' = cr3_write ?s" unfolding assms(7) kunmapanon_def ..
  have Qn: "vm_ok (X - fr ` {..<?n}) k'" "free_pages (pmem k') = free_pages (pmem k) \<union> fr ` {..<?n}"
      "mapped_upto (\<lambda>_. 0) ?v ?n k k'" "same_frames (X - fr ` {..<?n}) (memory k) (memory k')"
      "all_pages (pmem k') = all_pages (pmem k)"
    unfolding k' cr3_write_same vm_ok_cr3_write mapped_upto_cr3_write using Qs .
  have "trans k' w = trans k w" if "\<forall>j<?n. w mod 2 ^ 36 \<noteq> (?v + j) mod 2 ^ 36" for w
  proof -
    have "\<forall>j<?n. \<not> same_entry w (?v + j)" using that same_entry_36 by blast
    then show ?thesis using Qn(3) by (simp add: mapped_upto_def)
  qed
  with Qn show ?thesis unfolding mapped_upto_def by blast
qed

text \<open>C7. kunmapanon gives the pages of the range back: for a range with page tables whose entries lead
  to distinct pages in use of the allocator, exactly these pages become free, the entries become 0, no other translation
  changes and the invariant holds for the frames that remain in use.\<close>

theorem kunmapanon_frees_range:
  assumes "vm_ok X k" and "fits (vpage addr) (vlen sz)" and "tables_present k (vpage addr) (vlen sz)"
    and "\<forall>j<vlen sz. fr j = the (translate (memory k) (k_cr3 k) (vpage addr + j)) AND MMASK_PHYS"
    and "inj_on fr {..<vlen sz}" and "fr ` {..<vlen sz} \<subseteq> X \<inter> all_pages (pmem k)"
    and "k' = kunmapanon addr sz k"
  shows "free_pages (pmem k') = free_pages (pmem k) \<union> fr ` {..<vlen sz} \<and> vm_ok (X - fr ` {..<vlen sz}) k'
    \<and> (\<forall>j<vlen sz. translate (memory k') (k_cr3 k') (vpage addr + j) = Some 0)
    \<and> (\<forall>w. (\<forall>j<vlen sz. w mod 2 ^ 36 \<noteq> (vpage addr + j) mod 2 ^ 36) \<longrightarrow>
         translate (memory k') (k_cr3 k') w = translate (memory k) (k_cr3 k) w)
    \<and> same_frames (X - fr ` {..<vlen sz}) (memory k) (memory k')"
  using kunmapanon_spec [OF assms] by blast

lemma bit_page_prot_flags: "bit (page_prot_flags nx prot) k \<Longrightarrow> k = 1 \<or> k = 2 \<or> bit nx k"
  by (auto simp: page_prot_flags_def bit_or_iff split: if_splits)


section \<open>An example\<close>

text \<open>A kernel with an empty top-level table at physical address 0x1000 and eight free pages.\<close>

definition sample_pool :: PhysicalMemoryAllocator where
  "sample_pool = \<lparr>pm_blocks = [\<lparr>pb_base = 0x1000000, pb_npages = 8, pb_bitmap_ptr = [],
     pb_bitmap = replicate 8 [0, 0xff, 0xff, 0xff, 0xff, 0xff, 0xff, 0xff]\<rparr>,
     \<lparr>pb_base = 0, pb_npages = 0, pb_bitmap_ptr = [], pb_bitmap = []\<rparr>], pages_total = 8, pages_free = 8\<rparr>"

definition sample_kernel :: Kernel where
  "sample_kernel = \<lparr>pmem = sample_pool, heap_size = 0, io_size = 0, nx_mask = 0x8000000000000000,
     k_cr3 = 0x1000, memory = (\<lambda>_. 0), hw_cr3 = 0x1000\<rparr>"

lemma sample_pool_bits: "i < 64 \<Longrightarrow> bm_bit [0, 0xff, 0xff, 0xff, 0xff, 0xff, 0xff, 0xff] i \<longleftrightarrow> 8 \<le> i"
proof -
  have "\<forall>i<64. bm_bit [0, 0xff, 0xff, 0xff, 0xff, 0xff, 0xff, 0xff] i \<longleftrightarrow> 8 \<le> i"
    by (simp add: All_less_numeral bm_bit_def)
  then show "i < 64 \<Longrightarrow> ?thesis" by blast
qed

lemma sample_pool_inv: "pm_inv sample_pool"
proof -
  have "8 \<le> 8 * 2 ^ j * length (replicate 8 [0, 0xff, 0xff, 0xff, 0xff, 0xff, 0xff, 0xff :: u8] ! j)"
    if "j < 8" for j :: nat
    using that one_le_power [of "2 :: nat" j] by simp
  then have "block_ok (hd (pm_blocks sample_pool))"
    using sample_pool_bits by (simp add: block_ok_def sample_pool_def PMB_MAX_ORDER_def dvd_def)
      (rule exI [where x = 1], simp)
  then show ?thesis
    by (simp add: pm_inv_def blocks_ok_def sample_pool_def apart_def in_block_def)
qed

lemma sample_pool_free: "free_pages sample_pool = (\<lambda>i. 0x1000000 + of_nat i * PAGESIZE) ` {..<8}"
proof -
  have "{i. i < 8 \<and> \<not> bm_bit [0, 0xff, 0xff, 0xff, 0xff, 0xff, 0xff, 0xff] i} = {..<8}"
    using sample_pool_bits by auto
  then show ?thesis
    by (simp add: free_pages_def sample_pool_def block_free_def page_at_def)
qed

lemma sample_page_unat: "i < 8 \<Longrightarrow> unat (0x1000000 + of_nat i * PAGESIZE) = 0x1000000 + i * 4096"
  using unat_add_nat [of "0x1000000" "i * 4096"] by (simp add: PAGESIZE_def)

lemma sample_pool_card: "card (free_pages sample_pool) = 8"
proof -
  have "inj_on (\<lambda>i. 0x1000000 + of_nat i * PAGESIZE) {..<8}"
  proof (rule inj_onI)
    fix i j :: nat assume "i \<in> {..<8}" "j \<in> {..<8}"
      and eq: "0x1000000 + of_nat i * PAGESIZE = 0x1000000 + of_nat j * PAGESIZE"
    then have "i < 8" "j < 8" by simp_all
    from sample_page_unat [OF this(1)] sample_page_unat [OF this(2)] show "i = j" unfolding eq by simp
  qed
  then show ?thesis unfolding sample_pool_free by (simp add: card_image)
qed

lemma entry_zeros: "entry (\<lambda>_. 0) t i = 0"
  unfolding entry_def load_def by (rule word_le_zeros) auto

lemma sample_tables: "table_at (\<lambda>_. 0) root q = (if q = [] then Some root else None)"
proof (cases q)
  case (Cons i p)
  then show ?thesis by (simp add: table_at.simps(2) entry_zeros)
qed simp

lemma sample_kernel_ok: "vm_ok {} sample_kernel"
proof -
  have frame: "is_frame p" if "p \<in> free_pages sample_pool" for p
    using that sample_page_unat by (auto simp: sample_pool_free is_frame_def)
  have "p \<noteq> 0x1000" if p: "p \<in> free_pages sample_pool" for p
  proof -
    obtain i where "i < 8" "p = 0x1000000 + of_nat i * PAGESIZE" using p by (auto simp: sample_pool_free)
    then have "unat p = 0x1000000 + i * 4096" by (simp only: sample_page_unat)
    then show ?thesis by auto
  qed
  then have "tables (\<lambda>_. 0) 0x1000 \<inter> free_pages sample_pool = {}"
    by (auto simp: tables_def sample_tables split: if_splits)
  moreover have "tables_ok (\<lambda>_. 0) 0x1000"
    by (auto simp: tables_ok_def sample_tables is_frame_def split: if_splits)
  ultimately show ?thesis using sample_pool_inv frame by (simp add: vm_ok_def sample_kernel_def)
qed

lemma sample_vpage: "vpage 0xffffc00000000000 = 0xffffc00000000" "vlen 0x2000 = 2" "ntables 2 = 1"
  by (simp_all add: vpage_def vlen_def ntables_def drop_bit_eq_div)

lemma sample_range: "range_ok sample_kernel (vpage 0xffffc00000000000) (vlen 0x2000)"
proof -
  have "no_large (\<lambda>_. 0) 0x1000 w" for w by (simp add: no_large_def entry_zeros)
  then show ?thesis by (simp add: range_ok_def sample_kernel_def fits_def sample_vpage)
qed

lemma kmap_maps_range_witness:
  "translate (memory (snd (kmap 0xffffc00000000000 0xfd000123 0x2000 KPROT_WRITE sample_kernel))) 0x1000 0xffffc00000001
     = Some (0xfd001000 OR (X86_PAGE_PRESENT OR page_prot_flags 0x8000000000000000 KPROT_WRITE))"
proof -
  have "ntables (vlen 0x2000) + 2 \<le> card (free_pages (pmem sample_kernel))"
    by (simp add: sample_vpage sample_kernel_def sample_pool_card)
  let ?k' = "snd (kmap 0xffffc00000000000 0xfd000123 0x2000 KPROT_WRITE sample_kernel)"
  from kmap_maps_range [OF sample_kernel_ok _ sample_range \<open>ntables (vlen 0x2000) + 2 \<le> _\<close>, of "0xfd000123" KPROT_WRITE
      "fst (kmap 0xffffc00000000000 0xfd000123 0x2000 KPROT_WRITE sample_kernel)" ?k']
  have "k_cr3 ?k' = k_cr3 sample_kernel" and "\<forall>j<vlen 0x2000. trans ?k' (vpage 0xffffc00000000000 + j)
      = Some (((0xfd000123 AND NOT 0xfff) + of_nat j * PAGESIZE)
          OR (X86_PAGE_PRESENT OR page_prot_flags (nx_mask sample_kernel) KPROT_WRITE))"
    by auto
  moreover have "(1::nat) < vlen 0x2000" by (simp add: sample_vpage)
  ultimately have "trans ?k' (vpage 0xffffc00000000000 + 1) = Some (((0xfd000123 AND NOT 0xfff) + of_nat 1 * PAGESIZE)
      OR (X86_PAGE_PRESENT OR page_prot_flags (nx_mask sample_kernel) KPROT_WRITE))"
    and "k_cr3 ?k' = 0x1000" by (blast, simp add: sample_kernel_def)
  then show ?thesis unfolding sample_vpage(1) by (simp add: sample_kernel_def PAGESIZE_def)
qed

lemma sample_room: "vlen 0x2000 + ntables (vlen 0x2000) + 2 \<le> card (free_pages (pmem sample_kernel))"
  by (simp add: sample_vpage sample_kernel_def sample_pool_card)

lemma sample_mapped:
  obtains k' fs where "kmapanon 0xffffc00000000000 0x2000 KPROT_WRITE sample_kernel = (0xffffc00000000000, k')"
    and "fits (vpage 0xffffc00000000000) (vlen 0x2000)" and "tables_present k' (vpage 0xffffc00000000000) (vlen 0x2000)"
    and "vm_ok (set fs) k'" and "length fs = 2" and "distinct fs" and "set fs \<subseteq> all_pages (pmem k')"
    and "\<forall>j<vlen 0x2000. fs ! j = the (trans k' (vpage 0xffffc00000000000 + j)) AND MMASK_PHYS" and "nx_mask k' = 0x8000000000000000"
    and "\<forall>j<2. \<exists>e. trans k' (vpage 0xffffc00000000000 + j) = Some e"
proof -
  obtain k' where k': "kmapanon 0xffffc00000000000 0x2000 KPROT_WRITE sample_kernel = (0xffffc00000000000, k')"
    by (simp add: kmapanon_def Let_def)
  let ?fl = "X86_PAGE_PRESENT OR page_prot_flags (nx_mask sample_kernel) KPROT_WRITE"
  obtain fs where fs: "length fs = 2" "distinct fs" "set fs \<subseteq> free_pages (pmem sample_kernel)" "vm_ok (set fs) k'"
      "\<forall>j<2. trans k' (vpage 0xffffc00000000000 + j) = Some (fs ! j OR ?fl)"
      "all_pages (pmem k') = all_pages (pmem sample_kernel)" "nx_mask k' = nx_mask sample_kernel"
    using kmapanon_spec [OF sample_kernel_ok sample_range sample_room k'] by (auto simp: sample_vpage)
  have nx: "nx_mask sample_kernel = 0x8000000000000000" by (simp add: sample_kernel_def)
  have b: "bit (0x8000000000000000 :: u64) i \<Longrightarrow> i = 63" for i
    using bit_exp_iff [where n = i and m = 63 and 'a = "64 word"] by simp
  have "is_frame f" if "f \<in> set fs" for f using fs(4) that by (simp add: vm_ok_def)
  then have "(fs ! j OR ?fl) AND MMASK_PHYS = fs ! j" if "j < 2" for j
    using that fs(1) b unfolding nx by (intro frame_entry_mask) (auto simp: bit_or_iff dest!: bit_page_prot_flags)
  then have m: "\<forall>j<vlen 0x2000. fs ! j = the (trans k' (vpage 0xffffc00000000000 + j)) AND MMASK_PHYS"
    using fs(5) by (simp add: sample_vpage(2))
  have "tables_present k' (vpage 0xffffc00000000000) (vlen 0x2000)"
    unfolding tables_present_def sample_vpage(2)
  proof (intro allI impI)
    fix j :: nat assume "j < 2"
    with fs(5) have "trans k' (vpage 0xffffc00000000000 + j) \<noteq> None" by simp
    then show "\<exists>t. table_at (memory k') (k_cr3 k') (page_path (vpage 0xffffc00000000000 + j)) = Some t"
      by (auto simp: translate_def split: option.splits)
  qed
  then show ?thesis
    using k' fs m sample_range free_subset_all [of "pmem sample_kernel"]
    by (intro that [of k' fs]) (auto simp: range_ok_def nx)
qed

lemma kmapanon_fresh_zeroed_witness:
  "\<exists>f \<in> free_pages sample_pool. \<exists>e.
     translate (memory (snd (kmapanon 0xffffc00000000000 0x2000 KPROT_WRITE sample_kernel)))
       (k_cr3 (snd (kmapanon 0xffffc00000000000 0x2000 KPROT_WRITE sample_kernel))) 0xffffc00000001 = Some (f OR e)"
proof -
  obtain fs where fs: "length fs = 2" "set fs \<subseteq> free_pages (pmem sample_kernel)"
      "\<forall>j<2. \<exists>e. trans (snd (kmapanon 0xffffc00000000000 0x2000 KPROT_WRITE sample_kernel)) (0xffffc00000000 + j) = Some (fs ! j OR e)"
    using kmapanon_fresh_zeroed [OF sample_kernel_ok sample_range sample_room, of KPROT_WRITE
      "fst (kmapanon 0xffffc00000000000 0x2000 KPROT_WRITE sample_kernel)"
      "snd (kmapanon 0xffffc00000000000 0x2000 KPROT_WRITE sample_kernel)"]
    by (auto simp: sample_vpage)
  have "fs ! 1 \<in> free_pages sample_pool" using fs(1,2) nth_mem [of 1 fs] by (auto simp: sample_kernel_def)
  moreover have "\<exists>e. trans (snd (kmapanon 0xffffc00000000000 0x2000 KPROT_WRITE sample_kernel)) (0xffffc00000000 + 1) = Some (fs ! 1 OR e)"
    using fs(3) by (metis one_less_numeral_iff semiring_norm(76))
  ultimately show ?thesis by (simp del: One_nat_def) blast
qed

lemma kmprotect_sets_protection_witness:
  "\<exists>k' e. translate (memory k') (k_cr3 k') 0xffffc00000001 = Some e
     \<and> translate (memory (kmprotect 0xffffc00000000000 0x2000 KPROT_READ k'))
         (k_cr3 (kmprotect 0xffffc00000000000 0x2000 KPROT_READ k')) 0xffffc00000001
       = Some ((e AND NOT (X86_PAGE_USER OR X86_PAGE_WRITE OR 0x8000000000000000))
           OR page_prot_flags 0x8000000000000000 KPROT_READ)"
proof -
  obtain k' fs where k': "fits (vpage 0xffffc00000000000) (vlen 0x2000)" "vm_ok (set fs) k'"
      "tables_present k' (vpage 0xffffc00000000000) (vlen 0x2000)" "nx_mask k' = 0x8000000000000000"
      "\<forall>j<2. \<exists>e. trans k' (vpage 0xffffc00000000000 + j) = Some e"
    by (rule sample_mapped) blast
  have "(1::nat) < 2" by simp
  with k'(5) obtain e where e: "trans k' (vpage 0xffffc00000000000 + 1) = Some e" by blast
  show ?thesis
    using kmprotect_sets_protection [OF k'(2,1,3) refl, of KPROT_READ] e
    by (intro exI [where x = k'] exI [where x = e]) (simp add: sample_vpage k'(4) All_less_numeral)
qed

lemma kunmapanon_frees_range_witness:
  "\<exists>k' fs. length fs = 2 \<and> distinct fs \<and> set fs \<subseteq> all_pages (pmem k')
     \<and> free_pages (pmem (kunmapanon 0xffffc00000000000 0x2000 k')) = free_pages (pmem k') \<union> set fs"
proof -
  obtain k' fs where k': "fits (vpage 0xffffc00000000000) (vlen 0x2000)" "vm_ok (set fs) k'"
      "tables_present k' (vpage 0xffffc00000000000) (vlen 0x2000)" "length fs = 2" "distinct fs"
      "set fs \<subseteq> all_pages (pmem k')"
      "\<forall>j<vlen 0x2000. fs ! j = the (trans k' (vpage 0xffffc00000000000 + j)) AND MMASK_PHYS"
    by (rule sample_mapped) blast
  have set: "(!) fs ` {..<vlen 0x2000} = set fs" using k'(4) by (auto simp: set_conv_nth sample_vpage)
  have "inj_on ((!) fs) {..<vlen 0x2000}" using k'(4,5) by (auto simp: inj_on_def nth_eq_iff_index_eq sample_vpage)
  from kunmapanon_frees_range [OF k'(2,1,3,7) this _ refl] k'(4-6) show ?thesis unfolding set by blast
qed


end
