(* ===== verification/KHeap.thy ===== *)
theory KHeap
  imports KernelMap
begin

text \<open>
  The kernel heap (src/kernel/mem/kmalloc.c): blocks laid end to end from \<open>HEAP_BASE\<close>, each
  behind a 32-byte header, found by walking the headers in memory. The walks end only when the
  sizes in the headers lead to the end of the heap, so they are partial functions. The
  abstraction is the list of the blocks (used, size); the operations are best fit, append,
  release and trim on that list.
\<close>

section \<open>Operations\<close>

definition HEAP_BASE :: u64 where "HEAP_BASE = 0xffffa00000000000"

text \<open>\<open>HeapBlock\<close>: bit fields \<open>used:1\<close> and \<open>size:63\<close> of one 64-bit word; the structure is 32 bytes long.\<close>

definition blk_used :: "mem \<Rightarrow> u64 \<Rightarrow> bool" where
  "blk_used m p = bit (load64 m p :: u64) 0"

definition blk_size :: "mem \<Rightarrow> u64 \<Rightarrow> u64" where
  "blk_size m p = drop_bit 1 (load64 m p)"

definition blk_set_used :: "bool \<Rightarrow> u64 \<Rightarrow> mem \<Rightarrow> mem" where
  "blk_set_used b p m = store64 m p ((load64 m p AND NOT 1) OR (if b then 1 else 0))"

definition blk_set_size :: "u64 \<Rightarrow> u64 \<Rightarrow> mem \<Rightarrow> mem" where
  "blk_set_size sz p m = store64 m p ((load64 m p AND 1) OR push_bit 1 sz)"

definition make_new_block :: "u64 \<Rightarrow> Kernel \<Rightarrow> u64 \<times> Kernel" where
  "make_new_block sz k =
     (let blk = HEAP_BASE + heap_size k;
          extra_size = page_round (sz + 32);
          k1 = k\<lparr>heap_size := heap_size k + extra_size\<rparr>;
          (_, k2) = kmapanon blk extra_size (KPROT_READ OR KPROT_WRITE) k1;
          k3 = k2\<lparr>memory := blk_set_size (extra_size - 32) blk (blk_set_used True blk (memory k2))\<rparr>
      in (blk + 32, k3))"

text \<open>The loop of \<open>shrink\<close>: the end of the last used block, relative to the heap.\<close>

partial_function (option) shrink_from :: "mem \<Rightarrow> u64 \<Rightarrow> u64 \<Rightarrow> u64 \<Rightarrow> u64 option" where
  "shrink_from m heap_end blk newSize =
     (if blk < heap_end
      then shrink_from m heap_end (blk + 32 + blk_size m blk)
             (if blk_used m blk then (blk + 32 + blk_size m blk) - HEAP_BASE else newSize)
      else Some newSize)"

definition shrink :: "Kernel \<Rightarrow> Kernel option" where
  "shrink k =
     (case shrink_from (memory k) (HEAP_BASE + heap_size k) HEAP_BASE 0 of
        None \<Rightarrow> None
      | Some newSize \<Rightarrow>
          Some ((kunmapanon (HEAP_BASE + newSize) (heap_size k - newSize) k)\<lparr>heap_size := newSize\<rparr>))"

text \<open>The loop of \<open>kmalloc\<close>; the null pointer is "no block yet".\<close>

partial_function (option) heap_scan :: "mem \<Rightarrow> u64 \<Rightarrow> u64 \<Rightarrow> u64 \<Rightarrow> u64 \<Rightarrow> u64 option" where
  "heap_scan m heap_end sz blk best =
     (if blk < heap_end
      then heap_scan m heap_end sz (blk + 32 + blk_size m blk)
             (if \<not> blk_used m blk \<and> sz \<le> blk_size m blk \<and> (best = 0 \<or> blk_size m blk < blk_size m best)
              then blk else best)
      else Some best)"

definition kmalloc :: "u64 \<Rightarrow> Kernel \<Rightarrow> (u64 \<times> Kernel) option" where
  "kmalloc sz k =
     (case heap_scan (memory k) (HEAP_BASE + heap_size k) sz HEAP_BASE 0 of
        None \<Rightarrow> None
      | Some best \<Rightarrow>
          if best \<noteq> 0 then Some (best + 32, k\<lparr>memory := blk_set_used True best (memory k)\<rparr>)
          else Some (make_new_block sz k))"

definition kfree :: "u64 \<Rightarrow> Kernel \<Rightarrow> Kernel option" where
  "kfree addr k =
     (if addr = 0 then Some k
      else (let blk = addr - 32; k' = k\<lparr>memory := blk_set_used False blk (memory k)\<rparr>
            in if addr + blk_size (memory k') blk = HEAP_BASE + heap_size k' then shrink k' else Some k'))"

section \<open>The list of blocks\<close>

fun span :: "(bool \<times> nat) list \<Rightarrow> nat" where
  "span [] = 0"
| "span ((u, s) # bs) = 32 + s + span bs"

definition blk_at :: "(bool \<times> nat) list \<Rightarrow> nat \<Rightarrow> u64" where
  "blk_at bs i = HEAP_BASE + of_nat (span (take i bs))"

definition heap_at :: "mem \<Rightarrow> (bool \<times> nat) list \<Rightarrow> bool" where
  "heap_at m bs \<longleftrightarrow> (\<forall>i<length bs. blk_used m (blk_at bs i) = fst (bs ! i)
     \<and> unat (blk_size m (blk_at bs i)) = snd (bs ! i))"

definition heap_ok :: "Kernel \<Rightarrow> (bool \<times> nat) list \<Rightarrow> bool" where
  "heap_ok k bs \<longleftrightarrow> heap_at (memory k) bs \<and> span bs = unat (heap_size k) \<and> span bs < 2 ^ 44"

lemma span_append [simp]: "span (bs @ cs) = span bs + span cs"
  by (induction bs rule: span.induct) simp_all

lemma span_take_Suc: "i < length bs \<Longrightarrow> span (take (Suc i) bs) = span (take i bs) + 32 + snd (bs ! i)"
  by (cases "bs ! i") (simp add: take_Suc_conv_app_nth)

lemma span_take_le: "span (take i bs) \<le> span bs"
  by (metis append_take_drop_id le_add1 span_append)

lemma span_take_mono: "i \<le> j \<Longrightarrow> span (take i bs) \<le> span (take j bs)"
  by (metis min_absorb1 span_take_le take_take)

lemma span_take_less: "i < j \<Longrightarrow> i < length bs \<Longrightarrow> span (take i bs) + 32 + snd (bs ! i) \<le> span (take j bs)"
  using span_take_mono [of "Suc i" j bs] by (simp add: span_take_Suc)

lemma unat_HEAP_BASE: "unat HEAP_BASE = 0xffffa00000000000"
  by (simp add: HEAP_BASE_def)

lemma unat_heap: "n < 2 ^ 44 \<Longrightarrow> unat (HEAP_BASE + of_nat n) = 0xffffa00000000000 + n"
  by (subst unat_add_nat) (simp_all add: unat_HEAP_BASE)

lemma unat_blk_at: "span bs < 2 ^ 44 \<Longrightarrow> unat (blk_at bs i) = 0xffffa00000000000 + span (take i bs)"
  unfolding blk_at_def using span_take_le [of i bs] by (intro unat_heap) simp

lemma blk_at_nonzero: "span bs < 2 ^ 44 \<Longrightarrow> blk_at bs i \<noteq> 0"
  using unat_blk_at [of bs i] by (metis add_is_0 unsigned_0 zero_neq_numeral)

lemma heap_end: "heap_ok k bs \<Longrightarrow> HEAP_BASE + heap_size k = blk_at bs (length bs)"
  by (simp add: heap_ok_def blk_at_def)

lemma blk_next:
  assumes "heap_at m bs" and "i < length bs"
  shows "blk_at bs i + 32 + blk_size m (blk_at bs i) = blk_at bs (Suc i)"
proof -
  have "blk_size m (blk_at bs i) = of_nat (snd (bs ! i))"
  proof -
    have "unat (blk_size m (blk_at bs i)) = snd (bs ! i)" using assms by (simp add: heap_at_def)
    moreover have "of_nat (unat (blk_size m (blk_at bs i))) = blk_size m (blk_at bs i)" by simp
    ultimately show ?thesis by (simp only:)
  qed
  then show ?thesis using assms(2) by (simp add: blk_at_def span_take_Suc)
qed

lemma blk_before_end: "span bs < 2 ^ 44 \<Longrightarrow> i \<le> length bs \<Longrightarrow> blk_at bs i < blk_at bs (length bs) \<longleftrightarrow> i < length bs"
  using span_take_less [of i "length bs" bs]
  by (cases "i = length bs") (auto simp: word_less_nat_alt unat_blk_at)

section \<open>Headers\<close>

lemma blk_used_set [simp]: "blk_used (blk_set_used b p m) p = b"
  by (simp add: blk_used_def blk_set_used_def bit_or_iff bit_and_iff bit_not_iff bit_1_iff)

lemma drop_bit_1_eqI: "(\<And>k. 0 < k \<Longrightarrow> bit (v :: u64) k = bit w k) \<Longrightarrow> drop_bit 1 v = drop_bit 1 w"
  by (rule bit_word_eqI) (simp add: bit_drop_bit_eq)

lemma blk_size_set_used [simp]: "blk_size (blk_set_used b p m) p = blk_size m p"
  unfolding blk_size_def blk_set_used_def load64_store64
  by (rule drop_bit_1_eqI) (auto simp: bit_or_iff bit_and_iff bit_not_iff bit_1_iff dest: bit_imp_le_length)

lemma bit_times_2: "bit (sz * 2 :: u64) k \<longleftrightarrow> k < 64 \<and> k \<noteq> 0 \<and> bit sz (k - 1)"
  using bit_double_iff [of sz k] by (auto simp: mult.commute)

lemma blk_used_set_size [simp]: "blk_used (blk_set_size sz p m) p = blk_used m p"
  by (simp add: blk_used_def blk_set_size_def bit_or_iff bit_and_iff bit_1_iff bit_times_2)

lemma blk_size_set_size [simp]: "unat sz < 2 ^ 63 \<Longrightarrow> blk_size (blk_set_size sz p m) p = sz"
proof (rule bit_word_eqI)
  fix k assume sz: "unat sz < 2 ^ 63" and "k < LENGTH(64)"
  have "take_bit 63 sz = sz"
    using sz by (simp add: word_unat_eq_iff unsigned_take_bit_eq take_bit_nat_eq_self)
  then have "bit sz k \<Longrightarrow> k < 63" by (metis bit_take_bit_iff)
  then show "bit (blk_size (blk_set_size sz p m) p) k = bit sz k"
    by (auto simp: blk_size_def blk_set_size_def bit_drop_bit_eq bit_or_iff bit_and_iff bit_1_iff bit_times_2)
qed

lemma blk_fields_cong:
  "load64 m' p = (load64 m p :: u64) \<Longrightarrow> blk_used m' p = blk_used m p \<and> blk_size m' p = blk_size m p"
  by (simp add: blk_used_def blk_size_def)

text \<open>Writing the header of a block leaves the headers of the others alone.\<close>

lemma header_elsewhere:
  assumes "span bs < 2 ^ 44" and "i < length bs" and "j \<le> length bs" and "i \<noteq> j"
  shows "load64 (store64 m (blk_at bs j) w) (blk_at bs i) = (load64 m (blk_at bs i) :: u64)"
proof (rule load_store_disjoint, rule disjoint_ranges_unat)
  show "unat (blk_at bs j) + 8 \<le> unat (blk_at bs i) \<or> unat (blk_at bs i) + 8 \<le> unat (blk_at bs j)"
  proof (cases "i < j")
    case True
    with span_take_less [OF True assms(2)] show ?thesis unfolding unat_blk_at [OF assms(1)] by linarith
  next
    case False
    with assms have "j < i" "j < length bs" by auto
    from span_take_less [OF this] show ?thesis unfolding unat_blk_at [OF assms(1)] by linarith
  qed
  show "unat (blk_at bs j) + 8 \<le> 2 ^ 64" "unat (blk_at bs i) + 8 \<le> 2 ^ 64"
    using span_take_le [of j bs] span_take_le [of i bs] assms(1) by (simp_all add: unat_blk_at)
qed

lemma span_update: "i < length bs \<Longrightarrow> span (take j (bs[i := (u, snd (bs ! i))])) = span (take j bs)"
proof (induction bs arbitrary: i j)
  case (Cons b bs)
  then show ?case by (cases i; cases j; cases b) auto
qed simp

lemma span_update_all: "i < length bs \<Longrightarrow> span (bs[i := (u, snd (bs ! i))]) = span bs"
  using span_update [of i bs "length bs" u] by simp

lemma blk_at_update: "i < length bs \<Longrightarrow> blk_at (bs[i := (u, snd (bs ! i))]) j = blk_at bs j"
  by (simp add: blk_at_def span_update)

lemma heap_at_set_used:
  assumes "heap_at m bs" and "span bs < 2 ^ 44" and "i < length bs"
  shows "heap_at (blk_set_used u (blk_at bs i) m) (bs[i := (u, snd (bs ! i))])"
  unfolding heap_at_def
proof (intro allI impI)
  fix j assume "j < length (bs[i := (u, snd (bs ! i))])"
  then have j: "j < length bs" by simp
  let ?m = "blk_set_used u (blk_at bs i) m"
  have "load64 ?m (blk_at bs j) = (load64 m (blk_at bs j) :: u64)" if "i \<noteq> j"
    unfolding blk_set_used_def using that assms(3) by (intro header_elsewhere [OF assms(2) j]) auto
  then have "blk_used ?m (blk_at bs j) = (if i = j then u else blk_used m (blk_at bs j))"
    and "blk_size ?m (blk_at bs j) = blk_size m (blk_at bs j)"
    using blk_fields_cong [of ?m "blk_at bs j" m] by (cases "i = j"; simp)+
  then show "blk_used ?m (blk_at (bs[i := (u, snd (bs ! i))]) j) = fst (bs[i := (u, snd (bs ! i))] ! j)
      \<and> unat (blk_size ?m (blk_at (bs[i := (u, snd (bs ! i))]) j)) = snd (bs[i := (u, snd (bs ! i))] ! j)"
    using assms(1,3) j by (auto simp: blk_at_update heap_at_def nth_list_update)
qed

lemma heap_ok_set_used:
  assumes "heap_ok k bs" and "i < length bs"
  shows "heap_ok (k\<lparr>memory := blk_set_used u (blk_at bs i) (memory k)\<rparr>) (bs[i := (u, snd (bs ! i))])"
  using assms heap_at_set_used [of "memory k" bs i u] by (simp add: heap_ok_def span_update_all)

section \<open>The scan\<close>

text \<open>Block \<open>i\<close> can hold \<open>sz\<close> bytes; \<open>best_fit\<close>: the first of the smallest such blocks.\<close>

definition suitable :: "nat \<Rightarrow> (bool \<times> nat) list \<Rightarrow> nat \<Rightarrow> bool" where
  "suitable sz bs i \<longleftrightarrow> i < length bs \<and> \<not> fst (bs ! i) \<and> sz \<le> snd (bs ! i)"

definition best_upto :: "nat \<Rightarrow> (bool \<times> nat) list \<Rightarrow> nat \<Rightarrow> nat option \<Rightarrow> bool" where
  "best_upto sz bs n best \<longleftrightarrow> (case best of
       None \<Rightarrow> \<forall>j<n. \<not> suitable sz bs j
     | Some b \<Rightarrow> b < n \<and> suitable sz bs b
         \<and> (\<forall>j<n. suitable sz bs j \<longrightarrow> snd (bs ! b) \<le> snd (bs ! j) \<and> (j < b \<longrightarrow> snd (bs ! b) < snd (bs ! j))))"

abbreviation best_fit :: "nat \<Rightarrow> (bool \<times> nat) list \<Rightarrow> nat option \<Rightarrow> bool" where
  "best_fit sz bs best \<equiv> best_upto sz bs (length bs) best"

definition enc :: "(bool \<times> nat) list \<Rightarrow> nat option \<Rightarrow> u64" where
  "enc bs best = (case best of None \<Rightarrow> 0 | Some b \<Rightarrow> blk_at bs b)"

lemma best_upto_Suc:
  assumes "best_upto sz bs i best"
  shows "best_upto sz bs (Suc i)
    (if suitable sz bs i \<and> (case best of None \<Rightarrow> True | Some b \<Rightarrow> snd (bs ! i) < snd (bs ! b)) then Some i else best)"
proof (cases best)
  case None
  with assms show ?thesis by (auto simp: best_upto_def less_Suc_eq)
next
  case (Some b)
  with assms have b: "b < i" "suitable sz bs b"
      "\<And>j. j < i \<Longrightarrow> suitable sz bs j \<Longrightarrow> snd (bs ! b) \<le> snd (bs ! j) \<and> (j < b \<longrightarrow> snd (bs ! b) < snd (bs ! j))"
    by (auto simp: best_upto_def)
  show ?thesis
  proof (cases "suitable sz bs i \<and> snd (bs ! i) < snd (bs ! b)")
    case True
    with b Some show ?thesis by (auto simp: best_upto_def less_Suc_eq intro: le_less_trans less_le_trans dest: b(3))
  next
    case False
    with b Some show ?thesis by (auto simp: best_upto_def less_Suc_eq)
  qed
qed

lemma heap_scan_spec:
  assumes ok: "heap_ok k bs" and "i \<le> length bs" and "best_upto (unat sz) bs i best"
  shows "\<exists>best'. heap_scan (memory k) (HEAP_BASE + heap_size k) sz (blk_at bs i) (enc bs best) = Some (enc bs best')
    \<and> best_fit (unat sz) bs best'"
  using assms(2,3)
proof (induction "length bs - i" arbitrary: i best)
  case 0
  then have i: "i = length bs" by simp
  then have "\<not> blk_at bs i < blk_at bs (length bs)" by simp
  then have "heap_scan (memory k) (HEAP_BASE + heap_size k) sz (blk_at bs i) (enc bs best) = Some (enc bs best)"
    unfolding heap_end [OF ok] by (subst heap_scan.simps) simp
  with 0 i show ?case by blast
next
  case (Suc d)
  let ?m = "memory k"
  have i: "i < length bs" using Suc.hyps(2) by simp
  have at: "heap_at ?m bs" and small: "span bs < 2 ^ 44" using ok by (simp_all add: heap_ok_def)
  have size: "unat (blk_size ?m (blk_at bs j)) = snd (bs ! j)" "blk_used ?m (blk_at bs j) = fst (bs ! j)"
    if "j < length bs" for j using at that by (simp_all add: heap_at_def)
  let ?c = "suitable (unat sz) bs i \<and> (case best of None \<Rightarrow> True | Some b \<Rightarrow> snd (bs ! i) < snd (bs ! b))"
  have "(\<not> blk_used ?m (blk_at bs i) \<and> sz \<le> blk_size ?m (blk_at bs i)
      \<and> (enc bs best = 0 \<or> blk_size ?m (blk_at bs i) < blk_size ?m (enc bs best))) \<longleftrightarrow> ?c"
  proof (cases best)
    case None
    then show ?thesis using i size [OF i] by (simp add: enc_def suitable_def word_le_nat_alt)
  next
    case (Some b)
    then have "b < length bs" using Suc.prems i by (simp add: best_upto_def)
    with Some show ?thesis using i size [OF i] size [of b] blk_at_nonzero [OF small, of b]
      by (simp add: enc_def suitable_def word_le_nat_alt word_less_nat_alt)
  qed
  then have "heap_scan ?m (HEAP_BASE + heap_size k) sz (blk_at bs i) (enc bs best)
      = heap_scan ?m (HEAP_BASE + heap_size k) sz (blk_at bs (Suc i)) (enc bs (if ?c then Some i else best))"
    unfolding heap_end [OF ok] using blk_before_end [OF small, of i] i blk_next [OF at i]
    by (subst heap_scan.simps) (simp add: enc_def)
  moreover have "\<exists>best'. heap_scan ?m (HEAP_BASE + heap_size k) sz (blk_at bs (Suc i)) (enc bs (if ?c then Some i else best))
      = Some (enc bs best') \<and> best_fit (unat sz) bs best'"
    using Suc.hyps(2) i best_upto_Suc [OF Suc.prems(2)] by (intro Suc.hyps(1)) auto
  ultimately show ?case by simp
qed

lemma heap_scan_best:
  assumes "heap_ok k bs"
  obtains best where "heap_scan (memory k) (HEAP_BASE + heap_size k) sz HEAP_BASE 0 = Some (enc bs best)"
    and "best_fit (unat sz) bs best"
proof -
  have "best_upto (unat sz) bs 0 None" by (simp add: best_upto_def)
  moreover have "enc bs None = 0" "blk_at bs 0 = HEAP_BASE" by (simp_all add: enc_def blk_at_def)
  ultimately show ?thesis using heap_scan_spec [OF assms, of 0 sz None] that by auto
qed

section \<open>kmalloc\<close>

text \<open>The bytes of the payload of block \<open>i\<close>.\<close>

definition payload :: "(bool \<times> nat) list \<Rightarrow> nat \<Rightarrow> u64 set" where
  "payload bs i = {x. in_range (blk_at bs i + 32) (snd (bs ! i)) x}"

lemma unat_payload:
  assumes "span bs < 2 ^ 44" and "i < length bs" and "x \<in> payload bs i"
  shows "0xffffa00000000000 + span (take i bs) + 32 \<le> unat x" and "unat x < 0xffffa00000000000 + span (take (Suc i) bs)"
proof -
  obtain o' where o': "o' < snd (bs ! i)" "x = blk_at bs i + 32 + of_nat o'"
    using assms(3) unfolding payload_def mem_Collect_eq by (rule in_rangeE)
  have s: "span (take i bs) + 32 + snd (bs ! i) < 2 ^ 44"
    using span_take_le [of "Suc i" bs] assms(1,2) by (simp add: span_take_Suc)
  have "x = blk_at bs i + of_nat (32 + o')" using o'(2) by simp
  moreover have "unat (blk_at bs i + of_nat (32 + o')) = 0xffffa00000000000 + span (take i bs) + (32 + o')"
    using s o'(1) assms(1) by (subst unat_add_nat) (simp_all add: unat_blk_at)
  ultimately show "0xffffa00000000000 + span (take i bs) + 32 \<le> unat x" "unat x < 0xffffa00000000000 + span (take (Suc i) bs)"
    using o'(1) assms(2) by (simp_all add: span_take_Suc)
qed

lemma payloads_disjoint:
  assumes "span bs < 2 ^ 44" and "i < length bs" and "j < length bs" and "i \<noteq> j"
  shows "payload bs i \<inter> payload bs j = {}"
proof -
  have "payload bs a \<inter> payload bs b = {}" if "a < b" "b < length bs" for a b
  proof -
    have "span (take (Suc a) bs) \<le> span (take b bs)" using that by (intro span_take_mono) simp
    with unat_payload [OF assms(1), of a] unat_payload [OF assms(1), of b] that show ?thesis by fastforce
  qed
  then show ?thesis using assms(2-4) by (cases "i < j") (simp, simp add: Int_commute [of "payload bs i"])
qed

text \<open>C6. kmalloc with a suitable free block takes the best fit: the smallest free block of at least the
  requested size, the first of these when several have that size; it only sets the block's used bit.\<close>

theorem kmalloc_best_fit:
  assumes "heap_ok k bs" and "\<exists>i. suitable (unat sz) bs i"
  shows "\<exists>i. best_fit (unat sz) bs (Some i)
    \<and> kmalloc sz k = Some (blk_at bs i + 32, k\<lparr>memory := blk_set_used True (blk_at bs i) (memory k)\<rparr>)
    \<and> heap_ok (snd (the (kmalloc sz k))) (bs[i := (True, snd (bs ! i))])
    \<and> (\<forall>j<length bs. fst (bs ! j) \<longrightarrow> payload bs i \<inter> payload bs j = {})"
proof -
  obtain best where b: "heap_scan (memory k) (HEAP_BASE + heap_size k) sz HEAP_BASE 0 = Some (enc bs best)"
      "best_fit (unat sz) bs best"
    using heap_scan_best [OF assms(1)] by blast
  obtain i where i: "best = Some i"
    using b(2) assms(2) by (cases best) (auto simp: best_upto_def suitable_def)
  have suit: "suitable (unat sz) bs i" using b(2) i by (simp add: best_upto_def)
  have small: "span bs < 2 ^ 44" using assms(1) by (simp add: heap_ok_def)
  have "kmalloc sz k = Some (blk_at bs i + 32, k\<lparr>memory := blk_set_used True (blk_at bs i) (memory k)\<rparr>)"
    using b(1) i blk_at_nonzero [OF small, of i] by (simp add: kmalloc_def enc_def)
  moreover have "\<forall>j<length bs. fst (bs ! j) \<longrightarrow> payload bs i \<inter> payload bs j = {}"
    using suit payloads_disjoint [OF small] unfolding suitable_def by metis
  ultimately show ?thesis
    using b(2) i suit heap_ok_set_used [OF assms(1), of i True] by (auto simp: suitable_def)
qed

lemma kmalloc_new:
  assumes "heap_ok k bs" and "\<nexists>i. suitable (unat sz) bs i"
  shows "kmalloc sz k = Some (make_new_block sz k)"
proof -
  obtain best where b: "heap_scan (memory k) (HEAP_BASE + heap_size k) sz HEAP_BASE 0 = Some (enc bs best)"
      "best_fit (unat sz) bs best"
    using heap_scan_best [OF assms(1)] by blast
  have "best = None" using b(2) assms(2) by (cases best) (auto simp: best_upto_def)
  with b(1) show ?thesis by (simp add: kmalloc_def enc_def)
qed

lemma not_direct_heap: "0xffffa00000000000 \<le> unat y \<Longrightarrow> \<not> direct y"
  by (simp add: direct_def in_range_def unat_sub_if_size word_size)

lemma heap_load_same:
  assumes "same_frames X m m'" and "span bs < 2 ^ 44"
  shows "load64 m' (blk_at bs i) = (load64 m (blk_at bs i) :: u64)"
proof (rule load_cong)
  fix j :: nat assume "j < 8"
  then have "unat (blk_at bs i + of_nat j) = 0xffffa00000000000 + span (take i bs) + j"
    using span_take_le [of i bs] assms(2) by (subst unat_add_nat) (simp_all add: unat_blk_at)
  then have "\<not> direct (blk_at bs i + of_nat j)" by (intro not_direct_heap) simp
  with assms(1) show "m' (blk_at bs i + of_nat j) = m (blk_at bs i + of_nat j)"
    by (simp add: same_frames_def)
qed

lemma heap_at_same:
  "same_frames X m m' \<Longrightarrow> span bs < 2 ^ 44 \<Longrightarrow> heap_at m' bs \<longleftrightarrow> heap_at m bs"
  unfolding heap_at_def using heap_load_same blk_fields_cong by metis

definition new_block_size :: "nat \<Rightarrow> nat" where
  "new_block_size n = (n + 32 + 4095) div 4096 * 4096"

lemma unat_page_round: "unat sz + 4095 < 2 ^ 64 \<Longrightarrow> unat (page_round sz) = (unat sz + 4095) div 4096 * 4096"
proof -
  assume sz: "unat sz + 4095 < 2 ^ 64"
  have "unat (sz + 4095) = unat sz + 4095" using sz by (subst unat_add_u64) simp_all
  moreover have "sz + PAGESIZE - 1 = sz + 4095" by (simp add: PAGESIZE_def)
  ultimately have c: "unat (page_count sz) = (unat sz + 4095) div 4096"
    by (simp only: page_count_def unat_div) (simp add: PAGESIZE_def)
  moreover have "(unat sz + 4095) div 4096 * 4096 \<le> unat sz + 4095" by simp
  ultimately have "unat (page_count sz) * unat PAGESIZE < 2 ^ 64" using sz by (simp add: PAGESIZE_def)
  then show ?thesis by (simp add: page_round_def unat_mult_lem [THEN iffD1] c) (simp add: PAGESIZE_def)
qed

lemma heap_header_entry:
  assumes "is_frame t" and "j < 512" and "span bs < 2 ^ 44"
  shows "entry (store64 m (blk_at bs i) w) t j = entry m t j"
  unfolding entry_def
proof (rule load_store_disjoint, rule disjoint_ranges_unat)
  have "unat (slot (physical_to_virtual t) j) = 0xffff800000000000 + unat t + 8 * j"
    using assms(1,2) by (intro unat_slot) (auto simp: is_frame_def)
  moreover have "unat t + 4096 \<le> 2 ^ 39" using frame_room39 [OF assms(1)] .
  ultimately show "unat (blk_at bs i) + 8 \<le> unat (slot (physical_to_virtual t) j)
      \<or> unat (slot (physical_to_virtual t) j) + 8 \<le> unat (blk_at bs i)"
    and "unat (slot (physical_to_virtual t) j) + 8 \<le> 2 ^ 64"
    using assms(2,3) by (simp_all add: unat_blk_at)
  show "unat (blk_at bs i) + 8 \<le> 2 ^ 64" using span_take_le [of i bs] assms(3) by (simp add: unat_blk_at)
qed

lemma frame_no_header:
  assumes "is_frame x" and "i < 4096" and "span bs < 2 ^ 44"
  shows "\<not> in_range (blk_at bs j) 8 (physical_to_virtual x + of_nat i)"
proof
  assume "in_range (blk_at bs j) 8 (physical_to_virtual x + of_nat i)"
  then obtain l where l: "l < 8" "physical_to_virtual x + of_nat i = blk_at bs j + of_nat l" by (rule in_rangeE)
  have "unat (blk_at bs j + of_nat l) = 0xffffa00000000000 + span (take j bs) + l"
    using span_take_le [of j bs] assms(3) l(1) by (subst unat_add_nat) (simp_all add: unat_blk_at)
  moreover have "unat x + 4096 \<le> 2 ^ 39" using frame_room39 [OF assms(1)] .
  then have "unat (physical_to_virtual x + of_nat i) = 0xffff800000000000 + unat x + i"
    using assms(1,2) by (subst unat_add_nat) (simp_all add: unat_physical_to_virtual is_frame_def)
  ultimately show False using l(2) assms(2) \<open>unat x + 4096 \<le> 2 ^ 39\<close> by simp
qed

lemma translate_cong:
  assumes "tables_ok m root" and "\<And>t j. is_frame t \<Longrightarrow> j < 512 \<Longrightarrow> entry m' t j = entry m t j"
  shows "translate m' root w = translate m root w"
proof -
  have "table_at m' root (page_path w) = table_at m root (page_path w)"
  proof (rule table_at_cong)
    fix q u and j :: nat assume "ok_path q" "table_at m root q = Some u" "j < 512"
    with assms(2) tables_okD(1) [OF assms(1)] show "child (entry m' u j) = child (entry m u j)" by simp
  qed simp
  then show ?thesis
    using assms(2) tables_okD(1) [OF assms(1) ok_page_path(1)] by (auto simp: translate_def split: option.splits)
qed

lemma kmalloc_new_spec:
  assumes "heap_ok k bs" and "\<nexists>i. suitable (unat sz) bs i" and "span bs + new_block_size (unat sz) < 2 ^ 44"
    and "vm_ok X k" and "range_ok k (vpage (HEAP_BASE + heap_size k)) (vlen (page_round (sz + 32)))"
    and "vlen (page_round (sz + 32)) + ntables (vlen (page_round (sz + 32))) + 2 \<le> card (free_pages (pmem k))"
  shows "\<exists>k' fs. kmalloc sz k = Some (blk_at bs (length bs) + 32, k')
    \<and> heap_ok k' (bs @ [(True, new_block_size (unat sz) - 32)]) \<and> unat sz \<le> new_block_size (unat sz) - 32
    \<and> vm_ok (X \<union> set fs) k' \<and> length fs = vlen (page_round (sz + 32)) \<and> distinct fs
    \<and> set fs \<subseteq> free_pages (pmem k) \<and> set fs \<subseteq> all_pages (pmem k')
    \<and> (\<forall>x \<in> X. \<forall>i<4096. memory k' (physical_to_virtual x + of_nat i) = memory k (physical_to_virtual x + of_nat i))
    \<and> (\<forall>y. \<not> direct y \<longrightarrow> \<not> in_range (HEAP_BASE + heap_size k) 8 y \<longrightarrow> memory k' y = memory k y) \<and> heap_size k' = heap_size k + page_round (sz + 32)
    \<and> (\<forall>j<vlen (page_round (sz + 32)). translate (memory k') (k_cr3 k') (vpage (HEAP_BASE + heap_size k) + j)
         = Some (fs ! j OR (X86_PAGE_PRESENT OR page_prot_flags (nx_mask k) (KPROT_READ OR KPROT_WRITE))))"
proof -
  let ?blk = "HEAP_BASE + heap_size k" and ?extra = "page_round (sz + 32)"
  let ?k1 = "k\<lparr>heap_size := heap_size k + ?extra\<rparr>"
  let ?bs = "bs @ [(True, new_block_size (unat sz) - 32)]"
  have nb: "unat sz + 32 \<le> new_block_size (unat sz)" unfolding new_block_size_def
    using div_mult_mod_eq [of "unat sz + 32 + 4095" 4096] mod_less_divisor [of 4096 "unat sz + 32 + 4095"] by linarith
  have "unat (sz + 32) = unat sz + 32" using nb assms(3) by (subst unat_add_u64) simp_all
  then have extra: "unat ?extra = new_block_size (unat sz)"
    using nb assms(3) by (subst unat_page_round) (simp_all add: new_block_size_def)
  obtain k2 where k2: "kmapanon ?blk ?extra (KPROT_READ OR KPROT_WRITE) ?k1 = (?blk, k2)"
    by (simp add: kmapanon_def Let_def)
  have vm1: "vm_ok X ?k1" using assms(4) by (simp add: vm_ok_def)
  have r1: "range_ok ?k1 (vpage ?blk) (vlen ?extra)" using assms(5) by (simp add: range_ok_def)
  have free1: "free_pages (pmem k) \<subseteq> all_pages (pmem k)" by (rule free_subset_all)
  have "vlen ?extra + ntables (vlen ?extra) + 2 \<le> card (free_pages (pmem ?k1))" using assms(6) by simp
  from kmapanon_spec [OF vm1 r1 this k2] obtain fs where map0: "same_frames X (memory ?k1) (memory k2)"
      "\<forall>j<vlen ?extra. trans k2 (vpage ?blk + j) = Some (fs ! j OR (X86_PAGE_PRESENT OR page_prot_flags (nx_mask ?k1) (KPROT_READ OR KPROT_WRITE)))"
      "vm_ok (X \<union> set fs) k2" "length fs = vlen ?extra" "distinct fs" "set fs \<subseteq> free_pages (pmem ?k1)"
      "all_pages (pmem k2) = all_pages (pmem ?k1)" "heap_size k2 = heap_size ?k1"
    by blast
  have "set fs \<subseteq> all_pages (pmem k2)" using map0(6,7) free1 by auto
  note map = map0(1-5) this
  have hs2: "heap_size k2 = heap_size k + ?extra" using map0(8) by simp
  have small: "span bs < 2 ^ 44" and at: "heap_at (memory k) bs" and hs: "span bs = unat (heap_size k)"
    using assms(1) by (simp_all add: heap_ok_def)
  have blk: "?blk = blk_at bs (length bs)" using heap_end [OF assms(1)] .
  let ?m3 = "blk_set_size (?extra - 32) ?blk (blk_set_used True ?blk (memory k2))"
  let ?k3 = "k2\<lparr>memory := ?m3\<rparr>"
  have e32: "unat (?extra - 32) = new_block_size (unat sz) - 32"
    using nb extra by (subst unat_sub) (simp_all add: word_le_nat_alt)
  have "span ?bs = unat (heap_size k + ?extra)"
    using assms(3) nb hs extra by (subst unat_add_u64) simp_all
  moreover have "heap_at ?m3 ?bs"
    unfolding heap_at_def
  proof (intro allI impI)
    fix i assume "i < length ?bs"
    then consider "i < length bs" | "i = length bs" by fastforce
    then show "blk_used ?m3 (blk_at ?bs i) = fst (?bs ! i) \<and> unat (blk_size ?m3 (blk_at ?bs i)) = snd (?bs ! i)"
    proof cases
      case 1
      have a: "blk_at ?bs i = blk_at bs i" using 1 by (simp add: blk_at_def)
      have "load64 ?m3 (blk_at bs i) = (load64 (memory k2) (blk_at bs i) :: u64)"
        unfolding blk blk_set_size_def blk_set_used_def using 1 by (simp add: header_elsewhere [OF small 1])
      also have "\<dots> = load64 (memory k) (blk_at bs i)"
        using heap_load_same [OF map(1) small] by simp
      finally have l: "load64 ?m3 (blk_at bs i) = (load64 (memory k) (blk_at bs i) :: u64)" .
      have "?bs ! i = bs ! i" using 1 by (simp add: nth_append)
      moreover have "blk_used (memory k) (blk_at bs i) = fst (bs ! i)" "unat (blk_size (memory k) (blk_at bs i)) = snd (bs ! i)"
        using at 1 by (simp_all add: heap_at_def)
      ultimately show ?thesis unfolding a using blk_fields_cong [OF l] by simp
    next
      case 2
      have a: "blk_at ?bs i = ?blk" unfolding blk 2 by (simp add: blk_at_def)
      have "new_block_size (unat sz) - 32 < 2 ^ 63" using assms(3) by simp
      then show ?thesis unfolding a by (simp add: 2 e32)
    qed
  qed
  moreover have "span ?bs < 2 ^ 44" using assms(3) nb by simp
  ultimately have ok: "heap_ok ?k3 ?bs" by (simp add: heap_ok_def hs2)
  have k3: "kmalloc sz k = Some (blk_at bs (length bs) + 32, ?k3)"
    unfolding kmalloc_new [OF assms(1,2)] make_new_block_def using k2 unfolding blk by (simp add: Let_def)
  have out3: "memory ?k3 y = memory k2 y" if "\<not> in_range ?blk 8 y" for y
    using that by (simp add: blk_set_size_def blk_set_used_def store_outside)
  have fr3: "entry (memory ?k3) t j = entry (memory k2) t j" if "is_frame t" "j < 512" for t j
    using heap_header_entry [OF that small] by (simp add: blk blk_set_size_def blk_set_used_def)
  have "tables_ok (memory k2) (k_cr3 k2)" using map(3) by (simp add: vm_ok_def)
  note tr = translate_cong [OF this fr3]
  have tok: "tables_ok (memory k2) (k_cr3 k2)" using map(3) by (simp add: vm_ok_def)
  have "tables_same k2 ?k3"
    unfolding tables_same_def
  proof (intro conjI allI impI)
    fix q assume q: "ok_path q"
    show "table_at (memory ?k3) (k_cr3 k2) q = table_at (memory k2) (k_cr3 k2) q"
    proof (rule table_at_cong [OF _ q])
      fix r u and j :: nat assume "ok_path r" "table_at (memory k2) (k_cr3 k2) r = Some u" "j < 512"
      with fr3 tables_okD(1) [OF tok] show "child (entry (memory ?k3) u j) = child (entry (memory k2) u j)" by simp
    qed
  qed simp
  note ts = this
  have "pmem ?k3 = pmem k2" by simp
  then have "vm_ok (X \<union> set fs) ?k3"
    using map(3) tables_same_tables [OF ts] tables_same_ok [OF ts tok] by (simp add: vm_ok_def)
  moreover have "\<forall>j<vlen ?extra. trans ?k3 (vpage ?blk + j)
      = Some (fs ! j OR (X86_PAGE_PRESENT OR page_prot_flags (nx_mask k) (KPROT_READ OR KPROT_WRITE)))"
    using map(2) tr by simp
  moreover have "\<forall>x \<in> X. \<forall>i<4096. memory ?k3 (physical_to_virtual x + of_nat i) = memory k (physical_to_virtual x + of_nat i)"
  proof (intro ballI allI impI)
    fix x and i :: nat assume x: "x \<in> X" and i: "i < 4096"
    have f: "is_frame x" using map(3) x by (simp add: vm_ok_def)
    have "memory ?k3 (physical_to_virtual x + of_nat i) = memory k2 (physical_to_virtual x + of_nat i)"
      by (rule out3) (use frame_no_header [OF f i small] in \<open>simp add: blk\<close>)
    then show "memory ?k3 (physical_to_virtual x + of_nat i) = memory k (physical_to_virtual x + of_nat i)"
      using map0(1) x i by (simp add: same_frames_def)
  qed
  moreover have "\<forall>y. \<not> direct y \<longrightarrow> \<not> in_range ?blk 8 y \<longrightarrow> memory ?k3 y = memory k y"
    using map0(1) out3 by (simp add: same_frames_def)
  ultimately show ?thesis
    using ok k3 nb map(4-6) map0(6) hs2 by (intro exI [where x = ?k3] exI [where x = fs]) simp
qed

text \<open>C9. kmalloc without a suitable free block, on a heap and page tables in order (\<open>heap_ok\<close>, \<open>vm_ok\<close>), appends one: the heap grows by the requested size plus the header,
  rounded up to pages; the new block is used and holds at least the requested size, the others keep their
  headers, and the new memory is mapped: every page of it translates to a present and writable entry for a page of its own that was
  free before and now is in use; no frame in use is written, and outside the direct map no byte but those of the new header. The range must fit the page tables the iterator counts, the heap its window of
  16 TiB, and there must be free pages for the range and its tables.\<close>

theorem kmalloc_appends_block:
  assumes "heap_ok k bs" and "\<nexists>i. suitable (unat sz) bs i" and "span bs + new_block_size (unat sz) < 2 ^ 44"
    and "vm_ok X k" and "range_ok k (vpage (HEAP_BASE + heap_size k)) (vlen (page_round (sz + 32)))"
    and "vlen (page_round (sz + 32)) + ntables (vlen (page_round (sz + 32))) + 2 \<le> card (free_pages (pmem k))"
  shows "\<exists>k' fs. kmalloc sz k = Some (blk_at bs (length bs) + 32, k')
    \<and> heap_ok k' (bs @ [(True, new_block_size (unat sz) - 32)]) \<and> unat sz \<le> new_block_size (unat sz) - 32
    \<and> heap_size k' = heap_size k + page_round (sz + 32)
    \<and> length fs = vlen (page_round (sz + 32)) \<and> distinct fs \<and> set fs \<subseteq> free_pages (pmem k)
    \<and> (\<forall>j<vlen (page_round (sz + 32)). translate (memory k') (k_cr3 k') (vpage (HEAP_BASE + heap_size k) + j)
         = Some (fs ! j OR (X86_PAGE_PRESENT OR page_prot_flags (nx_mask k) (KPROT_READ OR KPROT_WRITE))))
    \<and> vm_ok (X \<union> set fs) k'
    \<and> (\<forall>x \<in> X. \<forall>i<4096. memory k' (physical_to_virtual x + of_nat i) = memory k (physical_to_virtual x + of_nat i))
    \<and> (\<forall>y. \<not> direct y \<longrightarrow> \<not> in_range (HEAP_BASE + heap_size k) 8 y \<longrightarrow> memory k' y = memory k y)"
  using kmalloc_new_spec [OF assms] by blast

section \<open>kfree\<close>

text \<open>The blocks up to the last used one.\<close>

definition trim :: "(bool \<times> nat) list \<Rightarrow> (bool \<times> nat) list" where
  "trim bs = rev (dropWhile (\<lambda>b. \<not> fst b) (rev bs))"

lemma trim_snoc: "trim (bs @ [b]) = (if fst b then bs @ [b] else trim bs)"
  by (simp add: trim_def)

lemma trim_prefix: "\<exists>cs. bs = trim bs @ cs \<and> (\<forall>c \<in> set cs. \<not> fst c)"
proof (induction bs rule: rev_induct)
  case (snoc b bs)
  then obtain cs where "bs = trim bs @ cs" "\<forall>c \<in> set cs. \<not> fst c" by blast
  show ?case
  proof (cases "fst b")
    case False
    have "bs @ [b] = trim bs @ (cs @ [b])" using \<open>bs = trim bs @ cs\<close> by (metis append.assoc)
    with False \<open>\<forall>c \<in> set cs. \<not> fst c\<close> show ?thesis
      by (intro exI [where x = "cs @ [b]"]) (simp add: trim_snoc)
  qed (simp add: trim_snoc)
qed (simp add: trim_def)

lemma trim_last_used: "trim bs = [] \<or> fst (last (trim bs))"
  by (induction bs rule: rev_induct) (auto simp: trim_snoc trim_def)

lemma blk_at_minus_base: "blk_at bs i - HEAP_BASE = of_nat (span (take i bs))"
  by (simp add: blk_at_def)

lemma shrink_from_spec:
  assumes ok: "heap_ok k bs" and "i \<le> length bs"
  shows "shrink_from (memory k) (HEAP_BASE + heap_size k) (blk_at bs i) (of_nat (span (trim (take i bs))))
    = Some (of_nat (span (trim bs)))"
  using assms(2)
proof (induction "length bs - i" arbitrary: i)
  case 0
  then have i: "i = length bs" by simp
  then have "\<not> blk_at bs i < blk_at bs (length bs)" by simp
  then show ?case unfolding heap_end [OF ok] using i by (subst shrink_from.simps) simp
next
  case (Suc d)
  let ?m = "memory k"
  have i: "i < length bs" using Suc.hyps(2) by simp
  have at: "heap_at ?m bs" and small: "span bs < 2 ^ 44" using ok by (simp_all add: heap_ok_def)
  have used: "blk_used ?m (blk_at bs i) = fst (bs ! i)" using at i by (simp add: heap_at_def)
  have "trim (take (Suc i) bs) = (if fst (bs ! i) then take (Suc i) bs else trim (take i bs))"
    using i by (simp add: take_Suc_conv_app_nth trim_snoc)
  then have new: "(if blk_used ?m (blk_at bs i) then (blk_at bs i + 32 + blk_size ?m (blk_at bs i)) - HEAP_BASE
      else of_nat (span (trim (take i bs)))) = of_nat (span (trim (take (Suc i) bs)))"
    unfolding blk_next [OF at i] blk_at_minus_base used by simp
  have "blk_at bs i < blk_at bs (length bs)" using blk_before_end [OF small, of i] i by simp
  then have "shrink_from ?m (HEAP_BASE + heap_size k) (blk_at bs i) (of_nat (span (trim (take i bs))))
      = shrink_from ?m (HEAP_BASE + heap_size k) (blk_at bs (Suc i)) (of_nat (span (trim (take (Suc i) bs))))"
    unfolding heap_end [OF ok] new [symmetric] by (subst shrink_from.simps) (simp add: blk_next [OF at i])
  also have "\<dots> = Some (of_nat (span (trim bs)))" using Suc.hyps(2) i by (intro Suc.hyps(1)) auto
  finally show ?case .
qed

lemma shrink_total:
  "heap_ok k bs \<Longrightarrow> shrink k = Some ((kunmapanon (HEAP_BASE + of_nat (span (trim bs)))
     (heap_size k - of_nat (span (trim bs))) k)\<lparr>heap_size := of_nat (span (trim bs))\<rparr>)"
  using shrink_from_spec [of k bs 0] by (simp add: shrink_def trim_def blk_at_def)

lemma kfree_header:
  assumes "heap_ok k bs" and "i < length bs"
  shows "kfree (blk_at bs i + 32) k =
    (let k1 = k\<lparr>memory := blk_set_used False (blk_at bs i) (memory k)\<rparr>
     in if Suc i = length bs then shrink k1 else Some k1)"
proof -
  have small: "span bs < 2 ^ 44" and at: "heap_at (memory k) bs" using assms(1) by (simp_all add: heap_ok_def)
  have "unat (blk_at bs i + 32) = unat (blk_at bs i) + 32"
    using span_take_le [of i bs] small by (subst unat_add_u64) (simp_all add: unat_blk_at)
  then have nz: "blk_at bs i + 32 \<noteq> 0" by (metis add_is_0 unsigned_0 zero_neq_numeral)
  have "blk_at bs (Suc i) = blk_at bs (length bs) \<longleftrightarrow> Suc i = length bs"
    using blk_before_end [OF small, of "Suc i"] assms(2) by auto
  then show ?thesis
    using nz blk_next [OF at assms(2)] heap_end [OF assms(1)] by (simp add: kfree_def Let_def)
qed

text \<open>kfree of a block that is not the last one returns, marks the block free and leaves the rest of
  the heap as it is; the heap keeps its size.\<close>

theorem kfree_marks_free:
  assumes "heap_ok k bs" and "Suc i < length bs"
  shows "\<exists>k'. kfree (blk_at bs i + 32) k = Some k' \<and> heap_ok k' (bs[i := (False, snd (bs ! i))])
    \<and> heap_size k' = heap_size k \<and> pmem k' = pmem k"
proof -
  have "i < length bs" using assms(2) by simp
  from kfree_header [OF assms(1) this] heap_ok_set_used [OF assms(1) this, of False] assms(2) show ?thesis
    by (simp add: Let_def)
qed

text \<open>C12. kfree of the last block gives memory back: the heap then ends with its last used block, all blocks before
  that are kept, and the pages behind them go back to the allocator, when the range given back fits its page tables
  and leads to distinct pages in use.\<close>

theorem kfree_last_trims:
  assumes "heap_ok k bs" and "bs = cs @ [b]" and "tr = trim cs"
    and "rest = heap_size k - of_nat (span tr)" and "start = HEAP_BASE + of_nat (span tr)"
    and "vm_ok X k" and "fits (vpage start) (vlen rest)" and "tables_present k (vpage start) (vlen rest)"
    and "\<forall>j<vlen rest. fr j = the (translate (memory k) (k_cr3 k) (vpage start + j)) AND MMASK_PHYS"
    and "inj_on fr {..<vlen rest}" and "fr ` {..<vlen rest} \<subseteq> X \<inter> all_pages (pmem k)"
  shows "\<exists>k'. kfree (blk_at bs (length cs) + 32) k = Some k' \<and> heap_ok k' tr
    \<and> free_pages (pmem k') = free_pages (pmem k) \<union> fr ` {..<vlen rest} \<and> (tr = [] \<or> fst (last tr))"
proof -
  have i: "length cs < length bs" "Suc (length cs) = length bs" using assms(2) by simp_all
  let ?k1 = "k\<lparr>memory := blk_set_used False (blk_at bs (length cs)) (memory k)\<rparr>"
  let ?bs = "bs[length cs := (False, snd (bs ! length cs))]"
  have ok1: "heap_ok ?k1 ?bs" by (rule heap_ok_set_used [OF assms(1) i(1)])
  have bs1: "?bs = cs @ [(False, snd b)]" by (simp add: assms(2))
  have tr: "trim ?bs = tr" unfolding bs1 trim_snoc assms(3) by simp
  have small: "span bs < 2 ^ 44" using assms(1) by (simp add: heap_ok_def)
  have same: "entry (memory ?k1) t j = entry (memory k) t j" if "is_frame t" "j < 512" for t j
    using heap_header_entry [OF that small] by (simp add: blk_set_used_def)
  have tok: "tables_ok (memory k) (k_cr3 k)" using assms(6) by (simp add: vm_ok_def)
  have tabs: "table_at (memory ?k1) (k_cr3 k) q = table_at (memory k) (k_cr3 k) q" if "ok_path q" for q
  proof (rule table_at_cong [OF _ that])
    fix q u and j :: nat assume "ok_path q" "table_at (memory k) (k_cr3 k) q = Some u" "j < 512"
    with same tables_okD(1) [OF tok] show "child (entry (memory ?k1) u j) = child (entry (memory k) u j)" by simp
  qed
  then have ts: "tables_same k ?k1" by (simp add: tables_same_def)
  have vm1: "vm_ok X ?k1"
    using assms(6) tables_same_tables [OF ts] tables_same_ok [OF ts tok] by (simp add: vm_ok_def)
  have pr1: "tables_present ?k1 (vpage start) (vlen rest)"
    using assms(8) tabs by (simp add: tables_present_def)
  have "\<forall>j<vlen rest. fr j = the (trans ?k1 (vpage start + j)) AND MMASK_PHYS"
    using assms(9) translate_cong [OF tok same] by simp
  from kunmapanon_spec [OF vm1 assms(7) pr1 this assms(10) _ refl] assms(11)
  have u: "free_pages (pmem (kunmapanon start rest ?k1)) = free_pages (pmem k) \<union> fr ` {..<vlen rest}"
      "same_frames (X - fr ` {..<vlen rest}) (memory ?k1) (memory (kunmapanon start rest ?k1))"
    by simp_all
  let ?k' = "(kunmapanon start rest ?k1)\<lparr>heap_size := of_nat (span tr)\<rparr>"
  have k': "kfree (blk_at bs (length cs) + 32) k = Some ?k'"
    unfolding kfree_header [OF assms(1) i(1)] using i(2) shrink_total [OF ok1] by (simp add: tr assms(4,5))
  obtain ds where ds: "?bs = tr @ ds" using trim_prefix [of ?bs] tr by auto
  have "span tr \<le> span ?bs" unfolding ds by simp
  then have str: "span tr < 2 ^ 44" using ok1 by (simp add: heap_ok_def)
  have "heap_at (memory ?k1) tr"
    unfolding heap_at_def
  proof (intro allI impI)
    fix i assume "i < length tr"
    then have "i < length ?bs" "blk_at ?bs i = blk_at tr i" "?bs ! i = tr ! i"
      unfolding ds by (simp_all add: blk_at_def nth_append)
    with ok1 show "blk_used (memory ?k1) (blk_at tr i) = fst (tr ! i) \<and> unat (blk_size (memory ?k1) (blk_at tr i)) = snd (tr ! i)"
      unfolding heap_ok_def heap_at_def by metis
  qed
  then have "heap_at (memory ?k') tr" using heap_at_same [OF u(2) str] by simp
  then have "heap_ok ?k' tr" using str by (simp add: heap_ok_def unat_of_nat_u64)
  with k' u(1) trim_last_used [of cs] show ?thesis by (auto simp: assms(3))
qed

lemma best_fit_unique:
  assumes "best_fit sz bs (Some i)" and "best_fit sz bs (Some j)"
  shows "i = j"
proof -
  have i: "i < length bs" "suitable sz bs i"
      "\<And>l. l < length bs \<Longrightarrow> suitable sz bs l \<Longrightarrow> snd (bs ! i) \<le> snd (bs ! l) \<and> (l < i \<longrightarrow> snd (bs ! i) < snd (bs ! l))"
    using assms(1) by (simp_all add: best_upto_def)
  have j: "j < length bs" "suitable sz bs j"
      "\<And>l. l < length bs \<Longrightarrow> suitable sz bs l \<Longrightarrow> snd (bs ! j) \<le> snd (bs ! l) \<and> (l < j \<longrightarrow> snd (bs ! j) < snd (bs ! l))"
    using assms(2) by (simp_all add: best_upto_def)
  from i(3) [OF j(1,2)] j(3) [OF i(1,2)] show ?thesis by linarith
qed

text \<open>C14. Allocating from a free block that is not the last one and freeing it again restores the
  whole kernel state.\<close>

theorem kmalloc_kfree:
  assumes "heap_ok k bs" and "best_fit (unat sz) bs (Some i)" and "Suc i < length bs"
    and "kmalloc sz k = Some (p, k')"
  shows "kfree p k' = Some k"
proof -
  have suit: "suitable (unat sz) bs i" using assms(2) by (simp add: best_upto_def)
  obtain best where b: "heap_scan (memory k) (HEAP_BASE + heap_size k) sz HEAP_BASE 0 = Some (enc bs best)"
      "best_fit (unat sz) bs best"
    using heap_scan_best [OF assms(1)] by blast
  have "best = Some i"
  proof (cases best)
    case None
    with b(2) suit show ?thesis by (auto simp: best_upto_def suitable_def)
  next
    case (Some j)
    with b(2) best_fit_unique [OF assms(2), of j] show ?thesis by simp
  qed
  moreover have small: "span bs < 2 ^ 44" using assms(1) by (simp add: heap_ok_def)
  ultimately have k': "p = blk_at bs i + 32" "k' = k\<lparr>memory := blk_set_used True (blk_at bs i) (memory k)\<rparr>"
    using assms(4) b(1) blk_at_nonzero [OF small, of i] by (auto simp: kmalloc_def enc_def)
  let ?bs = "bs[i := (True, snd (bs ! i))]"
  have i: "i < length bs" using assms(3) by simp
  have ok': "heap_ok k' ?bs" unfolding k'(2) by (rule heap_ok_set_used [OF assms(1) i])
  have at: "blk_at ?bs i = blk_at bs i" by (rule blk_at_update [OF i])
  have "\<not> blk_used (memory k) (blk_at bs i)" using assms(1) suit by (simp add: heap_ok_def heap_at_def suitable_def)
  then have "(load64 (memory k) (blk_at bs i) AND NOT 1 OR 1) AND NOT 1 = (load64 (memory k) (blk_at bs i) :: u64)"
    by (intro bit_word_eqI) (auto simp: blk_used_def bit_or_iff bit_and_iff bit_not_iff bit_1_iff intro!: gr0I)
  then have "blk_set_used False (blk_at bs i) (blk_set_used True (blk_at bs i) (memory k)) = memory k"
    by (simp add: blk_set_used_def store64_twice)
  then show ?thesis
    using kfree_header [OF ok', of i] i assms(3) by (simp add: k' at Let_def)
qed

section \<open>Examples\<close>

definition sample_heap :: Kernel where
  "sample_heap = sample_kernel\<lparr>heap_size := 0x2000,
     memory := blk_set_used True (HEAP_BASE + 0x1000) (blk_set_size 4064 (HEAP_BASE + 0x1000)
       (blk_set_size 4064 HEAP_BASE (\<lambda>_. 0)))\<rparr>"

abbreviation sample_blocks :: "(bool \<times> nat) list" where
  "sample_blocks \<equiv> [(False, 4064), (True, 4064)]"

lemma sample_heap_ok: "heap_ok sample_heap sample_blocks"
proof -
  have at: "blk_at sample_blocks 0 = HEAP_BASE" "blk_at sample_blocks 1 = HEAP_BASE + 0x1000"
    by (simp_all add: blk_at_def)
  have zero: "load64 (\<lambda>_. 0) p = (0 :: u64)" for p unfolding load_def by (rule word_le_zeros) auto
  let ?m0 = "blk_set_size 4064 HEAP_BASE (\<lambda>_. 0)"
  have m0: "blk_used ?m0 HEAP_BASE = False" "unat (blk_size ?m0 HEAP_BASE) = 4064"
    by (simp_all, simp add: blk_used_def zero)
  have "load64 (memory sample_heap) (blk_at sample_blocks 0) = (load64 ?m0 (blk_at sample_blocks 0) :: u64)"
    unfolding sample_heap_def at(2) [symmetric] by (simp add: blk_set_used_def blk_set_size_def header_elsewhere)
  from blk_fields_cong [OF this] m0
  have "blk_used (memory sample_heap) (blk_at sample_blocks 0) = False"
    "unat (blk_size (memory sample_heap) (blk_at sample_blocks 0)) = 4064" unfolding at by simp_all
  moreover have "blk_used (memory sample_heap) (blk_at sample_blocks 1)"
    "unat (blk_size (memory sample_heap) (blk_at sample_blocks 1)) = 4064"
    unfolding at by (simp_all add: sample_heap_def)
  ultimately have "heap_at (memory sample_heap) sample_blocks"
    by (auto simp: heap_at_def less_Suc_eq)
  then show ?thesis by (simp add: heap_ok_def sample_heap_def)
qed

lemma kmalloc_best_fit_witness:
  "\<exists>k'. kmalloc 100 sample_heap = Some (HEAP_BASE + 32, k') \<and> heap_ok k' [(True, 4064), (True, 4064)]"
proof -
  have "suitable (unat (100 :: u64)) sample_blocks 0" by (simp add: suitable_def)
  then have "\<exists>i. suitable (unat (100 :: u64)) sample_blocks i" by blast
  from kmalloc_best_fit [OF sample_heap_ok this] obtain i where
    i: "best_fit (unat (100 :: u64)) sample_blocks (Some i)"
      "kmalloc 100 sample_heap = Some (blk_at sample_blocks i + 32,
         sample_heap\<lparr>memory := blk_set_used True (blk_at sample_blocks i) (memory sample_heap)\<rparr>)"
      "heap_ok (snd (the (kmalloc 100 sample_heap))) (sample_blocks[i := (True, snd (sample_blocks ! i))])"
    by blast
  then have "i = 0" by (auto simp: best_upto_def suitable_def less_Suc_eq)
  with i(2,3) show ?thesis by (simp add: blk_at_def)
qed

lemma sample_heap_range:
  "page_round 132 = 0x1000" "vlen 0x1000 = 1" "vpage HEAP_BASE = 0xffffa00000000" "ntables 1 = 1"
  by (simp_all add: page_round_def page_count_def PAGESIZE_def vlen_def vpage_def HEAP_BASE_def ntables_def drop_bit_eq_div)

lemma sample_new_block:
  "range_ok sample_kernel (vpage (HEAP_BASE + heap_size sample_kernel)) (vlen (page_round (100 + 32)))"
  "vlen (page_round (100 + 32)) + ntables (vlen (page_round (100 + 32))) + 2 \<le> card (free_pages (pmem sample_kernel))"
  "heap_ok sample_kernel []"
  "\<nexists>i. suitable (unat (100 :: u64)) [] i" "span [] + new_block_size (unat (100 :: u64)) < 2 ^ 44"
proof -
  have "no_large (\<lambda>_. 0) 0x1000 w" for w by (simp add: no_large_def entry_zeros)
  then show "range_ok sample_kernel (vpage (HEAP_BASE + heap_size sample_kernel)) (vlen (page_round (100 + 32)))"
    by (simp add: range_ok_def sample_kernel_def sample_heap_range fits_def ntables_def)
  show "vlen (page_round (100 + 32)) + ntables (vlen (page_round (100 + 32))) + 2 \<le> card (free_pages (pmem sample_kernel))"
    by (simp add: sample_heap_range sample_kernel_def sample_pool_card ntables_def)
  show "heap_ok sample_kernel []" by (simp add: heap_ok_def heap_at_def sample_kernel_def)
qed (simp_all add: suitable_def new_block_size_def)

lemma kmalloc_appends_block_witness:
  "\<exists>k'. kmalloc 100 sample_kernel = Some (HEAP_BASE + 32, k') \<and> heap_ok k' [(True, 4064)]"
  using kmalloc_appends_block [OF sample_new_block(3-5) sample_kernel_ok sample_new_block(1,2)]
  by (auto simp: new_block_size_def blk_at_def)

lemma kfree_marks_free_witness:
  "\<exists>k'. kfree (HEAP_BASE + 32) sample_heap = Some k' \<and> heap_ok k' sample_blocks"
  using kfree_marks_free [OF sample_heap_ok, of 0] by (auto simp: blk_at_def)

lemma kfree_last_trims_witness:
  "\<exists>k k'. kmalloc 100 sample_kernel = Some (HEAP_BASE + 32, k) \<and> kfree (HEAP_BASE + 32) k = Some k' \<and> heap_ok k' []"
proof -
  obtain k fs where k: "kmalloc 100 sample_kernel = Some (HEAP_BASE + 32, k)" "heap_ok k [(True, 4064)]"
      "vm_ok (set fs) k" "length fs = 1" "distinct fs" "set fs \<subseteq> all_pages (pmem k)" "heap_size k = 0x1000"
      "trans k (vpage HEAP_BASE) = Some (fs ! 0 OR (X86_PAGE_PRESENT OR page_prot_flags 0x8000000000000000 (KPROT_READ OR KPROT_WRITE)))"
    using kmalloc_new_spec [OF sample_new_block(3-5) sample_kernel_ok sample_new_block(1,2)]
    by (auto simp: new_block_size_def blk_at_def sample_heap_range sample_kernel_def)
  have b: "bit (0x8000000000000000 :: u64) i \<Longrightarrow> i = 63" for i
    using bit_exp_iff [where n = i and m = 63 and 'a = "64 word"] by simp
  have "is_frame (fs ! 0)" using k(3,4) by (simp add: vm_ok_def)
  then have "fs ! 0 = the (trans k (vpage HEAP_BASE)) AND MMASK_PHYS"
    unfolding k(8) option.sel using b by (intro frame_entry_mask [symmetric]) (auto simp: bit_or_iff dest!: bit_page_prot_flags)
  then have fr: "\<forall>j<vlen 0x1000. fs ! j = the (trans k (vpage HEAP_BASE + j)) AND MMASK_PHYS"
    by (simp add: sample_heap_range)
  have "tables_present k (vpage HEAP_BASE) (vlen 0x1000)"
    using k(8) by (auto simp: tables_present_def sample_heap_range translate_def split: option.splits)
  moreover have "fits (vpage HEAP_BASE) (vlen 0x1000)" by (simp add: fits_def sample_heap_range ntables_def)
  moreover have "inj_on ((!) fs) {..<vlen 0x1000}" by (simp add: sample_heap_range inj_on_def)
  moreover have "(!) fs ` {..<vlen 0x1000} \<subseteq> set fs \<inter> all_pages (pmem k)"
    using k(4,6) by (auto simp: sample_heap_range)
  ultimately have "\<exists>k'. kfree (blk_at [(True, 4064)] (length []) + 32) k = Some k' \<and> heap_ok k' []"
    using kfree_last_trims [OF k(2), of "[]" "(True, 4064)" "[]" "0x1000" HEAP_BASE "set fs" "(!) fs"] k(3,7) fr
    by (auto simp: trim_def)
  with k(1) show ?thesis by (auto simp: blk_at_def)
qed

lemma kmalloc_kfree_witness: "\<exists>p k'. kmalloc 100 sample_heap = Some (p, k') \<and> kfree p k' = Some sample_heap"
proof -
  have b: "best_fit (unat (100 :: u64)) sample_blocks (Some 0)"
    by (auto simp: best_upto_def suitable_def less_Suc_eq)
  obtain best where "heap_scan (memory sample_heap) (HEAP_BASE + heap_size sample_heap) 100 HEAP_BASE 0 = Some (enc sample_blocks best)"
    by (rule heap_scan_best [OF sample_heap_ok, of 100])
  then have "kmalloc 100 sample_heap \<noteq> None" by (simp add: kmalloc_def)
  then obtain p k' where "kmalloc 100 sample_heap = Some (p, k')" by auto
  with kmalloc_kfree [OF sample_heap_ok b _ this] show ?thesis by auto
qed

end
