(* ===== verification/X86.thy ===== *)
theory X86
  imports Prelude
begin

text \<open>
  The x86 support code (src/kernel/arch/x86): port I/O and model-specific registers (asm.h),
  the segment descriptor table (gdt.c), the interrupt descriptor table (interrupts.c), the
  interrupt controllers (pic.c) and the timer (timer.c), on a record of the processor state they
  write. Reading a port or \<open>cpuid\<close> gives what the hardware answers: a parameter of the model.
\<close>

section \<open>Processor state\<close>

type_synonym io = "(u16 \<times> u8) list"
type_synonym device = "io \<Rightarrow> u16 \<Rightarrow> u8"

text \<open>The bytes of \<open>IDTDesc\<close> and \<open>GdtEntrySystem\<close> are laid out by their bit fields.\<close>

record IDTDesc =
  offset_lo :: u16
  selector :: u16
  ist :: u8
  gate_type :: u8
  gate_z :: u8
  gate_dpl :: u8
  gate_p :: u8
  offset_md :: u16
  offset_hi :: u32
  gate_zero :: u32

record GdtEntrySystem =
  limit_lo :: u16
  base_lo :: u16
  base_md :: u8
  ac :: u8
  rw :: u8
  dc :: u8
  ex :: u8
  seg_system :: u8
  priv :: u8
  present :: u8
  limit_hi :: u8
  seg_zero :: u8
  seg_l :: u8
  seg_sz :: u8
  seg_gr :: u8
  base_hi :: u8

text \<open>
  \<open>ports\<close>: the bytes written, in order. \<open>msrs\<close>: the halves EDX and EAX of each register.
  \<open>gdtr\<close>, \<open>idtr\<close>: the limits loaded; the tables they point to are \<open>gdt\<close> and \<open>idt\<close>.
\<close>

record Cpu =
  ports :: io
  msrs :: "u32 \<Rightarrow> u32 \<times> u32"
  gdt :: "u8 list"
  gdt_size :: u16
  gdtr :: u16
  idt :: "IDTDesc list"
  idtr :: u16
  tr :: u16
  seg_cs :: u64
  seg_data :: u64

section \<open>Port I/O and model-specific registers\<close>

definition out8 :: "u16 \<Rightarrow> u8 \<Rightarrow> io \<Rightarrow> io" where
  "out8 port v io = io @ [(port, v)]"

definition in8 :: "device \<Rightarrow> u16 \<Rightarrow> io \<Rightarrow> u8" where
  "in8 dev port io = dev io port"

definition io_wait :: "io \<Rightarrow> io" where
  "io_wait io = out8 0x80 0 io"

definition rdmsr :: "u32 \<Rightarrow> Cpu \<Rightarrow> u64" where
  "rdmsr msr c = (let (hi, lo) = msrs c msr in push_bit 32 (ucast hi) OR ucast lo)"

definition wrmsr :: "u32 \<Rightarrow> u64 \<Rightarrow> Cpu \<Rightarrow> Cpu" where
  "wrmsr msr v c =
     (let hi = ucast (drop_bit 32 v); lo = ucast (v AND 0xffffffff)
      in c\<lparr>msrs := (msrs c)(msr := (hi, lo))\<rparr>)"

lemma bit_low32: "bit (0xffffffff :: u64) k \<longleftrightarrow> k < 32"
proof -
  have "(0xffffffff :: u64) = mask 32" by (simp add: mask_eq_exp_minus_1)
  then show ?thesis by (simp only: bit_mask_iff) auto
qed

lemma and_low16: "w AND 0xffff = take_bit 16 w" and and_low8: "w AND 0xff = take_bit 8 w" for w :: u64
proof -
  have "(0xffff :: u64) = mask 16" and "(0xff :: u64) = mask 8" by (simp_all add: mask_eq_exp_minus_1)
  then show "w AND 0xffff = take_bit 16 w" and "w AND 0xff = take_bit 8 w" by (simp_all only: take_bit_eq_mask)
qed

lemma ucast_low32: "ucast (v AND 0xffffffff) = (ucast v :: u32)" for v :: u64
  by (rule bit_word_eqI) (simp only: bit_ucast_iff bit_and_iff bit_low32, auto)

lemma rdmsr_wrmsr [simp]: "rdmsr msr (wrmsr msr v c) = v"
  unfolding rdmsr_def wrmsr_def Let_def ucast_low32
  by (rule bit_word_eqI) (auto simp: bit_or_iff bit_push_bit_iff bit_ucast_iff bit_drop_bit_eq)

lemma rdmsr_wrmsr_other [simp]: "msr \<noteq> msr' \<Longrightarrow> rdmsr msr (wrmsr msr' v c) = rdmsr msr c"
  by (simp add: rdmsr_def wrmsr_def Let_def)

section \<open>Interrupt controllers\<close>

definition X86_IO_PIC1_COMMAND :: u16 where "X86_IO_PIC1_COMMAND = 0x20"
definition X86_IO_PIC1_DATA :: u16 where "X86_IO_PIC1_DATA = 0x21"
definition X86_IO_PIC2_COMMAND :: u16 where "X86_IO_PIC2_COMMAND = 0xa0"
definition X86_IO_PIC2_DATA :: u16 where "X86_IO_PIC2_DATA = 0xa1"
definition X86_INT_OFFSET_PIC :: nat where "X86_INT_OFFSET_PIC = 0x20"
definition X86_PIC_TIMER :: nat where "X86_PIC_TIMER = 0"
definition ICW1_ICW4 :: u8 where "ICW1_ICW4 = 1"
definition ICW1_INIT :: u8 where "ICW1_INIT = 0x10"
definition ICW4_8086 :: u8 where "ICW4_8086 = 1"

definition pic_init :: "io \<Rightarrow> io" where
  "pic_init io =
     (let io = io_wait (out8 X86_IO_PIC1_COMMAND (ICW1_INIT OR ICW1_ICW4) io);
          io = io_wait (out8 X86_IO_PIC2_COMMAND (ICW1_INIT OR ICW1_ICW4) io);
          io = io_wait (out8 X86_IO_PIC1_DATA (of_nat X86_INT_OFFSET_PIC) io);
          io = io_wait (out8 X86_IO_PIC2_DATA (of_nat (X86_INT_OFFSET_PIC + 8)) io);
          io = io_wait (out8 X86_IO_PIC1_DATA 4 io);
          io = io_wait (out8 X86_IO_PIC2_DATA 2 io);
          io = io_wait (out8 X86_IO_PIC1_DATA ICW4_8086 io);
          io = io_wait (out8 X86_IO_PIC2_DATA ICW4_8086 io);
          io = out8 X86_IO_PIC1_DATA 0xfb io
      in out8 X86_IO_PIC2_DATA 0xff io)"

definition pic_port :: "nat \<Rightarrow> u16 \<times> nat" where
  "pic_port i = (if i < 8 then (X86_IO_PIC1_DATA, i) else (X86_IO_PIC2_DATA, i - 8))"

definition pic_enable :: "device \<Rightarrow> nat \<Rightarrow> io \<Rightarrow> io" where
  "pic_enable dev i io = (let (port, i) = pic_port i in out8 port (in8 dev port io AND NOT (push_bit i 1)) io)"

definition pic_disable :: "device \<Rightarrow> nat \<Rightarrow> io \<Rightarrow> io" where
  "pic_disable dev i io = (let (port, i) = pic_port i in out8 port (in8 dev port io OR push_bit i 1) io)"

text \<open>
  What the 8259 documents: after its initialisation, a data port reads back the mask last
  written to it. Line \<open>i\<close> is masked when its bit of its controller's mask is set.
\<close>

definition last_written :: "io \<Rightarrow> u16 \<Rightarrow> u8" where
  "last_written io port = fold (\<lambda>(p, v) acc. if p = port then v else acc) io 0"

definition reads_mask :: "device \<Rightarrow> bool" where
  "reads_mask dev \<longleftrightarrow> (\<forall>io. dev io X86_IO_PIC1_DATA = last_written io X86_IO_PIC1_DATA
     \<and> dev io X86_IO_PIC2_DATA = last_written io X86_IO_PIC2_DATA)"

definition masked :: "io \<Rightarrow> nat \<Rightarrow> bool" where
  "masked io i = (let (port, i) = pic_port i in bit (last_written io port) i)"

lemma last_written_out8: "last_written (out8 p v io) q = (if p = q then v else last_written io q)"
  by (simp add: last_written_def out8_def)

lemma pic_ports_differ [simp]: "X86_IO_PIC1_DATA \<noteq> X86_IO_PIC2_DATA" "X86_IO_PIC2_DATA \<noteq> X86_IO_PIC1_DATA"
  by (simp_all add: X86_IO_PIC1_DATA_def X86_IO_PIC2_DATA_def)

lemma in8_reads_mask:
  assumes "reads_mask dev" and "pic_port i = (port, j)"
  shows "in8 dev port io = last_written io port"
  using assms by (auto simp: reads_mask_def in8_def pic_port_def split: if_splits)

lemma pic_ports_distinct:
  assumes "i < 16" and "j < 16" and "pic_port i = (p, a)" and "pic_port j = (q, b)"
  shows "a < 8" and "b < 8" and "p = q \<Longrightarrow> a = b \<longleftrightarrow> i = j" and "p \<noteq> q \<Longrightarrow> i \<noteq> j"
  using assms by (auto simp: pic_port_def split: if_splits)

lemma masked_pic_enable:
  assumes "reads_mask dev" and "i < 16" and "j < 16"
  shows "masked (pic_enable dev i io) j \<longleftrightarrow> j \<noteq> i \<and> masked io j"
proof -
  obtain p a q b where pq: "pic_port i = (p, a)" "pic_port j = (q, b)" by force
  note d = pic_ports_distinct [OF assms(2,3) pq]
  show ?thesis using d in8_reads_mask [OF assms(1) pq(1)]
    by (cases "p = q") (auto simp: masked_def pic_enable_def pq
      last_written_out8 bit_and_iff bit_not_iff bit_exp_iff)
qed

lemma masked_pic_disable:
  assumes "reads_mask dev" and "i < 16" and "j < 16"
  shows "masked (pic_disable dev i io) j \<longleftrightarrow> j = i \<or> masked io j"
proof -
  obtain p a q b where pq: "pic_port i = (p, a)" "pic_port j = (q, b)" by force
  note d = pic_ports_distinct [OF assms(2,3) pq]
  show ?thesis using d in8_reads_mask [OF assms(1) pq(1)]
    by (cases "p = q") (auto simp: masked_def pic_disable_def pq
      last_written_out8 bit_or_iff bit_exp_iff)
qed

lemma masked_pic_init:
  assumes "j < 16"
  shows "masked (pic_init io) j \<longleftrightarrow> j \<noteq> 2"
proof -
  have "bit (0xfb :: u8) k \<longleftrightarrow> k \<noteq> 2" if "k < 8" for k
    using that by (auto simp: less_Suc_eq numeral_eq_Suc)
  moreover have "bit (0xff :: u8) k" if "k < 8" for k
    using that by (auto simp: less_Suc_eq numeral_eq_Suc)
  ultimately show ?thesis using assms
    by (auto simp: masked_def pic_init_def Let_def last_written_out8 io_wait_def pic_port_def)
qed

text \<open>Interrupt lines: after the initialisation of the controllers every line is masked but the
  cascade (line 2); pic_enable then unmasks its line and pic_disable masks it, and neither changes the mask
  of any other line of the two controllers.\<close>

theorem pic_masks:
  assumes "reads_mask dev" and "i < 16" and "j < 16"
  shows "(masked (pic_init io) j \<longleftrightarrow> j \<noteq> 2)
    \<and> (masked (pic_enable dev i io) j \<longleftrightarrow> j \<noteq> i \<and> masked io j)
    \<and> (masked (pic_disable dev i io) j \<longleftrightarrow> j = i \<or> masked io j)"
  using assms by (simp add: masked_pic_enable masked_pic_disable masked_pic_init)

lemma pic_masks_witness: "\<not> masked (pic_enable last_written 0 (pic_init [])) 0 \<and> masked (pic_enable last_written 0 (pic_init [])) 1"
proof -
  have dev: "reads_mask last_written" by (simp add: reads_mask_def)
  from pic_masks [OF dev, of 0 0 "pic_init []"] pic_masks [OF dev, of 0 1 "pic_init []"] pic_masks [OF dev, of 0 1 "[]"]
  show ?thesis by simp
qed

section \<open>Timer\<close>

definition timer_ns :: "device \<Rightarrow> u64 \<Rightarrow> io \<Rightarrow> io" where
  "timer_ns dev ns io =
     (let divider = ucast (ns * 1000000000 div 1193182) :: u16;
          io = io_wait (out8 0x43 0x34 io);
          io = io_wait (out8 0x40 (ucast (divider AND 0xff)) io);
          io = out8 0x40 (ucast (drop_bit 8 divider)) io
      in pic_enable dev X86_PIC_TIMER io)"

section \<open>Segment descriptors\<close>

definition X86_SEL_CODE0 :: nat where "X86_SEL_CODE0 = 0x08"
definition X86_SEL_DATA0 :: nat where "X86_SEL_DATA0 = 0x10"
definition X86_SEL_CODE3 :: nat where "X86_SEL_CODE3 = 0x18"
definition X86_SEL_DATA3 :: nat where "X86_SEL_DATA3 = 0x20"
definition X86_SEL_TSS :: nat where "X86_SEL_TSS = 0x30"

definition TSS_SIZE :: nat where "TSS_SIZE = 104"

definition bytes16 :: "u16 \<Rightarrow> u8 list" where "bytes16 h = [ucast h, ucast (drop_bit 8 h)]"

definition gdt_bytes :: "GdtEntrySystem \<Rightarrow> u8 list" where
  "gdt_bytes e = bytes16 (limit_lo e) @ bytes16 (base_lo e) @
     [base_md e,
      (ac e AND 1) OR push_bit 1 (rw e AND 1) OR push_bit 2 (dc e AND 1) OR push_bit 3 (ex e AND 1)
        OR push_bit 4 (seg_system e AND 1) OR push_bit 5 (priv e AND 3) OR push_bit 7 (present e AND 1),
      (limit_hi e AND 15) OR push_bit 4 (seg_zero e AND 1) OR push_bit 5 (seg_l e AND 1)
        OR push_bit 6 (seg_sz e AND 1) OR push_bit 7 (seg_gr e AND 1),
      base_hi e]"

definition grow_gdt :: "nat \<Rightarrow> u16 \<Rightarrow> u16" where
  "grow_gdt k n = (if unat n < k then of_nat k else n)"

definition gdt_add_segment :: "nat \<Rightarrow> bool \<Rightarrow> u8 \<Rightarrow> Cpu \<Rightarrow> Cpu" where
  "gdt_add_segment slot code pl c =
     (let e = \<lparr>limit_lo = 0xffff, base_lo = 0, base_md = 0, ac = 0, rw = (if code then 0 else 1), dc = 0,
               ex = (if code then 1 else 0), seg_system = 1, priv = pl AND 3, present = 1, limit_hi = 0xf,
               seg_zero = 0, seg_l = 1, seg_sz = 0, seg_gr = 1, base_hi = 0\<rparr>
      in c\<lparr>gdt := put_bytes slot (gdt_bytes e) (gdt c), gdt_size := grow_gdt (slot + 7) (gdt_size c)\<rparr>)"

definition gdt_add_tss :: "nat \<Rightarrow> u64 \<Rightarrow> Cpu \<Rightarrow> Cpu" where
  "gdt_add_tss slot tss_addr c =
     (let e = \<lparr>limit_lo = of_nat (TSS_SIZE - 1), base_lo = ucast (tss_addr AND 0xffff),
               base_md = ucast (drop_bit 16 tss_addr AND 0xff), ac = 1, rw = 0, dc = 0, ex = 1, seg_system = 0,
               priv = 0, present = 1, limit_hi = 0, seg_zero = 0, seg_l = 0, seg_sz = 0, seg_gr = 0,
               base_hi = ucast (drop_bit 24 tss_addr AND 0xff)\<rparr>
      in c\<lparr>gdt := put_bytes (slot + 8) (bytes_le 8 (drop_bit 32 tss_addr)) (put_bytes slot (gdt_bytes e) (gdt c)),
           gdt_size := grow_gdt (slot + 15) (gdt_size c)\<rparr>)"

definition gdt_reload :: "Cpu \<Rightarrow> Cpu" where
  "gdt_reload c = c\<lparr>gdtr := gdt_size c\<rparr>"

text \<open>\<open>enable_gdt\<close> (GDT.S) loads the table and the code and data selectors.\<close>

definition enable_gdt :: "u64 \<Rightarrow> u64 \<Rightarrow> Cpu \<Rightarrow> Cpu" where
  "enable_gdt code_seg data_seg c = c\<lparr>gdtr := gdt_size c, seg_cs := code_seg, seg_data := data_seg\<rparr>"

definition gdt_init :: "Cpu \<Rightarrow> Cpu" where
  "gdt_init c =
     enable_gdt 0x8 0x10
       (gdt_add_segment X86_SEL_DATA3 False 3 (gdt_add_segment X86_SEL_CODE3 True 3
         (gdt_add_segment X86_SEL_DATA0 False 0 (gdt_add_segment X86_SEL_CODE0 True 0 c))))"

text \<open>
  How the processor reads a descriptor: the access byte is byte 5, the flags are the upper half of
  byte 6, the limit and the base are in pieces. A task state descriptor has 8 more bytes that start
  with the upper half of its base.
\<close>

definition desc_access :: "nat \<Rightarrow> u8 list \<Rightarrow> u8" where "desc_access sel buf = buf ! (sel + 5)"
definition desc_flags :: "nat \<Rightarrow> u8 list \<Rightarrow> u8" where "desc_flags sel buf = drop_bit 4 (buf ! (sel + 6))"
definition desc_limit :: "nat \<Rightarrow> u8 list \<Rightarrow> u32" where
  "desc_limit sel buf = word_le [buf ! sel, buf ! (sel + 1), buf ! (sel + 6) AND 15]"
definition desc_base :: "nat \<Rightarrow> u8 list \<Rightarrow> u32" where
  "desc_base sel buf = word_le [buf ! (sel + 2), buf ! (sel + 3), buf ! (sel + 4), buf ! (sel + 7)]"
definition tss_base :: "nat \<Rightarrow> u8 list \<Rightarrow> u64" where
  "tss_base sel buf = word_le [buf ! (sel + 2), buf ! (sel + 3), buf ! (sel + 4), buf ! (sel + 7),
     buf ! (sel + 8), buf ! (sel + 9), buf ! (sel + 10), buf ! (sel + 11)]"

lemmas desc_defs = desc_access_def desc_flags_def desc_limit_def desc_base_def tss_base_def

lemma length_gdt_bytes [simp]: "length (gdt_bytes e) = 8"
  by (simp add: gdt_bytes_def bytes16_def)

lemma upper_half_bytes:
  "bytes_le 8 (drop_bit 32 a) = [ucast (drop_bit 32 a), ucast (drop_bit 40 a), ucast (drop_bit 48 a), ucast (drop_bit 56 a), 0, 0, 0, 0]"
  for a :: u64
proof -
  have "ucast (drop_bit k a) = (0 :: u8)" if "64 \<le> k" for k
    using that by (intro bit_word_eqI) (auto simp: bit_ucast_iff bit_drop_bit_eq dest: bit_imp_le_length)
  then show ?thesis by (simp add: bytes_le_def upt_rec)
qed

lemma gdt_add_segment_frame [simp]:
  "off + 8 \<le> length (gdt c) \<Longrightarrow> length (gdt (gdt_add_segment off code pl c)) = length (gdt c)"
  "gdt_size (gdt_add_segment off code pl c) = grow_gdt (off + 7) (gdt_size c)"
  by (simp_all add: gdt_add_segment_def Let_def)

definition segment_bytes :: "bool \<Rightarrow> u8 \<Rightarrow> u8 list" where
  "segment_bytes code pl =
     [0xff, 0xff, 0, 0, 0, (if code then if pl = 3 then 0xf8 else 0x98 else if pl = 3 then 0xf2 else 0x92), 0xaf, 0]"

lemma bytes16_constants: "bytes16 0xffff = [0xff, 0xff]" "bytes16 0 = [0, 0]"
  by (simp_all add: bytes16_def)

lemma gdt_add_segment_nth:
  assumes "pl \<in> {0, 3}" and "off + 8 \<le> length (gdt c)" and "k < length (gdt c)"
  shows "gdt (gdt_add_segment off code pl c) ! k
    = (if off \<le> k \<and> k < off + 8 then segment_bytes code pl ! (k - off) else gdt c ! k)"
proof -
  have "gdt (gdt_add_segment off code pl c) = put_bytes off (segment_bytes code pl) (gdt c)"
    using assms(1) by (auto simp: gdt_add_segment_def Let_def gdt_bytes_def bytes16_constants segment_bytes_def)
  then show ?thesis using assms(2,3) by (simp add: nth_put_bytes segment_bytes_def)
qed

lemma gdt_add_tss_nth:
  assumes "off + 16 \<le> length (gdt c)" and "k < length (gdt c)"
  shows "gdt (gdt_add_tss off a c) ! k
    = (if off \<le> k \<and> k < off + 16
       then [103, 0, ucast a, ucast (drop_bit 8 a), ucast (drop_bit 16 a), 0x89, 0, ucast (drop_bit 24 a),
             ucast (drop_bit 32 a), ucast (drop_bit 40 a), ucast (drop_bit 48 a), ucast (drop_bit 56 a), 0, 0, 0, 0]
             ! (k - off)
       else gdt c ! k)"
proof -
  have m16: "ucast (ucast (w AND 0xffff) :: u16) = (ucast w :: u8)" "ucast (drop_bit 8 (ucast (w AND 0xffff) :: u16)) = (ucast (drop_bit 8 w) :: u8)"
    and m8: "ucast (w AND 0xff) = (ucast w :: u8)" for w :: u64
    unfolding and_low16 and_low8
    by (rule bit_word_eqI; auto simp: bit_ucast_iff bit_take_bit_iff bit_drop_bit_eq)+
  have "bytes16 103 = [103, 0]" by (simp add: bytes16_def)
  then have "gdt (gdt_add_tss off a c) = put_bytes off ([103, 0, ucast a, ucast (drop_bit 8 a), ucast (drop_bit 16 a), 0x89, 0, ucast (drop_bit 24 a)]
       @ bytes_le 8 (drop_bit 32 a)) (gdt c)"
    using assms by (subst put_bytes_append [symmetric, where n = 8])
      (simp_all add: gdt_add_tss_def Let_def gdt_bytes_def bytes16_constants TSS_SIZE_def, simp add: bytes16_def m16 m8)
  then show ?thesis using assms unfolding upper_half_bytes by (simp add: nth_put_bytes)
qed

lemma gdt_add_tss_frame [simp]:
  "off + 16 \<le> length (gdt c) \<Longrightarrow> length (gdt (gdt_add_tss off a c)) = length (gdt c)"
  "gdt_size (gdt_add_tss off a c) = grow_gdt (off + 15) (gdt_size c)"
  by (simp_all add: gdt_add_tss_def Let_def)

text \<open>C25. The descriptor table: on the buffer of 4096 bytes, gdt_init followed by the task state segment of
  thread_init gives, for the selectors the kernel uses, 64-bit code and writable data segments of ring 0 and
  ring 3, flat (base 0 and limit fffff) and 4 KiB granular, an available task state segment at exactly the address given with limit 103,
  and a table limit that covers the last descriptor.\<close>

theorem gdt_describes_segments:
  assumes "length (gdt c0) = 4096" and "gdt_size c0 = 7" and "c = gdt_reload (gdt_add_tss X86_SEL_TSS a (gdt_init c0))"
  shows "desc_access X86_SEL_CODE0 (gdt c) = 0x98 \<and> desc_access X86_SEL_DATA0 (gdt c) = 0x92
    \<and> desc_access X86_SEL_CODE3 (gdt c) = 0xf8 \<and> desc_access X86_SEL_DATA3 (gdt c) = 0xf2
    \<and> (\<forall>sel \<in> {X86_SEL_CODE0, X86_SEL_DATA0, X86_SEL_CODE3, X86_SEL_DATA3}.
          desc_flags sel (gdt c) = 0xa \<and> desc_base sel (gdt c) = 0 \<and> desc_limit sel (gdt c) = 0xfffff)
    \<and> tss_base X86_SEL_TSS (gdt c) = a \<and> desc_access X86_SEL_TSS (gdt c) = 0x89 \<and> desc_limit X86_SEL_TSS (gdt c) = 103
    \<and> gdtr c = of_nat (X86_SEL_TSS + 15)"
proof -
  define b where "b = gdt (gdt_init c0)"
  note selectors = X86_SEL_CODE0_def X86_SEL_DATA0_def X86_SEL_CODE3_def X86_SEL_DATA3_def X86_SEL_TSS_def
  have len: "length b = 4096" using assms(1) by (simp add: b_def gdt_init_def enable_gdt_def selectors)
  have b: "b ! k = (if 0x20 \<le> k \<and> k < 0x28 then segment_bytes False 3 ! (k - 0x20)
      else if 0x18 \<le> k \<and> k < 0x20 then segment_bytes True 3 ! (k - 0x18)
      else if 0x10 \<le> k \<and> k < 0x18 then segment_bytes False 0 ! (k - 0x10)
      else if 0x8 \<le> k \<and> k < 0x10 then segment_bytes True 0 ! (k - 0x8) else gdt c0 ! k)" if "k < 4096" for k
    using that assms(1) by (simp add: b_def gdt_init_def enable_gdt_def selectors gdt_add_segment_nth)
  have c: "gdt c ! k = (if 0x30 \<le> k \<and> k < 0x40
       then [103, 0, ucast a, ucast (drop_bit 8 a), ucast (drop_bit 16 a), 0x89, 0, ucast (drop_bit 24 a),
             ucast (drop_bit 32 a), ucast (drop_bit 40 a), ucast (drop_bit 48 a), ucast (drop_bit 56 a), 0, 0, 0, 0]
             ! (k - 0x30) else b ! k)" if "k < 4096" for k
    using that len by (simp add: assms(3) gdt_reload_def selectors gdt_add_tss_nth b_def)
  have "gdtr c = 63"
    using assms(2) by (simp add: assms(3) gdt_reload_def gdt_init_def enable_gdt_def selectors grow_gdt_def)
  moreover have "word_le (bytes_le 8 a) = a" by (simp add: word_le_bytes_le)
  then have "tss_base X86_SEL_TSS (gdt c) = a"
    by (simp add: tss_base_def selectors c bytes_le_def upt_rec)
  ultimately show ?thesis
    by (simp add: desc_access_def desc_flags_def desc_limit_def desc_base_def selectors c b segment_bytes_def)
qed

lemma gdt_describes_segments_witness:
  "\<exists>c. tss_base X86_SEL_TSS (gdt c) = 0xffffffff80123000 \<and> gdtr c = 63
     \<and> c = gdt_reload (gdt_add_tss X86_SEL_TSS 0xffffffff80123000 (gdt_init
           \<lparr>ports = [], msrs = (\<lambda>_. (0, 0)), gdt = replicate 4096 0, gdt_size = 7, gdtr = 0, idt = [], idtr = 0,
            tr = 0, seg_cs = 0, seg_data = 0\<rparr>))"
  using gdt_describes_segments [of "\<lparr>ports = [], msrs = (\<lambda>_. (0, 0)), gdt = replicate 4096 0, gdt_size = 7,
      gdtr = 0, idt = [], idtr = 0, tr = 0, seg_cs = 0, seg_data = 0\<rparr>", OF _ _ refl]
  by (simp add: X86_SEL_TSS_def)

section \<open>Interrupt descriptors\<close>

definition idt_bytes :: "IDTDesc \<Rightarrow> u8 list" where
  "idt_bytes d = bytes16 (offset_lo d) @ bytes16 (selector d) @
     [ist d, (gate_type d AND 15) OR push_bit 4 (gate_z d AND 1) OR push_bit 5 (gate_dpl d AND 3) OR push_bit 7 (gate_p d AND 1)] @
     bytes16 (offset_md d) @ bytes_le 4 (offset_hi d) @ bytes_le 4 (gate_zero d)"

definition idt_reload :: "Cpu \<Rightarrow> Cpu" where
  "idt_reload c = c\<lparr>idtr := of_nat (256 * 16 - 1)\<rparr>"

definition idt_init :: "Cpu \<Rightarrow> Cpu" where
  "idt_init c = idt_reload c"

definition idt_set_gate_interrupt :: "nat \<Rightarrow> u8 \<Rightarrow> u64 \<Rightarrow> Cpu \<Rightarrow> Cpu" where
  "idt_set_gate_interrupt i dpl handler c =
     idt_reload (c\<lparr>idt := (idt c)[i := \<lparr>offset_lo = ucast (handler AND 0xffff), selector = of_nat X86_SEL_CODE0,
       ist = 0, gate_type = 0xe, gate_z = 0, gate_dpl = dpl, gate_p = 1,
       offset_md = ucast (drop_bit 16 handler AND 0xffff), offset_hi = ucast (drop_bit 32 handler), gate_zero = 0\<rparr>]\<rparr>)"

text \<open>How the processor reads a gate: the offset is in bytes 0, 1 and 6 to 11, the selector in bytes 2 and 3.\<close>

definition gate_offset :: "u8 list \<Rightarrow> u64" where
  "gate_offset bs = word_le [bs ! 0, bs ! 1, bs ! 6, bs ! 7, bs ! 8, bs ! 9, bs ! 10, bs ! 11]"

definition gate_selector :: "u8 list \<Rightarrow> u16" where
  "gate_selector bs = word_le [bs ! 2, bs ! 3]"

lemma ucast_half_bytes:
  "ucast (ucast (w AND 0xffff) :: u16) = (ucast w :: u8)"
  "ucast (drop_bit 8 (ucast (w AND 0xffff) :: u16)) = (ucast (drop_bit 8 w) :: u8)" for w :: u64
  unfolding and_low16
  by (rule bit_word_eqI; auto simp: bit_ucast_iff bit_take_bit_iff bit_drop_bit_eq)+

lemma ucast_drop_high:
  "k < 32 \<Longrightarrow> k mod 8 = 0 \<Longrightarrow> ucast (drop_bit k (ucast (drop_bit 32 w) :: u32)) = (ucast (drop_bit (k + 32) w) :: u8)" for w :: u64
  by (rule bit_word_eqI) (auto simp: bit_ucast_iff bit_drop_bit_eq ac_simps)

text \<open>C24. Interrupt gates: the gate written by idt_set_gate_interrupt, read the way the processor does, leads to
  exactly the handler given, in the ring-0 code segment, as a present 64-bit interrupt gate with the privilege
  level given; no other gate changes and the register holds the limit of 256 gates.\<close>

theorem idt_gate_leads_to_handler:
  assumes "i < length (idt c)" and "dpl < 4" and "c' = idt_set_gate_interrupt i dpl handler c"
  shows "gate_offset (idt_bytes (idt c' ! i)) = handler \<and> gate_selector (idt_bytes (idt c' ! i)) = 0x8
    \<and> idt_bytes (idt c' ! i) ! 5 = 0x8e OR push_bit 5 dpl
    \<and> (\<forall>j. j \<noteq> i \<longrightarrow> idt c' ! j = idt c ! j) \<and> idtr c' = 0xfff"
proof -
  have dpl: "dpl AND 3 = dpl"
  proof -
    have "(3 :: u8) = mask 2" by (simp add: mask_eq_exp_minus_1)
    moreover have "take_bit 2 dpl = dpl" using assms(2) by (simp add: word_unat_eq_iff unsigned_take_bit_eq take_bit_nat_eq_self word_less_nat_alt)
    ultimately show ?thesis by (simp only: take_bit_eq_mask)
  qed
  have "word_le (bytes_le 8 handler) = handler" by (simp add: word_le_bytes_le)
  then have "gate_offset (idt_bytes (idt c' ! i)) = handler"
    using assms(1)
    by (simp add: assms(3) idt_set_gate_interrupt_def idt_reload_def idt_bytes_def gate_offset_def bytes16_def
        ucast_half_bytes ucast_drop_high ucast_drop_high [where k = 0, simplified] bytes_le_def upt_rec)
  moreover have "(0x8e :: u8) = 14 OR 128" by simp
  then have "14 OR push_bit 5 dpl OR 128 = 0x8e OR push_bit 5 dpl" by (simp only: or.assoc or.left_commute or.commute)
  ultimately show ?thesis using assms(1)
    by (simp add: assms(3) idt_set_gate_interrupt_def idt_reload_def idt_bytes_def bytes16_def
        gate_selector_def X86_SEL_CODE0_def dpl)
qed

definition sample_cpu :: Cpu where
  "sample_cpu = \<lparr>ports = [], msrs = (\<lambda>_. (0, 0x800)), gdt = replicate 4096 0, gdt_size = 7, gdtr = 0,
     idt = replicate 256 \<lparr>offset_lo = 0, selector = 0, ist = 0, gate_type = 0, gate_z = 0, gate_dpl = 0, gate_p = 0,
       offset_md = 0, offset_hi = 0, gate_zero = 0\<rparr>, idtr = 0, tr = 0, seg_cs = 0, seg_data = 0\<rparr>"

lemma idt_gate_leads_to_handler_witness:
  "gate_offset (idt_bytes (idt (idt_set_gate_interrupt 0x20 0 0xffffffff80100040 sample_cpu) ! 0x20)) = 0xffffffff80100040"
proof -
  have "0x20 < length (idt sample_cpu)" by (simp add: sample_cpu_def)
  from idt_gate_leads_to_handler [OF this _ refl, of 0] show ?thesis by simp
qed

section \<open>System call entry\<close>

definition X86_MSR_EFER :: u32 where "X86_MSR_EFER = 0xc0000080"
definition X86_MSR_STAR :: u32 where "X86_MSR_STAR = 0xc0000081"
definition X86_MSR_LSTAR :: u32 where "X86_MSR_LSTAR = 0xc0000082"
definition X86_MSR_SFMASK :: u32 where "X86_MSR_SFMASK = 0xc0000084"
definition X86_MSR_FS_BASE :: u32 where "X86_MSR_FS_BASE = 0xc0000100"
definition X86_MSR_GS_BASE :: u32 where "X86_MSR_GS_BASE = 0xc0000101"
definition X86_MSR_KERNEL_GS_BASE :: u32 where "X86_MSR_KERNEL_GS_BASE = 0xc0000102"
definition X86_FLAG_IF :: u64 where "X86_FLAG_IF = 0x200"

definition sys_init :: "u64 \<Rightarrow> Cpu \<Rightarrow> Cpu" where
  "sys_init x86_sys_handler c =
     (let c = wrmsr X86_MSR_SFMASK X86_FLAG_IF c;
          c = wrmsr X86_MSR_LSTAR x86_sys_handler c;
          c = wrmsr X86_MSR_STAR (push_bit 32 (of_nat X86_SEL_CODE0) OR push_bit 48 (of_nat X86_SEL_CODE3)) c
      in wrmsr X86_MSR_EFER (rdmsr X86_MSR_EFER c OR 1) c)"

text \<open>
  How the processor uses STAR: a system call loads CS from bits 32 to 47 and SS from the selector
  after it; a 64-bit return loads CS from bits 48 to 63 plus 16 and SS from them plus 8, both with
  privilege level 3.
\<close>

definition syscall_cs :: "u64 \<Rightarrow> u16" where "syscall_cs star = ucast (drop_bit 32 star)"
definition syscall_ss :: "u64 \<Rightarrow> u16" where "syscall_ss star = syscall_cs star + 8"
definition sysret_cs :: "u64 \<Rightarrow> u16" where "sysret_cs star = (ucast (drop_bit 48 star) + 16) OR 3"
definition sysret_ss :: "u64 \<Rightarrow> u16" where "sysret_ss star = (ucast (drop_bit 48 star) + 8) OR 3"

text \<open>System call set-up: after sys_init system calls are enabled, the other bits of EFER are kept, a call
  enters the handler in the ring-0 code segment with its data segment as the stack and interrupts off, and a
  return uses the ring-3 data segment as the stack; but the code selector of a return is 0x28, a slot that
  holds no descriptor of gdt_init, and not the ring-3 code segment.\<close>

theorem sys_init_selectors:
  assumes "c' = sys_init handler c"
  shows "bit (rdmsr X86_MSR_EFER c') 0 \<and> (\<forall>k. k \<noteq> 0 \<longrightarrow> bit (rdmsr X86_MSR_EFER c') k = bit (rdmsr X86_MSR_EFER c) k)
    \<and> rdmsr X86_MSR_LSTAR c' = handler \<and> rdmsr X86_MSR_SFMASK c' = X86_FLAG_IF
    \<and> syscall_cs (rdmsr X86_MSR_STAR c') = of_nat X86_SEL_CODE0 \<and> syscall_ss (rdmsr X86_MSR_STAR c') = of_nat X86_SEL_DATA0
    \<and> sysret_ss (rdmsr X86_MSR_STAR c') = of_nat X86_SEL_DATA3 OR 3
    \<and> sysret_cs (rdmsr X86_MSR_STAR c') = 0x28 OR 3 \<and> sysret_cs (rdmsr X86_MSR_STAR c') \<noteq> of_nat X86_SEL_CODE3 OR 3"
  unfolding assms
  by (auto simp: sys_init_def Let_def X86_MSR_EFER_def X86_MSR_STAR_def X86_MSR_LSTAR_def X86_MSR_SFMASK_def
      syscall_cs_def syscall_ss_def sysret_cs_def sysret_ss_def bit_or_iff bit_1_iff
      X86_SEL_CODE0_def X86_SEL_DATA0_def X86_SEL_CODE3_def X86_SEL_DATA3_def)

lemma sys_init_selectors_witness: "sysret_cs (rdmsr X86_MSR_STAR (sys_init 0xffffffff80100080 sample_cpu)) = 0x2b"
  using sys_init_selectors [OF refl] by simp

end
