(* ===== verification/SpecParser.thy ===== *)
theory SpecParser
  imports Prelude
begin

text \<open>
  The reader of specification files the image tools share (tools/spec_parser.c): a file as the
  bytes still to read and the end-of-file flag of stdio, the parser character by character, and
  the loop of the tools that reads all records. The code stores the characters of a string in an array of 4096
  bytes without a check; a string with its NUL that does not fit has no result here. Round trip with a printer of records.
\<close>

section \<open>Input files\<close>

record File =
  rest :: "u8 list"
  at_eof :: bool

text \<open>\<open>fgetc\<close>: the next byte, or \<open>EOF\<close> and the flag \<open>feof\<close> tests.\<close>

abbreviation EOF :: int where "EOF \<equiv> - 1"

definition fgetc :: "File \<Rightarrow> int \<times> File" where
  "fgetc f = (case rest f of [] \<Rightarrow> (EOF, f\<lparr>at_eof := True\<rparr>) | b # bs \<Rightarrow> (uint b, f\<lparr>rest := bs\<rparr>))"

definition NL :: u8 where "NL = 10"
definition CR :: u8 where "CR = 13"
definition COMMA :: u8 where "COMMA = 44"
definition HASH :: u8 where "HASH = 35"

definition file_rank :: "File \<Rightarrow> nat" where
  "file_rank f = length (rest f) + (if at_eof f then 0 else 1)"

section \<open>Parser\<close>

text \<open>The strings of a record: the characters the parser stored in the arrays, in front of the NUL it puts there last.\<close>

record Spec =
  spec_type :: u8
  src :: "u8 list"
  dst :: "u8 list"

text \<open>
  The loop of \<open>parse_spec_str\<close> and the NUL it stores at the end; \<open>buf\<close> is what it stored so far. \<open>None\<close> is a store behind the array, which in C
  changes what comes after it.
\<close>

definition SPEC_STR_SIZE :: nat where "SPEC_STR_SIZE = 4096"

function spec_str_from :: "u8 list \<Rightarrow> File \<Rightarrow> (u8 list \<times> File) option" where
  "spec_str_from buf f =
     (if SPEC_STR_SIZE \<le> length buf then None
      else (let (c, f') = fgetc f
            in if c = uint NL \<or> c = uint CR \<or> c = uint COMMA \<or> c = EOF then Some (buf, f')
               else spec_str_from (buf @ [of_int c]) f'))"
  by pat_completeness auto
termination
  by (relation "measure (\<lambda>(buf, f). length (rest f))") (auto simp: fgetc_def split: list.splits)

definition parse_spec_str :: "File \<Rightarrow> (u8 list \<times> File) option" where
  "parse_spec_str f = spec_str_from [] f"

definition parse_spec_line :: "Spec \<Rightarrow> File \<Rightarrow> (Spec \<times> File) option" where
  "parse_spec_line spec f =
     (case parse_spec_str f of
        None \<Rightarrow> None
      | Some (d, f) \<Rightarrow>
          (case parse_spec_str f of
             None \<Rightarrow> None
           | Some (s, f) \<Rightarrow> Some (spec\<lparr>dst := d, src := s\<rparr>, f)))"

text \<open>The inner loop: the first character that is no line end.\<close>

function skip_newlines :: "File \<Rightarrow> int \<times> File" where
  "skip_newlines f =
     (let (c, f') = fgetc f in if c \<noteq> uint NL \<and> c \<noteq> uint CR then (c, f') else skip_newlines f')"
  by pat_completeness auto
termination
  by (relation "measure (\<lambda>f. length (rest f))") (auto split: list.splits simp: NL_def CR_def fgetc_def)

function skip_comment :: "int \<Rightarrow> File \<Rightarrow> File" where
  "skip_comment c f =
     (if c \<noteq> uint NL \<and> \<not> at_eof f then (let (c', f') = fgetc f in skip_comment c' f') else f)"
  by pat_completeness auto
termination
  by (relation "measure (\<lambda>(c, f). file_rank f)") (auto split: list.splits simp: file_rank_def fgetc_def)

declare spec_str_from.simps [simp del] skip_newlines.simps [simp del] skip_comment.simps [simp del]

lemma fgetc_rank: "fgetc f = (c, f') \<Longrightarrow> file_rank f' \<le> file_rank f \<and> (\<not> at_eof f \<longrightarrow> file_rank f' < file_rank f)"
  by (auto simp: fgetc_def file_rank_def split: list.splits)

lemma skip_newlines_rank:
  "skip_newlines f = (c, f') \<Longrightarrow> file_rank f' \<le> file_rank f \<and> (\<not> at_eof f \<longrightarrow> file_rank f' < file_rank f)"
proof (induction f rule: skip_newlines.induct)
  case (1 f)
  obtain c1 f1 where g: "fgetc f = (c1, f1)" by force
  show ?case
  proof (cases "c1 \<noteq> uint NL \<and> c1 \<noteq> uint CR")
    case True
    with "1.prems" g have "f' = f1" by (subst (asm) skip_newlines.simps) auto
    with fgetc_rank [OF g] show ?thesis by simp
  next
    case False
    with "1.prems" g have "skip_newlines f1 = (c, f')" by (subst (asm) skip_newlines.simps) auto
    with "1.IH" [OF g [symmetric] refl False] fgetc_rank [OF g] show ?thesis by auto
  qed
qed

lemma skip_comment_rank: "file_rank (skip_comment c f) \<le> file_rank f"
proof (induction c f rule: skip_comment.induct)
  case (1 c f)
  obtain c1 f1 where g: "fgetc f = (c1, f1)" by force
  show ?case
  proof (cases "c \<noteq> uint NL \<and> \<not> at_eof f")
    case True
    with "1.IH" [OF True g [symmetric] refl] fgetc_rank [OF g] g show ?thesis
      by (subst skip_comment.simps) simp
  qed (subst skip_comment.simps, auto)
qed

text \<open>The return values: 1 at the end of the file, 0 with a record, and none for a string that leaves its array.\<close>

datatype Parsed = End_of_file | Parsed Spec File | Overflow

function parse_spec :: "File \<Rightarrow> Parsed" where
  "parse_spec f =
     (if at_eof f then End_of_file
      else (let (c, f1) = skip_newlines f
            in if c = uint HASH then parse_spec (skip_comment c f1)
               else (let (_, f2) = fgetc f1
                     in case parse_spec_line \<lparr>spec_type = of_int c, src = [], dst = []\<rparr> f2 of
                          None \<Rightarrow> Overflow
                        | Some (sp, f3) \<Rightarrow> Parsed sp f3)))"
  by pat_completeness auto
termination
proof (relation "measure file_rank")
  fix f x c f1
  assume "\<not> at_eof f" "x = skip_newlines f" "(c, f1) = x"
  then have "file_rank f1 < file_rank f" using skip_newlines_rank [of f c f1] by simp
  with skip_comment_rank [of c f1] show "(skip_comment c f1, f) \<in> measure file_rank" by simp
qed simp

declare parse_spec.simps [simp del]

lemma spec_str_rank: "spec_str_from buf f = Some (s, f') \<Longrightarrow> file_rank f' \<le> file_rank f"
proof (induction buf f rule: spec_str_from.induct)
  case (1 buf f)
  obtain c1 f1 where g: "fgetc f = (c1, f1)" by force
  have fits: "\<not> SPEC_STR_SIZE \<le> length buf" using "1.prems" by (subst (asm) spec_str_from.simps) (auto split: if_splits)
  show ?case
  proof (cases "c1 = uint NL \<or> c1 = uint CR \<or> c1 = uint COMMA \<or> c1 = EOF")
    case True
    with "1.prems" g fits have "f' = f1" by (subst (asm) spec_str_from.simps) auto
    with fgetc_rank [OF g] show ?thesis by simp
  next
    case False
    with "1.prems" g fits have "spec_str_from (buf @ [of_int c1]) f1 = Some (s, f')" by (subst (asm) spec_str_from.simps) auto
    with "1.IH" [OF fits g [symmetric] refl False] fgetc_rank [OF g] show ?thesis by auto
  qed
qed

lemma parse_spec_line_rank: "parse_spec_line sp f = Some (sp', f') \<Longrightarrow> file_rank f' \<le> file_rank f"
  by (auto simp: parse_spec_line_def parse_spec_str_def split: option.splits dest!: spec_str_rank)

lemma parse_spec_rank: "parse_spec f = Parsed sp f' \<Longrightarrow> file_rank f' < file_rank f"
proof (induction f rule: parse_spec.induct)
  case (1 f)
  then have eof: "\<not> at_eof f" by (auto simp: parse_spec.simps [of f] split: if_splits)
  obtain c f1 where s: "skip_newlines f = (c, f1)" by force
  have less: "file_rank f1 < file_rank f" using skip_newlines_rank [OF s] eof by simp
  show ?case
  proof (cases "c = uint HASH")
    case True
    with "1.prems" s eof have "parse_spec (skip_comment c f1) = Parsed sp f'" by (subst (asm) parse_spec.simps) simp
    with "1.IH" [OF eof s [symmetric] refl True] skip_comment_rank [of c f1] less show ?thesis by simp
  next
    case False
    obtain d f2 where g: "fgetc f1 = (d, f2)" by force
    from "1.prems" False s eof g have "parse_spec_line \<lparr>spec_type = of_int c, src = [], dst = []\<rparr> f2 = Some (sp, f')"
      by (subst (asm) parse_spec.simps) (auto split: option.splits)
    from parse_spec_line_rank [OF this] fgetc_rank [OF g] less show ?thesis by simp
  qed
qed

text \<open>The loop of the tools' \<open>main\<close>: all records of a file, in order.\<close>

function parse_specs :: "File \<Rightarrow> Spec list option" where
  "parse_specs f =
     (case parse_spec f of
        End_of_file \<Rightarrow> Some []
      | Parsed sp f' \<Rightarrow> map_option ((#) sp) (parse_specs f')
      | Overflow \<Rightarrow> None)"
  by pat_completeness auto
termination
  by (relation "measure file_rank") (auto dest: parse_spec_rank)

declare parse_specs.simps [simp del]

section \<open>Round trip\<close>

datatype SpecLine = Record Spec | Comment "u8 list" | Blank

fun line_text :: "SpecLine \<Rightarrow> u8 list" where
  "line_text (Record sp) = [spec_type sp, COMMA] @ dst sp @ [COMMA] @ src sp"
| "line_text (Comment bs) = HASH # bs"
| "line_text Blank = []"

fun file_text :: "SpecLine list \<Rightarrow> u8 list" where
  "file_text [] = []"
| "file_text [l] = line_text l"
| "file_text (l # ls) = line_text l @ NL # file_text ls"

fun records :: "SpecLine list \<Rightarrow> Spec list" where
  "records [] = []"
| "records (Record sp # ls) = sp # records ls"
| "records (_ # ls) = records ls"

fun line_ok :: "SpecLine \<Rightarrow> bool" where
  "line_ok (Record sp) \<longleftrightarrow> spec_type sp \<notin> {NL, CR, HASH}
     \<and> set (dst sp) \<inter> {NL, CR, COMMA} = {} \<and> length (dst sp) < SPEC_STR_SIZE
     \<and> set (src sp) \<inter> {NL, CR, COMMA} = {} \<and> length (src sp) < SPEC_STR_SIZE"
| "line_ok (Comment bs) \<longleftrightarrow> NL \<notin> set bs"
| "line_ok Blank \<longleftrightarrow> True"

definition no_record :: Spec where
  "no_record = \<lparr>spec_type = 0xff, src = [], dst = []\<rparr>"

abbreviation opened :: "u8 list \<Rightarrow> File" where
  "opened bs \<equiv> \<lparr>rest = bs, at_eof = False\<rparr>"

lemma fgetc_opened [simp]:
  "fgetc (opened (b # bs)) = (uint b, opened bs)" "fgetc \<lparr>rest = [], at_eof = e\<rparr> = (EOF, \<lparr>rest = [], at_eof = True\<rparr>)"
  by (simp_all add: fgetc_def)

lemma uint_not_EOF [simp]: "uint (b :: u8) \<noteq> EOF"
  using uint_ge_0 [of b] by linarith

lemma char_distinct [simp]: "HASH \<noteq> NL" "HASH \<noteq> CR" "NL \<noteq> HASH" "CR \<noteq> HASH"
  by (simp_all add: HASH_def NL_def CR_def)

lemma spec_str_stops:
  "set bs \<inter> {NL, CR, COMMA} = {} \<Longrightarrow> x \<in> {NL, CR, COMMA} \<Longrightarrow> length buf + length bs < SPEC_STR_SIZE \<Longrightarrow>
     spec_str_from buf (opened (bs @ x # r)) = Some (buf @ bs, opened r)"
proof (induction bs arbitrary: buf)
  case Nil
  then show ?case by (subst spec_str_from.simps) (auto simp: word_uint_eq_iff)
next
  case (Cons b bs)
  then show ?case by (subst spec_str_from.simps) (auto simp: word_uint_eq_iff [symmetric])
qed

lemma spec_str_eof:
  "set bs \<inter> {NL, CR, COMMA} = {} \<Longrightarrow> length buf + length bs < SPEC_STR_SIZE \<Longrightarrow>
     spec_str_from buf (opened bs) = Some (buf @ bs, \<lparr>rest = [], at_eof = True\<rparr>)"
proof (induction bs arbitrary: buf)
  case Nil
  then show ?case by (subst spec_str_from.simps) simp
next
  case (Cons b bs)
  then show ?case by (subst spec_str_from.simps) (auto simp: word_uint_eq_iff [symmetric])
qed

lemma skip_newlines_opened:
  "skip_newlines (opened (b # bs)) = (if b = NL \<or> b = CR then skip_newlines (opened bs) else (uint b, opened bs))"
  by (subst skip_newlines.simps) (auto simp: word_uint_eq_iff)

lemma skip_newlines_empty: "skip_newlines (opened []) = (EOF, \<lparr>rest = [], at_eof = True\<rparr>)"
  by (subst skip_newlines.simps) (simp add: NL_def CR_def)

lemma skip_comment_line: "NL \<notin> set bs \<Longrightarrow> b \<noteq> NL \<Longrightarrow> skip_comment (uint b) (opened (bs @ NL # r)) = opened r"
proof (induction bs arbitrary: b)
  case Nil
  then show ?case by (subst skip_comment.simps) (simp add: word_uint_eq_iff skip_comment.simps [of "uint NL"])
next
  case (Cons b' bs)
  then show ?case by (subst skip_comment.simps) (simp add: word_uint_eq_iff)
qed

lemma skip_comment_eof: "NL \<notin> set bs \<Longrightarrow> b \<noteq> NL \<Longrightarrow> at_eof (skip_comment (uint b) (opened bs))"
proof (induction bs arbitrary: b)
  case Nil
  then show ?case by (subst skip_comment.simps) (simp add: word_uint_eq_iff skip_comment.simps [of EOF])
next
  case (Cons b' bs)
  then show ?case by (subst skip_comment.simps) (simp add: word_uint_eq_iff)
qed

lemma parse_record:
  assumes "line_ok (Record sp)"
  shows "parse_spec (opened (line_text (Record sp) @ NL # r)) = Parsed sp (opened r)"
    and "parse_spec (opened (line_text (Record sp))) = Parsed sp \<lparr>rest = [], at_eof = True\<rparr>"
  using assms
  by (subst parse_spec.simps,
      simp add: skip_newlines_opened parse_spec_line_def parse_spec_str_def spec_str_stops spec_str_eof word_uint_eq_iff [symmetric])+

lemma parse_specs_line:
  assumes "line_ok l"
  shows "parse_specs (opened (line_text l @ NL # r)) = map_option ((@) (records [l])) (parse_specs (opened r))"
proof (cases l)
  case (Record sp)
  with assms show ?thesis by (subst parse_specs.simps) (simp only: parse_record, cases "parse_specs (opened r)", simp_all)
next
  case (Comment bs)
  with assms have "parse_spec (opened (line_text l @ NL # r)) = parse_spec (opened r)"
    by (subst parse_spec.simps) (simp add: skip_newlines_opened skip_comment_line)
  then have "parse_specs (opened (line_text l @ NL # r)) = parse_specs (opened r)" by (subst (1 2) parse_specs.simps) simp
  with Comment show ?thesis by (cases "parse_specs (opened r)") simp_all
next
  case Blank
  then have "parse_spec (opened (line_text l @ NL # r)) = parse_spec (opened r)"
    by (subst (1 2) parse_spec.simps) (simp add: skip_newlines_opened)
  then have "parse_specs (opened (line_text l @ NL # r)) = parse_specs (opened r)" by (subst (1 2) parse_specs.simps) simp
  with Blank show ?thesis by (cases "parse_specs (opened r)") simp_all
qed

lemma parse_specs_eof: "at_eof f \<Longrightarrow> parse_specs f = Some []"
  by (subst parse_specs.simps) (simp add: parse_spec.simps)

lemma parse_specs_last:
  assumes "line_ok l"
  shows "parse_specs (opened (line_text l)) = Some (records [l] @ (if l = Blank then [no_record] else []))"
proof (cases l)
  case (Record sp)
  with assms show ?thesis by (subst parse_specs.simps) (simp only: parse_record, simp add: parse_specs_eof)
next
  case (Comment bs)
  with assms have "at_eof (skip_comment (uint HASH) (opened bs))" by (intro skip_comment_eof) auto
  then have "parse_spec (opened (line_text l)) = End_of_file"
    using Comment by (subst parse_spec.simps) (simp add: skip_newlines_opened parse_spec.simps)
  with Comment show ?thesis by (simp add: parse_specs.simps)
next
  case Blank
  have "spec_str_from [] \<lparr>rest = [], at_eof = True\<rparr> = Some ([], \<lparr>rest = [], at_eof = True\<rparr>)"
    by (subst spec_str_from.simps) (simp add: SPEC_STR_SIZE_def)
  then have "parse_spec (opened []) = Parsed no_record \<lparr>rest = [], at_eof = True\<rparr>"
    by (subst parse_spec.simps) (simp add: skip_newlines_empty parse_spec_line_def parse_spec_str_def no_record_def HASH_def)
  with Blank show ?thesis by (subst parse_specs.simps) (simp add: parse_specs_eof)
qed

text \<open>A string of 4096 characters or more leaves its array.\<close>

lemma spec_str_overflow:
  "set bs \<inter> {NL, CR, COMMA} = {} \<Longrightarrow> SPEC_STR_SIZE \<le> length buf + length bs \<Longrightarrow> spec_str_from buf (opened (bs @ r)) = None"
proof (induction bs arbitrary: buf)
  case Nil
  then show ?case by (subst spec_str_from.simps) simp
next
  case (Cons b bs)
  then show ?case by (subst spec_str_from.simps) (auto simp: word_uint_eq_iff [symmetric])
qed

text \<open>C22. Specification files: the records of a file written as lines of type, destination and source, with comment and
  empty lines between them, are read back exactly and in order, when types, destinations and sources have no character that means
  something to the parser (\<open>line_ok\<close>: no comma or line end, and a type that does not start a comment), and destinations and sources have at most
  4095 characters, so that they fit the arrays of the parser with their NUL; but a file whose last line is empty, as after a
  final line end, yields one more record with an empty source and destination. Longer strings overflow the arrays (\<open>spec_str_overflow\<close>).\<close>

theorem spec_file_roundtrip:
  assumes "ls \<noteq> []" and "\<forall>l \<in> set ls. line_ok l"
  shows "parse_specs (opened (file_text ls)) = Some (records ls @ (if last ls = Blank then [no_record] else []))"
  using assms
proof (induction ls rule: file_text.induct)
  case (2 l)
  then show ?case by (simp add: parse_specs_last)
next
  case (3 l l' ls)
  have "records (l # l' # ls) = records [l] @ records (l' # ls)" by (cases l) simp_all
  with 3 show ?case by (simp add: parse_specs_line)
qed simp

lemma spec_file_roundtrip_witness:
  "parse_specs (opened [70, 44, 47, 98, 44, 120, 10]) = Some [\<lparr>spec_type = 70, src = [120], dst = [47, 98]\<rparr>, no_record]"
  using spec_file_roundtrip [of "[Record \<lparr>spec_type = 70, src = [120], dst = [47, 98]\<rparr>, Blank]"]
  by (simp add: NL_def CR_def COMMA_def HASH_def SPEC_STR_SIZE_def)

end
