(* ===== verification/InitRam.thy ===== *)
theory InitRam
  imports CString SpecParser "HOL-Library.Sublist"
begin

text \<open>
  The initial RAM disk: the tool that writes it (tools/mkinitram.c) and the lookup of the boot
  loader and the kernel (src/libboot/initram.c), on the layout of include/fusee/initram.h. The
  files the tool reads are a parameter: the contents of a path, or None when it cannot be opened.
\<close>

section \<open>Layout\<close>

record InitRamHeader =
  magic :: "u8 list"
  fh_cnt :: u64
  fh_off :: u64
  fh_size :: u64
  sh_off :: u64
  sh_size :: u64
  data_off :: u64
  data_size :: u64

record InitRamFileEntry =
  name_off :: u64
  name_size :: u64
  e_data_off :: u64
  e_data_size :: u64

text \<open>The text \<open>INITRAM\<close> and the byte \<open>7f\<close>.\<close>

definition INITRAM_MAGIC :: "u8 list" where
  "INITRAM_MAGIC = [73, 78, 73, 84, 82, 65, 77, 0x7f]"

definition header_bytes :: "InitRamHeader \<Rightarrow> u8 list" where
  "header_bytes h = magic h @ bytes_le 8 (fh_cnt h) @ bytes_le 8 (fh_off h) @ bytes_le 8 (fh_size h)
     @ bytes_le 8 (sh_off h) @ bytes_le 8 (sh_size h) @ bytes_le 8 (data_off h) @ bytes_le 8 (data_size h)"

definition entry_bytes :: "InitRamFileEntry \<Rightarrow> u8 list" where
  "entry_bytes e = bytes_le 8 (name_off e) @ bytes_le 8 (name_size e) @ bytes_le 8 (e_data_off e) @ bytes_le 8 (e_data_size e)"

section \<open>Lookup\<close>

text \<open>The loop of \<open>initram_lookup\<close> from entry \<open>i\<close>, \<open>n\<close> entries to go; NULL is 0.\<close>

fun lookup_from :: "mem \<Rightarrow> u64 \<Rightarrow> u64 \<Rightarrow> nat \<Rightarrow> nat \<Rightarrow> u64" where
  "lookup_from m base name i 0 = 0"
| "lookup_from m base name i (Suc n) =
     (let fe = base + load64 m (base + 16) + of_nat (32 * i)
      in if memcmp m name (base + load64 m (base + 32) + load64 m fe) (load64 m (fe + 8)) = 0
         then base + load64 m (base + 48) + load64 m (fe + 16)
         else lookup_from m base name (Suc i) n)"

definition initram_lookup :: "mem \<Rightarrow> u64 \<Rightarrow> u64 \<Rightarrow> u64" where
  "initram_lookup m initram name = lookup_from m initram name 0 (unat (load64 m (initram + 8)))"

section \<open>The tool\<close>

record InitRamDisk =
  rd_header :: InitRamHeader
  rd_entries :: "InitRamFileEntry list"
  rd_names :: "u8 list"
  rd_data :: "u8 list"

type_synonym host_files = "u8 list \<Rightarrow> u8 list option"

text \<open>The C string in a buffer: the characters before the first NUL.\<close>

definition c_str :: "u8 list \<Rightarrow> u8 list" where
  "c_str bs = takeWhile (\<lambda>b. b \<noteq> 0) bs"

definition init_initram :: InitRamDisk where
  "init_initram =
     \<lparr>rd_header = \<lparr>magic = INITRAM_MAGIC, fh_cnt = 0, fh_off = 0, fh_size = 0, sh_off = 0, sh_size = 0, data_off = 0, data_size = 0\<rparr>,
      rd_entries = replicate 256 \<lparr>name_off = 0, name_size = 0, e_data_off = 0, e_data_size = 0\<rparr>,
      rd_names = replicate 4096 0, rd_data = []\<rparr>"

text \<open>\<open>None\<close> is \<open>exit(1)\<close>.\<close>

definition add_file :: "host_files \<Rightarrow> u8 list \<Rightarrow> u8 list \<Rightarrow> InitRamDisk \<Rightarrow> InitRamDisk option" where
  "add_file fs name path rd =
     (let h = rd_header rd; namelen = length name
      in case fs path of
           None \<Rightarrow> None
         | Some bytes \<Rightarrow>
             Some (rd\<lparr>rd_entries := (rd_entries rd)[unat (fh_cnt h) :=
                        \<lparr>name_off = sh_size h, name_size = of_nat namelen, e_data_off = data_size h,
                         e_data_size = of_nat (length bytes)\<rparr>],
                      rd_names := put_bytes (unat (sh_size h)) (name @ [0]) (rd_names rd),
                      rd_data := take (unat (data_size h)) (rd_data rd) @ bytes,
                      rd_header := h\<lparr>sh_size := sh_size h + of_nat (namelen + 1), data_size := data_size h + of_nat (length bytes),
                                     fh_cnt := fh_cnt h + 1, fh_size := fh_size h + 32\<rparr>\<rparr>))"

definition save_initram :: "InitRamDisk \<Rightarrow> u8 list" where
  "save_initram rd =
     (let h = rd_header rd;
          h = h\<lparr>sh_off := 64\<rparr>;
          h = h\<lparr>fh_off := 64 + sh_size h\<rparr>;
          h = h\<lparr>data_off := 64 + sh_size h + fh_size h\<rparr>
      in header_bytes h @ take (unat (sh_size h)) (rd_names rd)
         @ take (unat (fh_size h)) (concat (map entry_bytes (rd_entries rd)))
         @ take (unat (data_size h)) (rd_data rd))"

fun add_files :: "host_files \<Rightarrow> Spec list \<Rightarrow> InitRamDisk \<Rightarrow> InitRamDisk option" where
  "add_files fs [] rd = Some rd"
| "add_files fs (sp # sps) rd =
     (case add_file fs (c_str (dst sp)) (c_str (src sp)) rd of None \<Rightarrow> None | Some rd' \<Rightarrow> add_files fs sps rd')"

definition mkinitram :: "host_files \<Rightarrow> u8 list \<Rightarrow> u8 list option" where
  "mkinitram fs spec =
     (case parse_specs (opened spec) of
        None \<Rightarrow> None
      | Some sps \<Rightarrow> map_option save_initram (add_files fs sps init_initram))"

section \<open>What the tool writes\<close>

definition name_of :: "Spec \<Rightarrow> u8 list" where "name_of sp = c_str (dst sp)"

definition names_of :: "Spec list \<Rightarrow> u8 list" where
  "names_of sps = concat (map (\<lambda>sp. name_of sp @ [0]) sps)"

definition contents_of :: "host_files \<Rightarrow> Spec list \<Rightarrow> u8 list" where
  "contents_of fs sps = concat (map (\<lambda>sp. the (fs (c_str (src sp)))) sps)"

definition entry_of :: "host_files \<Rightarrow> Spec list \<Rightarrow> nat \<Rightarrow> InitRamFileEntry" where
  "entry_of fs sps k =
     \<lparr>name_off = of_nat (length (names_of (take k sps))), name_size = of_nat (length (name_of (sps ! k))),
      e_data_off = of_nat (length (contents_of fs (take k sps))),
      e_data_size = of_nat (length (the (fs (c_str (src (sps ! k))))))\<rparr>"

definition disk_of :: "host_files \<Rightarrow> Spec list \<Rightarrow> InitRamDisk \<Rightarrow> bool" where
  "disk_of fs sps rd \<longleftrightarrow>
     rd_header rd = \<lparr>magic = INITRAM_MAGIC, fh_cnt = of_nat (length sps), fh_off = 0, fh_size = of_nat (32 * length sps), sh_off = 0,
       sh_size = of_nat (length (names_of sps)), data_off = 0, data_size = of_nat (length (contents_of fs sps))\<rparr>
     \<and> length (rd_entries rd) = 256 \<and> (\<forall>k<length sps. rd_entries rd ! k = entry_of fs sps k)
     \<and> length (rd_names rd) = 4096 \<and> take (length (names_of sps)) (rd_names rd) = names_of sps
     \<and> rd_data rd = contents_of fs sps"

definition fits_disk :: "host_files \<Rightarrow> Spec list \<Rightarrow> bool" where
  "fits_disk fs sps \<longleftrightarrow> length sps \<le> 256 \<and> length (names_of sps) \<le> 4096 \<and> length (contents_of fs sps) < 2 ^ 62"

lemma names_of_simps [simp]: "names_of [] = []" "names_of (sps @ [sp]) = names_of sps @ name_of sp @ [0]"
  by (simp_all add: names_of_def)

lemma contents_of_simps [simp]:
  "contents_of fs [] = []" "contents_of fs (sps @ [sp]) = contents_of fs sps @ the (fs (c_str (src sp)))"
  by (simp_all add: contents_of_def)

lemma disk_of_init: "disk_of fs [] init_initram"
  by (simp add: disk_of_def init_initram_def)

lemma disk_of_add:
  assumes "disk_of fs sps rd" and "fits_disk fs (sps @ [sp])" and "fs (c_str (src sp)) = Some bytes"
  shows "\<exists>rd'. add_file fs (c_str (dst sp)) (c_str (src sp)) rd = Some rd' \<and> disk_of fs (sps @ [sp]) rd'"
proof -
  note d = assms(1) [unfolded disk_of_def]
  have len: "length sps < 256" "length (names_of sps) + length (name_of sp) + 1 \<le> 4096" "length (contents_of fs sps) < 2 ^ 62"
    using assms(2) by (auto simp: fits_disk_def)
  have e: "entry_of fs (sps @ [sp]) k = entry_of fs sps k" if "k < length sps" for k
    using that by (simp add: entry_of_def nth_append)
  have last: "entry_of fs (sps @ [sp]) (length sps) = \<lparr>name_off = sh_size (rd_header rd), name_size = of_nat (length (c_str (dst sp))),
      e_data_off = data_size (rd_header rd), e_data_size = of_nat (length bytes)\<rparr>"
    using d assms(3) by (simp add: entry_of_def name_of_def)
  have names: "take (length (names_of (sps @ [sp]))) (put_bytes (length (names_of sps)) (c_str (dst sp) @ [0]) (rd_names rd)) = names_of (sps @ [sp])"
    using d len by (simp add: put_bytes_def name_of_def)
  show ?thesis
    using d len assms(3) e last names
    by (auto simp: add_file_def Let_def unat_of_nat_u64 disk_of_def nth_list_update less_Suc_eq name_of_def [symmetric])
qed

lemma fits_disk_prefix: "fits_disk fs (sps @ sps') \<Longrightarrow> fits_disk fs sps"
  by (auto simp: fits_disk_def names_of_def contents_of_def)

lemma disk_of_add_files:
  "disk_of fs sps0 rd \<Longrightarrow> fits_disk fs (sps0 @ sps) \<Longrightarrow> add_files fs sps rd = Some rd' \<Longrightarrow>
     disk_of fs (sps0 @ sps) rd' \<and> (\<forall>sp \<in> set sps. fs (c_str (src sp)) \<noteq> None)"
proof (induction sps arbitrary: sps0 rd)
  case (Cons sp sps)
  from Cons.prems(3) obtain rd1 where rd1: "add_file fs (c_str (dst sp)) (c_str (src sp)) rd = Some rd1"
      "add_files fs sps rd1 = Some rd'" by (auto split: option.splits)
  then obtain bytes where bytes: "fs (c_str (src sp)) = Some bytes" by (auto simp: add_file_def Let_def split: option.splits)
  have "fits_disk fs (sps0 @ [sp])" using Cons.prems(2) fits_disk_prefix [of fs "sps0 @ [sp]" sps] by simp
  from disk_of_add [OF Cons.prems(1) this bytes] rd1(1) have "disk_of fs (sps0 @ [sp]) rd1" by simp
  from Cons.IH [OF this _ rd1(2)] Cons.prems(2) bytes show ?case by simp
qed simp

definition image_at :: "mem \<Rightarrow> u64 \<Rightarrow> u8 list \<Rightarrow> bool" where
  "image_at m base bs \<longleftrightarrow> (\<forall>i<length bs. m (base + of_nat i) = bs ! i)"

lemma image_at_append:
  "image_at m base (xs @ ys) \<longleftrightarrow> image_at m base xs \<and> image_at m (base + of_nat (length xs)) ys"
proof -
  have "(\<forall>i<length xs + length ys. m (base + of_nat i) = (xs @ ys) ! i)
      \<longleftrightarrow> (\<forall>i<length xs. m (base + of_nat i) = xs ! i) \<and> (\<forall>i<length ys. m (base + of_nat (length xs + i)) = ys ! i)"
    (is "?l \<longleftrightarrow> ?r")
  proof
    assume l: ?l
    show ?r
    proof (intro conjI allI impI)
      fix i assume "i < length ys"
      with l have "m (base + of_nat (length xs + i)) = (xs @ ys) ! (length xs + i)" by (intro l [rule_format]) simp
      then show "m (base + of_nat (length xs + i)) = ys ! i" by simp
    qed (use l in \<open>auto simp: nth_append\<close>)
  next
    assume r: ?r
    show ?l
    proof (intro allI impI)
      fix i assume i: "i < length xs + length ys"
      show "m (base + of_nat i) = (xs @ ys) ! i"
      proof (cases "i < length xs")
        case True
        with r show ?thesis by (simp add: nth_append)
      next
        case False
        with i r [THEN conjunct2, rule_format, of "i - length xs"] show ?thesis by (simp add: nth_append)
      qed
    qed
  qed
  then show ?thesis by (simp add: image_at_def add.assoc)
qed

lemma load64_image: "image_at m a (bytes_le 8 w) \<Longrightarrow> load64 m a = w"
proof -
  assume "image_at m a (bytes_le 8 w)"
  then have "map (\<lambda>i. m (a + of_nat i)) [0..<8] = bytes_le 8 w"
    by (intro nth_equalityI) (auto simp: image_at_def simp del: upt_rec_numeral)
  then show ?thesis by (simp add: load_def word_le_bytes_le)
qed

lemma length_entry_bytes [simp]: "length (entry_bytes e) = 32"
  by (simp add: entry_bytes_def)

lemma length_header_bytes: "length (magic h) = 8 \<Longrightarrow> length (header_bytes h) = 64"
  by (simp add: header_bytes_def)

lemma length_concat_entries: "length (concat (map entry_bytes es)) = 32 * length es"
  by (induction es) simp_all

lemma take_concat_entries:
  "n \<le> length es \<Longrightarrow> take (32 * n) (concat (map entry_bytes es)) = concat (map entry_bytes (take n es))"
proof (induction es arbitrary: n)
  case (Cons e es)
  then show ?case by (cases n) (simp_all add: take_Cons')
qed simp

lemma concat_at:
  assumes "k < length xs"
  shows "concat (map f xs) = concat (map f (take k xs)) @ f (xs ! k) @ concat (map f (drop (Suc k) xs))"
proof -
  have "map f xs = map f (take k xs) @ f (xs ! k) # map f (drop (Suc k) xs)"
    using assms by (metis id_take_nth_drop list.simps(9) map_append)
  then show ?thesis by simp
qed

definition header_of :: "host_files \<Rightarrow> Spec list \<Rightarrow> InitRamHeader" where
  "header_of fs sps = \<lparr>magic = INITRAM_MAGIC, fh_cnt = of_nat (length sps), fh_off = 64 + of_nat (length (names_of sps)),
     fh_size = of_nat (32 * length sps), sh_off = 64, sh_size = of_nat (length (names_of sps)),
     data_off = 64 + of_nat (length (names_of sps)) + of_nat (32 * length sps), data_size = of_nat (length (contents_of fs sps))\<rparr>"

lemma save_initram_layout:
  assumes "disk_of fs sps rd" and "fits_disk fs sps"
  shows "save_initram rd = header_bytes (header_of fs sps) @ names_of sps
    @ concat (map (\<lambda>k. entry_bytes (entry_of fs sps k)) [0..<length sps]) @ contents_of fs sps"
proof -
  note d = assms(1) [unfolded disk_of_def]
  have len: "length sps \<le> 256" "length (names_of sps) \<le> 4096" "length (contents_of fs sps) < 2 ^ 62"
    using assms(2) by (auto simp: fits_disk_def)
  have "take (length sps) (rd_entries rd) = map (entry_of fs sps) [0..<length sps]"
    using d len by (intro nth_equalityI) auto
  then have "take (32 * length sps) (concat (map entry_bytes (rd_entries rd)))
      = concat (map (\<lambda>k. entry_bytes (entry_of fs sps k)) [0..<length sps])"
    using d len by (simp add: take_concat_entries o_def)
  moreover have "unat (of_nat (32 * length sps) :: u64) = 32 * length sps" using len by (intro unat_of_nat_u64) simp
  ultimately show ?thesis
    using d len by (simp add: save_initram_def header_of_def Let_def unat_of_nat_u64)
qed

section \<open>Lookup in a written image\<close>

lemma image_header:
  assumes "image_at m base (header_bytes h @ r)" and "length (magic h) = 8"
  shows "load64 m (base + 8) = fh_cnt h" and "load64 m (base + 16) = fh_off h"
    and "load64 m (base + 32) = sh_off h" and "load64 m (base + 48) = data_off h"
  using assms
  by (simp_all add: header_bytes_def image_at_append load64_image add.assoc)

lemma image_entry:
  assumes "image_at m a (entry_bytes e)"
  shows "load64 m a = name_off e" and "load64 m (a + 8) = name_size e" and "load64 m (a + 16) = e_data_off e"
  using assms by (simp_all add: entry_bytes_def image_at_append load64_image add.assoc)

lemma image_concat_at:
  assumes "image_at m a (concat (map f xs))" and "k < length xs"
  shows "image_at m (a + of_nat (length (concat (map f (take k xs))))) (f (xs ! k))"
  using assms(1) by (simp add: concat_at [OF assms(2)] image_at_append)

text \<open>The memory holds the image of these records from \<open>base\<close> on.\<close>

definition written :: "host_files \<Rightarrow> Spec list \<Rightarrow> mem \<Rightarrow> u64 \<Rightarrow> bool" where
  "written fs sps m base \<longleftrightarrow> fits_disk fs sps \<and> image_at m base (header_bytes (header_of fs sps) @ names_of sps
      @ concat (map (\<lambda>k. entry_bytes (entry_of fs sps k)) [0..<length sps]) @ contents_of fs sps)"

lemma written_fits: "written fs sps m base \<Longrightarrow> fits_disk fs sps"
  and written_image: "written fs sps m base \<Longrightarrow> image_at m base (header_bytes (header_of fs sps) @ names_of sps
      @ concat (map (\<lambda>k. entry_bytes (entry_of fs sps k)) [0..<length sps]) @ contents_of fs sps)"
  by (simp_all add: written_def)

lemma written_header:
  assumes "written fs sps m base"
  shows "load64 m (base + 8) = of_nat (length sps)" and "load64 m (base + 16) = 64 + of_nat (length (names_of sps))"
    and "load64 m (base + 32) = 64" and "load64 m (base + 48) = 64 + of_nat (length (names_of sps)) + of_nat (32 * length sps)"
  using image_header [OF written_image [OF assms]] by (simp_all add: header_of_def INITRAM_MAGIC_def)

lemma written_parts:
  assumes "written fs sps m base"
  shows "image_at m (base + 64) (names_of sps)"
    and "image_at m (base + 64 + of_nat (length (names_of sps))) (concat (map (\<lambda>k. entry_bytes (entry_of fs sps k)) [0..<length sps]))"
    and "image_at m (base + 64 + of_nat (length (names_of sps)) + of_nat (32 * length sps)) (contents_of fs sps)"
proof -
  have "length (concat (map (\<lambda>k. entry_bytes (entry_of fs sps k)) [0..<length sps])) = 32 * length sps"
    using length_concat_entries [of "map (entry_of fs sps) [0..<length sps]"] by (simp add: o_def)
  moreover have "length (header_bytes (header_of fs sps)) = 64"
    by (simp add: length_header_bytes header_of_def INITRAM_MAGIC_def)
  ultimately show "image_at m (base + 64) (names_of sps)"
    "image_at m (base + 64 + of_nat (length (names_of sps))) (concat (map (\<lambda>k. entry_bytes (entry_of fs sps k)) [0..<length sps]))"
    "image_at m (base + 64 + of_nat (length (names_of sps)) + of_nat (32 * length sps)) (contents_of fs sps)"
    using written_image [OF assms] by (simp_all add: image_at_append)
qed

lemma written_entry:
  assumes W: "written fs sps m base" and k: "k < length sps"
  shows "image_at m (base + (64 + of_nat (length (names_of sps))) + of_nat (32 * k)) (entry_bytes (entry_of fs sps k))"
proof -
  have "length (concat (map (\<lambda>k. entry_bytes (entry_of fs sps k)) (take k [0..<length sps]))) = 32 * k"
    using length_concat_entries [of "map (entry_of fs sps) (take k [0..<length sps])"] k by (simp add: o_def)
  with image_concat_at [OF written_parts(2) [OF W], of k] k show ?thesis by (simp add: add.assoc)
qed

lemma written_name:
  assumes W: "written fs sps m base" and k: "k < length sps"
  shows "image_at m (base + 64 + of_nat (length (names_of (take k sps)))) (name_of (sps ! k))"
  using image_concat_at [OF written_parts(1) [OF W, unfolded names_of_def] k] k
  by (simp add: image_at_append names_of_def)

lemma written_contents:
  assumes W: "written fs sps m base" and k: "k < length sps"
  shows "image_at m (base + (64 + of_nat (length (names_of sps)) + of_nat (32 * length sps)) + of_nat (length (contents_of fs (take k sps))))
    (the (fs (c_str (src (sps ! k)))))"
  using image_concat_at [OF written_parts(3) [OF W, unfolded contents_of_def] k] k
  by (simp add: contents_of_def add.assoc)

lemma name_length:
  assumes W: "written fs sps m base" and k: "k < length sps"
  shows "length (name_of (sps ! k)) < 4096"
proof -
  have "names_of sps = names_of (take k sps) @ (name_of (sps ! k) @ [0]) @ names_of (drop (Suc k) sps)"
    unfolding names_of_def by (rule concat_at [OF k])
  then have "length (names_of sps) = length (names_of (take k sps)) + length (name_of (sps ! k)) + 1 + length (names_of (drop (Suc k) sps))"
    by simp
  with written_fits [OF W] show ?thesis by (simp add: fits_disk_def)
qed

lemma name_matches:
  assumes W: "written fs sps m base" and k: "k < length sps" and nm: "cstr_at m np nm"
  shows "memcmp m np (base + 64 + of_nat (length (names_of (take k sps)))) (of_nat (length (name_of (sps ! k)))) = 0
    \<longleftrightarrow> prefix (name_of (sps ! k)) nm"
proof -
  let ?e = "name_of (sps ! k)"
  have nz: "j < length ?e \<Longrightarrow> ?e ! j \<noteq> 0" for j
  proof -
    assume "j < length ?e"
    then have "?e ! j \<in> set ?e" by (rule nth_mem)
    then show "?e ! j \<noteq> 0" unfolding name_of_def c_str_def by (rule set_takeWhileD [where P = "\<lambda>b. b \<noteq> 0", THEN conjunct2])
  qed
  have mem: "m (base + 64 + of_nat (length (names_of (take k sps))) + of_nat j) = ?e ! j" if "j < length ?e" for j
    using written_name [OF W k] that by (simp add: image_at_def)
  have "memcmp m np (base + 64 + of_nat (length (names_of (take k sps)))) (of_nat (length ?e)) = 0
      \<longleftrightarrow> (\<forall>j<length ?e. m (np + of_nat j) = ?e ! j)"
    using name_length [OF W k] mem by (simp add: memcmp_def memcmp_from_zero unat_of_nat_u64)
  also have "\<dots> \<longleftrightarrow> prefix ?e nm"
  proof
    assume all: "\<forall>j<length ?e. m (np + of_nat j) = ?e ! j"
    have len: "length ?e \<le> length nm"
    proof (rule ccontr)
      assume "\<not> ?thesis"
      then have "m (np + of_nat (length nm)) = ?e ! length nm" "?e ! length nm \<noteq> 0" using all nz by auto
      with nm show False by (simp add: cstr_at_def)
    qed
    have "?e = take (length ?e) nm"
      using all nm len by (intro nth_equalityI) (auto simp: cstr_at_def)
    then show "prefix ?e nm" by (metis take_is_prefix)
  next
    assume "prefix ?e nm"
    then show "\<forall>j<length ?e. m (np + of_nat j) = ?e ! j"
      using nm by (auto simp: cstr_at_def prefix_def nth_append)
  qed
  finally show ?thesis .
qed

lemma lookup_step:
  assumes W: "written fs sps m base" and k: "k < length sps" and nm: "cstr_at m np nm"
  shows "lookup_from m base np k (Suc n) =
    (if prefix (name_of (sps ! k)) nm
     then base + (64 + of_nat (length (names_of sps)) + of_nat (32 * length sps)) + of_nat (length (contents_of fs (take k sps)))
     else lookup_from m base np (Suc k) n)"
  using name_matches [OF W k nm] image_entry [OF written_entry [OF W k]]
  by (simp add: written_header [OF W] Let_def entry_of_def del: of_nat_mult)

lemma lookup_none:
  "written fs sps m base \<Longrightarrow> cstr_at m np nm \<Longrightarrow> i + n = length sps \<Longrightarrow> \<forall>k<length sps. \<not> prefix (name_of (sps ! k)) nm \<Longrightarrow> lookup_from m base np i n = 0"
proof (induction n arbitrary: i)
  case (Suc n)
  then show ?case by (simp only: lookup_step, simp)
qed simp

lemma lookup_first:
  "written fs sps m base \<Longrightarrow> cstr_at m np nm \<Longrightarrow> i + n = length sps \<Longrightarrow> i \<le> k \<Longrightarrow> k < length sps \<Longrightarrow> prefix (name_of (sps ! k)) nm \<Longrightarrow>
     \<forall>j<k. \<not> prefix (name_of (sps ! j)) nm \<Longrightarrow>
     lookup_from m base np i n
       = base + (64 + of_nat (length (names_of sps)) + of_nat (32 * length sps)) + of_nat (length (contents_of fs (take k sps)))"
proof (induction n arbitrary: i)
  case (Suc n)
  show ?case
  proof (cases "i = k")
    case True
    with Suc.prems show ?thesis by (simp only: lookup_step, simp)
  next
    case False
    with Suc.prems show ?thesis by (simp only: lookup_step, simp add: Suc.IH)
  qed
qed simp

lemma written_count: "written fs sps m base \<Longrightarrow> unat (load64 m (base + 8)) = length sps"
  using written_fits [of fs sps m base] by (simp add: written_header fits_disk_def unat_of_nat_u64)

lemma mkinitram_written:
  assumes "mkinitram fs spec = Some img" and "fits_disk fs sps" and "image_at m base img" and "parse_specs (opened spec) = Some sps"
  shows "written fs sps m base" and "\<forall>sp \<in> set sps. fs (c_str (src sp)) \<noteq> None"
proof -
  obtain rd where rd: "add_files fs sps init_initram = Some rd" "img = save_initram rd"
    using assms(1,4) by (auto simp: mkinitram_def)
  from disk_of_add_files [OF disk_of_init _ rd(1)] assms(2)
  have d: "disk_of fs sps rd" and "\<forall>sp \<in> set sps. fs (c_str (src sp)) \<noteq> None"
    by simp_all
  then show "\<forall>sp \<in> set sps. fs (c_str (src sp)) \<noteq> None" by simp
  show "written fs sps m base"
    using assms(2,3) save_initram_layout [OF d assms(2)] by (simp add: written_def rd(2))
qed

text \<open>C20. The tool and the kernel agree on the disk: in memory that holds the image mkinitram wrote for a
  specification file, initram_lookup returns, for every name, the contents of the first file of the
  specification whose name is a prefix of the name asked for (so not only an equal one), and NULL when
  there is no such file.\<close>

theorem mkinitram_lookup:
  assumes "mkinitram fs spec = Some img" and "fits_disk fs sps"
    and "image_at m base img" and "cstr_at m np nm" and "parse_specs (opened spec) = Some sps"
  shows "((\<forall>k<length sps. \<not> prefix (name_of (sps ! k)) nm) \<longrightarrow> initram_lookup m base np = 0)
    \<and> (\<forall>k<length sps. prefix (name_of (sps ! k)) nm \<and> (\<forall>j<k. \<not> prefix (name_of (sps ! j)) nm) \<longrightarrow>
         (\<exists>bytes. fs (c_str (src (sps ! k))) = Some bytes \<and> image_at m (initram_lookup m base np) bytes))"
proof -
  note W = mkinitram_written [OF assms(1-3,5)]
  have found: "initram_lookup m base np
      = base + (64 + of_nat (length (names_of sps)) + of_nat (32 * length sps)) + of_nat (length (contents_of fs (take k sps)))"
    if "k < length sps" "prefix (name_of (sps ! k)) nm" "\<forall>j<k. \<not> prefix (name_of (sps ! j)) nm" for k
    using that lookup_first [OF W(1) assms(4), of 0 "length sps" k] by (simp add: initram_lookup_def written_count [OF W(1)])
  have "\<exists>bytes. fs (c_str (src (sps ! k))) = Some bytes \<and> image_at m (initram_lookup m base np) bytes"
    if k: "k < length sps" "prefix (name_of (sps ! k)) nm" "\<forall>j<k. \<not> prefix (name_of (sps ! j)) nm" for k
  proof -
    have "fs (c_str (src (sps ! k))) \<noteq> None" using W(2) k(1) nth_mem by blast
    then show ?thesis using written_contents [OF W(1) k(1)] found [OF k] by auto
  qed
  moreover have "initram_lookup m base np = 0" if "\<forall>k<length sps. \<not> prefix (name_of (sps ! k)) nm"
    using lookup_none [OF W(1) assms(4), of 0 "length sps"] that by (simp add: initram_lookup_def written_count [OF W(1)])
  ultimately show ?thesis by blast
qed

text \<open>A specification with one file, \<open>/b\<close> with the bytes 1, 2, 3, looked up as \<open>/boot\<close>.\<close>

definition sample_files :: host_files where
  "sample_files p = (if p = [120] then Some [1, 2, 3] else None)"

definition sample_spec :: "u8 list" where
  "sample_spec = [70, 44, 47, 98, 44, 120]"

lemma sample_spec_records: "parse_specs (opened sample_spec) = Some [\<lparr>spec_type = 70, src = [120], dst = [47, 98]\<rparr>]"
proof -
  let ?l = "Record \<lparr>spec_type = 70, src = [120], dst = [47, 98]\<rparr>"
  have "line_ok ?l" by (simp add: NL_def CR_def COMMA_def HASH_def SPEC_STR_SIZE_def)
  from parse_specs_last [OF this] show ?thesis by (simp add: sample_spec_def COMMA_def)
qed

lemma mkinitram_lookup_witness:
  "\<exists>img m. mkinitram sample_files sample_spec = Some img \<and> image_at m 0 img
     \<and> cstr_at m 0x1000 [47, 98, 111, 111, 116] \<and> image_at m (initram_lookup m 0 0x1000) [1, 2, 3]"
proof -
  define sps where "sps = [\<lparr>spec_type = 70, src = [120], dst = [47, 98]\<rparr> :: Spec]"
  note sps = sps_def
  have parsed: "parse_specs (opened sample_spec) = Some sps" by (simp add: sps_def sample_spec_records)
  have fits: "fits_disk sample_files sps"
    by (simp add: sps fits_disk_def names_of_def contents_of_def name_of_def c_str_def sample_files_def)
  obtain rd where rd: "add_files sample_files sps init_initram = Some rd"
    by (auto simp: sps c_str_def sample_files_def add_file_def Let_def)
  then have img: "mkinitram sample_files sample_spec = Some (save_initram rd)" by (simp add: mkinitram_def parsed)
  have "disk_of sample_files sps rd"
    using disk_of_add_files [OF disk_of_init _ rd] fits by simp
  from save_initram_layout [OF this] fits have len: "length (save_initram rd) = 102"
    by (simp add: sps_def length_header_bytes header_of_def INITRAM_MAGIC_def names_of_def name_of_def
        c_str_def contents_of_def sample_files_def)
  define m :: mem where "m = (\<lambda>x. if unat x < 102 then save_initram rd ! unat x
    else if unat x < 0x1000 then 0 else ([47, 98, 111, 111, 116] @ replicate 10 0) ! (unat x - 0x1000))"
  have "image_at m 0 (save_initram rd)" by (auto simp: image_at_def len m_def unat_of_nat_u64)
  moreover have "cstr_at m 0x1000 [47, 98, 111, 111, 116]" by (simp add: cstr_at_def m_def All_less_Suc)
  moreover note mkinitram_lookup [OF img fits calculation parsed]
  ultimately have "image_at m (initram_lookup m 0 0x1000) [1, 2, 3]"
    by (auto simp: sps name_of_def c_str_def sample_files_def)
  with \<open>image_at m 0 (save_initram rd)\<close> \<open>cstr_at m 0x1000 _\<close> img show ?thesis by blast
qed

end
