(* ===== verification/MkImage.thy ===== *)
theory MkImage
  imports Prelude
begin

text \<open>
  The tool that writes the disk image (tools/mkimage.c): an output file as its bytes and its
  position, with the gaps a seek past the end leaves read as zero, the boot record, the volume with
  its partition record, and the padding.
\<close>

section \<open>Output files\<close>

record OutFile =
  content :: "u8 list"
  pos :: nat

definition fwrite :: "u8 list \<Rightarrow> OutFile \<Rightarrow> OutFile" where
  "fwrite bs f =
     f\<lparr>content := put_bytes (pos f) bs (content f @ replicate (pos f + length bs - length (content f)) 0),
       pos := pos f + length bs\<rparr>"

definition fseek :: "nat \<Rightarrow> OutFile \<Rightarrow> OutFile" where
  "fseek p f = f\<lparr>pos := p\<rparr>"

section \<open>The tool\<close>

definition BUFFERSIZE :: nat where "BUFFERSIZE = 4096"
definition MAX_SECTORS :: nat where "MAX_SECTORS = 63"
definition MAX_HEADS :: nat where "MAX_HEADS = 256"

definition pad :: "nat \<Rightarrow> OutFile \<Rightarrow> OutFile" where
  "pad amount f =
     (let n = pos f mod amount
      in if n = 0 then f else fwrite [0] (fseek (pos f + (amount - n - 1)) f))"

text \<open>The loop of \<open>append\<close>: one \<open>fread\<close> and one \<open>fwrite\<close> of at most a buffer at a time.\<close>

function append_from :: "u8 list \<Rightarrow> nat \<Rightarrow> OutFile \<Rightarrow> OutFile \<times> nat" where
  "append_from bs acc f =
     (let buffer = take BUFFERSIZE bs
      in if buffer = [] then (f, acc)
         else append_from (drop BUFFERSIZE bs) (acc + length buffer) (fwrite buffer f))"
  by pat_completeness auto
termination
  by (relation "measure (\<lambda>(bs, acc, f). length bs)") (auto simp: BUFFERSIZE_def)

declare append_from.simps [simp del]

definition append_file :: "u8 list \<Rightarrow> OutFile \<Rightarrow> OutFile \<times> nat" where
  "append_file bs f = append_from bs 0 f"

definition makeMBR :: "u8 list \<Rightarrow> OutFile \<Rightarrow> OutFile" where
  "makeMBR bs f = pad (512 * 64) (fst (append_file bs f))"

text \<open>Cylinder, head and sector; the results are \<open>int\<close>s.\<close>

definition to_chs :: "u64 \<Rightarrow> u32 \<times> u32 \<times> u32" where
  "to_chs lba = (ucast (lba div (512 * 63 * 128)), ucast (lba div (512 * 63) mod 128), ucast (lba div 512 mod 63 + 1))"

definition chs_bytes :: "u64 \<Rightarrow> u8 list" where
  "chs_bytes lba =
     (let (cyl, head, sec) = to_chs lba
      in [ucast head, ucast ((sec AND 0x3f) OR (drop_bit 2 cyl AND 0xc0)), ucast cyl])"

definition lba_bytes :: "u64 \<Rightarrow> u8 list" where
  "lba_bytes v = [ucast (v AND 0xff), ucast (drop_bit 8 v AND 0xff), ucast (drop_bit 16 v AND 0xff), ucast (drop_bit 24 v AND 0xff)]"

definition volume_record :: "u64 \<Rightarrow> u64 \<Rightarrow> u8 list" where
  "volume_record base sz =
     [0x80] @ chs_bytes base @ [0x60] @ chs_bytes (base + sz - 512) @ lba_bytes (base div 512) @ lba_bytes (sz div 512)"

definition add_volume :: "u8 list \<Rightarrow> OutFile \<Rightarrow> OutFile" where
  "add_volume bs f =
     (let base = pos f;
          (f, sz) = append_file bs f;
          f = pad 512 f;
          tmp = pos f
      in fseek tmp (fwrite (volume_record (of_nat base) (of_nat sz)) (fseek 0x01be f)))"

definition mkimage :: "u8 list \<Rightarrow> u8 list \<Rightarrow> u8 list" where
  "mkimage mbr vol =
     content (pad (512 * MAX_SECTORS * MAX_HEADS) (add_volume vol (makeMBR mbr \<lparr>content = [], pos = 0\<rparr>)))"

section \<open>What a write leaves in the file\<close>

lemma content_fwrite:
  "pos f \<le> length (content f) \<Longrightarrow> content (fwrite bs f) = put_bytes (pos f) bs (content f @ replicate (pos f + length bs - length (content f)) 0)"
  by (simp add: fwrite_def)

lemma fwrite_at_end: "pos f = length (content f) \<Longrightarrow> fwrite bs f = f\<lparr>content := content f @ bs, pos := pos f + length bs\<rparr>"
  by (simp add: fwrite_def put_bytes_def)

lemma put_zero_at_end: "put_bytes (length xs + k) [0] (xs @ replicate (Suc k) 0) = xs @ replicate (Suc k) 0"
proof -
  have "take k (replicate (Suc k) 0) @ [0] = replicate (Suc k) (0 :: u8)"
    by (simp only: take_replicate min_def) (simp add: replicate_append_same)
  then show ?thesis by (simp add: put_bytes_def)
qed

lemma append_from_at_end:
  "pos f = length (content f) \<Longrightarrow> append_from bs acc f = (f\<lparr>content := content f @ bs, pos := pos f + length bs\<rparr>, acc + length bs)"
proof (induction bs acc f rule: append_from.induct)
  case (1 bs acc f)
  show ?case
  proof (cases "bs = []")
    case True
    then show ?thesis by (subst append_from.simps) simp
  next
    case False
    then have ne: "take BUFFERSIZE bs \<noteq> []" by (simp add: BUFFERSIZE_def)
    have "append_from bs acc f = append_from (drop BUFFERSIZE bs) (acc + length (take BUFFERSIZE bs)) (fwrite (take BUFFERSIZE bs) f)"
      by (subst append_from.simps) (use ne in \<open>simp add: Let_def\<close>)
    also have "\<dots> = (f\<lparr>content := (content f @ take BUFFERSIZE bs) @ drop BUFFERSIZE bs,
          pos := pos f + length (take BUFFERSIZE bs) + length (drop BUFFERSIZE bs)\<rparr>,
        acc + length (take BUFFERSIZE bs) + length (drop BUFFERSIZE bs))"
      using "1.prems" by (subst "1.IH" [OF refl ne]) (simp_all add: fwrite_at_end)
    finally show ?thesis by (simp add: add.assoc)
  qed
qed

lemmas append_at_end = append_from_at_end [where acc = 0, folded append_file_def, simplified]

text \<open>The end of the file after padding.\<close>

definition padded :: "nat \<Rightarrow> nat \<Rightarrow> nat" where
  "padded amount n = (n + amount - 1) div amount * amount"

lemma pad_at_end:
  assumes "pos f = length (content f)" and "0 < amount"
  shows "pad amount f = f\<lparr>content := content f @ replicate (padded amount (pos f) - pos f) 0, pos := padded amount (pos f)\<rparr>"
    and "pos f \<le> padded amount (pos f)" and "padded amount (pos f) mod amount = 0"
proof -
  define q r where "q = pos f div amount" and "r = pos f mod amount"
  have n: "pos f = q * amount + r" "r < amount" using assms(2) by (simp_all add: q_def r_def)
  have p: "padded amount (pos f) = (if r = 0 then pos f else pos f - r + amount)"
  proof (cases "r = 0")
    case True
    then have e: "pos f + amount - 1 = (amount - 1) + q * amount" using n assms(2) by simp
    have "(pos f + amount - 1) div amount = q"
      unfolding e by (subst div_mult_self1) (use assms(2) in simp_all)
    with True n show ?thesis by (simp add: padded_def)
  next
    case False
    then have e: "pos f + amount - 1 = (r - 1) + (q + 1) * amount" using n by simp
    have "(pos f + amount - 1) div amount = q + 1"
      unfolding e by (subst div_mult_self1) (use assms(2) n in simp_all)
    with False n show ?thesis by (simp add: padded_def)
  qed
  show "pos f \<le> padded amount (pos f)" using p n by auto
  show "padded amount (pos f) mod amount = 0" by (simp add: padded_def)
  show "pad amount f = f\<lparr>content := content f @ replicate (padded amount (pos f) - pos f) 0, pos := padded amount (pos f)\<rparr>"
  proof (cases "r = 0")
    case True
    with p show ?thesis by (simp add: pad_def r_def)
  next
    case False
    then have gap: "padded amount (pos f) - pos f = Suc (amount - r - 1)" using p n by simp
    then have "fwrite [0] (fseek (pos f + (amount - r - 1)) f)
        = f\<lparr>content := content f @ replicate (padded amount (pos f) - pos f) 0, pos := padded amount (pos f)\<rparr>"
      using False p n assms(1) put_zero_at_end [of "content f" "amount - r - 1"]
      by (simp add: fwrite_def fseek_def)
    with False show ?thesis by (simp add: pad_def r_def [symmetric])
  qed
qed

section \<open>The image\<close>

lemma length_volume_record [simp]: "length (volume_record base sz) = 16"
  by (simp add: volume_record_def chs_bytes_def lba_bytes_def to_chs_def)

lemma volume_record_lba:
  "drop 8 (volume_record base sz) = lba_bytes (base div 512) @ lba_bytes (sz div 512)"
  by (simp add: volume_record_def chs_bytes_def to_chs_def lba_bytes_def)

lemma word_le_lba_bytes: "word_le (lba_bytes v) = (ucast v :: u32)"
proof -
  have "v AND 0xff = take_bit 8 v" for v :: u64
  proof -
    have "(0xff :: u64) = mask 8" by (simp add: mask_eq_exp_minus_1)
    then show ?thesis by (simp only: take_bit_eq_mask)
  qed
  moreover have "ucast (take_bit 8 w) = (ucast w :: u8)" for w :: u64
    by (rule bit_word_eqI) (simp add: bit_ucast_iff bit_take_bit_iff)
  moreover have "ucast (drop_bit k v) = (ucast (drop_bit k (ucast v :: u32)) :: u8)" if "k \<le> 24" for k
    using that by (intro bit_word_eqI) (auto simp: bit_ucast_iff bit_drop_bit_eq)
  moreover have "ucast v = (ucast (ucast v :: u32) :: u8)" using calculation(3) [of 0] by simp
  ultimately have "lba_bytes v = bytes_le 4 (ucast v :: u32)"
    by (simp add: lba_bytes_def bytes_le_def upt_rec)
  then show ?thesis by (simp add: word_le_bytes_le)
qed

text \<open>Padding to sectors and then to cylinders adds less than a cylinder.\<close>

lemma padded_twice:
  assumes "0 < q"
  shows "padded (512 * q) (padded 512 n) < n + 512 * q"
proof -
  define a where "a = (n + 511) div 512"
  have a: "padded 512 n = 512 * a" by (simp add: padded_def a_def)
  have "512 * a + 512 * q - 1 = 512 * (a + q - 1) + 511" using assms by (simp add: algebra_simps)
  then have "(512 * a + 512 * q - 1) div (512 * q) = (a + q - 1) div q" by (simp add: div_mult2_eq)
  then have "padded (512 * q) (padded 512 n) = 512 * ((a + q - 1) div q * q)" unfolding a by (simp add: padded_def)
  also have "\<dots> \<le> 512 * (a + q - 1)" by (intro mult_left_mono) simp_all
  also have "\<dots> < n + 512 * q"
  proof -
    have "512 * a \<le> n + 511" by (simp add: a_def)
    then show ?thesis using assms by (simp add: algebra_simps)
  qed
  finally show ?thesis .
qed

text \<open>The image before the record is written: the padded boot record, then the padded volume.\<close>

lemma mkimage_layout:
  assumes "length mbr \<le> 32768" and "0 < length mbr"
  obtains gap where "mkimage mbr vol = put_bytes 0x1be (volume_record 32768 (of_nat (length vol)))
      (mbr @ replicate (32768 - length mbr) 0 @ vol @ replicate gap 0)"
    and "(32768 + length vol + gap) mod (512 * 63 * 256) = 0" and "gap < 512 * 63 * 256"
proof -
  define n1 where "n1 = padded 512 (32768 + length vol) - (32768 + length vol)"
  define p1 where "p1 = padded 512 (32768 + length vol)"
  define p2 where "p2 = padded (512 * 63 * 256) p1"
  have pm: "padded 32768 (length mbr) = 32768"
  proof -
    have "1 \<le> length mbr" using assms(2) by linarith
    then have "(length mbr + 32768 - 1) div 32768 = 1"
      using assms by (intro div_nat_eqI) (simp_all add: Suc_le_eq)
    then show ?thesis by (simp add: padded_def)
  qed
  have a: "append_file bs f = (f\<lparr>content := content f @ bs, pos := pos f + length bs\<rparr>, length bs)"
    if "pos f = length (content f)" for bs f
    using append_at_end [OF that] .
  have mbr: "makeMBR mbr \<lparr>content = [], pos = 0\<rparr> = \<lparr>content = mbr @ replicate (32768 - length mbr) 0, pos = 32768\<rparr>"
    using assms by (simp add: makeMBR_def a pad_at_end pm)
  let ?f1 = "\<lparr>content = mbr @ replicate (32768 - length mbr) 0, pos = 32768\<rparr> :: OutFile"
  let ?c2 = "mbr @ replicate (32768 - length mbr) 0 @ vol @ replicate n1 0"
  let ?r = "volume_record 32768 (of_nat (length vol))"
  have p1: "32768 + length vol \<le> p1" "length ?c2 = p1" 
    using pad_at_end(2) [of "\<lparr>content = replicate (32768 + length vol) 0, pos = 32768 + length vol\<rparr>" 512] assms
    by (simp_all add: n1_def p1_def)
  have n1: "p1 - (32768 + length vol) = n1" by (simp add: n1_def p1_def)
  have vol: "add_volume vol ?f1 = \<lparr>content = put_bytes 0x1be ?r ?c2, pos = p1\<rparr>"
    using assms p1 n1 by (simp add: add_volume_def a pad_at_end fseek_def fwrite_def p1_def [symmetric])
  have len: "length (put_bytes 0x1be ?r ?c2) = p1" using p1 by simp
  have p2: "p1 \<le> p2" "p2 mod (512 * 63 * 256) = 0"
    using pad_at_end(2,3) [of "\<lparr>content = replicate p1 0, pos = p1\<rparr>" "512 * 63 * 256"] by (simp_all add: p2_def)
  have "mkimage mbr vol = put_bytes 0x1be ?r ?c2 @ replicate (p2 - p1) 0"
    using len by (simp add: mkimage_def mbr vol MAX_SECTORS_def MAX_HEADS_def pad_at_end p2_def)
  also have "\<dots> = put_bytes 0x1be ?r (mbr @ replicate (32768 - length mbr) 0 @ vol @ replicate (n1 + (p2 - p1)) 0)"
    using p1 by (simp add: put_bytes_def replicate_add)
  finally have "mkimage mbr vol = put_bytes 0x1be ?r (mbr @ replicate (32768 - length mbr) 0 @ vol @ replicate (n1 + (p2 - p1)) 0)" .
  moreover have "32768 + length vol + (n1 + (p2 - p1)) = p2" using p1 p2 assms by simp
  with p2(2) have "(32768 + length vol + (n1 + (p2 - p1))) mod (512 * 63 * 256) = 0" by (simp only:)
  moreover have "p2 < 32768 + length vol + 512 * 63 * 256"
    using padded_twice [of "63 * 256" "32768 + length vol"] by (simp add: p2_def p1_def)
  then have "n1 + (p2 - p1) < 512 * 63 * 256" using p1 p2 assms by simp
  ultimately show ?thesis by (rule that)
qed

lemma mkimage_image:
  assumes "length mbr \<le> 32768" and "512 \<le> length mbr" and "length vol < 2 ^ 40" and "img = mkimage mbr vol"
  shows "(\<forall>i<length mbr. i < 0x1be \<or> 0x1ce \<le> i \<longrightarrow> img ! i = mbr ! i) \<and> (\<forall>i<length vol. img ! (64 * 512 + i) = vol ! i)
    \<and> word_le (take 4 (drop (0x1be + 8) img)) = (64 :: u32)
    \<and> word_le (take 4 (drop (0x1be + 12) img)) = (of_nat (length vol div 512) :: u32)
    \<and> length img mod (512 * 63 * 256) = 0 \<and> 64 * 512 + length vol \<le> length img
    \<and> length img < 64 * 512 + length vol + 512 * 63 * 256
    \<and> (\<forall>i<length img. length mbr \<le> i \<and> i < 64 * 512 \<or> 64 * 512 + length vol \<le> i \<longrightarrow> img ! i = 0)"
proof -
  obtain gap where img: "img = put_bytes 0x1be (volume_record 32768 (of_nat (length vol)))
      (mbr @ replicate (32768 - length mbr) 0 @ vol @ replicate gap 0)"
      and gap: "(32768 + length vol + gap) mod (512 * 63 * 256) = 0" "gap < 512 * 63 * 256"
    by (rule mkimage_layout [of mbr vol]) (use assms in auto)
  let ?c = "mbr @ replicate (32768 - length mbr) 0 @ vol @ replicate gap 0"
  let ?r = "volume_record 32768 (of_nat (length vol))"
  have len: "length img = 32768 + length vol + gap" unfolding img by (subst length_put_bytes) (use assms(1,2) in simp_all)
  have nth: "img ! i = ?c ! i" if "i < 0x1be \<or> 0x1ce \<le> i" "i < 32768 + length vol + gap" for i
    unfolding img by (subst nth_put_bytes) (use that assms(1,2) in auto)
  have "drop (0x1be + 8) img = drop 8 ?r @ drop 0x1ce ?c"
    unfolding img put_bytes_def using assms(1,2) by simp
  then have rec: "drop (0x1be + 8) img = lba_bytes 64 @ lba_bytes (of_nat (length vol) div 512) @ drop 0x1ce ?c"
    by (simp add: volume_record_lba)
  have l4: "length (lba_bytes v) = 4" for v by (simp add: lba_bytes_def)
  have "take 4 (drop (0x1be + 8) img) = lba_bytes 64" by (simp only: rec, simp add: l4)
  moreover have "drop (0x1be + 12) img = drop 4 (drop (0x1be + 8) img)" by simp
  then have "take 4 (drop (0x1be + 12) img) = lba_bytes (of_nat (length vol) div 512)" by (simp only: rec, simp add: l4)
  moreover have "(of_nat (length vol) div 512 :: u64) = of_nat (length vol div 512)"
    using assms(3) by (simp add: word_unat_eq_iff unat_div unat_of_nat_u64)
  ultimately have "word_le (take 4 (drop (0x1be + 8) img)) = (64 :: u32)"
      "word_le (take 4 (drop (0x1be + 12) img)) = (of_nat (length vol div 512) :: u32)"
    by (simp_all only: word_le_lba_bytes) (simp_all add: unsigned_of_nat word_of_nat_eq_iff)
  moreover have "\<forall>i<length mbr. i < 0x1be \<or> 0x1ce \<le> i \<longrightarrow> img ! i = mbr ! i"
    using nth assms by (simp add: nth_append)
  moreover have "img ! (64 * 512 + i) = vol ! i" if "i < length vol" for i
  proof -
    let ?pre = "mbr @ replicate (32768 - length mbr) 0"
    have "img ! (64 * 512 + i) = ?c ! (64 * 512 + i)" using that by (intro nth) simp_all
    also have "\<dots> = (?pre @ vol @ replicate gap 0) ! (length ?pre + i)" using assms(1) by simp
    also have "\<dots> = vol ! i" unfolding nth_append_length_plus using that by (simp add: nth_append)
    finally show ?thesis .
  qed
  moreover have "img ! i = 0" if "i < length img" "length mbr \<le> i \<and> i < 64 * 512 \<or> 64 * 512 + length vol \<le> i" for i
  proof -
    have "img ! i = ?c ! i" using that assms(1,2) len by (intro nth) auto
    also have "\<dots> = 0" using that assms(1) len by (auto simp: nth_append)
    finally show ?thesis .
  qed
  ultimately show ?thesis using gap len by simp
qed

text \<open>C23. The disk image: for a boot record of one to 64 sectors and a volume below 1 TiB the image is the boot record with the partition
  record at offset 1be, the volume from sector 64 on, and zeros between the two and behind the volume, up to the first
  multiple of the cylinder size that has room for the volume; the record
  holds the first sector and the number of whole sectors of the volume as 32-bit numbers.\<close>

theorem mkimage_places_volume:
  assumes "length mbr \<le> 32768" and "512 \<le> length mbr" and "length vol < 2 ^ 40" and "img = mkimage mbr vol"
  shows "(\<forall>i<length mbr. i < 0x1be \<or> 0x1ce \<le> i \<longrightarrow> img ! i = mbr ! i) \<and> (\<forall>i<length vol. img ! (64 * 512 + i) = vol ! i)
    \<and> word_le (take 4 (drop (0x1be + 8) img)) = (64 :: u32)
    \<and> word_le (take 4 (drop (0x1be + 12) img)) = (of_nat (length vol div 512) :: u32)
    \<and> length img mod (512 * 63 * 256) = 0 \<and> 64 * 512 + length vol \<le> length img
    \<and> length img < 64 * 512 + length vol + 512 * 63 * 256
    \<and> (\<forall>i<length img. length mbr \<le> i \<and> i < 64 * 512 \<or> 64 * 512 + length vol \<le> i \<longrightarrow> img ! i = 0)"
  using mkimage_image [OF assms] by blast

lemma mkimage_places_volume_witness:
  "word_le (take 4 (drop (0x1be + 12) (mkimage (replicate 512 7) (replicate 1024 9)))) = (2 :: u32)
   \<and> mkimage (replicate 512 7) (replicate 1024 9) ! 32768 = 9"
proof -
  have "\<forall>i<1024. mkimage (replicate 512 7) (replicate 1024 9) ! (64 * 512 + i) = replicate 1024 9 ! i"
    using mkimage_places_volume [OF _ _ _ refl, of "replicate 512 7" "replicate 1024 9"] by simp
  from spec [OF this, of 0] have "mkimage (replicate 512 7) (replicate 1024 9) ! (64 * 512 + 0) = replicate 1024 9 ! 0" by simp
  with mkimage_places_volume [OF _ _ _ refl, of "replicate 512 7" "replicate 1024 9"] show ?thesis by simp
qed

end
