(* ===== verification/MkVolume.thy ===== *)
theory MkVolume
  imports InitRam
begin

text \<open>
  The tool that writes a volume of the Miaou file system (tools/mkvolume.c), on the page layout of
  include/fusee/mfs.h. The volume is a byte memory with its first page at address 0; \<open>None\<close> is
  \<open>exit(1)\<close> or the use of a host file that cannot be opened. Host files are a parameter as in \<open>InitRam\<close>, and so is
  the time of day. The bounds of \<open>namebuf\<close> in \<open>copy_file\<close>, 1024 bytes, are not modelled: the theorems ask for shorter paths.
\<close>

section \<open>Layout\<close>

definition MFS_PAGE_SIZE :: u64 where "MFS_PAGE_SIZE = 4096"
definition MFS_RESERVED_PAGES :: u64 where "MFS_RESERVED_PAGES = 64"
definition MFS_METADATA_PAGE :: u64 where "MFS_METADATA_PAGE = 63"
definition MFS_BITMAP_SIZE :: u64 where "MFS_BITMAP_SIZE = 32768"
definition MFS_DATA_POINTERS :: u64 where "MFS_DATA_POINTERS = 16"
definition MFS_IDATA_POINTERS :: u64 where "MFS_IDATA_POINTERS = 512"
definition MFS_TYPE_FILE :: u32 where "MFS_TYPE_FILE = 0x00000000"
definition MFS_TYPE_DIR :: u32 where "MFS_TYPE_DIR = 0x00010000"

text \<open>Fields of \<open>MfsPageFile\<close>, \<open>MfsPageMetadata\<close> and \<open>MfsDirEntry\<close>, by their offsets.\<close>

definition file_size_at :: "u64 \<Rightarrow> u64" where "file_size_at file = file + 16"
definition file_data_at :: "u64 \<Rightarrow> u64 \<Rightarrow> u64" where "file_data_at file i = file + 56 + 8 * i"
definition file_idata_at :: "u64 \<Rightarrow> u64" where "file_idata_at file = file + 184"
definition inodes_at :: "u64 \<Rightarrow> u64 \<Rightarrow> u64" where "inodes_at page i = page + 8 * i"

definition MFS_MAGIC :: "u8 list" where "MFS_MAGIC = [77, 101, 111, 119]"

definition dir_entry :: "u64 \<Rightarrow> u32 \<Rightarrow> u8 list" where
  "dir_entry inode namelen = bytes_le 8 inode @ bytes_le 4 namelen"

section \<open>Volumes and open files\<close>

record MfsVolume =
  v_size :: u64
  v_data :: mem
  v_now :: u64
  v_root :: u64
  next_inode :: u64

text \<open>\<open>mf_file\<close>: the address of the page of the file.\<close>

record MfsFile =
  mf_file :: u64
  mf_pos :: u64

definition inode_page :: "u64 \<Rightarrow> u64" where
  "inode_page inode = (MFS_RESERVED_PAGES + inode) * MFS_PAGE_SIZE"

definition alloc_page :: "MfsVolume \<Rightarrow> u64 \<times> MfsVolume" where
  "alloc_page v =
     (let n = next_inode v + 1;
          n = (if n mod MFS_BITMAP_SIZE = 0 then n + 1 else n);
          b = n mod MFS_BITMAP_SIZE;
          bitmap = n div MFS_BITMAP_SIZE * MFS_BITMAP_SIZE;
          a = inode_page bitmap + b div 8
      in (n, v\<lparr>next_inode := n,
               v_data := (v_data v)(a := v_data v a OR push_bit (unat (b mod 8)) 1)\<rparr>))"

definition inode_open :: "u64 \<Rightarrow> MfsFile" where
  "inode_open inode = \<lparr>mf_file = inode_page inode, mf_pos = 0\<rparr>"

text \<open>The pointer at \<open>p\<close>, a page allocated and stored there when it is null.\<close>

definition pointer_or_alloc :: "u64 \<Rightarrow> MfsVolume \<Rightarrow> u64 \<times> MfsVolume" where
  "pointer_or_alloc p v =
     (if load64 (v_data v) p = 0
      then (let (inode, v) = alloc_page v in (inode, v\<lparr>v_data := store64 (v_data v) p inode\<rparr>))
      else (load64 (v_data v) p, v))"

definition ptr_from_data_index :: "u64 \<Rightarrow> u64 \<Rightarrow> MfsVolume \<Rightarrow> (u64 \<times> MfsVolume) option" where
  "ptr_from_data_index file index v =
     (if index < 16 then
        (let (inode, v) = pointer_or_alloc (file_data_at file index) v in Some (inode_page inode, v))
      else if index < MFS_IDATA_POINTERS + 16 then
        (let (inode, v) = pointer_or_alloc (file_idata_at file) v;
             (inode, v) = pointer_or_alloc (inodes_at (inode_page inode) (index - 16)) v
         in Some (inode_page inode, v))
      else None)"

section \<open>Reading and writing\<close>

definition peek_bytes :: "mem \<Rightarrow> u64 \<Rightarrow> nat \<Rightarrow> u8 list" where
  "peek_bytes m a n = map (\<lambda>i. m (a + of_nat i)) [0..<n]"

definition poke_bytes :: "u64 \<Rightarrow> u8 list \<Rightarrow> mem \<Rightarrow> mem" where
  "poke_bytes a bs m = for_n (length bs) (\<lambda>i m. m(a + of_nat i := bs ! i)) m"

text \<open>The loop of \<open>file_read\<close>; what was put in the buffer so far comes first in the result.\<close>

partial_function (option) file_read_from :: "u8 list \<Rightarrow> MfsFile \<Rightarrow> u64 \<Rightarrow> MfsVolume \<Rightarrow> (u8 list \<times> MfsFile \<times> MfsVolume) option" where
  "file_read_from buf f len v =
     (if len = 0 \<or> mf_pos f = load64 (v_data v) (file_size_at (mf_file f)) then Some (buf, f, v)
      else (case ptr_from_data_index (mf_file f) (mf_pos f div MFS_PAGE_SIZE) v of
              None \<Rightarrow> None
            | Some (p, v) \<Rightarrow>
                (let page_offset = mf_pos f mod MFS_PAGE_SIZE;
                     tmp = MFS_PAGE_SIZE - page_offset;
                     tmp = (if tmp > len then len else tmp);
                     sz = load64 (v_data v) (file_size_at (mf_file f));
                     tmp = (if tmp + mf_pos f > sz then sz - mf_pos f else tmp)
                 in file_read_from (buf @ peek_bytes (v_data v) (p + page_offset) (unat tmp))
                      (f\<lparr>mf_pos := mf_pos f + tmp\<rparr>) (len - tmp) v)))"

definition file_read :: "MfsFile \<Rightarrow> u64 \<Rightarrow> MfsVolume \<Rightarrow> (u8 list \<times> MfsFile \<times> MfsVolume) option" where
  "file_read f len v = file_read_from [] f len v"

partial_function (option) file_write_from :: "u8 list \<Rightarrow> nat \<Rightarrow> MfsFile \<Rightarrow> u64 \<Rightarrow> MfsVolume \<Rightarrow> (MfsFile \<times> MfsVolume) option" where
  "file_write_from buf res f len v =
     (if len = 0 then Some (f, v)
      else (case ptr_from_data_index (mf_file f) (mf_pos f div MFS_PAGE_SIZE) v of
              None \<Rightarrow> None
            | Some (p, v) \<Rightarrow>
                (let page_offset = mf_pos f mod MFS_PAGE_SIZE;
                     tmp = MFS_PAGE_SIZE - page_offset;
                     tmp = (if tmp > len then len else tmp);
                     m = poke_bytes (p + page_offset) (take (unat tmp) (drop res buf)) (v_data v);
                     m = store64 m (file_size_at (mf_file f)) (load64 m (file_size_at (mf_file f)) + tmp)
                 in file_write_from buf (res + unat tmp) (f\<lparr>mf_pos := mf_pos f + tmp\<rparr>) (len - tmp) (v\<lparr>v_data := m\<rparr>))))"

definition file_write :: "u8 list \<Rightarrow> MfsFile \<Rightarrow> MfsVolume \<Rightarrow> (MfsFile \<times> MfsVolume) option" where
  "file_write buf f v = file_write_from buf 0 f (of_nat (length buf)) v"

section \<open>Files and directories\<close>

definition create_file_raw :: "u32 \<Rightarrow> MfsVolume \<Rightarrow> u64 \<times> MfsVolume" where
  "create_file_raw mode v =
     (let (inode, v) = alloc_page v;
          file = inode_page inode;
          m = store32 (v_data v) file mode;
          m = store64 m (file + 24) (v_now v);
          m = store64 m (file + 32) (v_now v);
          m = store64 m (file + 40) (v_now v);
          m = store64 m (file + 48) (v_now v)
      in (inode, v\<lparr>v_data := m\<rparr>))"

definition create_directory :: "MfsVolume \<Rightarrow> u64 \<times> MfsVolume" where
  "create_directory v = create_file_raw (MFS_TYPE_DIR OR 0x1ed) v"

definition create_file :: "MfsVolume \<Rightarrow> u64 \<times> MfsVolume" where
  "create_file v = create_file_raw (MFS_TYPE_FILE OR 0x1a4) v"

text \<open>\<open>strncmp(a, b, n) == 0\<close> on the bytes from \<open>a\<close> and \<open>b\<close> on.\<close>

fun strncmp_eq :: "u8 list \<Rightarrow> u8 list \<Rightarrow> nat \<Rightarrow> bool" where
  "strncmp_eq as bs 0 = True"
| "strncmp_eq (a # as) (b # bs) (Suc n) = (a = b \<and> (a = 0 \<or> strncmp_eq as bs n))"
| "strncmp_eq _ _ (Suc n) = False"

text \<open>A read into the front of a buffer.\<close>

definition over :: "u8 list \<Rightarrow> u8 list \<Rightarrow> u8 list" where
  "over bs buf = bs @ drop (length bs) buf"

partial_function (option) find_file_from :: "u8 list \<Rightarrow> u8 list \<Rightarrow> MfsFile \<Rightarrow> u8 list \<Rightarrow> MfsVolume \<Rightarrow> (u64 \<times> MfsVolume) option" where
  "find_file_from entry namebuf f name v =
     (if mf_pos f = load64 (v_data v) (file_size_at (mf_file f)) then Some (0, v)
      else (case file_read f 12 v of
              None \<Rightarrow> None
            | Some (bs, f, v) \<Rightarrow>
                (let entry = over bs entry; namelen = (word_le (take 4 (drop 8 entry)) :: u32)
                 in case file_read f (ucast namelen) v of
                      None \<Rightarrow> None
                    | Some (bs, f, v) \<Rightarrow>
                        (let namebuf = over bs namebuf
                         in if strncmp_eq namebuf (name @ [0]) (unat namelen) then Some (word_le (take 8 entry), v)
                            else find_file_from entry namebuf f name v))))"

definition find_file_dir :: "u64 \<Rightarrow> u8 list \<Rightarrow> MfsVolume \<Rightarrow> (u64 \<times> MfsVolume) option" where
  "find_file_dir dir_inode name v =
     find_file_from (replicate 12 0) (replicate 1024 0) (inode_open dir_inode) name v"

definition append_dir :: "u64 \<Rightarrow> u8 list \<Rightarrow> u64 \<Rightarrow> MfsVolume \<Rightarrow> MfsVolume option" where
  "append_dir dir_inode name file_inode v =
     (let f = inode_open dir_inode;
          f = f\<lparr>mf_pos := load64 (v_data v) (file_size_at (mf_file f))\<rparr>
      in case file_write (dir_entry file_inode (of_nat (length name))) f v of
           None \<Rightarrow> None
         | Some (f, v) \<Rightarrow> map_option snd (file_write name f v))"

section \<open>The volume\<close>

definition make_volume :: "int \<Rightarrow> u64 \<Rightarrow> MfsVolume" where
  "make_volume sz time =
     (let sz = (sz + 4096 - 1) div 4096 * 4096;
          meta = MFS_METADATA_PAGE * MFS_PAGE_SIZE;
          m = poke_bytes meta MFS_MAGIC (\<lambda>_. 0);
          m = store32 m (meta + 4) 0x01000000;
          m = store64 m (meta + 8) (of_int sz div MFS_PAGE_SIZE);
          (root, v) = create_directory \<lparr>v_size = of_int sz, v_data = m, v_now = time, v_root = 0, next_inode = 0\<rparr>
      in v\<lparr>v_data := store64 (v_data v) (meta + 16) root, v_root := root\<rparr>)"

text \<open>The loop of \<open>make_vbr\<close>, one \<open>fread\<close> of at most a buffer at a time.\<close>

function vbr_from :: "u8 list \<Rightarrow> u64 \<Rightarrow> mem \<Rightarrow> mem" where
  "vbr_from bs p m =
     (let chunk = take 4096 bs
      in if chunk = [] then m else vbr_from (drop 4096 bs) (p + of_nat (length chunk)) (poke_bytes p chunk m))"
  by pat_completeness auto
termination
  by (relation "measure (\<lambda>(bs, p, m). length bs)") auto

definition make_vbr :: "u8 list \<Rightarrow> MfsVolume \<Rightarrow> MfsVolume" where
  "make_vbr bs v = v\<lparr>v_data := vbr_from bs 0 (v_data v)\<rparr>"

text \<open>
  The loop of \<open>copy_file\<close> over the path: the characters to go, the component so far and the
  directory reached. The result is the directory and the last component.
\<close>

definition SLASH :: u8 where "SLASH = 47"

fun copy_dirs :: "u8 list \<Rightarrow> u8 list \<Rightarrow> u64 \<Rightarrow> MfsVolume \<Rightarrow> (u64 \<times> u8 list \<times> MfsVolume) option" where
  "copy_dirs [] e dir_inode v = Some (dir_inode, e, v)"
| "copy_dirs (c # cs) e dir_inode v =
     (if c = SLASH
      then (case find_file_dir dir_inode e v of
              None \<Rightarrow> None
            | Some (tmp, v) \<Rightarrow>
                if tmp = 0
                then (let (tmp, v) = create_directory v
                      in case append_dir dir_inode e tmp v of
                           None \<Rightarrow> None
                         | Some v \<Rightarrow> copy_dirs cs [] tmp v)
                else copy_dirs cs [] tmp v)
      else copy_dirs cs (e @ [c]) dir_inode v)"

function write_chunks :: "u8 list \<Rightarrow> MfsFile \<Rightarrow> MfsVolume \<Rightarrow> (MfsFile \<times> MfsVolume) option" where
  "write_chunks bs f v =
     (let chunk = take 4096 bs
      in if chunk = [] then Some (f, v)
         else (case file_write chunk f v of None \<Rightarrow> None | Some (f, v) \<Rightarrow> write_chunks (drop 4096 bs) f v))"
  by pat_completeness auto
termination
  by (relation "measure (\<lambda>(bs, f, v). length bs)") auto

declare vbr_from.simps [simp del] write_chunks.simps [simp del]

definition copy_file :: "u8 list \<Rightarrow> u8 list \<Rightarrow> MfsVolume \<Rightarrow> MfsVolume option" where
  "copy_file path bytes v =
     (let path = (case path of c # cs \<Rightarrow> if c = SLASH then cs else path | [] \<Rightarrow> path)
      in case copy_dirs path [] (v_root v) v of
           None \<Rightarrow> None
         | Some (dir_inode, e, v) \<Rightarrow>
             (let (file_inode, v) = create_file v
              in case write_chunks bytes (inode_open file_inode) v of
                   None \<Rightarrow> None
                 | Some (_, v) \<Rightarrow> append_dir dir_inode e file_inode v))"

fun copy_files :: "host_files \<Rightarrow> Spec list \<Rightarrow> MfsVolume \<Rightarrow> MfsVolume option" where
  "copy_files fs [] v = Some v"
| "copy_files fs (sp # sps) v =
     (case fs (c_str (src sp)) of
        None \<Rightarrow> None
      | Some bytes \<Rightarrow> (case copy_file (c_str (dst sp)) bytes v of None \<Rightarrow> None | Some v \<Rightarrow> copy_files fs sps v))"

definition mkvolume :: "host_files \<Rightarrow> int \<Rightarrow> u64 \<Rightarrow> u8 list \<Rightarrow> u8 list \<Rightarrow> u8 list option" where
  "mkvolume fs sz time vbr spec =
     (case parse_specs (opened spec) of
        None \<Rightarrow> None
      | Some sps \<Rightarrow> map_option (\<lambda>v. peek_bytes (v_data v) 0 (unat (v_size v)))
          (copy_files fs sps (make_vbr vbr (make_volume sz time))))"

end
