(* ===== verification/Video.thy ===== *)
theory Video
  imports CString
begin

text \<open>
  Text output (src/libboot/video): the screen state of \<open>BootVideo\<close>, the two modes of the frame
  buffer as writes to the byte memory, and the cursor. No character leaves the frame buffer.
\<close>

section \<open>State\<close>

record BootVideo =
  mode :: u32
  width :: u16
  height :: u16
  bpp :: u8
  pitch :: u32
  text_cursor_x :: u16
  text_cursor_y :: u16
  text_max_x :: u16
  text_max_y :: u16
  framebuffer :: u64

type_synonym screen = "BootVideo \<times> mem"

definition FONT_W :: u32 where "FONT_W = 8"
definition FONT_H :: u32 where "FONT_H = 8"
definition VIDEO_MODE_TEXT :: u32 where "VIDEO_MODE_TEXT = 0"
definition VIDEO_MODE_GFX :: u32 where "VIDEO_MODE_GFX = 1"

text \<open>The glyphs of the 128 ASCII characters, eight rows each (font.c).\<close>

definition gFont :: "u16 list" where
  "gFont = [
     0, 0, 0, 0, 0, 0, 0, 0, 0, 0, 0, 0, 0, 0, 0, 0, 0, 0, 0, 0, 0, 0, 0, 0,
     0, 0, 0, 0, 0, 0, 0, 0, 0, 0, 0, 0, 0, 0, 0, 0, 0, 0, 0, 0, 0, 0, 0, 0,
     0, 0, 0, 0, 0, 0, 0, 0, 0, 0, 0, 0, 0, 0, 0, 0, 0, 0, 0, 0, 0, 0, 0, 0,
     0, 0, 0, 0, 0, 0, 0, 0, 0, 0, 0, 0, 0, 0, 0, 0, 0, 0, 0, 0, 0, 0, 0, 0,
     0, 0, 0, 0, 0, 0, 0, 0, 0, 0, 0, 0, 0, 0, 0, 0, 0, 0, 0, 0, 0, 0, 0, 0,
     0, 0, 0, 0, 0, 0, 0, 0, 0, 0, 0, 0, 0, 0, 0, 0, 0, 0, 0, 0, 0, 0, 0, 0,
     0, 0, 0, 0, 0, 0, 0, 0, 0, 0, 0, 0, 0, 0, 0, 0, 0, 0, 0, 0, 0, 0, 0, 0,
     0, 0, 0, 0, 0, 0, 0, 0, 0, 0, 0, 0, 0, 0, 0, 0, 0, 0, 0, 0, 0, 0, 0, 0,
     0, 0, 0, 0, 0, 0, 0, 0, 0, 0, 0, 0, 0, 0, 0, 0, 0, 0, 0, 0, 0, 0, 0, 0,
     0, 0, 0, 0, 0, 0, 0, 0, 0, 0, 0, 0, 0, 0, 0, 0, 0, 0, 0, 0, 0, 0, 0, 0,
     0, 0, 0, 0, 0, 0, 0, 0, 0, 0, 0, 0, 0, 0, 0, 0, 0, 0, 0, 0, 0, 0, 0, 0,
     0x18, 0x3c, 0x3c, 0x18, 0x18, 0, 0x18, 0, 0x36, 0x36, 0, 0, 0, 0, 0, 0, 0x36, 0x36, 0x7f, 0x36, 0x7f, 0x36, 0x36, 0,
     0x0c, 0x3e, 3, 0x1e, 0x30, 0x1f, 0x0c, 0, 0, 0x63, 0x33, 0x18, 0x0c, 0x66, 0x63, 0, 0x1c, 0x36, 0x1c, 0x6e, 0x3b, 0x33, 0x6e, 0,
     6, 6, 3, 0, 0, 0, 0, 0, 0x18, 0x0c, 6, 6, 6, 0x0c, 0x18, 0, 6, 0x0c, 0x18, 0x18, 0x18, 0x0c, 6, 0,
     0, 0x66, 0x3c, 0xff, 0x3c, 0x66, 0, 0, 0, 0x0c, 0x0c, 0x3f, 0x0c, 0x0c, 0, 0, 0, 0, 0, 0, 0, 0x0c, 0x0c, 6,
     0, 0, 0, 0x3f, 0, 0, 0, 0, 0, 0, 0, 0, 0, 0x0c, 0x0c, 0, 0x60, 0x30, 0x18, 0x0c, 6, 3, 1, 0,
     0x3e, 0x63, 0x73, 0x7b, 0x6f, 0x67, 0x3e, 0, 0x0c, 0x0e, 0x0c, 0x0c, 0x0c, 0x0c, 0x3f, 0, 0x1e, 0x33, 0x30, 0x1c, 6, 0x33, 0x3f, 0,
     0x1e, 0x33, 0x30, 0x1c, 0x30, 0x33, 0x1e, 0, 0x38, 0x3c, 0x36, 0x33, 0x7f, 0x30, 0x78, 0, 0x3f, 3, 0x1f, 0x30, 0x30, 0x33, 0x1e, 0,
     0x1c, 6, 3, 0x1f, 0x33, 0x33, 0x1e, 0, 0x3f, 0x33, 0x30, 0x18, 0x0c, 0x0c, 0x0c, 0, 0x1e, 0x33, 0x33, 0x1e, 0x33, 0x33, 0x1e, 0,
     0x1e, 0x33, 0x33, 0x3e, 0x30, 0x18, 0x0e, 0, 0, 0x0c, 0x0c, 0, 0, 0x0c, 0x0c, 0, 0, 0x0c, 0x0c, 0, 0, 0x0c, 0x0c, 6,
     0x18, 0x0c, 6, 3, 6, 0x0c, 0x18, 0, 0, 0, 0x3f, 0, 0, 0x3f, 0, 0, 6, 0x0c, 0x18, 0x30, 0x18, 0x0c, 6, 0,
     0x1e, 0x33, 0x30, 0x18, 0x0c, 0, 0x0c, 0, 0x3e, 0x63, 0x7b, 0x7b, 0x7b, 3, 0x1e, 0, 0x0c, 0x1e, 0x33, 0x33, 0x3f, 0x33, 0x33, 0,
     0x3f, 0x66, 0x66, 0x3e, 0x66, 0x66, 0x3f, 0, 0x3c, 0x66, 3, 3, 3, 0x66, 0x3c, 0, 0x1f, 0x36, 0x66, 0x66, 0x66, 0x36, 0x1f, 0,
     0x7f, 0x46, 0x16, 0x1e, 0x16, 0x46, 0x7f, 0, 0x7f, 0x46, 0x16, 0x1e, 0x16, 6, 0x0f, 0, 0x3c, 0x66, 3, 3, 0x73, 0x66, 0x7c, 0,
     0x33, 0x33, 0x33, 0x3f, 0x33, 0x33, 0x33, 0, 0x1e, 0x0c, 0x0c, 0x0c, 0x0c, 0x0c, 0x1e, 0, 0x78, 0x30, 0x30, 0x30, 0x33, 0x33, 0x1e, 0,
     0x67, 0x66, 0x36, 0x1e, 0x36, 0x66, 0x67, 0, 0x0f, 6, 6, 6, 0x46, 0x66, 0x7f, 0, 0x63, 0x77, 0x7f, 0x7f, 0x6b, 0x63, 0x63, 0,
     0x63, 0x67, 0x6f, 0x7b, 0x73, 0x63, 0x63, 0, 0x1c, 0x36, 0x63, 0x63, 0x63, 0x36, 0x1c, 0, 0x3f, 0x66, 0x66, 0x3e, 6, 6, 0x0f, 0,
     0x1e, 0x33, 0x33, 0x33, 0x3b, 0x1e, 0x38, 0, 0x3f, 0x66, 0x66, 0x3e, 0x36, 0x66, 0x67, 0, 0x1e, 0x33, 7, 0x0e, 0x38, 0x33, 0x1e, 0,
     0x3f, 0x2d, 0x0c, 0x0c, 0x0c, 0x0c, 0x1e, 0, 0x33, 0x33, 0x33, 0x33, 0x33, 0x33, 0x3f, 0, 0x33, 0x33, 0x33, 0x33, 0x33, 0x1e, 0x0c, 0,
     0x63, 0x63, 0x63, 0x6b, 0x7f, 0x77, 0x63, 0, 0x63, 0x63, 0x36, 0x1c, 0x1c, 0x36, 0x63, 0, 0x33, 0x33, 0x33, 0x1e, 0x0c, 0x0c, 0x1e, 0,
     0x7f, 0x63, 0x31, 0x18, 0x4c, 0x66, 0x7f, 0, 0x1e, 6, 6, 6, 6, 6, 0x1e, 0, 3, 6, 0x0c, 0x18, 0x30, 0x60, 0x40, 0,
     0x1e, 0x18, 0x18, 0x18, 0x18, 0x18, 0x1e, 0, 8, 0x1c, 0x36, 0x63, 0, 0, 0, 0, 0, 0, 0, 0, 0, 0, 0, 0xff,
     0x0c, 0x0c, 0x18, 0, 0, 0, 0, 0, 0, 0, 0x1e, 0x30, 0x3e, 0x33, 0x6e, 0, 7, 6, 6, 0x3e, 0x66, 0x66, 0x3b, 0,
     0, 0, 0x1e, 0x33, 3, 0x33, 0x1e, 0, 0x38, 0x30, 0x30, 0x3e, 0x33, 0x33, 0x6e, 0, 0, 0, 0x1e, 0x33, 0x3f, 3, 0x1e, 0,
     0x1c, 0x36, 6, 0x0f, 6, 6, 0x0f, 0, 0, 0, 0x6e, 0x33, 0x33, 0x3e, 0x30, 0x1f, 7, 6, 0x36, 0x6e, 0x66, 0x66, 0x67, 0,
     0x0c, 0, 0x0e, 0x0c, 0x0c, 0x0c, 0x1e, 0, 0x30, 0, 0x30, 0x30, 0x30, 0x33, 0x33, 0x1e, 7, 6, 0x66, 0x36, 0x1e, 0x36, 0x67, 0,
     0x0e, 0x0c, 0x0c, 0x0c, 0x0c, 0x0c, 0x1e, 0, 0, 0, 0x33, 0x7f, 0x7f, 0x6b, 0x63, 0, 0, 0, 0x1f, 0x33, 0x33, 0x33, 0x33, 0,
     0, 0, 0x1e, 0x33, 0x33, 0x33, 0x1e, 0, 0, 0, 0x3b, 0x66, 0x66, 0x3e, 6, 0x0f, 0, 0, 0x6e, 0x33, 0x33, 0x3e, 0x30, 0x78,
     0, 0, 0x3b, 0x6e, 0x66, 6, 0x0f, 0, 0, 0, 0x3e, 3, 0x1e, 0x30, 0x1f, 0, 8, 0x0c, 0x3e, 0x0c, 0x0c, 0x2c, 0x18, 0,
     0, 0, 0x33, 0x33, 0x33, 0x33, 0x6e, 0, 0, 0, 0x33, 0x33, 0x33, 0x1e, 0x0c, 0, 0, 0, 0x63, 0x6b, 0x7f, 0x7f, 0x36, 0,
     0, 0, 0x63, 0x36, 0x1c, 0x36, 0x63, 0, 0, 0, 0x33, 0x33, 0x33, 0x3e, 0x30, 0x1f, 0, 0, 0x3f, 0x19, 0x0c, 0x26, 0x3f, 0,
     0x38, 0x0c, 0x0c, 7, 0x0c, 0x0c, 0x38, 0, 0x18, 0x18, 0x18, 0, 0x18, 0x18, 0x18, 0, 7, 0x0c, 0x0c, 0x38, 0x0c, 0x0c, 7, 0,
     0x6e, 0x3b, 0, 0, 0, 0, 0, 0, 0, 0, 0, 0, 0, 0, 0, 0]"

section \<open>Text mode\<close>

definition text_cell :: "BootVideo \<Rightarrow> nat \<Rightarrow> u64" where
  "text_cell v i = framebuffer v + of_nat (2 * i)"

definition video_text_putchar :: "u8 \<Rightarrow> u16 \<Rightarrow> u16 \<Rightarrow> screen \<Rightarrow> screen" where
  "video_text_putchar c x y = (\<lambda>(v, m).
     (v, store16 m (text_cell v (unat y * unat (text_max_x v) + unat x)) (0x0f00 OR ucast c)))"

definition video_text_scroll :: "screen \<Rightarrow> screen" where
  "video_text_scroll = (\<lambda>(v, m).
     let w = unat (text_max_x v);
         tmp = w * (unat (text_max_y v) - 1);
         m = for_n tmp (\<lambda>i m. store16 m (text_cell v i) (load16 m (text_cell v (i + w)))) m
     in (v, for_n w (\<lambda>i m. store16 m (text_cell v (tmp + i)) 0) m))"

section \<open>Graphical mode\<close>

definition video_gfx_putchar :: "u8 \<Rightarrow> u16 \<Rightarrow> u16 \<Rightarrow> screen \<Rightarrow> screen" where
  "video_gfx_putchar c x y = (\<lambda>(v, m).
     let ptr = framebuffer v + ucast ((ucast y :: u32) * FONT_H * pitch v) + of_nat (unat x * 8 * 4)
     in (v, for_n 8 (\<lambda>j m. for_n 8 (\<lambda>i m.
              store32 m (ptr + of_nat j * ucast (pitch v) + of_nat (4 * i))
                (if bit (gFont ! (unat c * 8 + j)) i then 0xffffffff else 0)) m) m))"

definition video_gfx_scroll :: "screen \<Rightarrow> screen" where
  "video_gfx_scroll s = s"

section \<open>The cursor\<close>

definition handler_putchar :: "u32 \<Rightarrow> u8 \<Rightarrow> u16 \<Rightarrow> u16 \<Rightarrow> screen \<Rightarrow> screen" where
  "handler_putchar md = (if md = VIDEO_MODE_TEXT then video_text_putchar else video_gfx_putchar)"

definition handler_scroll :: "u32 \<Rightarrow> screen \<Rightarrow> screen" where
  "handler_scroll md = (if md = VIDEO_MODE_TEXT then video_text_scroll else video_gfx_scroll)"

definition video_init :: "screen \<Rightarrow> screen" where
  "video_init = (\<lambda>(v, m).
     for_n 25 (\<lambda>_. video_text_scroll)
       (v\<lparr>mode := VIDEO_MODE_TEXT, text_cursor_x := 0, text_cursor_y := 0, text_max_x := 80, text_max_y := 25,
          framebuffer := 0xb8000\<rparr>, m))"

definition video_set_graphical_mode :: "u64 \<Rightarrow> u16 \<Rightarrow> u16 \<Rightarrow> u8 \<Rightarrow> u32 \<Rightarrow> BootVideo \<Rightarrow> BootVideo" where
  "video_set_graphical_mode fb w h b p v =
     v\<lparr>mode := VIDEO_MODE_GFX, framebuffer := fb, width := w, height := h, bpp := b, pitch := p,
       text_cursor_x := 0, text_cursor_y := 0, text_max_x := w div 8, text_max_y := h div 8\<rparr>"

definition wrap_line :: "BootVideo \<Rightarrow> BootVideo" where
  "wrap_line v = (if text_cursor_x v = text_max_x v then v\<lparr>text_cursor_x := 0, text_cursor_y := text_cursor_y v + 1\<rparr> else v)"

definition video_putchar :: "u8 \<Rightarrow> screen \<Rightarrow> screen" where
  "video_putchar c = (\<lambda>(v, m).
     let md = mode v;
         v = wrap_line v;
         (v, m) = (if text_cursor_y v = text_max_y v
                   then handler_scroll md (v\<lparr>text_cursor_y := text_cursor_y v - 1\<rparr>, m) else (v, m))
     in if c = 10 then (v\<lparr>text_cursor_x := 0, text_cursor_y := text_cursor_y v + 1\<rparr>, m)
        else (let (v, m) = handler_putchar md c (text_cursor_x v) (text_cursor_y v) (v, m)
              in (v\<lparr>text_cursor_x := text_cursor_x v + 1\<rparr>, m)))"

section \<open>Nothing outside the frame buffer is written\<close>

lemma same_outside_store:
  assumes "same_outside a n m m'" and "off + k \<le> n" and "n \<le> 2 ^ 64"
  shows "same_outside a n m (store k m' (a + of_nat off) w)"
  unfolding same_outside_def
proof (intro allI impI)
  fix x assume x: "\<not> in_range a n x"
  then have "\<not> in_range (a + of_nat off) k x" using in_subrange [OF assms(2,3)] by blast
  then have "store k m' (a + of_nat off) w x = m' x" by (rule store_outside)
  with x assms(1) show "store k m' (a + of_nat off) w x = m x" by (simp add: same_outside_def)
qed

lemma same_outside_for:
  assumes "\<And>i t. i < k \<Longrightarrow> same_outside a n m t \<Longrightarrow> same_outside a n m (f i t)" and "same_outside a n m m0"
  shows "same_outside a n m (for_n k f m0)"
  using assms by (intro for_n_invariant [where P = "\<lambda>_. same_outside a n m"]) auto

definition frame_bytes :: "BootVideo \<Rightarrow> nat" where
  "frame_bytes v = (if mode v = VIDEO_MODE_TEXT then 2 * (unat (text_max_x v) * unat (text_max_y v))
     else unat (pitch v) * unat (height v))"

text \<open>The modes the boot code sets up: the cursor on the screen, and a graphical screen that holds its rows.\<close>

definition screen_ok :: "BootVideo \<Rightarrow> bool" where
  "screen_ok v \<longleftrightarrow> mode v \<in> {VIDEO_MODE_TEXT, VIDEO_MODE_GFX} \<and> 0 < text_max_x v \<and> 0 < text_max_y v
     \<and> text_cursor_x v \<le> text_max_x v \<and> text_cursor_y v \<le> text_max_y v
     \<and> (text_cursor_y v = text_max_y v \<longrightarrow> text_cursor_x v = 0)
     \<and> (mode v = VIDEO_MODE_GFX \<longrightarrow> 8 * unat (text_max_x v) * 4 \<le> unat (pitch v)
          \<and> 8 * unat (text_max_y v) \<le> unat (height v) \<and> unat (pitch v) * unat (height v) < 2 ^ 32)"

lemma unat_u16_bound: "unat (w :: u16) < 2 ^ 16"
  using unsigned_less [where w = w and 'a = nat] by simp

lemma mult_less_bound: "(a :: nat) < 2 ^ 16 \<Longrightarrow> b < 2 ^ 16 \<Longrightarrow> a * b < 2 ^ 32"
proof -
  assume "a < 2 ^ 16" "b < 2 ^ 16"
  then have "a * b < 2 ^ 16 * 2 ^ 16" by (intro mult_strict_mono) auto
  then show ?thesis by simp
qed

lemma frame_bytes_bound: "screen_ok v \<Longrightarrow> frame_bytes v \<le> 2 ^ 64"
  using mult_less_bound [OF unat_u16_bound unat_u16_bound, of "text_max_x v" "text_max_y v"]
  by (auto simp: frame_bytes_def screen_ok_def)

lemma cell_in_frame: "(y :: nat) < h \<Longrightarrow> x < w \<Longrightarrow> y * w + x < w * h"
proof -
  assume "y < h" "x < w"
  then have "y * w + x < Suc y * w" by simp
  also have "\<dots> \<le> h * w" using \<open>y < h\<close> by (intro mult_le_mono1) simp
  finally show ?thesis by (simp add: mult.commute)
qed

lemma text_scroll_inside:
  assumes "screen_ok v" and "mode v = VIDEO_MODE_TEXT"
  shows "video_text_scroll (v, m) = (v, snd (video_text_scroll (v, m)))"
    and "same_outside (framebuffer v) (frame_bytes v) m (snd (video_text_scroll (v, m)))"
proof -
  let ?w = "unat (text_max_x v)" and ?h = "unat (text_max_y v)"
  have h: "0 < ?h" using assms(1) by (simp add: screen_ok_def word_less_nat_alt)
  then have wh: "?w * (?h - 1) + ?w = ?w * ?h" by (cases ?h) simp_all
  have n: "frame_bytes v = 2 * (?w * ?h)" using assms(2) by (simp add: frame_bytes_def)
  have st: "same_outside (framebuffer v) (frame_bytes v) m (store16 t (text_cell v i) w)"
    if "i < ?w * ?h" "same_outside (framebuffer v) (frame_bytes v) m t" for i t w
    unfolding text_cell_def using that n frame_bytes_bound [OF assms(1)] by (intro same_outside_store) auto
  show "same_outside (framebuffer v) (frame_bytes v) m (snd (video_text_scroll (v, m)))"
    unfolding video_text_scroll_def Let_def prod.case snd_conv
    using wh by (intro same_outside_for same_outside_refl st) auto
qed (simp add: video_text_scroll_def Let_def)

lemma text_putchar_inside:
  assumes "screen_ok v" and "mode v = VIDEO_MODE_TEXT" and "x < text_max_x v" and "y < text_max_y v"
  shows "same_outside (framebuffer v) (frame_bytes v) m (snd (video_text_putchar c x y (v, m)))"
  unfolding video_text_putchar_def prod.case snd_conv text_cell_def
  using cell_in_frame [of "unat y" "unat (text_max_y v)" "unat x" "unat (text_max_x v)"] assms frame_bytes_bound [OF assms(1)]
  by (intro same_outside_store) (auto simp: word_less_nat_alt frame_bytes_def)

lemma unat_ucast_u16: "unat (ucast (w :: u16) :: u32) = unat w"
  using unat_u16_bound [of w] by (simp add: unsigned_ucast_eq take_bit_nat_eq_self)

lemma gfx_putchar_inside:
  assumes "screen_ok v" and "mode v = VIDEO_MODE_GFX" and "x < text_max_x v" and "y < text_max_y v"
  shows "same_outside (framebuffer v) (frame_bytes v) m (snd (video_gfx_putchar c x y (v, m)))"
proof -
  let ?p = "unat (pitch v)" and ?x = "unat x" and ?y = "unat y"
  have xy: "?x < unat (text_max_x v)" "?y < unat (text_max_y v)" using assms(3,4) by (simp_all add: word_less_nat_alt)
  have gfx: "8 * unat (text_max_x v) * 4 \<le> ?p" "8 * unat (text_max_y v) \<le> unat (height v)" "?p * unat (height v) < 2 ^ 32"
    using assms(1,2) by (auto simp: screen_ok_def)
  have n: "frame_bytes v = ?p * unat (height v)"
    using assms(2) by (simp add: frame_bytes_def VIDEO_MODE_TEXT_def VIDEO_MODE_GFX_def)
  have yp: "?y * 8 * ?p + 8 * ?p \<le> ?p * unat (height v)"
  proof -
    have "?y + 1 \<le> unat (text_max_y v)" using xy(2) by simp
    then have "8 * (?y + 1) \<le> 8 * unat (text_max_y v)" by (rule mult_le_mono2)
    also note gfx(2)
    finally have "8 * (?y + 1) \<le> unat (height v)" .
    then have "?p * (8 * (?y + 1)) \<le> ?p * unat (height v)" by (rule mult_le_mono2)
    then show ?thesis by (simp add: algebra_simps)
  qed
  then have "unat ((ucast y :: u32) * FONT_H * pitch v) = ?y * 8 * ?p"
  proof -
    have y16: "?y < 2 ^ 16" by (rule unat_u16_bound)
    then have u8: "unat ((ucast y :: u32) * 8) = ?y * 8"
      by (subst unat_mult_lem [THEN iffD1]) (simp_all add: unat_ucast_u16)
    have "?y * 8 * ?p < 2 ^ 32" using yp gfx(3) by linarith
    then show ?thesis unfolding FONT_H_def by (subst unat_mult_lem [THEN iffD1]) (simp_all add: u8)
  qed
  then have base: "ucast ((ucast y :: u32) * FONT_H * pitch v) = (of_nat (?y * 8 * ?p) :: u64)"
    by (metis of_nat_unat)
  have addr: "framebuffer v + ucast ((ucast y :: u32) * FONT_H * pitch v) + of_nat (?x * 8 * 4) + of_nat j * ucast (pitch v) + of_nat (4 * i)
      = framebuffer v + of_nat (?y * 8 * ?p + ?x * 8 * 4 + j * ?p + 4 * i)" for i j
    unfolding base by (simp add: of_nat_unat)
  have bound: "?y * 8 * ?p + ?x * 8 * 4 + j * ?p + 4 * i + 4 \<le> frame_bytes v" if "i < 8" "j < 8" for i j
  proof -
    have "j * ?p + ?p \<le> 8 * ?p" using that(2) by (metis Suc_leI add.commute mult_Suc mult_le_mono1)
    moreover have "?x * 8 * 4 + 4 * i + 4 \<le> ?p" using xy(1) gfx(1) that(1) by linarith
    ultimately show ?thesis using yp n by linarith
  qed
  show ?thesis
    unfolding video_gfx_putchar_def Let_def prod.case snd_conv addr
    by (intro same_outside_for same_outside_store bound same_outside_refl frame_bytes_bound [OF assms(1)]) assumption+
qed

lemma u16_step: "(a :: u16) < b \<Longrightarrow> a + 1 \<le> b" "(a :: u16) < b \<Longrightarrow> unat (a + 1) = unat a + 1" "0 < (b :: u16) \<Longrightarrow> b - 1 < b"
proof -
  assume ab: "a < b"
  then have "unat a + 1 < 2 ^ 16 \<or> unat a + 1 = 2 ^ 16" "unat a < unat b" "unat b < 2 ^ 16"
    using unat_u16_bound [of b] by (auto simp: word_less_nat_alt)
  then show *: "unat (a + 1) = unat a + 1" by (simp add: unat_plus_if')
  with \<open>unat a < unat b\<close> show "a + 1 \<le> b" by (simp add: word_le_nat_alt)
next
  assume "0 < b"
  then have "b \<noteq> 0" by auto
  then have "unat (b - 1) = unat b - 1" and "0 < unat b" by (simp_all add: unat_minus_one unat_gt_0)
  then show "b - 1 < b" by (simp add: word_less_nat_alt)
qed

lemma screen_ok_wrap:
  assumes "screen_ok v"
  shows "screen_ok (wrap_line v)" and "text_cursor_x (wrap_line v) < text_max_x v"
proof -
  have "text_cursor_y v + 1 \<le> text_max_y v" if "text_cursor_x v = text_max_x v"
    using assms that by (intro u16_step) (auto simp: screen_ok_def)
  then show "screen_ok (wrap_line v)" using assms by (auto simp: screen_ok_def wrap_line_def)
  show "text_cursor_x (wrap_line v) < text_max_x v" using assms by (auto simp: screen_ok_def wrap_line_def)
qed

lemma wrap_line_frame [simp]:
  "mode (wrap_line v) = mode v" "framebuffer (wrap_line v) = framebuffer v" "frame_bytes (wrap_line v) = frame_bytes v"
  "text_max_x (wrap_line v) = text_max_x v" "text_max_y (wrap_line v) = text_max_y v"
  by (simp_all add: wrap_line_def frame_bytes_def)

text \<open>The scroll step of \<open>video_putchar\<close>.\<close>

definition scroll_line :: "u32 \<Rightarrow> screen \<Rightarrow> screen" where
  "scroll_line md = (\<lambda>(v, m). if text_cursor_y v = text_max_y v
     then handler_scroll md (v\<lparr>text_cursor_y := text_cursor_y v - 1\<rparr>, m) else (v, m))"

lemma scroll_line_inside:
  assumes "screen_ok v" and "text_cursor_x v < text_max_x v" and "scroll_line (mode v) (v, m) = (v', m')"
  shows "screen_ok v'" and "text_cursor_y v' < text_max_y v" and "text_cursor_x v' = text_cursor_x v"
    and "mode v' = mode v \<and> framebuffer v' = framebuffer v \<and> frame_bytes v' = frame_bytes v \<and> text_max_x v' = text_max_x v \<and> text_max_y v' = text_max_y v"
    and "same_outside (framebuffer v) (frame_bytes v) m m'"
proof -
  let ?v = "v\<lparr>text_cursor_y := text_cursor_y v - 1\<rparr>"
  have all: "screen_ok v' \<and> text_cursor_y v' < text_max_y v \<and> text_cursor_x v' = text_cursor_x v
    \<and> (mode v' = mode v \<and> framebuffer v' = framebuffer v \<and> frame_bytes v' = frame_bytes v \<and> text_max_x v' = text_max_x v \<and> text_max_y v' = text_max_y v)
    \<and> same_outside (framebuffer v) (frame_bytes v) m m'"
  proof (cases "text_cursor_y v = text_max_y v")
    case True
    have less: "text_max_y v - 1 < text_max_y v" using assms(1) by (intro u16_step) (simp add: screen_ok_def)
    have ok: "screen_ok ?v" using assms(1) less True by (auto simp: screen_ok_def)
    have fr: "frame_bytes ?v = frame_bytes v" by (simp add: frame_bytes_def)
    have "v' = ?v \<and> same_outside (framebuffer v) (frame_bytes v) m m'"
    proof (cases "mode v = VIDEO_MODE_TEXT")
      case tm: True
      with text_scroll_inside [OF ok, of m] assms(3) True fr show ?thesis
        by (auto simp: scroll_line_def handler_scroll_def)
    next
      case False
      with assms(3) True show ?thesis by (simp add: scroll_line_def handler_scroll_def video_gfx_scroll_def)
    qed
    with ok less True fr show ?thesis by auto
  next
    case False
    with assms show ?thesis by (auto simp: scroll_line_def screen_ok_def)
  qed
  then show "screen_ok v'" and "text_cursor_y v' < text_max_y v" and "text_cursor_x v' = text_cursor_x v"
    and "mode v' = mode v \<and> framebuffer v' = framebuffer v \<and> frame_bytes v' = frame_bytes v \<and> text_max_x v' = text_max_x v \<and> text_max_y v' = text_max_y v"
    and "same_outside (framebuffer v) (frame_bytes v) m m'" by blast+
qed

lemma handler_putchar_inside:
  assumes "screen_ok v" and "x < text_max_x v" and "y < text_max_y v"
  shows "fst (handler_putchar (mode v) c x y (v, m)) = v"
    and "same_outside (framebuffer v) (frame_bytes v) m (snd (handler_putchar (mode v) c x y (v, m)))"
proof -
  show "fst (handler_putchar (mode v) c x y (v, m)) = v"
    by (simp add: handler_putchar_def video_text_putchar_def video_gfx_putchar_def Let_def)
  show "same_outside (framebuffer v) (frame_bytes v) m (snd (handler_putchar (mode v) c x y (v, m)))"
  proof (cases "mode v = VIDEO_MODE_TEXT")
    case True
    from text_putchar_inside [OF assms(1) True assms(2,3)] show ?thesis by (simp add: handler_putchar_def True)
  next
    case False
    with assms(1) have "mode v = VIDEO_MODE_GFX" by (simp add: screen_ok_def)
    from gfx_putchar_inside [OF assms(1) this assms(2,3)] show ?thesis by (simp add: handler_putchar_def False)
  qed
qed

text \<open>C31. Output stays on the screen: from a screen in text mode or in a graphical mode whose rows fit the frame
  buffer, with the cursor on it, printing any character leaves the cursor on the screen and the mode as it is,
  and writes no byte outside the frame buffer.\<close>

theorem video_putchar_stays_on_screen:
  assumes "screen_ok v" and "video_putchar c (v, m) = (v', m')"
  shows "screen_ok v' \<and> mode v' = mode v \<and> framebuffer v' = framebuffer v
    \<and> (\<forall>x. \<not> in_range (framebuffer v) (frame_bytes v) x \<longrightarrow> m' x = m x)"
proof -
  let ?v1 = "wrap_line v"
  obtain v2 m2 where s: "scroll_line (mode v) (?v1, m) = (v2, m2)" by force
  have ok1: "screen_ok ?v1" "text_cursor_x ?v1 < text_max_x ?v1" using screen_ok_wrap [OF assms(1)] by simp_all
  note sc = scroll_line_inside [OF ok1, unfolded wrap_line_frame, OF s]
  have eq: "(v', m') = (if c = 10 then (v2\<lparr>text_cursor_x := 0, text_cursor_y := text_cursor_y v2 + 1\<rparr>, m2)
      else (let (v, m) = handler_putchar (mode v) c (text_cursor_x v2) (text_cursor_y v2) (v2, m2)
            in (v\<lparr>text_cursor_x := text_cursor_x v + 1\<rparr>, m)))"
    using assms(2) s by (simp add: video_putchar_def scroll_line_def Let_def split: prod.splits)
  have x: "text_cursor_x v2 < text_max_x v2" and y: "text_cursor_y v2 < text_max_y v2" using sc(2-4) ok1(2) by simp_all
  have max: "text_cursor_x v2 + 1 \<le> text_max_x v2" "text_cursor_y v2 + 1 \<le> text_max_y v2" using x y by (simp_all add: u16_step)
  note h = handler_putchar_inside [OF sc(1) x y, where c = c and m = m2]
  have "screen_ok v' \<and> mode v' = mode v \<and> framebuffer v' = framebuffer v \<and> same_outside (framebuffer v) (frame_bytes v) m m'"
  proof (cases "c = 10")
    case True
    with eq have "v' = v2\<lparr>text_cursor_x := 0, text_cursor_y := text_cursor_y v2 + 1\<rparr>" "m' = m2" by simp_all
    with sc max x show ?thesis by (simp add: screen_ok_def)
  next
    case False
    obtain m3 where m3: "handler_putchar (mode v) c (text_cursor_x v2) (text_cursor_y v2) (v2, m2) = (v2, m3)"
      using h(1) sc(4) by (metis prod.collapse)
    with eq False have v': "v' = v2\<lparr>text_cursor_x := text_cursor_x v2 + 1\<rparr>" "m' = m3" by simp_all
    have "same_outside (framebuffer v) (frame_bytes v) m2 m3" using h(2) sc(4) m3 by simp
    with sc(5) have "same_outside (framebuffer v) (frame_bytes v) m m3" by (rule same_outside_trans)
    with sc max y v' show ?thesis by (auto simp: screen_ok_def)
  qed
  then show ?thesis by (simp add: same_outside_def)
qed

lemma video_putchar_stays_on_screen_witness:
  "\<exists>v' m'. video_putchar 65 (\<lparr>mode = 1, width = 800, height = 600, bpp = 32, pitch = 3200, text_cursor_x = 100,
        text_cursor_y = 74, text_max_x = 100, text_max_y = 75, framebuffer = 0xe0000000\<rparr>, \<lambda>_. 0) = (v', m')
     \<and> screen_ok v' \<and> m' 0xe01d4c00 = 0"
proof -
  let ?v = "\<lparr>mode = 1, width = 800, height = 600, bpp = 32, pitch = 3200, text_cursor_x = 100,
        text_cursor_y = 74, text_max_x = 100, text_max_y = 75, framebuffer = 0xe0000000\<rparr> :: BootVideo"
  have "screen_ok ?v" by (simp add: screen_ok_def VIDEO_MODE_GFX_def VIDEO_MODE_TEXT_def)
  moreover obtain v' m' where "video_putchar 65 (?v, \<lambda>_. 0) = (v', m')" by force
  moreover note video_putchar_stays_on_screen [OF calculation]
  moreover from this have "\<not> in_range (framebuffer ?v) (frame_bytes ?v) 0xe01d4c00 \<longrightarrow> m' 0xe01d4c00 = 0" by blast
  then have "m' 0xe01d4c00 = 0" by (simp add: in_range_def frame_bytes_def VIDEO_MODE_TEXT_def)
  ultimately show ?thesis by blast
qed

end
