(* ===== verification/BootPrint.thy ===== *)
theory BootPrint
  imports Video
begin

text \<open>
  Formatted output (src/libboot/print.c): number formatting with the loops of the code, the format
  interpreter of \<open>boot_printf\<close>, and the output of its text to the screen and the debug port.
  Arguments are a list of 64-bit values; a missing one is read as 0.
\<close>

section \<open>Output\<close>

text \<open>The screen and the bytes written to port \<open>e9\<close>.\<close>

type_synonym console = "screen \<times> u8 list"

definition boot_putchar :: "u8 \<Rightarrow> console \<Rightarrow> console" where
  "boot_putchar c = (\<lambda>(s, port). (video_putchar c s, port @ [c]))"

text \<open>\<open>print\<close> on the characters of a C string.\<close>

definition print :: "u8 list \<Rightarrow> console \<Rightarrow> console" where
  "print str con = fold boot_putchar str con"

section \<open>Numbers\<close>

definition hex_chars :: "u8 list" where
  "hex_chars = [48, 49, 50, 51, 52, 53, 54, 55, 56, 57, 97, 98, 99, 100, 101, 102]"

text \<open>One step of the loops of \<open>fmt_udec\<close> and \<open>fmt_hex\<close>: leading zeros are left out.\<close>

definition put_digit :: "nat \<Rightarrow> u8 list \<Rightarrow> u8 list" where
  "put_digit v buffer = (if v \<noteq> 0 \<or> buffer \<noteq> [] then buffer @ [hex_chars ! v] else buffer)"

definition fmt_udec :: "u64 \<Rightarrow> u8 list" where
  "fmt_udec num =
     (let (buffer, _) = for_n 20 (\<lambda>i (buffer, divisor).
            (put_digit (unat (num div divisor mod 10)) buffer, divisor div 10)) ([], 10000000000000000000)
      in if buffer = [] then [48] else buffer)"

definition fmt_hex :: "u64 \<Rightarrow> u8 list" where
  "fmt_hex num =
     (let (buffer, _) = for_n 16 (\<lambda>i (buffer, shift).
            (put_digit (unat (drop_bit shift num AND 0xf)) buffer, shift - 4)) ([], 60 :: nat)
      in if buffer = [] then [48] else buffer)"

text \<open>
  \<open>_putu\<close> and \<open>putu\<close>, with C's division that rounds to zero: a negative number that is not a
  multiple of ten reads before the table, here \<open>None\<close>.
\<close>

fun c_mod10 :: "int \<Rightarrow> int" where
  "c_mod10 v = (if v < 0 then - ((- v) mod 10) else v mod 10)"

function putu_digits :: "int \<Rightarrow> u8 list option" where
  "putu_digits v =
     (if v = 0 then Some []
      else (let d = c_mod10 v
            in if d < 0 then None
               else (case (if 10 \<le> v then putu_digits (v div 10) else Some []) of
                       None \<Rightarrow> None
                     | Some ds \<Rightarrow> Some (ds @ [hex_chars ! nat d]))))"
  by pat_completeness auto
termination
  by (relation "measure (\<lambda>v. nat v)") auto

definition putu :: "int \<Rightarrow> u8 list option" where
  "putu v = (if v = 0 then Some [48] else putu_digits v)"

section \<open>Formats\<close>

datatype arg_type = TYPE_CHAR | TYPE_SHORT | TYPE_INT | TYPE_LONG | TYPE_LONG_LONG | TYPE_SIZE_T | TYPE_INTMAX_T

fun next_arg :: "u64 list \<Rightarrow> u64 \<times> u64 list" where
  "next_arg [] = (0, [])"
| "next_arg (a # as) = (a, as)"

fun integer_arg :: "u64 \<Rightarrow> arg_type \<Rightarrow> u64" where
  "integer_arg a TYPE_CHAR = ucast (ucast a :: u8)"
| "integer_arg a TYPE_SHORT = ucast (ucast a :: u16)"
| "integer_arg a TYPE_INT = ucast (ucast a :: u32)"
| "integer_arg a TYPE_LONG = a"
| "integer_arg a TYPE_LONG_LONG = a"
| "integer_arg a TYPE_SIZE_T = a"
| "integer_arg a TYPE_INTMAX_T = a"

definition string_at :: "mem \<Rightarrow> u64 \<Rightarrow> u8 list option" where
  "string_at m p = map_option (\<lambda>n. map (\<lambda>i. m (p + of_nat i)) [0..<unat n]) (strlen m p)"

text \<open>
  The two loops of \<open>boot_printf\<close> on the characters of the format: \<open>printf_text\<close> outside a directive,
  \<open>printf_directive\<close> after a percent sign. The result is the text appended to the buffer;
  \<open>None\<close> is a string argument that never ends. The buffer of \<open>boot_printf\<close> has 1024 bytes, the last
  one for the zero; the code does not check it, and \<open>boot_printf\<close> is \<open>None\<close> for a text that would go
  beyond it.
\<close>

fun printf_text :: "mem \<Rightarrow> u8 list \<Rightarrow> u64 list \<Rightarrow> u8 list option"
  and printf_directive :: "mem \<Rightarrow> u8 list \<Rightarrow> u64 list \<Rightarrow> arg_type \<Rightarrow> u8 list option" where
  "printf_text m [] as = Some []"
| "printf_text m (c # cs) as =
     (if c \<noteq> 37 then map_option ((#) c) (printf_text m cs as) else printf_directive m cs as TYPE_INT)"
| "printf_directive m [] as ty = Some []"
| "printf_directive m (c # cs) as ty =
     (if c = 104 then printf_directive m cs as (if ty = TYPE_CHAR then TYPE_SHORT else TYPE_CHAR)
      else if c = 108 then printf_directive m cs as (if ty = TYPE_LONG then TYPE_LONG_LONG else TYPE_LONG)
      else if c = 113 then printf_directive m cs as TYPE_LONG_LONG
      else if c = 122 \<or> c = 90 then printf_directive m cs as TYPE_SIZE_T
      else if c = 106 then printf_directive m cs as TYPE_LONG_LONG
      else if c = 37 then map_option ((@) [37]) (printf_text m cs as)
      else if c = 115 then
        (let (a, as) = next_arg as
         in case string_at m a of None \<Rightarrow> None | Some s \<Rightarrow> map_option ((@) s) (printf_text m cs as))
      else if c = 99 then
        (let (a, as) = next_arg as; b = ucast a
         in map_option ((@) (if b = 0 then [] else [b])) (printf_text m cs as))
      else if c = 120 then (let (a, as) = next_arg as in map_option ((@) (fmt_hex (integer_arg a ty))) (printf_text m cs as))
      else if c = 117 then (let (a, as) = next_arg as in map_option ((@) (fmt_udec (integer_arg a ty))) (printf_text m cs as))
      else printf_directive m cs as ty)"

definition PRINTF_BUFFER :: nat where "PRINTF_BUFFER = 1024"

definition boot_printf :: "mem \<Rightarrow> u8 list \<Rightarrow> u64 list \<Rightarrow> console \<Rightarrow> console option" where
  "boot_printf m fmt as con =
     (case printf_text m fmt as of
        None \<Rightarrow> None
      | Some buffer \<Rightarrow> if length buffer < PRINTF_BUFFER then Some (print buffer con) else None)"

section \<open>The digits read back\<close>

text \<open>The value of a character as a digit, and of a text in a base.\<close>

definition digit_value :: "u8 \<Rightarrow> nat option" where
  "digit_value c = (if 48 \<le> c \<and> c \<le> 57 then Some (unat c - 48) else if 97 \<le> c \<and> c \<le> 102 then Some (unat c - 87) else None)"

fun text_value :: "nat \<Rightarrow> nat \<Rightarrow> u8 list \<Rightarrow> nat option" where
  "text_value b acc [] = Some acc"
| "text_value b acc (c # cs) =
     (case digit_value c of Some d \<Rightarrow> if d < b then text_value b (acc * b + d) cs else None | None \<Rightarrow> None)"

lemma digit_value_hex: "d < 16 \<Longrightarrow> digit_value (hex_chars ! d) = Some d"
proof -
  have "\<forall>d<16. digit_value (hex_chars ! d) = Some d"
    by (simp add: All_less_numeral hex_chars_def digit_value_def)
  then show "d < 16 \<Longrightarrow> digit_value (hex_chars ! d) = Some d" by blast
qed

lemma hex_char_zero: "d < 16 \<Longrightarrow> hex_chars ! d = 48 \<longleftrightarrow> d = 0"
proof -
  have "\<forall>d<16. hex_chars ! d = 48 \<longleftrightarrow> d = 0" by (simp add: All_less_numeral hex_chars_def)
  then show "d < 16 \<Longrightarrow> hex_chars ! d = 48 \<longleftrightarrow> d = 0" by blast
qed

text \<open>What the loops leave: the digits of the number from the highest, without leading zeros.\<close>

definition digit_at :: "nat \<Rightarrow> nat \<Rightarrow> nat \<Rightarrow> nat" where
  "digit_at b n k = n div b ^ k mod b"

definition top_digits :: "nat \<Rightarrow> nat \<Rightarrow> nat \<Rightarrow> nat \<Rightarrow> nat list" where
  "top_digits b n w i = map (\<lambda>j. digit_at b n (w - 1 - j)) [0..<i]"

definition text_of :: "nat list \<Rightarrow> u8 list" where
  "text_of ds = map ((!) hex_chars) (dropWhile (\<lambda>d. d = 0) ds)"

lemma put_digit_text: "put_digit v (text_of ds) = text_of (ds @ [v])"
  by (auto simp: put_digit_def text_of_def dropWhile_append dropWhile_eq_Nil_conv)

lemma text_value_digits:
  "b \<le> 16 \<Longrightarrow> \<forall>d \<in> set ds. d < b \<Longrightarrow>
     text_value b acc (map ((!) hex_chars) ds) = Some (foldl (\<lambda>a d. a * b + d) acc ds)"
  by (induction ds arbitrary: acc) (auto simp: digit_value_hex)

lemma foldl_dropWhile_zero: "foldl (\<lambda>a d. a * b + d) 0 (dropWhile (\<lambda>d. d = 0) ds) = foldl (\<lambda>a d. a * b + d) (0 :: nat) ds"
  by (induction ds) auto

lemma foldl_top_digits:
  assumes "0 < b" and "n < b ^ w"
  shows "i \<le> w \<Longrightarrow> foldl (\<lambda>a d. a * b + d) 0 (top_digits b n w i) = n div b ^ (w - i)"
proof (induction i)
  case 0
  with assms(2) show ?case by (simp add: top_digits_def)
next
  case (Suc i)
  then have w: "w - i = Suc (w - 1 - i)" "w - Suc i = w - 1 - i" by simp_all
  let ?q = "n div b ^ (w - 1 - i)"
  have "n div b ^ (w - i) = ?q div b" unfolding w(1) power_Suc2 by (rule div_mult2_eq)
  with Suc have "foldl (\<lambda>a d. a * b + d) 0 (top_digits b n w (Suc i)) = ?q div b * b + ?q mod b"
    by (simp add: top_digits_def digit_at_def)
  then show ?case unfolding w(2) by (simp only: div_mult_mod_eq)
qed

lemma text_of_top_digits:
  assumes "0 < b" and "b \<le> 16" and "n < b ^ w"
  defines "t \<equiv> text_of (top_digits b n w w)"
  shows "text_value b 0 t = Some n" and "t = [] \<longleftrightarrow> n = 0" and "t \<noteq> [] \<Longrightarrow> hd t \<noteq> 48"
proof -
  let ?ds = "top_digits b n w w"
  let ?es = "dropWhile (\<lambda>d. d = 0) ?ds"
  have small: "\<forall>d \<in> set ?ds. d < b" using assms(1) by (auto simp: top_digits_def digit_at_def)
  then have es: "\<forall>d \<in> set ?es. d < b" by (meson set_dropWhileD)
  have val: "foldl (\<lambda>a d. a * b + d) 0 ?es = n"
    using foldl_top_digits [OF assms(1,3), of w] by (simp add: foldl_dropWhile_zero)
  then show "text_value b 0 t = Some n"
    using text_value_digits [OF assms(2) es] by (simp add: t_def text_of_def)
  show hd: "hd t \<noteq> 48" if "t \<noteq> []"
  proof -
    have ne: "?es \<noteq> []" using that by (simp add: t_def text_of_def)
    then have "hd ?es \<noteq> 0" using hd_dropWhile [of "\<lambda>d. d = 0" ?ds] by simp
    moreover have "hd ?es < 16" using ne es assms(2) by (meson hd_in_set less_le_trans)
    ultimately show ?thesis using ne by (simp add: t_def text_of_def hd_map hex_char_zero)
  qed
  show "t = [] \<longleftrightarrow> n = 0"
  proof
    assume "n = 0"
    then have "?es = []" by (simp add: top_digits_def digit_at_def dropWhile_eq_Nil_conv)
    then show "t = []" by (simp add: t_def text_of_def)
  next
    assume "t = []"
    then have "?es = []" unfolding t_def text_of_def by (simp only: map_is_Nil_conv)
    with val show "n = 0" by (simp only: foldl_Nil)
  qed
qed

lemma top_digits_Suc: "top_digits b n w (Suc i) = top_digits b n w i @ [digit_at b n (w - 1 - i)]"
  by (simp add: top_digits_def)

lemma fmt_udec_text: "fmt_udec num = (if num = 0 then [48] else text_of (top_digits 10 (unat num) 20 20))"
proof -
  let ?f = "\<lambda>i (buffer, divisor). (put_digit (unat (num div divisor mod 10)) buffer, divisor div (10 :: u64))"
  have "fst (for_n 20 ?f ([], 10000000000000000000)) = text_of (top_digits 10 (unat num) 20 20)
    \<and> snd (for_n 20 ?f ([], 10000000000000000000)) = (if (20 :: nat) = 20 then 0 else of_nat (10 ^ (19 - 20)))"
  proof (rule for_n_invariant [where P = "\<lambda>i s. fst s = text_of (top_digits 10 (unat num) 20 i)
        \<and> snd s = (if i = 20 then 0 else of_nat (10 ^ (19 - i)))"])
    show "fst ([], 10000000000000000000 :: u64) = text_of (top_digits 10 (unat num) 20 0)
      \<and> snd ([], 10000000000000000000 :: u64) = (if (0 :: nat) = 20 then 0 else of_nat (10 ^ (19 - 0)))"
      by (simp add: top_digits_def text_of_def)
  next
    fix i and s :: "u8 list \<times> u64"
    assume i: "i < 20" and s: "fst s = text_of (top_digits 10 (unat num) 20 i) \<and> snd s = (if i = 20 then 0 else of_nat (10 ^ (19 - i)))"
    have "(10 :: nat) ^ (19 - i) \<le> 10 ^ 19" by (intro power_increasing) simp_all
    then have d: "unat (snd s) = 10 ^ (19 - i)" using i s by (simp add: unat_of_nat_u64 del: of_nat_power)
    have "unat (num div snd s mod 10) = digit_at 10 (unat num) (20 - 1 - i)"
      by (simp add: unat_mod unat_div d digit_at_def)
    moreover have "snd s div 10 = (if Suc i = 20 then 0 else of_nat (10 ^ (19 - Suc i)))"
    proof (cases "Suc i = 20")
      case True
      with d show ?thesis by (simp add: word_unat_eq_iff unat_div)
    next
      case False
      with i have e: "19 - i = Suc (19 - Suc i)" by simp
      have "(10 :: nat) ^ (19 - Suc i) \<le> 10 ^ 19" by (intro power_increasing) simp_all
      then have "unat (of_nat (10 ^ (19 - Suc i)) :: u64) = 10 ^ (19 - Suc i)" by (intro unat_of_nat_u64) simp
      moreover have "unat (snd s div 10) = 10 ^ (19 - Suc i)" using d e by (simp add: unat_div)
      ultimately show ?thesis using False by (simp add: word_unat_eq_iff del: of_nat_power)
    qed
    ultimately show "fst (?f i s) = text_of (top_digits 10 (unat num) 20 (Suc i))
        \<and> snd (?f i s) = (if Suc i = 20 then 0 else of_nat (10 ^ (19 - Suc i)))"
      using s by (simp add: split_def put_digit_text top_digits_Suc del: of_nat_power)
  qed
  moreover have "unat num < 10 ^ 20" using unat_bound_u64 [of num] by simp
  then have "text_of (top_digits 10 (unat num) 20 20) = [] \<longleftrightarrow> num = 0"
    using text_of_top_digits(2) [of 10 "unat num" 20] by (simp add: unat_eq_0)
  ultimately show ?thesis by (auto simp: fmt_udec_def split_def Let_def simp del: for_n_numeral)
qed

lemma fmt_hex_text: "fmt_hex num = (if num = 0 then [48] else text_of (top_digits 16 (unat num) 16 16))"
proof -
  let ?f = "\<lambda>i (buffer, shift). (put_digit (unat (drop_bit shift num AND 0xf)) buffer, shift - (4 :: nat))"
  have "fst (for_n 16 ?f ([], 60)) = text_of (top_digits 16 (unat num) 16 16) \<and> snd (for_n 16 ?f ([], 60)) = 60 - 4 * 16"
  proof (rule for_n_invariant [where P = "\<lambda>i s. fst s = text_of (top_digits 16 (unat num) 16 i) \<and> snd s = 60 - 4 * i"])
    show "fst ([], 60 :: nat) = text_of (top_digits 16 (unat num) 16 0) \<and> snd ([], 60 :: nat) = 60 - 4 * 0"
      by (simp add: top_digits_def text_of_def)
  next
    fix i and s :: "u8 list \<times> nat"
    assume i: "i < 16" and s: "fst s = text_of (top_digits 16 (unat num) 16 i) \<and> snd s = 60 - 4 * i"
    have "(0xf :: u64) = mask 4" by (simp add: mask_eq_exp_minus_1)
    then have e: "drop_bit (snd s) num AND 0xf = take_bit 4 (drop_bit (snd s) num)" by (simp only: take_bit_eq_mask)
    have "unat (drop_bit (snd s) num AND 0xf) = unat num div 2 ^ snd s mod 16"
      unfolding e unfolding unsigned_take_bit_eq unsigned_drop_bit_eq unfolding take_bit_eq_mod drop_bit_eq_div
      using unat_bound_u64 [of num] by simp
    moreover have "(2 :: nat) ^ snd s = 16 ^ (15 - i)"
    proof -
      have "snd s = 4 * (15 - i)" using i s by simp
      then show ?thesis by (simp add: power_mult)
    qed
    ultimately have "unat (drop_bit (snd s) num AND 0xf) = digit_at 16 (unat num) (16 - 1 - i)" by (simp add: digit_at_def)
    then show "fst (?f i s) = text_of (top_digits 16 (unat num) 16 (Suc i)) \<and> snd (?f i s) = 60 - 4 * Suc i"
      using s by (simp add: split_def put_digit_text top_digits_Suc)
  qed
  moreover have "text_of (top_digits 16 (unat num) 16 16) = [] \<longleftrightarrow> num = 0"
    using text_of_top_digits(2) [of 16 "unat num" 16] unat_bound_u64 [of num] by (simp add: unat_eq_0)
  ultimately show ?thesis by (auto simp: fmt_hex_def split_def Let_def simp del: for_n_numeral)
qed

text \<open>C32. Numbers are printed correctly: the decimal and the hexadecimal text of any 64-bit number, read back in
  its base, is that number, and the text has no leading zero unless the number is 0.\<close>

theorem number_text_roundtrip:
  "text_value 10 0 (fmt_udec num) = Some (unat num) \<and> (hd (fmt_udec num) = 48 \<longleftrightarrow> num = 0)
   \<and> text_value 16 0 (fmt_hex num) = Some (unat num) \<and> (hd (fmt_hex num) = 48 \<longleftrightarrow> num = 0)"
proof -
  have "unat num < 10 ^ 20" "unat num < 16 ^ 16" using unat_bound_u64 [of num] by simp_all
  note dec = text_of_top_digits [OF _ _ this(1)] and hex = text_of_top_digits [OF _ _ this(2)]
  show ?thesis
  proof (cases "num = 0")
    case True
    then show ?thesis by (simp add: fmt_udec_text fmt_hex_text digit_value_def)
  next
    case False
    then have "unat num \<noteq> 0" by (simp add: unat_eq_0)
    with dec hex False show ?thesis by (simp add: fmt_udec_text fmt_hex_text)
  qed
qed

end
