(* ===== verification/Elf.thy ===== *)
theory Elf
  imports Prelude
begin

text \<open>
  The fields of ELF images (include/fusee/sys/elf64.h) that the boot loader and the kernel read, by
  their offsets.
\<close>

definition e_entry_at :: "u64 \<Rightarrow> u64" where "e_entry_at ehdr = ehdr + 24"
definition e_phoff_at :: "u64 \<Rightarrow> u64" where "e_phoff_at ehdr = ehdr + 32"
definition e_phnum_at :: "u64 \<Rightarrow> u64" where "e_phnum_at ehdr = ehdr + 56"
definition p_offset :: "mem \<Rightarrow> u64 \<Rightarrow> u64" where "p_offset m ph = load64 m (ph + 8)"
definition p_vaddr :: "mem \<Rightarrow> u64 \<Rightarrow> u64" where "p_vaddr m ph = load64 m (ph + 16)"
definition p_filesz :: "mem \<Rightarrow> u64 \<Rightarrow> u64" where "p_filesz m ph = load64 m (ph + 32)"
definition p_memsz :: "mem \<Rightarrow> u64 \<Rightarrow> u64" where "p_memsz m ph = load64 m (ph + 40)"

end
