(* ===== verification/Procs.thy ===== *)
theory Procs
  imports KHeap X86 InitRam Elf
begin

text \<open>
  Processes (src/kernel/proc.c) and the growable array they use (src/kernel/common/array.c): the
  static process table and the elements of the arrays are in the byte memory, the rest is a
  record. The ready queue is the unread part of the front array followed by the back array, and
  the scheduler runs the processes of the queue in turn.
\<close>

section \<open>Growable arrays\<close>

record Array =
  a_data :: u64
  a_size :: u64
  a_capacity :: u64

definition array_init :: "u64 \<Rightarrow> u64 \<Rightarrow> Kernel \<Rightarrow> (Array \<times> Kernel) option" where
  "array_init elementSize capacity k =
     (case kmalloc (elementSize * capacity) k of
        None \<Rightarrow> None
      | Some (p, k) \<Rightarrow> Some (\<lparr>a_data = p, a_size = 0, a_capacity = capacity\<rparr>, k))"

text \<open>The part of \<open>array_emplace\<close> for a full array.\<close>

definition array_grow :: "Array \<Rightarrow> u64 \<Rightarrow> Kernel \<Rightarrow> (Array \<times> Kernel) option" where
  "array_grow a elementSize k =
     (let oldCapacity = a_capacity a; oldData = a_data a; capacity = a_capacity a + a_capacity a div 2
      in case kmalloc (capacity * elementSize) k of
           None \<Rightarrow> None
         | Some (p, k) \<Rightarrow>
             Some (a\<lparr>a_capacity := capacity, a_data := p\<rparr>,
                   k\<lparr>memory := fst (memcpy (memory k) p oldData (oldCapacity * elementSize))\<rparr>))"

definition array_emplace :: "Array \<Rightarrow> u64 \<Rightarrow> Kernel \<Rightarrow> (u64 \<times> Array \<times> Kernel) option" where
  "array_emplace a elementSize k =
     (case (if \<not> a_size a < a_capacity a then array_grow a elementSize k else Some (a, k)) of
        None \<Rightarrow> None
      | Some (a, k) \<Rightarrow> Some (a_data a + a_size a * elementSize, a\<lparr>a_size := a_size a + 1\<rparr>, k))"

text \<open>Elements are 8 bytes. \<open>ARRAY_BACK\<close> is the element at index \<open>size\<close>, one past the last.\<close>

definition array_at :: "Array \<Rightarrow> u64 \<Rightarrow> u64" where "array_at a i = a_data a + 8 * i"
definition array_back :: "Array \<Rightarrow> u64" where "array_back a = array_at a (a_size a)"
definition array_pop :: "Array \<Rightarrow> Array" where "array_pop a = a\<lparr>a_size := a_size a - 1\<rparr>"
definition array_empty :: "Array \<Rightarrow> bool" where "array_empty a \<longleftrightarrow> a_size a = 0"

section \<open>Processes\<close>

text \<open>
  \<open>Process\<close>: 18 registers, 512 extra bytes, the function that resumes it and its address space,
  672 bytes. Addresses the linker chooses come first.
\<close>

record Symbols =
  gProcessList :: u64
  proc_run_addr :: u64

definition PROCESS_SIZE :: u64 where "PROCESS_SIZE = 672"
definition X86_REG_SP :: u64 where "X86_REG_SP = 6"
definition X86_REG_IP :: u64 where "X86_REG_IP = 16"
definition X86_REG_FLAGS :: u64 where "X86_REG_FLAGS = 17"

definition reg_at :: "u64 \<Rightarrow> u64 \<Rightarrow> u64" where "reg_at proc r = proc + 8 * r"
definition run_at :: "u64 \<Rightarrow> u64" where "run_at proc = proc + 656"
definition cr3_at :: "u64 \<Rightarrow> u64" where "cr3_at proc = proc + 664"

text \<open>The variables of proc.c, with the kernel state, the ports and \<open>gKernel.threads\<close>.\<close>

record Procs =
  kern :: Kernel
  io_ports :: io
  threads :: u64
  gProcessListSize :: u64
  gProcessListFree :: Array
  gScheduledProcs :: "Array list"
  gScheduledProcsFront :: nat
  gScheduledProcsIndex :: u32

definition thread_proc_at :: "Procs \<Rightarrow> u64" where "thread_proc_at s = threads s + 8"

definition proc_init :: "Procs \<Rightarrow> Procs option" where
  "proc_init s =
     (case array_init 8 16 (kern s) of None \<Rightarrow> None | Some (f, k) \<Rightarrow>
      (case array_init 8 16 k of None \<Rightarrow> None | Some (a0, k) \<Rightarrow>
      (case array_init 8 16 k of None \<Rightarrow> None | Some (a1, k) \<Rightarrow>
         Some (s\<lparr>kern := k, gProcessListSize := 0, gProcessListFree := f, gScheduledProcs := [a0, a1],
                 gScheduledProcsFront := 0, gScheduledProcsIndex := 0\<rparr>))))"

text \<open>The address space register is loaded, then kmapanon works on \<open>gKernel.cr3\<close>.\<close>

definition proc_alloc :: "u64 \<Rightarrow> u64 \<Rightarrow> u64 \<Rightarrow> u32 \<Rightarrow> Kernel \<Rightarrow> Kernel" where
  "proc_alloc proc addr sz prot k =
     snd (kmapanon addr sz (KPROT_USER OR prot) (k\<lparr>hw_cr3 := load64 (memory k) (cr3_at proc)\<rparr>))"

text \<open>The body of the loop over the segments; \<open>phdr\<close> was computed before it.\<close>

definition load_segment :: "u64 \<Rightarrow> u64 \<Rightarrow> u64 \<Rightarrow> Kernel \<Rightarrow> Kernel" where
  "load_segment proc img ph k =
     (let base = p_vaddr (memory k) ph + 0x10000000;
          k = proc_alloc proc base (p_memsz (memory k) ph) (KPROT_READ OR KPROT_WRITE OR KPROT_EXECUTE) k;
          k = k\<lparr>memory := fst (memset (memory k) base 0 (p_memsz (memory k) ph))\<rparr>
      in k\<lparr>memory := fst (memcpy (memory k) base (img + p_offset (memory k) ph) (p_filesz (memory k) ph))\<rparr>)"

text \<open>\<open>load_elf\<close>; \<open>flags\<close> is the flags register \<open>getflags\<close> reads. Console output is left out.\<close>

definition load_elf :: "u64 \<Rightarrow> u64 \<Rightarrow> u64 \<Rightarrow> Kernel \<Rightarrow> Kernel" where
  "load_elf flags proc img k0 =
     (let phdr = img + load64 (memory k0) (e_phoff_at img);
          k = for_n (unat (load16 (memory k0) (e_phnum_at img))) (\<lambda>i. load_segment proc img (phdr + of_nat (56 * i))) k0;
          k = proc_alloc proc 0x200000 0x10000 (KPROT_READ OR KPROT_WRITE) k;
          m = fst (memset (memory k) 0x200000 0 0x10000);
          m = store64 m (reg_at proc X86_REG_SP) 0x210000;
          m = store64 m (reg_at proc X86_REG_FLAGS) (flags OR X86_FLAG_IF);
          m = store64 m (reg_at proc X86_REG_IP) (load64 m (e_entry_at img) + 0x10000000)
      in k\<lparr>memory := m\<rparr>)"

definition create_cr3 :: "Kernel \<Rightarrow> u64 \<times> Kernel" where
  "create_cr3 k =
     (let cr3_kernel = hw_cr3 k;
          (cr3_user, a) = alloc_phys PAGESIZE (pmem k);
          kp = physical_to_virtual cr3_kernel;
          up = physical_to_virtual cr3_user;
          m = fst (memset (memory k) up 0 (256 * 8));
          m = fst (memcpy m (up + 256 * 8) (kp + 256 * 8) (256 * 8))
      in (cr3_user, k\<lparr>pmem := a, memory := m\<rparr>))"

definition proc_create :: "Symbols \<Rightarrow> Procs \<Rightarrow> u64 \<times> Procs" where
  "proc_create sy s =
     (let (proc_id, s) =
            (if array_empty (gProcessListFree s)
             then (gProcessListSize s, s\<lparr>gProcessListSize := gProcessListSize s + 1\<rparr>)
             else (load64 (memory (kern s)) (array_back (gProcessListFree s)),
                   s\<lparr>gProcessListFree := array_pop (gProcessListFree s)\<rparr>));
          proc = gProcessList sy + proc_id * PROCESS_SIZE;
          k = kern s;
          m = fst (memset (memory k) proc 0 PROCESS_SIZE);
          m = store64 m (run_at proc) (proc_run_addr sy);
          (cr3, k) = create_cr3 (k\<lparr>memory := m\<rparr>)
      in (proc, s\<lparr>kern := k\<lparr>memory := store64 (memory k) (cr3_at proc) cr3\<rparr>\<rparr>))"

definition proc_create_initram :: "Symbols \<Rightarrow> u64 \<Rightarrow> u64 \<Rightarrow> u64 \<Rightarrow> Procs \<Rightarrow> u64 \<times> Procs" where
  "proc_create_initram sy flags initram path s =
     (let img = initram_lookup (memory (kern s)) initram path
      in if img \<noteq> 0
         then (let (proc, s) = proc_create sy s in (proc, s\<lparr>kern := load_elf flags proc img (kern s)\<rparr>))
         else (0, s))"

section \<open>Scheduling\<close>

definition proc_schedule :: "u64 \<Rightarrow> Procs \<Rightarrow> Procs option" where
  "proc_schedule proc s =
     (let b = 1 - gScheduledProcsFront s
      in case array_emplace (gScheduledProcs s ! b) 8 (kern s) of
           None \<Rightarrow> None
         | Some (p, a, k) \<Rightarrow>
             Some (s\<lparr>gScheduledProcs := (gScheduledProcs s)[b := a], kern := k\<lparr>memory := store64 (memory k) p proc\<rparr>\<rparr>))"

definition proc_reschedule :: "Procs \<Rightarrow> Procs option" where
  "proc_reschedule s = proc_schedule (load64 (memory (kern s)) (thread_proc_at s)) s"

text \<open>The process at the index of the front array, which moves on.\<close>

definition take_next :: "Procs \<Rightarrow> u64 \<times> Procs" where
  "take_next s =
     (load64 (memory (kern s)) (array_at (gScheduledProcs s ! gScheduledProcsFront s) (scast (gScheduledProcsIndex s))),
      s\<lparr>gScheduledProcsIndex := gScheduledProcsIndex s + 1\<rparr>)"

definition next_proc :: "Procs \<Rightarrow> u64 \<times> Procs" where
  "next_proc s =
     (if scast (gScheduledProcsIndex s) < a_size (gScheduledProcs s ! gScheduledProcsFront s) then take_next s
      else (let f = gScheduledProcsFront s;
                s = s\<lparr>gScheduledProcs := (gScheduledProcs s)[f := (gScheduledProcs s ! f)\<lparr>a_size := 0\<rparr>],
                      gScheduledProcsFront := 1 - f, gScheduledProcsIndex := 0\<rparr>
            in if \<not> array_empty (gScheduledProcs s ! gScheduledProcsFront s) then take_next s else (0, s)))"

text \<open>How the kernel goes on: in the function that resumes a process, with the process, or idle.\<close>

datatype outcome = Exec u64 u64 | Idle

definition sched_exec :: "device \<Rightarrow> u64 \<Rightarrow> Procs \<Rightarrow> outcome \<times> Procs" where
  "sched_exec dev proc s =
     (let k = kern s;
          k = k\<lparr>hw_cr3 := load64 (memory k) (cr3_at proc)\<rparr>;
          k = k\<lparr>memory := store64 (memory k) (thread_proc_at s) proc\<rparr>;
          s = s\<lparr>kern := k, io_ports := timer_ns dev 100000 (io_ports s)\<rparr>
      in (Exec (load64 (memory k) (run_at proc)) proc, s))"

definition sched_wait :: "Procs \<Rightarrow> outcome \<times> Procs" where
  "sched_wait s = (Idle, s\<lparr>kern := (kern s)\<lparr>memory := store64 (memory (kern s)) (thread_proc_at s) 0\<rparr>\<rparr>)"

definition kern_schedule :: "device \<Rightarrow> Procs \<Rightarrow> outcome \<times> Procs" where
  "kern_schedule dev s =
     (let (proc, s) = next_proc s in if proc \<noteq> 0 then sched_exec dev proc s else sched_wait s)"

text \<open>A timer interrupt while a process runs (interrupts/timer.S): it is queued again, then the scheduler runs.\<close>

definition timer_tick :: "device \<Rightarrow> Procs \<Rightarrow> (outcome \<times> Procs) option" where
  "timer_tick dev s = (case proc_reschedule (s\<lparr>io_ports := out8 0x20 0x20 (io_ports s)\<rparr>) of None \<Rightarrow> None | Some s \<Rightarrow> Some (kern_schedule dev s))"

end
