(* ===== verification/Sched.thy ===== *)
theory Sched
  imports Procs
begin

text \<open>
  The ready queue of proc.c as a first-in first-out queue: the contract of a queue as a locale with
  the round-robin lemma of its client, its interpretation on proc_schedule and next_proc, and the
  scheduler driven by timer ticks.
\<close>

section \<open>The contract of a queue\<close>

text \<open>\<open>inv n s\<close>: the state is well formed and holds up to \<open>n\<close> elements.\<close>

locale fifo =
  fixes inv :: "nat \<Rightarrow> 's \<Rightarrow> bool" and q :: "'s \<Rightarrow> 'a list"
    and enq :: "'a \<Rightarrow> 's \<Rightarrow> 's option" and deq :: "'s \<Rightarrow> 'a \<times> 's" and none :: 'a
  assumes enq_ok: "inv n s \<Longrightarrow> length (q s) < n \<Longrightarrow> \<exists>s'. enq x s = Some s' \<and> inv n s' \<and> q s' = q s @ [x]"
    and deq_ok: "inv n s \<Longrightarrow> q s = x # xs \<Longrightarrow> \<exists>s'. deq s = (x, s') \<and> inv n s' \<and> q s' = xs"
    and deq_none: "inv n s \<Longrightarrow> q s = [] \<Longrightarrow> \<exists>s'. deq s = (none, s') \<and> inv n s' \<and> q s' = []"
begin

lemma enq_deq_rotates:
  assumes "inv n s" and "length (q s) < n"
  shows "\<exists>s' s''. enq x s = Some s' \<and> inv n s' \<and> q s' = q s @ [x]
    \<and> deq s' = (hd (q s @ [x]), s'') \<and> inv n s'' \<and> q s'' = tl (q s @ [x])"
proof -
  obtain s' where s': "enq x s = Some s'" "inv n s'" "q s' = q s @ [x]" using enq_ok [OF assms] by blast
  obtain y ys where y: "q s @ [x] = y # ys" by (cases "q s @ [x]") auto
  with deq_ok [OF s'(2), of y ys] s' show ?thesis by auto
qed

lemma drain_in_order:
  "inv n s \<Longrightarrow> q s = xs \<Longrightarrow> \<exists>s'. ((\<lambda>(ys, s). let (y, s') = deq s in (ys @ [y], s')) ^^ length xs) ([], s) = (xs, s') \<and> q s' = []"
proof -
  have "inv n s \<Longrightarrow> q s = xs \<Longrightarrow>
     \<exists>s'. ((\<lambda>(ys, s). let (y, s') = deq s in (ys @ [y], s')) ^^ length xs) (zs, s) = (zs @ xs, s') \<and> q s' = []" for zs
  proof (induction xs arbitrary: s zs)
    case (Cons x xs)
    then obtain s1 where s1: "deq s = (x, s1)" "inv n s1" "q s1 = xs" using deq_ok by blast
    from Cons.IH [OF s1(2,3), of "zs @ [x]"] show ?case
      by (simp add: s1(1) funpow_swap1)
  qed simp
  from this [of "[]"] show "inv n s \<Longrightarrow> q s = xs \<Longrightarrow> ?thesis" by simp
qed

end

section \<open>The ready queue\<close>

definition elems :: "mem \<Rightarrow> Array \<Rightarrow> u64 list" where
  "elems m a = map (\<lambda>i. load64 m (array_at a (of_nat i))) [0..<unat (a_size a)]"

definition front_array :: "Procs \<Rightarrow> Array" where "front_array s = gScheduledProcs s ! gScheduledProcsFront s"
definition back_array :: "Procs \<Rightarrow> Array" where "back_array s = gScheduledProcs s ! (1 - gScheduledProcsFront s)"

definition queue :: "Procs \<Rightarrow> u64 list" where
  "queue s = drop (unat (gScheduledProcsIndex s)) (elems (memory (kern s)) (front_array s)) @ elems (memory (kern s)) (back_array s)"

definition regions_apart :: "u64 \<Rightarrow> nat \<Rightarrow> u64 \<Rightarrow> nat \<Rightarrow> bool" where
  "regions_apart a n b k \<longleftrightarrow> (unat a + n \<le> unat b \<or> unat b + k \<le> unat a) \<and> unat a + n \<le> 2 ^ 64 \<and> unat b + k \<le> 2 ^ 64"

definition room :: "Array \<Rightarrow> nat" where "room a = 8 * unat (a_capacity a)"

text \<open>An array with \<open>n\<close> elements of capacity, and the arrays and the cell of the running process apart.\<close>

definition array_ok :: "nat \<Rightarrow> Array \<Rightarrow> bool" where
  "array_ok n a \<longleftrightarrow> n \<le> unat (a_capacity a) \<and> unat (a_capacity a) < 2 ^ 28 \<and> a_size a \<le> a_capacity a"

definition sched_inv :: "nat \<Rightarrow> Procs \<Rightarrow> bool" where
  "sched_inv n s \<longleftrightarrow> length (gScheduledProcs s) = 2 \<and> gScheduledProcsFront s \<le> 1
     \<and> array_ok n (front_array s) \<and> array_ok n (back_array s)
     \<and> regions_apart (a_data (front_array s)) (room (front_array s)) (a_data (back_array s)) (room (back_array s))
     \<and> regions_apart (a_data (front_array s)) (room (front_array s)) (thread_proc_at s) 8
     \<and> regions_apart (a_data (back_array s)) (room (back_array s)) (thread_proc_at s) 8
     \<and> unat (gScheduledProcsIndex s) \<le> unat (a_size (front_array s))"

lemma regions_apart_sym: "regions_apart a n b k \<longleftrightarrow> regions_apart b k a n"
  by (auto simp: regions_apart_def)

lemma length_elems [simp]: "length (elems m a) = unat (a_size a)"
  by (simp add: elems_def)

lemma array_ok_size: "array_ok n a \<Longrightarrow> unat (a_size a) \<le> unat (a_capacity a)"
  by (simp add: array_ok_def word_le_nat_alt)

lemma array_at_nat: "array_at a (of_nat i) = a_data a + of_nat (8 * i)"
  by (simp add: array_at_def)

lemma elems_cong:
  assumes "\<And>i. i < unat (a_size a) \<Longrightarrow> load64 m' (array_at a (of_nat i)) = load64 m (array_at a (of_nat i))"
  shows "elems m' a = elems m a"
  unfolding elems_def using assms by (intro map_cong) auto

lemma elems_store_apart:
  assumes "array_ok n a" and "regions_apart (a_data a) (room a) p 8"
  shows "elems (store64 m p w) a = elems m a"
proof (rule elems_cong)
  fix i assume i: "i < unat (a_size a)"
  then have b: "8 * i + 8 \<le> room a" using array_ok_size [OF assms(1)] by (simp add: room_def)
  then have "unat (a_data a + of_nat (8 * i)) = unat (a_data a) + 8 * i"
    using assms(2) by (intro unat_add_nat) (auto simp: regions_apart_def)
  then show "load64 (store64 m p w) (array_at a (of_nat i)) = load64 m (array_at a (of_nat i))"
    unfolding array_at_nat using assms(2) b
    by (intro load_store_disjoint disjoint_ranges_unat) (auto simp: regions_apart_def)
qed

lemma elems_append:
  assumes "unat (a_size a) < unat (a_capacity a)" and "unat (a_capacity a) < 2 ^ 28"
  shows "elems (store64 m (array_at a (a_size a)) w) (a\<lparr>a_size := a_size a + 1\<rparr>) = elems m a @ [w]"
proof -
  let ?n = "unat (a_size a)"
  have n: "unat (a_size a + 1) = Suc ?n" using assms by (subst unat_add_u64) simp_all
  have at: "array_at (a\<lparr>a_size := x\<rparr>) i = array_at a i" for x i by (simp add: array_at_def)
  have last: "array_at a (a_size a) = a_data a + of_nat (8 * ?n)" using array_at_nat [of a ?n] by simp
  have "load64 (store64 m (a_data a + of_nat (8 * ?n)) w) (a_data a + of_nat (8 * i)) = load64 m (a_data a + of_nat (8 * i))" if "i < ?n" for i
    using that assms by (intro load_store_element) simp_all
  then show ?thesis
    by (simp add: elems_def n at last array_at_nat del: of_nat_mult)
qed

lemma front_back_0: "gScheduledProcsFront s = 0 \<Longrightarrow> front_array s = gScheduledProcs s ! 0 \<and> back_array s = gScheduledProcs s ! 1"
  and front_back_1: "gScheduledProcsFront s = 1 \<Longrightarrow> front_array s = gScheduledProcs s ! 1 \<and> back_array s = gScheduledProcs s ! 0"
  by (simp_all add: front_array_def back_array_def)

lemma front_index_cases: "gScheduledProcsFront s \<le> 1 \<Longrightarrow> gScheduledProcsFront s = 0 \<or> gScheduledProcsFront s = 1"
  by auto

section \<open>Queueing a process\<close>

lemma proc_schedule_room:
  assumes "sched_inv n s" and "unat (a_size (back_array s)) < unat (a_capacity (back_array s))"
  defines "b \<equiv> 1 - gScheduledProcsFront s"
  shows "proc_schedule p s = Some (s\<lparr>gScheduledProcs := (gScheduledProcs s)[b := (back_array s)\<lparr>a_size := a_size (back_array s) + 1\<rparr>],
     kern := (kern s)\<lparr>memory := store64 (memory (kern s)) (array_at (back_array s) (a_size (back_array s))) p\<rparr>\<rparr>)"
proof -
  have "a_size (back_array s) < a_capacity (back_array s)" using assms(2) by (simp add: word_less_nat_alt)
  then show ?thesis
    by (simp add: proc_schedule_def array_emplace_def Let_def b_def back_array_def array_at_def mult.commute)
qed

lemma proc_schedule_spec:
  assumes inv: "sched_inv n s" and less: "unat (a_size (back_array s)) < unat (a_capacity (back_array s))"
  shows "\<exists>s'. proc_schedule p s = Some s' \<and> sched_inv n s' \<and> queue s' = queue s @ [p]
    \<and> load64 (memory (kern s')) (thread_proc_at s') = load64 (memory (kern s)) (thread_proc_at s)"
proof -
  let ?a = "back_array s" and ?b = "1 - gScheduledProcsFront s"
  let ?p = "array_at ?a (a_size ?a)"
  define t where "t = s\<lparr>gScheduledProcs := (gScheduledProcs s)[?b := ?a\<lparr>a_size := a_size ?a + 1\<rparr>],
     kern := (kern s)\<lparr>memory := store64 (memory (kern s)) ?p p\<rparr>\<rparr>"
  note I = inv [unfolded sched_inv_def]
  have fb: "front_array t = front_array s" "back_array t = ?a\<lparr>a_size := a_size ?a + 1\<rparr>"
      "memory (kern t) = store64 (memory (kern s)) ?p p" "thread_proc_at t = thread_proc_at s"
      "gScheduledProcsFront t = gScheduledProcsFront s" "gScheduledProcsIndex t = gScheduledProcsIndex s"
      "length (gScheduledProcs t) = length (gScheduledProcs s)"
    using I front_index_cases [of s] by (auto simp: t_def front_array_def back_array_def thread_proc_at_def)
  have n: "unat (a_size ?a + 1) = unat (a_size ?a) + 1"
    using less I by (subst unat_add_u64) (auto simp: array_ok_def)
  have at: "unat ?p = unat (a_data ?a) + 8 * unat (a_size ?a)"
    using array_at_nat [of ?a "unat (a_size ?a)"] I less
    by (simp del: of_nat_mult) (rule unat_add_nat, auto simp: regions_apart_def room_def)
  have p8: "8 * unat (a_size ?a) + 8 \<le> room ?a" using less by (simp add: room_def)
  have ap: "regions_apart (a_data (front_array s)) (room (front_array s)) ?p 8" and cell: "regions_apart ?p 8 (thread_proc_at s) 8"
    using I at p8 unfolding regions_apart_def by linarith+
  have "elems (memory (kern t)) (front_array t) = elems (memory (kern s)) (front_array s)"
    using elems_store_apart [OF _ ap, of n] I by (simp add: fb)
  moreover have "elems (memory (kern t)) (back_array t) = elems (memory (kern s)) ?a @ [p]"
    using elems_append [OF less] I by (simp add: fb array_ok_def)
  ultimately have "queue t = queue s @ [p]" by (simp add: queue_def fb(6))
  moreover have "sched_inv n t"
    using I less n fb by (auto simp: sched_inv_def array_ok_def word_le_nat_alt room_def)
  moreover have "load64 (memory (kern t)) (thread_proc_at t) = load64 (memory (kern s)) (thread_proc_at s)"
    using cell by (auto simp: fb regions_apart_def intro!: load_store_disjoint disjoint_ranges_unat)
  ultimately show ?thesis using proc_schedule_room [OF inv less, of p] by (auto simp: t_def)
qed

section \<open>Taking the next process\<close>

lemma scast_index:
  assumes "unat (i :: u32) < 2 ^ 31"
  shows "(scast i :: u64) = of_nat (unat i)"
proof -
  have u: "uint i = int (unat i)" by (simp only: uint_nat)
  have "int (unat i) < int (2 ^ 31)" using assms by (simp only: of_nat_less_iff)
  then have w: "int (unat i) < 2 ^ 31" by (simp only: of_nat_power of_nat_numeral)
  have "sint i = signed_take_bit 31 (uint i)" using sint_uint [of i] by simp
  also have "\<dots> = int (unat i)" unfolding u
    using w by (intro signed_take_bit_int_eq_self) (simp_all only: order_trans [OF _ of_nat_0_le_iff] neg_le_0_iff_le zero_le_power zero_le_numeral)
  finally have "sint i = int (unat i)" .
  then show ?thesis by (simp add: scast_eq)
qed

lemma sched_inv_index:
  assumes "sched_inv n s"
  shows "(scast (gScheduledProcsIndex s) :: u64) = of_nat (unat (gScheduledProcsIndex s))"
    and "unat (gScheduledProcsIndex s) < 2 ^ 28"
    and "unat (scast (gScheduledProcsIndex s) :: u64) = unat (gScheduledProcsIndex s)"
proof -
  have "array_ok n (front_array s)" "unat (gScheduledProcsIndex s) \<le> unat (a_size (front_array s))"
    using assms by (simp_all add: sched_inv_def)
  then show b: "unat (gScheduledProcsIndex s) < 2 ^ 28" using array_ok_size [of n "front_array s"] by (simp add: array_ok_def)
  show eq: "(scast (gScheduledProcsIndex s) :: u64) = of_nat (unat (gScheduledProcsIndex s))"
    using b by (intro scast_index) simp
  show "unat (scast (gScheduledProcsIndex s) :: u64) = unat (gScheduledProcsIndex s)"
    unfolding eq using b by (intro unat_of_nat_u64) simp
qed

lemma take_next_spec:
  assumes inv: "sched_inv n s" and less: "unat (gScheduledProcsIndex s) < unat (a_size (front_array s))"
  shows "\<exists>t. take_next s = (hd (queue s), t) \<and> sched_inv n t \<and> queue t = tl (queue s) \<and> queue s \<noteq> []
    \<and> kern t = kern s \<and> threads t = threads s"
proof -
  let ?i = "unat (gScheduledProcsIndex s)"
  define t where "t = s\<lparr>gScheduledProcsIndex := gScheduledProcsIndex s + 1\<rparr>"
  have i1: "unat (gScheduledProcsIndex s + 1) = ?i + 1"
    using sched_inv_index(2) [OF inv] by (simp add: unat_plus_if')
  have t: "front_array t = front_array s" "back_array t = back_array s" "memory (kern t) = memory (kern s)"
    by (simp_all add: t_def front_array_def back_array_def)
  have "drop ?i (elems (memory (kern s)) (front_array s)) = elems (memory (kern s)) (front_array s) ! ?i
      # drop (Suc ?i) (elems (memory (kern s)) (front_array s))"
    using less by (simp add: Cons_nth_drop_Suc)
  moreover have "elems (memory (kern s)) (front_array s) ! ?i = load64 (memory (kern s)) (array_at (front_array s) (of_nat ?i))"
    using less by (simp add: elems_def)
  moreover have "gScheduledProcsIndex t = gScheduledProcsIndex s + 1" by (simp add: t_def)
  moreover have "take_next s = (load64 (memory (kern s)) (array_at (front_array s) (of_nat ?i)), t)"
    unfolding take_next_def sched_inv_index(1) [OF inv] by (simp add: t_def front_array_def)
  ultimately have "take_next s = (hd (queue s), t)" and "queue t = tl (queue s)" and "queue s \<noteq> []"
    by (simp_all add: queue_def t i1)
  moreover have "sched_inv n t"
    using inv less i1 t by (auto simp: sched_inv_def t_def thread_proc_at_def)
  ultimately show ?thesis by (auto simp: t_def)
qed

lemma next_proc_spec:
  assumes inv: "sched_inv n s"
  shows "\<exists>t. next_proc s = (if queue s = [] then 0 else hd (queue s), t) \<and> sched_inv n t \<and> queue t = tl (queue s)
    \<and> kern t = kern s \<and> threads t = threads s"
proof (cases "unat (gScheduledProcsIndex s) < unat (a_size (front_array s))")
  case True
  have "(scast (gScheduledProcsIndex s) :: u64) < a_size (front_array s)"
    using True by (simp add: word_less_nat_alt sched_inv_index(3) [OF inv])
  then have "next_proc s = take_next s" by (simp add: next_proc_def front_array_def)
  with take_next_spec [OF inv True] show ?thesis by auto
next
  case False
  let ?f = "gScheduledProcsFront s"
  note I = inv [unfolded sched_inv_def]
  define t where "t = s\<lparr>gScheduledProcs := (gScheduledProcs s)[?f := (gScheduledProcs s ! ?f)\<lparr>a_size := 0\<rparr>],
    gScheduledProcsFront := 1 - ?f, gScheduledProcsIndex := 0\<rparr>"
  have "\<not> (scast (gScheduledProcsIndex s) :: u64) < a_size (front_array s)"
    using False by (simp add: word_less_nat_alt sched_inv_index(3) [OF inv])
  then have np: "next_proc s = (if \<not> array_empty (front_array t) then take_next t else (0, t))"
    by (simp add: next_proc_def front_array_def t_def Let_def)
  have t: "front_array t = back_array s" "back_array t = (front_array s)\<lparr>a_size := 0\<rparr>" "memory (kern t) = memory (kern s)"
      "kern t = kern s" "threads t = threads s" "thread_proc_at t = thread_proc_at s" "gScheduledProcsIndex t = 0"
      "gScheduledProcsFront t \<le> 1" "length (gScheduledProcs t) = 2"
    using I front_index_cases [of s] by (auto simp: t_def front_array_def back_array_def thread_proc_at_def)
  have q: "queue t = elems (memory (kern s)) (back_array s)" "queue s = elems (memory (kern s)) (back_array s)"
    using False by (simp_all add: queue_def t, simp add: elems_def)
  have inv_t: "sched_inv n t"
    using I t regions_apart_sym [of "a_data (front_array s)"] by (auto simp: sched_inv_def array_ok_def room_def)
  show ?thesis
  proof (cases "array_empty (front_array t)")
    case True
    then have "queue s = []" by (simp add: q(2) elems_def array_empty_def t)
    with True np inv_t t q show ?thesis by (intro exI [of _ t]) simp
  next
    case False
    then have "unat (gScheduledProcsIndex t) < unat (a_size (front_array t))" by (simp add: t array_empty_def unat_gt_0)
    from take_next_spec [OF inv_t this] False np q t show ?thesis by auto
  qed
qed

lemma queue_room:
  assumes "sched_inv n s" and "length (queue s) < n"
  shows "unat (a_size (back_array s)) < unat (a_capacity (back_array s))"
proof -
  have "unat (a_size (back_array s)) \<le> length (queue s)" by (simp add: queue_def)
  with assms show ?thesis by (simp add: sched_inv_def array_ok_def)
qed

interpretation ready: fifo sched_inv queue proc_schedule next_proc 0
proof unfold_locales
  fix n s and x :: u64 assume "sched_inv n s" "length (queue s) < n"
  from proc_schedule_spec [OF this(1) queue_room [OF this]]
  show "\<exists>s'. proc_schedule x s = Some s' \<and> sched_inv n s' \<and> queue s' = queue s @ [x]" by blast
next
  fix n s and x :: u64 and xs assume "sched_inv n s" "queue s = x # xs"
  with next_proc_spec [OF this(1)] show "\<exists>s'. next_proc s = (x, s') \<and> sched_inv n s' \<and> queue s' = xs" by auto
next
  fix n s assume "sched_inv n s" "queue s = []"
  with next_proc_spec [OF this(1)] show "\<exists>s'. next_proc s = (0, s') \<and> sched_inv n s' \<and> queue s' = []" by auto
qed

text \<open>C28. The ready queue of the kernel is a first-in first-out queue: for a queue of fewer processes than the arrays hold,
  proc_schedule appends the process, whatever array it ends up in, and next_proc takes the oldest one, or answers
  NULL exactly when the queue is empty, also when it has to swap the two arrays; both keep the queue well formed.\<close>

theorem ready_queue_fifo:
  assumes "sched_inv n s" and "length (queue s) < n"
  shows "(\<exists>t. proc_schedule p s = Some t \<and> sched_inv n t \<and> queue t = queue s @ [p])
    \<and> (\<exists>t. next_proc s = (if queue s = [] then 0 else hd (queue s), t) \<and> sched_inv n t \<and> queue t = tl (queue s))"
proof (intro conjI)
  show "\<exists>t. proc_schedule p s = Some t \<and> sched_inv n t \<and> queue t = queue s @ [p]" by (rule ready.enq_ok [OF assms])
  show "\<exists>t. next_proc s = (if queue s = [] then 0 else hd (queue s), t) \<and> sched_inv n t \<and> queue t = tl (queue s)"
    using ready.deq_ok [OF assms(1)] ready.deq_none [OF assms(1)] by (cases "queue s") auto
qed

section \<open>Timer ticks\<close>

definition running :: "Procs \<Rightarrow> u64" where
  "running s = load64 (memory (kern s)) (thread_proc_at s)"

fun ticks :: "device \<Rightarrow> nat \<Rightarrow> Procs \<Rightarrow> Procs option" where
  "ticks dev 0 s = Some s"
| "ticks dev (Suc i) s = (case timer_tick dev s of None \<Rightarrow> None | Some (_, t) \<Rightarrow> ticks dev i t)"

lemma sched_exec_spec:
  assumes "sched_inv n s"
  shows "\<exists>r t. sched_exec dev p s = (Exec r p, t) \<and> sched_inv n t \<and> queue t = queue s \<and> running t = p"
proof -
  obtain r t where t: "sched_exec dev p s = (Exec r p, t)" by (simp add: sched_exec_def Let_def)
  have m: "memory (kern t) = store64 (memory (kern s)) (thread_proc_at s) p"
    and f: "front_array t = front_array s" "back_array t = back_array s" "thread_proc_at t = thread_proc_at s"
      "gScheduledProcsIndex t = gScheduledProcsIndex s" "gScheduledProcs t = gScheduledProcs s"
      "gScheduledProcsFront t = gScheduledProcsFront s"
    using t by (auto simp: sched_exec_def Let_def front_array_def back_array_def thread_proc_at_def)
  have "queue t = queue s"
    using assms by (simp add: queue_def m f elems_store_apart [where n = n] sched_inv_def)
  moreover have "sched_inv n t" using assms by (simp add: sched_inv_def f)
  moreover have "running t = p" by (simp add: running_def m f)
  ultimately show ?thesis using t by blast
qed

lemma timer_tick_spec:
  assumes inv: "sched_inv n s" and room: "length (queue s) < n" and nz: "0 \<notin> set (running s # queue s)"
  shows "\<exists>r t. timer_tick dev s = Some (Exec r (running t), t) \<and> sched_inv n t
    \<and> running t # queue t = rotate1 (running s # queue s)"
proof -
  define s0 where "s0 = s\<lparr>io_ports := out8 0x20 0x20 (io_ports s)\<rparr>"
  have same: "sched_inv n s0" "queue s0 = queue s" "running s0 = running s"
    using inv by (simp_all add: s0_def sched_inv_def queue_def running_def front_array_def back_array_def thread_proc_at_def)
  obtain s1 s2 where s1: "proc_schedule (running s) s0 = Some s1" "next_proc s1 = (hd (queue s @ [running s]), s2)"
      "sched_inv n s2" "queue s2 = tl (queue s @ [running s])"
    using ready.enq_deq_rotates [OF same(1), of "running s"] room same by auto
  have "hd (queue s @ [running s]) \<noteq> 0" using nz by (cases "queue s") auto
  moreover obtain r t where t: "sched_exec dev (hd (queue s @ [running s])) s2 = (Exec r (hd (queue s @ [running s])), t)"
      "sched_inv n t" "queue t = queue s2" "running t = hd (queue s @ [running s])"
    using sched_exec_spec [OF s1(3)] by blast
  ultimately have "timer_tick dev s = Some (Exec r (running t), t)"
    using s1 same by (simp add: timer_tick_def s0_def [symmetric] proc_reschedule_def running_def [symmetric] kern_schedule_def)
  moreover have "running t # queue t = rotate1 (running s # queue s)"
    using t s1(4) by (cases "queue s") simp_all
  ultimately show ?thesis using t(2) by blast
qed

text \<open>C29. Every process gets its turn: with fewer processes ready than the arrays hold, timer ticks run the processes in
  rotation; after \<open>i\<close> ticks the process that was \<open>i\<close> places behind the running one runs, so each of them runs again
  within as many ticks as there are processes, and none is lost.\<close>

theorem round_robin:
  assumes "sched_inv n s" and "length (queue s) < n" and "0 \<notin> set (running s # queue s)"
  shows "\<exists>t. ticks dev i s = Some t \<and> sched_inv n t \<and> running t # queue t = rotate i (running s # queue s)"
  using assms
proof (induction i arbitrary: s)
  case (Suc i)
  obtain r t where t: "timer_tick dev s = Some (Exec r (running t), t)" "sched_inv n t"
      "running t # queue t = rotate1 (running s # queue s)"
    using timer_tick_spec [OF Suc.prems] by blast
  have "length (running t # queue t) = length (running s # queue s)" unfolding t(3) by (rule length_rotate1)
  then have "length (queue t) < n" using Suc.prems(2) by simp
  moreover have "0 \<notin> set (running t # queue t)" unfolding t(3) set_rotate1 by (rule Suc.prems(3))
  ultimately obtain t' where "ticks dev i t = Some t'" "sched_inv n t'" "running t' # queue t' = rotate i (running t # queue t)"
    using Suc.IH [OF t(2)] by blast
  moreover have "rotate (Suc i) (running s # queue s) = rotate i (running t # queue t)"
    unfolding t(3) by (simp only: rotate_Suc rotate1_rotate_swap)
  ultimately show ?case by (simp only: ticks.simps t(1)) auto
qed simp

text \<open>Two processes: one runs, the other is in the back array.\<close>

definition sample_procs :: Procs where
  "sample_procs = \<lparr>kern = \<lparr>pmem = sample_allocator, heap_size = 0, io_size = 0, nx_mask = 0, k_cr3 = 0,
       memory = store64 (store64 (\<lambda>_. 0) 0x2000 0x9000) 0x3008 0x8000, hw_cr3 = 0\<rparr>,
     io_ports = [], threads = 0x3000, gProcessListSize = 2, gProcessListFree = \<lparr>a_data = 0x4000, a_size = 0, a_capacity = 16\<rparr>,
     gScheduledProcs = [\<lparr>a_data = 0x1000, a_size = 0, a_capacity = 16\<rparr>, \<lparr>a_data = 0x2000, a_size = 1, a_capacity = 16\<rparr>],
     gScheduledProcsFront = 0, gScheduledProcsIndex = 0\<rparr>"

lemma sample_procs_ok:
  "sched_inv 16 sample_procs" "queue sample_procs = [0x9000]" "running sample_procs = 0x8000"
proof -
  let ?b = "\<lparr>a_data = 0x2000, a_size = 1, a_capacity = 16\<rparr> :: Array"
  show inv: "sched_inv 16 sample_procs"
    by (simp add: sched_inv_def sample_procs_def front_array_def back_array_def array_ok_def regions_apart_def room_def thread_proc_at_def)
  have "elems (store64 (store64 (\<lambda>_. 0) 0x2000 0x9000) 0x3008 0x8000) ?b = elems (store64 (\<lambda>_. 0) 0x2000 0x9000) ?b"
    by (rule elems_store_apart [where n = 16]) (simp_all add: array_ok_def regions_apart_def room_def)
  also have "\<dots> = [0x9000]" by (simp add: elems_def array_at_def)
  finally show "queue sample_procs = [0x9000]"
    by (simp add: queue_def sample_procs_def front_array_def back_array_def elems_def)
  show "running sample_procs = 0x8000" by (simp add: running_def sample_procs_def thread_proc_at_def)
qed

lemma ready_queue_fifo_witness:
  "\<exists>t. proc_schedule 0xa000 sample_procs = Some t \<and> queue t = [0x9000, 0xa000]"
  using ready_queue_fifo [OF sample_procs_ok(1), of "0xa000"] by (auto simp: sample_procs_ok)

lemma round_robin_witness: "\<exists>t. ticks last_written 1 sample_procs = Some t \<and> running t = 0x9000 \<and> queue t = [0x8000]"
  using round_robin [OF sample_procs_ok(1), of last_written 1] by (auto simp: sample_procs_ok)

end
