(* ===== verification/AddrSpace.thy ===== *)
theory AddrSpace
  imports Procs
begin

text \<open>
  The address spaces of processes: what create_cr3 puts in a new top-level table, and in whose
  tables proc_alloc maps the memory of a process.
\<close>

section \<open>A new top-level table\<close>

definition fresh_top :: "u64 \<Rightarrow> u64 \<Rightarrow> mem \<Rightarrow> mem" where
  "fresh_top f kt m =
     blit (physical_to_virtual f + 2048) (physical_to_virtual kt + 2048) 2048 (fill (physical_to_virtual f) 2048 0 m)"

lemma unat_half:
  "is_frame t \<Longrightarrow> unat (physical_to_virtual t) = 0xffff800000000000 + unat t"
  "is_frame t \<Longrightarrow> unat (physical_to_virtual t + 2048) = 0xffff800000000000 + unat t + 2048"
  using unat_frame_byte [of t 0] unat_frame_byte [of t 2048] by simp_all

lemma halves_disjoint:
  assumes "is_frame f" and "is_frame kt" and "f \<noteq> kt"
  shows "disjoint_ranges (physical_to_virtual f + 2048) 2048 (physical_to_virtual kt + 2048) 2048"
  using unat_half [OF assms(1)] unat_half [OF assms(2)] frame_gap [OF assms] frame_room39 [OF assms(1)] frame_room39 [OF assms(2)]
  by (intro disjoint_ranges_unat) auto

lemma create_cr3_eq:
  assumes "is_frame f" and "is_frame (hw_cr3 k)" and "f \<noteq> hw_cr3 k" and "alloc_phys_pages 1 (pmem k) = (f, a)"
  shows "create_cr3 k = (f, k\<lparr>pmem := a, memory := fresh_top f (hw_cr3 k) (memory k)\<rparr>)"
proof -
  have "c_int 1 = 1" by (simp add: c_int_def)
  moreover have "(PAGESIZE + PAGESIZE - 1) div PAGESIZE = 1" by (simp add: PAGESIZE_def)
  ultimately have "alloc_phys PAGESIZE (pmem k) = (f, a)" using assms(4) by (simp add: alloc_phys_def)
  then show ?thesis
    using halves_disjoint [OF assms(1-3)]
    by (simp add: create_cr3_def Let_def memset_eq memcpy_blit fresh_top_def)
qed

lemma in_upper_half:
  "is_frame f \<Longrightarrow> in_range (physical_to_virtual f + 2048) 2048 y \<Longrightarrow> in_range (physical_to_virtual f) 4096 y"
proof -
  assume f: "is_frame f" and "in_range (physical_to_virtual f + 2048) 2048 y"
  then obtain i where "i < 2048" "y = physical_to_virtual f + of_nat (2048 + i)" by (auto elim: in_rangeE)
  then show ?thesis using in_range_offset [of "2048 + i" 4096] by simp
qed

lemma in_lower_half: "in_range a 2048 y \<Longrightarrow> in_range a 4096 y"
  by (simp add: in_range_def)

lemma fresh_top_outside:
  assumes "is_frame f" and "\<not> in_range (physical_to_virtual f) 4096 y"
  shows "fresh_top f kt m y = m y"
proof -
  have "\<not> in_range (physical_to_virtual f + 2048) 2048 y" "\<not> in_range (physical_to_virtual f) 2048 y"
    using assms in_upper_half [of f y] in_lower_half [of "physical_to_virtual f" y] by blast+
  then show ?thesis by (simp add: fresh_top_def blit_outside fill_outside)
qed

lemma fresh_top_same_frames:
  assumes "is_frame f"
  shows "same_frames {t. is_frame t \<and> t \<noteq> f} m (fresh_top f kt m)"
  unfolding same_frames_def
proof (intro conjI ballI allI impI)
  fix x and i :: nat assume "x \<in> {t. is_frame t \<and> t \<noteq> f}" "i < 4096"
  then have "\<not> in_range (physical_to_virtual f) 4096 (physical_to_virtual x + of_nat i)"
    using assms by (intro frame_byte_outside_frame) auto
  then show "fresh_top f kt m (physical_to_virtual x + of_nat i) = m (physical_to_virtual x + of_nat i)"
    by (rule fresh_top_outside [OF assms])
next
  fix y assume "\<not> direct y"
  then have "\<not> in_range (physical_to_virtual f) 4096 y" using direct_frame [OF assms] by blast
  then show "fresh_top f kt m y = m y" by (rule fresh_top_outside [OF assms])
qed

lemma entry_fresh_top:
  assumes "is_frame f" and "is_frame kt" and "f \<noteq> kt" and "i < 512"
  shows "entry (fresh_top f kt m) f i = (if i < 256 then 0 else entry m kt i)"
proof (cases "i < 256")
  case True
  have "fresh_top f kt m (slot (physical_to_virtual f) i + of_nat j) = 0" if "j < 8" for j
  proof -
    have ij: "8 * i + j < 2048" using True that by simp
    have "\<not> in_range (physical_to_virtual f + 2048) 2048 (physical_to_virtual f + of_nat (8 * i + j))"
    proof
      assume "in_range (physical_to_virtual f + 2048) 2048 (physical_to_virtual f + of_nat (8 * i + j))"
      then obtain l where l: "l < 2048" "physical_to_virtual f + of_nat (8 * i + j) = physical_to_virtual f + 2048 + of_nat l"
        by (rule in_rangeE)
      then have "unat (physical_to_virtual f + of_nat (8 * i + j)) = unat (physical_to_virtual f + of_nat (2048 + l))" by simp
      then show False using l(1) ij assms(1) by (simp add: unat_frame_byte del: of_nat_add of_nat_mult)
    qed
    moreover have "in_range (physical_to_virtual f) 2048 (physical_to_virtual f + of_nat (8 * i + j))"
      using ij by (intro in_range_offset) simp_all
    ultimately show ?thesis unfolding slot_bytes fresh_top_def by (simp add: blit_outside fill_at del: of_nat_add of_nat_mult)
  qed
  then have "entry (fresh_top f kt m) f i = 0" unfolding entry_def load_def by (intro word_le_zeros) auto
  with True show ?thesis by simp
next
  case False
  have "fresh_top f kt m (slot (physical_to_virtual f) i + of_nat j) = m (slot (physical_to_virtual kt) i + of_nat j)" if "j < 8" for j
  proof -
    define l where "l = 8 * i + j - 2048"
    have l: "l < 2048" "8 * i + j = 2048 + l" using False that assms(4) by (auto simp: l_def)
    have "fresh_top f kt m (physical_to_virtual f + of_nat (8 * i + j)) = fill (physical_to_virtual f) 2048 0 m (physical_to_virtual kt + of_nat (8 * i + j))"
      unfolding fresh_top_def l(2) using blit_at [OF l(1), of "physical_to_virtual f + 2048" "physical_to_virtual kt + 2048"]
      by (simp add: add.assoc)
    also have "\<dots> = m (physical_to_virtual kt + of_nat (8 * i + j))"
    proof (rule fill_outside)
      have "8 * i + j < 4096" using assms(4) that by simp
      then have "\<not> in_range (physical_to_virtual f) 4096 (physical_to_virtual kt + of_nat (8 * i + j))"
        using assms by (intro frame_byte_outside_frame)
      then show "\<not> in_range (physical_to_virtual f) 2048 (physical_to_virtual kt + of_nat (8 * i + j))"
        using in_lower_half by blast
    qed
    finally show ?thesis unfolding slot_bytes .
  qed
  then have "entry (fresh_top f kt m) f i = entry m kt i"
    unfolding entry_def load_def by (intro arg_cong [where f = word_le]) (auto simp only: map_eq_conv set_upt atLeastLessThan_iff)
  then show ?thesis using False by simp
qed

section \<open>Address spaces\<close>

lemma table_at_same_frames:
  assumes "same_frames (tables m root) m m'" and "ok_path p"
  shows "table_at m' root p = table_at m root p"
proof (rule table_at_cong [OF _ assms(2)])
  fix q u and j :: nat assume "ok_path q" "table_at m root q = Some u" "j < 512"
  then have "u \<in> tables m root" by (auto simp: tables_def)
  from entry_same_frames [OF assms(1) this \<open>j < 512\<close>] show "child (entry m' u j) = child (entry m u j)" by simp
qed

lemma tables_same_frames: "same_frames (tables m root) m m' \<Longrightarrow> tables m' root = tables m root"
  by (auto simp: tables_def table_at_same_frames)

lemma tables_ok_same_frames: "same_frames (tables m root) m m' \<Longrightarrow> tables_ok m root \<Longrightarrow> tables_ok m' root"
  by (simp add: tables_ok_def table_at_same_frames)

lemma vm_ok_tables_frame: "vm_ok X k \<Longrightarrow> t \<in> tables (memory k) (k_cr3 k) \<Longrightarrow> is_frame t"
  unfolding vm_ok_def tables_def tables_ok_def by blast

lemma root_table: "root \<in> tables m root"
  unfolding tables_def by (rule CollectI, rule exI [of _ "[]"]) (simp add: ok_path_def)

text \<open>C27. A new address space is a page that was free, whose lower half is empty and whose upper half is that of
  the kernel's top-level table: the kernel is mapped in every address space by the same tables. No other frame is
  written, the kernel's own address space is unchanged, and the new table counts as in use.\<close>

theorem create_cr3_shares_kernel:
  assumes "vm_ok X k" and "hw_cr3 k = k_cr3 k" and "free_pages (pmem k) \<noteq> {}" and "create_cr3 k = (f, k')"
  shows "f \<in> free_pages (pmem k) \<and> free_pages (pmem k') = free_pages (pmem k) - {f}
    \<and> (\<forall>i<512. entry (memory k') f i = (if i < 256 then 0 else entry (memory k) (k_cr3 k) i))
    \<and> same_frames {t. is_frame t \<and> t \<noteq> f} (memory k) (memory k')
    \<and> tables (memory k') (k_cr3 k') = tables (memory k) (k_cr3 k) \<and> vm_ok (insert f X) k'"
proof -
  obtain g a where g: "alloc_phys_pages 1 (pmem k) = (g, a)" by force
  have inv: "pm_inv (pmem k)" using assms(1) by (simp add: vm_ok_def)
  note al = alloc_phys_pages_some [OF inv assms(3) g]
  have root: "k_cr3 k \<in> tables (memory k) (k_cr3 k)" by (rule root_table)
  have gf: "is_frame g" "g \<notin> tables (memory k) (k_cr3 k)" using assms(1) al(1) unfolding vm_ok_def by blast+
  have rf: "is_frame (k_cr3 k)" by (rule vm_ok_tables_frame [OF assms(1) root])
  have ne: "g \<noteq> k_cr3 k" using gf(2) root by blast
  have k': "f = g" "k' = k\<lparr>pmem := a, memory := fresh_top g (k_cr3 k) (memory k)\<rparr>"
    using create_cr3_eq [OF gf(1) _ _ g] rf ne assms(2,4) by simp_all
  have same: "same_frames {t. is_frame t \<and> t \<noteq> g} (memory k) (memory k')"
    using fresh_top_same_frames [OF gf(1)] by (simp add: k'(2))
  have st: "same_frames (tables (memory k) (k_cr3 k)) (memory k) (memory k')"
    using vm_ok_tables_frame [OF assms(1)] gf(2) by (intro same_frames_subset [OF same]) auto
  have cr: "k_cr3 k' = k_cr3 k" by (simp add: k'(2))
  have "vm_ok (insert g X) k'"
    using assms(1) al gf tables_same_frames [OF st] tables_ok_same_frames [OF st]
    unfolding vm_ok_def cr by (auto simp: k'(2))
  then show ?thesis
    using al(1,2) same tables_same_frames [OF st] entry_fresh_top [OF gf(1) rf ne]
    by (simp add: k')
qed

text \<open>C30. proc_alloc loads the process's top-level table into the register, but maps the range in the kernel's tables:
  on a range that fits one page directory, with enough free pages for it and the page tables it needs, afterwards the range is mapped, with the user bit, in the kernel's address space, no entry of the process's own
  top-level table has changed, and the register holds the kernel's table again.\<close>

theorem proc_alloc_maps_kernel:
  assumes "vm_ok X k" and "range_ok k (vpage addr) (vlen sz)"
    and "vlen sz + ntables (vlen sz) + 2 \<le> card (free_pages (pmem k))"
    and "f = load64 (memory k) (cr3_at proc)" and "f \<in> X" and "k' = proc_alloc proc addr sz prot k"
  shows "(\<forall>j<vlen sz. \<exists>p \<in> free_pages (pmem k). translate (memory k') (k_cr3 k) (vpage addr + j)
        = Some (p OR (X86_PAGE_PRESENT OR page_prot_flags (nx_mask k) (KPROT_USER OR prot))))
    \<and> (\<forall>i<512. entry (memory k') f i = entry (memory k) f i) \<and> hw_cr3 k' = k_cr3 k"
proof -
  let ?k0 = "k\<lparr>hw_cr3 := load64 (memory k) (cr3_at proc)\<rparr>"
  have ok: "vm_ok X ?k0" "range_ok ?k0 (vpage addr) (vlen sz)"
      "vlen sz + ntables (vlen sz) + 2 \<le> card (free_pages (pmem ?k0))"
    using assms(1-3) by (simp_all add: vm_ok_def range_ok_def)
  have run: "kmapanon addr sz (KPROT_USER OR prot) ?k0 = (addr, k')"
    unfolding assms(6) proc_alloc_def by (simp add: kmapanon_def Let_def)
  from kmapanon_spec [OF ok run] obtain fs where fs: "length fs = vlen sz" "set fs \<subseteq> free_pages (pmem k)"
      "\<forall>j<vlen sz. translate (memory k') (k_cr3 k') (vpage addr + j)
         = Some (fs ! j OR (X86_PAGE_PRESENT OR page_prot_flags (nx_mask k) (KPROT_USER OR prot)))"
      "same_frames X (memory k) (memory k')" and cr: "k_cr3 k' = k_cr3 k" by auto
  have hw: "hw_cr3 k' = k_cr3 k'" unfolding assms(6) proc_alloc_def by (simp add: kmapanon_def Let_def cr3_write_def)
  show ?thesis
  proof (intro conjI allI impI)
    fix j assume "j < vlen sz"
    then have "fs ! j \<in> free_pages (pmem k)" using fs(1,2) by (simp add: subset_iff)
    with fs(3) \<open>j < vlen sz\<close> show "\<exists>p \<in> free_pages (pmem k). translate (memory k') (k_cr3 k) (vpage addr + j)
        = Some (p OR (X86_PAGE_PRESENT OR page_prot_flags (nx_mask k) (KPROT_USER OR prot)))"
      unfolding cr by blast
  next
    fix i :: nat assume "i < 512"
    then show "entry (memory k') f i = entry (memory k) f i" by (rule entry_same_frames [OF fs(4) assms(5)])
  qed (use hw cr in simp)
qed

section \<open>Witnesses\<close>

lemma sample_kernel_pool: "free_pages (pmem sample_kernel) \<noteq> {}"
  using sample_room by fastforce

lemma create_cr3_shares_kernel_witness:
  "fst (create_cr3 sample_kernel) \<in> free_pages sample_pool
    \<and> entry (memory (snd (create_cr3 sample_kernel))) (fst (create_cr3 sample_kernel)) 3 = 0"
  using create_cr3_shares_kernel [OF sample_kernel_ok _ sample_kernel_pool surjective_pairing]
  by (simp add: sample_kernel_def)

lemma no_large_same_frames:
  assumes "same_frames (tables m root) m m'" and "no_large m root w"
  shows "no_large m' root w"
  unfolding no_large_def
proof (intro allI impI)
  fix q i r u assume w: "page_path w = q @ i # r" and q: "table_at m' root q = Some u"
    and p: "entry m' u i AND X86_PAGE_PRESENT \<noteq> 0"
  have "ok_path (page_path w)" "length (page_path w) = 3" by simp_all
  then have ok: "ok_path q" "i < 512" unfolding w by (simp_all add: ok_path_def)
  have q': "table_at m root q = Some u" using q table_at_same_frames [OF assms(1) ok(1)] by simp
  then have "u \<in> tables m root" using ok(1) by (auto simp: tables_def)
  with assms(1) ok(2) have "entry m' u i = entry m u i" by (intro entry_same_frames)
  with assms(2) w q' p show "entry m' u i AND X86_PAGE_LARGE = 0" unfolding no_large_def by metis
qed

text \<open>A process in frame \<open>0x3000\<close> with the top-level table \<open>0x2000\<close>.\<close>

definition proc_kernel :: Kernel where
  "proc_kernel = sample_kernel\<lparr>memory := store64 (\<lambda>_. 0) (slot (physical_to_virtual 0x3000) 83) 0x2000\<rparr>"

lemma sample_root: "tables (memory sample_kernel) (k_cr3 sample_kernel) = {0x1000}"
  by (auto simp: tables_def sample_tables sample_kernel_def ok_path_def split: if_splits intro!: exI [of _ "[]"])

lemma proc_kernel_frames:
  "same_frames (tables (memory sample_kernel) (k_cr3 sample_kernel)) (memory sample_kernel) (memory proc_kernel)"
  unfolding sample_root by (simp add: proc_kernel_def sample_kernel_def same_frames_store is_frame_def)

lemma proc_kernel_fields:
  "k_cr3 proc_kernel = k_cr3 sample_kernel" "pmem proc_kernel = pmem sample_kernel"
  "load64 (memory proc_kernel) (cr3_at 0xffff800000003000) = 0x2000"
proof -
  have "cr3_at 0xffff800000003000 = slot (physical_to_virtual 0x3000) 83"
    by (simp add: cr3_at_def slot_def physical_to_virtual_def)
  then show "load64 (memory proc_kernel) (cr3_at 0xffff800000003000) = 0x2000" by (simp add: proc_kernel_def)
qed (simp_all add: proc_kernel_def)

lemma proc_kernel_ok: "vm_ok {0x2000} proc_kernel"
proof -
  have "p \<noteq> 0x2000" if p: "p \<in> free_pages sample_pool" for p
  proof -
    obtain i where "i < 8" "p = 0x1000000 + of_nat i * PAGESIZE" using p by (auto simp: sample_pool_free)
    then have "unat p = 0x1000000 + i * 4096" by (simp only: sample_page_unat)
    then show ?thesis by auto
  qed
  then have "0x2000 \<notin> free_pages (pmem sample_kernel)" by (auto simp: sample_kernel_def)
  then show ?thesis
    using sample_kernel_ok tables_same_frames [OF proc_kernel_frames] tables_ok_same_frames [OF proc_kernel_frames]
    unfolding vm_ok_def proc_kernel_fields sample_root by (simp add: is_frame_def)
qed

lemma proc_alloc_maps_kernel_witness:
  "\<exists>p e. translate (memory (proc_alloc 0xffff800000003000 0xffffc00000000000 0x2000 KPROT_WRITE proc_kernel)) 0x1000 0xffffc00000001
       = Some (p OR e)
     \<and> hw_cr3 (proc_alloc 0xffff800000003000 0xffffc00000000000 0x2000 KPROT_WRITE proc_kernel) = 0x1000"
proof -
  have "range_ok proc_kernel (vpage 0xffffc00000000000) (vlen 0x2000)"
    using sample_range no_large_same_frames [OF proc_kernel_frames] by (simp add: range_ok_def proc_kernel_fields)
  moreover have "vlen 0x2000 + ntables (vlen 0x2000) + 2 \<le> card (free_pages (pmem proc_kernel))"
    using sample_room by (simp add: proc_kernel_fields)
  ultimately have maps: "(\<forall>j<vlen 0x2000. \<exists>p \<in> free_pages (pmem proc_kernel).
        translate (memory (proc_alloc 0xffff800000003000 0xffffc00000000000 0x2000 KPROT_WRITE proc_kernel)) (k_cr3 proc_kernel)
          (vpage 0xffffc00000000000 + j)
        = Some (p OR (X86_PAGE_PRESENT OR page_prot_flags (nx_mask proc_kernel) (KPROT_USER OR KPROT_WRITE))))
      \<and> hw_cr3 (proc_alloc 0xffff800000003000 0xffffc00000000000 0x2000 KPROT_WRITE proc_kernel) = k_cr3 proc_kernel"
    using proc_alloc_maps_kernel [OF proc_kernel_ok _ _ proc_kernel_fields(3) [symmetric] _ refl] by blast
  have "k_cr3 proc_kernel = 0x1000" by (simp add: proc_kernel_def sample_kernel_def)
  then show ?thesis
    using maps [THEN conjunct2] maps [THEN conjunct1, THEN spec, of 1, unfolded sample_vpage]
    by (simp del: One_nat_def) blast
qed

end
