(* ===== verification/BootMem.thy ===== *)
theory BootMem
  imports PhysMem Video
begin

text \<open>
  The state of the boot loader, the calls it makes to the BIOS (src/boot/bootloader/boot.h, bios.S),
  its page allocation and page tables (alloc.c, memory.c) and its detection of the memory of the
  machine. The memory is the physical one: the page tables in force map the first 4 GiB to
  themselves, so below 4 GiB a store of the code at an address is a store at the same physical address,
  as it is written here. A page or a table above 4 GiB could not be written this way (the processor
  would fault), and the theorems are about pages and tables below. The BIOS is a parameter: what a call answers and leaves in memory, as a
  function of its number, its registers and the memory.
\<close>

section \<open>State\<close>

record BiosArgs =
  eax :: u32
  ebx :: u32
  ecx :: u32
  edx :: u32
  esi :: u32
  edi :: u32
  es :: u16
  fs :: u16

type_synonym bios = "u8 \<Rightarrow> BiosArgs \<Rightarrow> mem \<Rightarrow> bool \<times> BiosArgs \<times> mem"

definition MAX_MEM_REGIONS :: nat where "MAX_MEM_REGIONS = 64"

record BootPartitionRecord =
  unused :: "u8 list"
  lba_start :: u32
  lba_size :: u32

text \<open>The regions beyond those found have size 0; stores beyond the 64 entries are left out.\<close>

record BootParams =
  boot_drive :: u32
  mbr_partition :: BootPartitionRecord
  bp_video :: BootVideo
  mem_map :: "BootMemRegion list"
  mem_free :: "BootMemRegion list"
  bp_initram :: u64
  bp_initram_size :: u64
  bp_cr3 :: u64

text \<open>The parameters, the static \<open>page\<close> of \<open>alloc_page_lo\<close>, the memory and the register CR3.\<close>

record Boot =
  gBootParams :: BootParams
  lo_page :: u64
  ram :: mem
  cr3_reg :: u64

text \<open>\<open>bios_call\<close>: the carry flag the call leaves, and the registers stored back.\<close>

definition bios_call :: "bios \<Rightarrow> u8 \<Rightarrow> BiosArgs \<Rightarrow> Boot \<Rightarrow> bool \<times> BiosArgs \<times> Boot" where
  "bios_call bios num args s = (let (cf, args, m) = bios num args (ram s) in (cf, args, s\<lparr>ram := m\<rparr>))"

section \<open>Pages\<close>

text \<open>The page is written at its physical address, through the identity map: it is one below 4 GiB.\<close>

definition zero_page :: "u64 \<Rightarrow> Boot \<Rightarrow> u64 \<times> Boot" where
  "zero_page page s = (page, s\<lparr>ram := fst (memset (ram s) page 0 PAGESIZE)\<rparr>)"

definition alloc_page_lo :: "Boot \<Rightarrow> u64 \<times> Boot" where
  "alloc_page_lo s = (let tmp = lo_page s in zero_page tmp (s\<lparr>lo_page := lo_page s + PAGESIZE\<rparr>))"

text \<open>The loop of \<open>alloc_page_hi\<close> over the first \<open>n\<close> regions: the page, and the regions afterwards.\<close>

fun take_hi :: "nat \<Rightarrow> BootMemRegion list \<Rightarrow> (u64 \<times> BootMemRegion list) option" where
  "take_hi 0 rs = None"
| "take_hi (Suc n) [] = None"
| "take_hi (Suc n) (r # rs) =
     (if r_size r \<noteq> 0
      then Some (r_base r, r\<lparr>r_base := r_base r + PAGESIZE, r_size := r_size r - PAGESIZE\<rparr> # rs)
      else map_option (\<lambda>(p, rs). (p, r # rs)) (take_hi n rs))"

definition alloc_page_hi :: "Boot \<Rightarrow> u64 \<times> Boot" where
  "alloc_page_hi s =
     (case take_hi 32 (mem_free (gBootParams s)) of
        None \<Rightarrow> (0, s)
      | Some (p, rs) \<Rightarrow> zero_page p (s\<lparr>gBootParams := (gBootParams s)\<lparr>mem_free := rs\<rparr>\<rparr>))"

section \<open>Page tables\<close>

definition decompose_addr :: "u64 \<Rightarrow> nat \<times> nat \<times> nat \<times> nat" where
  "decompose_addr vaddr =
     (unat (drop_bit 39 vaddr AND 0x1ff), unat (drop_bit 30 vaddr AND 0x1ff),
      unat (drop_bit 21 vaddr AND 0x1ff), unat (drop_bit 12 vaddr AND 0x1ff))"

text \<open>Element \<open>i\<close> of the array of 64-bit words at \<open>t\<close>, and the mask that takes a table out of an entry.\<close>

definition word_at :: "u64 \<Rightarrow> nat \<Rightarrow> u64" where "word_at t i = t + of_nat (8 * i)"
definition TABLE_MASK :: u64 where "TABLE_MASK = 0xfffffffffffff000"

text \<open>The table below entry \<open>i\<close> of table \<open>t\<close>, allocated when the entry is null.\<close>

definition lower_table :: "(Boot \<Rightarrow> u64 \<times> Boot) \<Rightarrow> u64 \<Rightarrow> nat \<Rightarrow> Boot \<Rightarrow> u64 \<times> Boot" where
  "lower_table alloc t i s =
     (let tmp2 = load64 (ram s) (word_at t i)
      in if tmp2 = 0
         then (let (p, s) = alloc s; tmp2 = p OR 3
               in (tmp2 AND TABLE_MASK, s\<lparr>ram := store64 (ram s) (word_at t i) tmp2\<rparr>))
         else (tmp2 AND TABLE_MASK, s))"

definition map_single :: "u64 \<Rightarrow> Boot \<Rightarrow> Boot" where
  "map_single vaddr s =
     (let (a, b, c, d) = decompose_addr vaddr;
          (t, s) = lower_table alloc_page_hi (bp_cr3 (gBootParams s)) a s;
          (t, s) = lower_table alloc_page_hi t b s;
          (t, s) = lower_table alloc_page_hi t c s;
          (p, s) = alloc_page_hi s
      in s\<lparr>ram := store64 (ram s) (word_at t d) (p OR 1)\<rparr>)"

text \<open>\<open>npages\<close> is an \<open>int\<close>: the number of pages is cut to 32 bits and none is mapped when it is negative.\<close>

definition valloc :: "u64 \<Rightarrow> u64 \<Rightarrow> Boot \<Rightarrow> Boot" where
  "valloc addr sz s =
     (let sz = sz + (addr AND (PAGESIZE - 1));
          vaddr = addr AND NOT (PAGESIZE - 1);
          npages = c_int (drop_bit 12 (sz + PAGESIZE - 1));
          s = for_n (nat npages) (\<lambda>i. map_single (vaddr + of_int (c_int (of_nat i * PAGESIZE)))) s
      in s\<lparr>cr3_reg := bp_cr3 (gBootParams s)\<rparr>)"

definition map_identity_2mib :: "nat \<Rightarrow> nat \<Rightarrow> Boot \<Rightarrow> Boot" where
  "map_identity_2mib i j s =
     (let (t, s) = lower_table alloc_page_lo (bp_cr3 (gBootParams s)) 0 s;
          (t, s) = lower_table alloc_page_lo t i s
      in s\<lparr>ram := store64 (ram s) (word_at t j) ((of_nat i * 0x200 + of_nat j) * 0x200000 OR 0x83)\<rparr>)"

definition memory_identity_map :: "Boot \<Rightarrow> Boot" where
  "memory_identity_map s =
     (let (p, s) = alloc_page_hi s;
          s = s\<lparr>gBootParams := (gBootParams s)\<lparr>bp_cr3 := p\<rparr>\<rparr>
      in for_n 4 (\<lambda>i s. (for_n 0x200 (\<lambda>j. map_identity_2mib i j) s)\<lparr>cr3_reg := bp_cr3 (gBootParams s)\<rparr>) s)"

section \<open>Detection of the memory\<close>

text \<open>The fields of \<open>BiosMemRegion\<close> by their offsets; \<open>mem_at\<close> is the address of the variable \<open>mem\<close>.\<close>

definition region_base :: "mem \<Rightarrow> u64 \<Rightarrow> u64" where "region_base m mem_at = load64 m mem_at"
definition region_size :: "mem \<Rightarrow> u64 \<Rightarrow> u64" where "region_size m mem_at = load64 m (mem_at + 8)"
definition region_type :: "mem \<Rightarrow> u64 \<Rightarrow> u32" where "region_type m mem_at = load32 m (mem_at + 16)"

text \<open>The part of a region above 16 MiB, if any.\<close>

definition above_lomem :: "u64 \<Rightarrow> u64 \<Rightarrow> BootMemRegion option" where
  "above_lomem base sz =
     (if base + sz > 0x1000000
      then (if base < 0x1000000 then Some \<lparr>r_base = 0x1000000, r_size = sz - (0x1000000 - base)\<rparr>
            else Some \<lparr>r_base = base, r_size = sz\<rparr>)
      else None)"

definition add_region :: "u64 \<Rightarrow> u64 \<Rightarrow> nat \<times> nat \<times> BootParams \<Rightarrow> nat \<times> nat \<times> BootParams" where
  "add_region base sz = (\<lambda>(map_curs, free_curs, p).
     let p = p\<lparr>mem_map := (mem_map p)[map_curs := \<lparr>r_base = base, r_size = sz\<rparr>]\<rparr>
     in case above_lomem base sz of
          None \<Rightarrow> (map_curs + 1, free_curs, p)
        | Some r \<Rightarrow> (map_curs + 1, free_curs + 1, p\<lparr>mem_free := (mem_free p)[free_curs := r]\<rparr>))"

text \<open>The variable \<open>mem\<close> is cut to the part above 16 MiB.\<close>

definition cut_region :: "u64 \<Rightarrow> mem \<Rightarrow> mem" where
  "cut_region mem_at m =
     (let base = region_base m mem_at; sz = region_size m mem_at
      in if base + sz > 0x1000000 \<and> base < 0x1000000
         then store64 (store64 m (mem_at + 8) (sz - (0x1000000 - base))) mem_at 0x1000000 else m)"

text \<open>The loop of \<open>memory_detect\<close>; \<open>None\<close> is a BIOS that answers for ever.\<close>

partial_function (option) detect_from :: "bios \<Rightarrow> u64 \<Rightarrow> BiosArgs \<Rightarrow> nat \<Rightarrow> nat \<Rightarrow> Boot \<Rightarrow> Boot option" where
  "detect_from bios mem_at args map_curs free_curs s =
     (let (cf, args, s) = bios_call bios 0x15
            (args\<lparr>eax := 0xe820, ecx := 24, edx := 0x534d4150, edi := ucast mem_at, es := 0\<rparr>) s
      in if cf then Some s
         else if eax args \<noteq> 0x534d4150 then Some s
         else (let base = region_base (ram s) mem_at; sz = region_size (ram s) mem_at;
                   usable = (sz \<noteq> 0 \<and> region_type (ram s) mem_at = 1);
                   (map_curs, free_curs, p) =
                     (if usable then add_region base sz (map_curs, free_curs, gBootParams s)
                      else (map_curs, free_curs, gBootParams s));
                   s = s\<lparr>gBootParams := p, ram := (if usable then cut_region mem_at (ram s) else ram s)\<rparr>
               in if ebx args = 0 then Some s else detect_from bios mem_at args map_curs free_curs s))"

text \<open>\<open>args\<close> is what the stack holds in the fields that are not set before the first call.\<close>

definition memory_detect :: "bios \<Rightarrow> u64 \<Rightarrow> BiosArgs \<Rightarrow> Boot \<Rightarrow> Boot option" where
  "memory_detect bios mem_at args s = detect_from bios mem_at (args\<lparr>ebx := 0\<rparr>) 0 0 s"

end
