(* ===== verification/BootDetect.thy ===== *)
theory BootDetect
  imports BootMem
begin

text \<open>
  What \<open>memory_detect\<close> leaves in the boot parameters, for a BIOS that enumerates a list of regions:
  the usable regions in order, and the parts of them above 16 MiB.
\<close>

section \<open>A BIOS that enumerates regions\<close>

text \<open>
  INT 15h, AX=E820h: every call answers the region its continuation value stands for and the value
  for the next one, 0 at the first call and after the last region.
\<close>

type_synonym region = "u64 \<times> u64 \<times> u32"

definition region_at :: "mem \<Rightarrow> u64 \<Rightarrow> region" where
  "region_at m a = (region_base m a, region_size m a, region_type m a)"

definition e820_answer :: "bios \<Rightarrow> u64 \<Rightarrow> u32 \<Rightarrow> region \<Rightarrow> u32 \<Rightarrow> bool" where
  "e820_answer bios mem_at c r c' \<longleftrightarrow>
     (\<forall>args m. eax args = 0xe820 \<longrightarrow> ecx args = 24 \<longrightarrow> edx args = 0x534d4150 \<longrightarrow> edi args = ucast mem_at
        \<longrightarrow> es args = 0 \<longrightarrow> ebx args = c \<longrightarrow>
        (case bios 0x15 args m of (cf, args', m') \<Rightarrow>
           \<not> cf \<and> eax args' = 0x534d4150 \<and> ebx args' = c' \<and> region_at m' mem_at = r \<and> same_outside mem_at 24 m m'))"

fun e820_from :: "bios \<Rightarrow> u64 \<Rightarrow> u32 \<Rightarrow> region list \<Rightarrow> bool" where
  "e820_from bios mem_at c [] = False"
| "e820_from bios mem_at c [r] = e820_answer bios mem_at c r 0"
| "e820_from bios mem_at c (r # rs) = (\<exists>c'. c' \<noteq> 0 \<and> e820_answer bios mem_at c r c' \<and> e820_from bios mem_at c' rs)"

section \<open>The regions found\<close>

definition usable :: "region \<Rightarrow> bool" where
  "usable = (\<lambda>(base, sz, ty). sz \<noteq> 0 \<and> ty = 1)"

definition found :: "region list \<Rightarrow> BootMemRegion list" where
  "found rs = map (\<lambda>(base, sz, ty). \<lparr>r_base = base, r_size = sz\<rparr>) (filter usable rs)"

definition found_free :: "region list \<Rightarrow> BootMemRegion list" where
  "found_free rs = List.map_filter (\<lambda>r. above_lomem (r_base r) (r_size r)) (found rs)"

text \<open>A list of regions put into an array from index \<open>i\<close> on.\<close>

definition put_regions :: "nat \<Rightarrow> BootMemRegion list \<Rightarrow> BootMemRegion list \<Rightarrow> BootMemRegion list" where
  "put_regions i rs xs = take i xs @ rs @ drop (i + length rs) xs"

lemma put_regions_Nil [simp]: "put_regions i [] xs = xs"
  by (simp add: put_regions_def)

lemma put_regions_Cons:
  "i + length (r # rs) \<le> length xs \<Longrightarrow> put_regions (Suc i) rs (xs[i := r]) = put_regions i (r # rs) xs"
  by (simp add: put_regions_def take_Suc_conv_app_nth take_update_swap drop_update_cancel list_update_append)

lemma found_Cons: "found (r # rs) = (if usable r then \<lparr>r_base = fst r, r_size = fst (snd r)\<rparr> # found rs else found rs)"
  by (auto simp: found_def split: prod.splits)

lemma found_free_Cons:
  "found_free (r # rs) =
     (if usable r then (case above_lomem (fst r) (fst (snd r)) of None \<Rightarrow> found_free rs | Some f \<Rightarrow> f # found_free rs)
      else found_free rs)"
  by (simp add: found_free_def found_Cons map_filter_simps split: option.splits)

lemma length_found_free: "length (found_free rs) \<le> length (found rs)"
  by (induction rs) (auto simp: found_free_Cons found_Cons found_def found_free_def map_filter_simps split: option.splits)

text \<open>The cut of the variable stays within it.\<close>

lemma cut_region_outside: "same_outside a 24 m (cut_region a m)"
proof -
  have "\<not> in_range a 8 x" "\<not> in_range (a + 8) 8 x" if "\<not> in_range a 24 x" for x
    using that in_subrange [of 0 8 24 a x] in_subrange [of 8 8 24 a x] by auto
  then show ?thesis by (auto simp: cut_region_def Let_def same_outside_def store_outside)
qed

text \<open>One round of the loop.\<close>

definition detect_params :: "region \<Rightarrow> nat \<Rightarrow> nat \<Rightarrow> BootParams \<Rightarrow> nat \<times> nat \<times> BootParams" where
  "detect_params r mc fc p = (if usable r then add_region (fst r) (fst (snd r)) (mc, fc, p) else (mc, fc, p))"

lemma detect_round:
  assumes "e820_answer bios mem_at c r c'" and "ebx args = c" and "detect_params r mc fc (gBootParams s) = (mc', fc', p)"
  obtains args' m' where "same_outside mem_at 24 (ram s) m'" and "ebx args' = c'"
    and "detect_from bios mem_at args mc fc s =
      (if c' = 0 then Some (s\<lparr>gBootParams := p, ram := m'\<rparr>)
       else detect_from bios mem_at args' mc' fc' (s\<lparr>gBootParams := p, ram := m'\<rparr>))"
proof -
  let ?args = "args\<lparr>eax := 0xe820, ecx := 24, edx := 0x534d4150, edi := ucast mem_at, es := 0\<rparr>"
  obtain cf args' m' where b: "bios 0x15 ?args (ram s) = (cf, args', m')" by (cases "bios 0x15 ?args (ram s)")
  from assms(1) have "case bios 0x15 ?args (ram s) of (cf, args', m') \<Rightarrow>
      \<not> cf \<and> eax args' = 0x534d4150 \<and> ebx args' = c' \<and> region_at m' mem_at = r \<and> same_outside mem_at 24 (ram s) m'"
    unfolding e820_answer_def using assms(2) by simp
  then have a: "\<not> cf" "eax args' = 0x534d4150" "ebx args' = c'" "region_at m' mem_at = r" "same_outside mem_at 24 (ram s) m'"
    by (simp_all add: b)
  let ?m = "if usable r then cut_region mem_at m' else m'"
  have m: "same_outside mem_at 24 (ram s) ?m"
    using a(5) same_outside_trans [OF a(5) cut_region_outside] by simp
  have r: "region_base m' mem_at = fst r" "region_size m' mem_at = fst (snd r)" "region_type m' mem_at = snd (snd r)"
    using a(4) by (auto simp: region_at_def)
  have u: "fst (snd r) \<noteq> 0 \<and> snd (snd r) = 1 \<longleftrightarrow> usable r" by (simp add: usable_def split: prod.splits)
  have "detect_from bios mem_at args mc fc s =
      (if c' = 0 then Some (s\<lparr>gBootParams := p, ram := ?m\<rparr>)
       else detect_from bios mem_at args' mc' fc' (s\<lparr>gBootParams := p, ram := ?m\<rparr>))"
    using a(1-3) assms(3)
    by (subst detect_from.simps, cases "usable r") (auto simp: bios_call_def b r u detect_params_def Let_def)
  then show thesis using that m a(3) by blast
qed

lemma detect_params_put:
  assumes "detect_params r mc fc p = (mc', fc', p')" and "mc + length (found (r # rs)) \<le> length (mem_map p)"
    and "fc + length (found_free (r # rs)) \<le> length (mem_free p)"
  shows "put_regions mc' (found rs) (mem_map p') = put_regions mc (found (r # rs)) (mem_map p)"
    and "put_regions fc' (found_free rs) (mem_free p') = put_regions fc (found_free (r # rs)) (mem_free p)"
    and "mc' + length (found rs) \<le> length (mem_map p')" and "fc' + length (found_free rs) \<le> length (mem_free p')"
    and "p'\<lparr>mem_map := a, mem_free := b\<rparr> = p\<lparr>mem_map := a, mem_free := b\<rparr>"
  using assms
  by (auto simp: detect_params_def add_region_def Let_def found_Cons found_free_Cons put_regions_Cons
      split: if_splits option.splits)

lemma detect_from_found:
  assumes "e820_from bios mem_at c rs" and "ebx args = c" and "mc + length (found rs) \<le> length (mem_map (gBootParams s))"
    and "fc + length (found_free rs) \<le> length (mem_free (gBootParams s))"
  shows "\<exists>m. detect_from bios mem_at args mc fc s = Some (s\<lparr>gBootParams := (gBootParams s)\<lparr>
      mem_map := put_regions mc (found rs) (mem_map (gBootParams s)),
      mem_free := put_regions fc (found_free rs) (mem_free (gBootParams s))\<rparr>, ram := m\<rparr>) \<and> same_outside mem_at 24 (ram s) m"
  using assms
proof (induction bios mem_at c rs arbitrary: args mc fc s rule: e820_from.induct)
  case (2 bios mem_at c r)
  obtain mc' fc' p where p: "detect_params r mc fc (gBootParams s) = (mc', fc', p)" by (cases "detect_params r mc fc (gBootParams s)")
  note put = detect_params_put [OF p "2.prems"(3,4)]
  from "2.prems" have ans: "e820_answer bios mem_at c r 0" by simp
  obtain args' m' where d: "same_outside mem_at 24 (ram s) m'"
      "detect_from bios mem_at args mc fc s = Some (s\<lparr>gBootParams := p, ram := m'\<rparr>)"
    by (rule detect_round [OF ans "2.prems"(2) p]) simp
  have "mem_map p = put_regions mc (found [r]) (mem_map (gBootParams s))"
    "mem_free p = put_regions fc (found_free [r]) (mem_free (gBootParams s))"
    using put(1,2) by (simp_all add: found_def found_free_def map_filter_simps)
  moreover have "p = p\<lparr>mem_map := mem_map p, mem_free := mem_free p\<rparr>" by simp
  ultimately have "p = (gBootParams s)\<lparr>mem_map := put_regions mc (found [r]) (mem_map (gBootParams s)),
      mem_free := put_regions fc (found_free [r]) (mem_free (gBootParams s))\<rparr>" by (simp only: put(5))
  with d show ?case by auto
next
  case (3 bios mem_at c r r' rs)
  obtain mc' fc' p where p: "detect_params r mc fc (gBootParams s) = (mc', fc', p)" by (cases "detect_params r mc fc (gBootParams s)")
  note put = detect_params_put [OF p "3.prems"(3,4)]
  from "3.prems" obtain c' where c': "c' \<noteq> 0" "e820_answer bios mem_at c r c'" "e820_from bios mem_at c' (r' # rs)" by auto
  obtain args' m' where d: "same_outside mem_at 24 (ram s) m'" "ebx args' = c'"
      "detect_from bios mem_at args mc fc s = detect_from bios mem_at args' mc' fc' (s\<lparr>gBootParams := p, ram := m'\<rparr>)"
    by (rule detect_round [OF c'(2) "3.prems"(2) p]) (use c'(1) in simp)
  obtain m where m: "detect_from bios mem_at args' mc' fc' (s\<lparr>gBootParams := p, ram := m'\<rparr>) = Some (s\<lparr>gBootParams := p\<lparr>
      mem_map := put_regions mc' (found (r' # rs)) (mem_map p), mem_free := put_regions fc' (found_free (r' # rs)) (mem_free p)\<rparr>, ram := m\<rparr>)"
      "same_outside mem_at 24 m' m"
    using "3.IH" [OF c'(3) d(2), of mc' "s\<lparr>gBootParams := p, ram := m'\<rparr>" fc'] put(3,4) by auto
  show ?case
    using d(3) m same_outside_trans [OF d(1) m(2)] unfolding put(1,2,5) by auto
qed simp

text \<open>The addresses a list of regions covers.\<close>

definition covers :: "BootMemRegion list \<Rightarrow> nat \<Rightarrow> bool" where
  "covers rs x \<longleftrightarrow> (\<exists>r \<in> set rs. unat (r_base r) \<le> x \<and> x < unat (r_base r) + unat (r_size r))"

lemma above_lomem_covers:
  assumes "unat base + unat sz < 2 ^ 64"
  shows "0x1000000 \<le> x \<and> unat base \<le> x \<and> x < unat base + unat sz \<longleftrightarrow>
    (case above_lomem base sz of None \<Rightarrow> False | Some r \<Rightarrow> unat (r_base r) \<le> x \<and> x < unat (r_base r) + unat (r_size r))"
proof -
  have s: "unat (base + sz) = unat base + unat sz" using assms by (simp add: unat_add_u64)
  have d: "unat (sz - (0x1000000 - base)) = unat sz - (0x1000000 - unat base)"
    if "unat base < 0x1000000" "0x1000000 < unat base + unat sz"
  proof -
    have "unat (0x1000000 - base) = 0x1000000 - unat base"
      using that by (subst unat_sub) (simp_all add: word_le_nat_alt)
    then show ?thesis using that by (subst unat_sub) (simp_all add: word_le_nat_alt)
  qed
  show ?thesis using s d by (auto simp: above_lomem_def word_less_nat_alt)
qed

lemma covers_found_free:
  assumes "\<forall>(base, sz, ty) \<in> set rs. unat base + unat sz < 2 ^ 64"
  shows "covers (found_free rs) x \<longleftrightarrow> 0x1000000 \<le> x \<and> covers (found rs) x"
  using assms
proof (induction rs)
  case Nil
  then show ?case by (simp add: covers_def found_def found_free_def map_filter_simps)
next
  case (Cons r rs)
  obtain base sz ty where r: "r = (base, sz, ty)" by (cases r)
  with Cons.prems have "unat base + unat sz < 2 ^ 64" by simp
  from above_lomem_covers [OF this, of x] Cons.IH Cons.prems show ?case
    unfolding r by (auto simp: found_Cons found_free_Cons covers_def split: option.splits if_splits)
qed

definition no_region :: BootMemRegion where "no_region = \<lparr>r_base = 0, r_size = 0\<rparr>"

lemma covers_padded: "covers (put_regions 0 rs (replicate n no_region)) x \<longleftrightarrow> covers rs x"
  by (auto simp: covers_def put_regions_def no_region_def)

text \<open>C33. memory_detect, on a BIOS that enumerates the regions \<open>rs\<close>, at most 64 of them usable (the entries of
  the two arrays) and none wrapping around, with both arrays empty before, returns with the usable regions, in order, in
  the memory map, and with the free regions covering exactly the usable addresses from 16 MiB on; besides the
  parameters, only the variable that receives the regions is written.\<close>

theorem memory_detect_regions:
  assumes "e820_from bios mem_at 0 rs" and "length (found rs) \<le> MAX_MEM_REGIONS"
    and "\<forall>(base, sz, ty) \<in> set rs. unat base + unat sz < 2 ^ 64"
    and "mem_map (gBootParams s) = replicate MAX_MEM_REGIONS no_region"
    and "mem_free (gBootParams s) = replicate MAX_MEM_REGIONS no_region"
  shows "\<exists>s'. memory_detect bios mem_at args s = Some s' \<and> same_outside mem_at 24 (ram s) (ram s')
    \<and> take (length (found rs)) (mem_map (gBootParams s')) = found rs
    \<and> set (drop (length (found rs)) (mem_map (gBootParams s'))) \<subseteq> {no_region}
    \<and> (\<forall>x. covers (mem_free (gBootParams s')) x \<longleftrightarrow> 0x1000000 \<le> x \<and> covers (mem_map (gBootParams s')) x)"
proof -
  have free: "length (found_free rs) \<le> MAX_MEM_REGIONS" using assms(2) length_found_free le_trans by blast
  let ?p = "(gBootParams s)\<lparr>mem_map := put_regions 0 (found rs) (replicate MAX_MEM_REGIONS no_region),
      mem_free := put_regions 0 (found_free rs) (replicate MAX_MEM_REGIONS no_region)\<rparr>"
  obtain m where "memory_detect bios mem_at args s = Some (s\<lparr>gBootParams := ?p, ram := m\<rparr>)" "same_outside mem_at 24 (ram s) m"
    using detect_from_found [OF assms(1), of "args\<lparr>ebx := 0\<rparr>" 0 s 0] assms(2,4,5) free by (auto simp: memory_detect_def)
  moreover have "take (length (found rs)) (mem_map ?p) = found rs"
    "set (drop (length (found rs)) (mem_map ?p)) \<subseteq> {no_region}"
    by (simp_all add: put_regions_def set_replicate_conv_if)
  moreover have "covers (mem_free ?p) x \<longleftrightarrow> 0x1000000 \<le> x \<and> covers (mem_map ?p) x" for x
    using covers_found_free [OF assms(3)] by (simp add: covers_padded)
  ultimately show ?thesis by (intro exI [of _ "s\<lparr>gBootParams := ?p, ram := m\<rparr>"]) simp
qed

section \<open>Witness\<close>

text \<open>A machine with 640 KiB of low memory, a ROM, and 128 MiB.\<close>

definition sample_regions :: "region list" where
  "sample_regions = [(0, 0x9fc00, 1), (0xf0000, 0x10000, 2), (0x100000, 0x7ee0000, 1)]"

definition sample_bios :: bios where
  "sample_bios num args m =
     (let i = unat (ebx args); (base, sz, ty) = sample_regions ! i
      in (False, args\<lparr>eax := 0x534d4150, ebx := (if i = 2 then 0 else ebx args + 1)\<rparr>,
          store32 (store64 (store64 m 0x7000 base) 0x7008 sz) 0x7010 ty))"

definition sample_args :: BiosArgs where
  "sample_args = \<lparr>eax = 0, ebx = 0, ecx = 0, edx = 0, esi = 0, edi = 0, es = 0, fs = 0\<rparr>"

definition sample_boot :: Boot where
  "sample_boot = \<lparr>gBootParams = \<lparr>boot_drive = 0x80, mbr_partition = \<lparr>unused = replicate 8 0, lba_start = 1, lba_size = 63\<rparr>,
      bp_video = \<lparr>mode = 0, width = 0, height = 0, bpp = 0, pitch = 0, text_cursor_x = 0, text_cursor_y = 0,
        text_max_x = 80, text_max_y = 25, framebuffer = 0xb8000\<rparr>,
      mem_map = replicate MAX_MEM_REGIONS no_region, mem_free = replicate MAX_MEM_REGIONS no_region,
      bp_initram = 0, bp_initram_size = 0, bp_cr3 = 0\<rparr>, lo_page = 0x100000, ram = (\<lambda>_. 0), cr3_reg = 0\<rparr>"

lemma sample_region_apart:
  "disjoint_ranges (0x7008 :: u64) 8 0x7000 8" "disjoint_ranges (0x7010 :: u64) 4 0x7000 8" "disjoint_ranges (0x7010 :: u64) 4 0x7008 8"
  by (rule disjoint_ranges_unat; simp)+

lemma sample_region_inside:
  assumes "\<not> in_range 0x7000 24 x"
  shows "\<not> in_range 0x7000 8 x" and "\<not> in_range 0x7008 8 x" and "\<not> in_range 0x7010 4 x"
  using assms in_subrange [of 0 8 24 "0x7000" x] in_subrange [of 8 8 24 "0x7000" x] in_subrange [of 16 4 24 "0x7000" x] by auto

lemma sample_answer:
  "e820_answer sample_bios 0x7000 (of_nat i) (sample_regions ! i) (if i = 2 then 0 else of_nat i + 1)" if "i < 3"
proof -
  have "unat (of_nat i :: u32) = i" using that by (simp add: unat_of_nat)
  then show ?thesis
    using sample_region_apart sample_region_inside
    by (auto simp: e820_answer_def sample_bios_def region_at_def region_base_def region_size_def region_type_def
        load_store_disjoint same_outside_def store_outside Let_def word_unat_eq_iff split: prod.splits)
qed

lemma sample_e820: "e820_from sample_bios 0x7000 0 sample_regions"
proof -
  have "e820_answer sample_bios 0x7000 0 (0, 0x9fc00, 1) 1" "e820_answer sample_bios 0x7000 1 (0xf0000, 0x10000, 2) 2"
    "e820_answer sample_bios 0x7000 2 (0x100000, 0x7ee0000, 1) 0"
    using sample_answer [of 0] sample_answer [of 1] sample_answer [of 2] by (simp_all add: sample_regions_def)
  moreover have "(1 :: u32) \<noteq> 0" "(2 :: u32) \<noteq> 0" by simp_all
  ultimately show ?thesis unfolding sample_regions_def e820_from.simps by blast
qed

lemma memory_detect_regions_witness:
  "\<exists>s'. memory_detect sample_bios 0x7000 sample_args sample_boot = Some s'
    \<and> take 2 (mem_map (gBootParams s')) = [\<lparr>r_base = 0, r_size = 0x9fc00\<rparr>, \<lparr>r_base = 0x100000, r_size = 0x7ee0000\<rparr>]
    \<and> (\<forall>x. covers (mem_free (gBootParams s')) x \<longleftrightarrow> 0x1000000 \<le> x \<and> covers (mem_map (gBootParams s')) x)"
proof -
  have f: "found sample_regions = [\<lparr>r_base = 0, r_size = 0x9fc00\<rparr>, \<lparr>r_base = 0x100000, r_size = 0x7ee0000\<rparr>]"
    by (simp add: found_def sample_regions_def usable_def)
  have "\<forall>(base, sz, ty) \<in> set sample_regions. unat base + unat sz < 2 ^ 64" by (simp add: sample_regions_def)
  then show ?thesis
    using memory_detect_regions [OF sample_e820, of sample_boot sample_args]
    unfolding f by (auto simp: MAX_MEM_REGIONS_def sample_boot_def simp flip: numeral_2_eq_2)
qed

end
