(* ===== verification/BootDisk.thy ===== *)
theory BootDisk
  imports BootMem MkVolume Elf
begin

text \<open>
  The boot loader after paging is set up: reads from the disk through the BIOS (disk.c), the Miaou file
  system (mfs.c), the initial RAM disk (initram.c) and the loading of the kernel (elf.c). Addresses are
  virtual ones and are translated by the tables CR3 points to, in which the first 4 GiB are mapped to
  themselves. \<open>None\<close> is an access to an address that is not mapped, or a search that never ends.
\<close>

section \<open>Virtual memory\<close>

text \<open>The walk of the processor, with the pages of 1 GiB and 2 MiB; bit 7 is reserved in the entries of the first table.\<close>

definition ADDR_MASK :: u64 where "ADDR_MASK = 0x000ffffffffff000"

definition mmu :: "mem \<Rightarrow> u64 \<Rightarrow> u64 \<Rightarrow> u64 option" where
  "mmu m cr3 va =
     (let (a, b, c, d) = decompose_addr va;
          e4 = load64 m (word_at (cr3 AND ADDR_MASK) a)
      in if e4 AND 1 = 0 \<or> e4 AND 0x80 \<noteq> 0 then None
         else (let e3 = load64 m (word_at (e4 AND ADDR_MASK) b)
               in if e3 AND 1 = 0 then None
                  else if e3 AND 0x80 \<noteq> 0 then Some ((e3 AND 0x000fffffc0000000) + (va AND 0x3fffffff))
                  else (let e2 = load64 m (word_at (e3 AND ADDR_MASK) c)
                        in if e2 AND 1 = 0 then None
                           else if e2 AND 0x80 \<noteq> 0 then Some ((e2 AND 0x000fffffffe00000) + (va AND 0x1fffff))
                           else (let e1 = load64 m (word_at (e2 AND ADDR_MASK) d)
                                 in if e1 AND 1 = 0 then None else Some ((e1 AND ADDR_MASK) + (va AND 0xfff))))))"

definition phys :: "Boot \<Rightarrow> u64 \<Rightarrow> u64 option" where "phys s va = mmu (ram s) (cr3_reg s) va"

text \<open>The memory as the program reads it; an address that is not mapped reads as 0.\<close>

definition virtual_ram :: "Boot \<Rightarrow> mem" where
  "virtual_ram s = (\<lambda>va. case phys s va of None \<Rightarrow> 0 | Some p \<Rightarrow> ram s p)"

text \<open>\<open>memcpy\<close> of \<open>n\<close> bytes, one at a time.\<close>

fun vcopy :: "nat \<Rightarrow> u64 \<Rightarrow> u64 \<Rightarrow> Boot \<Rightarrow> Boot option" where
  "vcopy 0 target source s = Some s"
| "vcopy (Suc n) target source s =
     (case (phys s target, phys s source) of
        (Some d, Some p) \<Rightarrow> vcopy n (target + 1) (source + 1) (s\<lparr>ram := (ram s)(d := ram s p)\<rparr>)
      | _ \<Rightarrow> None)"

primrec for_opt :: "nat \<Rightarrow> (nat \<Rightarrow> 's \<Rightarrow> 's option) \<Rightarrow> 's \<Rightarrow> 's option" where
  "for_opt 0 f s = Some s"
| "for_opt (Suc n) f s = (case for_opt n f s of None \<Rightarrow> None | Some s \<Rightarrow> f n s)"

section \<open>The disk\<close>

text \<open>The addresses of variables on the stack and of static ones.\<close>

record BootAddrs =
  dap_at :: u64
  buffer_at :: u64
  gMetadata_at :: u64
  gPages_at :: u64

text \<open>\<open>DiskAccessPacket\<close>: the constant fields, and those of one transfer.\<close>

definition dap_init :: "BootAddrs \<Rightarrow> mem \<Rightarrow> mem" where
  "dap_init ad m =
     (let m = m(dap_at ad := 16, dap_at ad + 1 := 0)
      in store16 (store16 m (dap_at ad + 4) (ucast (buffer_at ad))) (dap_at ad + 6) 0)"

definition dap_transfer :: "BootAddrs \<Rightarrow> u64 \<Rightarrow> u32 \<Rightarrow> mem \<Rightarrow> mem" where
  "dap_transfer ad lba nsectors m =
     (let m = store32 m (dap_at ad + 8) (ucast (lba AND 0xffffffff));
          m = store32 m (dap_at ad + 12) (ucast (drop_bit 32 lba))
      in store16 m (dap_at ad + 2) (ucast nsectors))"

text \<open>The loop of \<open>disk_read_raw\<close>; whether a call fails is not looked at.\<close>

lemma fewer_sectors: "sectors \<noteq> 0 \<Longrightarrow> unat (sectors - (if sectors > 8 then 8 else sectors) :: u32) < unat sectors"
  by (auto simp: unat_sub word_less_nat_alt word_le_nat_alt unat_gt_0)

function disk_read_from :: "bios \<Rightarrow> BootAddrs \<Rightarrow> u64 \<Rightarrow> u64 \<Rightarrow> u32 \<Rightarrow> BiosArgs \<Rightarrow> Boot \<Rightarrow> Boot option" where
  "disk_read_from bios ad target lba sectors args s =
     (if sectors = 0 then Some s
      else (let nsectors = (if sectors > 8 then 8 else sectors);
                s = s\<lparr>ram := dap_transfer ad lba nsectors (ram s)\<rparr>;
                (_, args, s) = bios_call bios 0x13 (args\<lparr>eax := 0x4200, edx := boot_drive (gBootParams s),
                   esi := ucast (dap_at ad), es := 0\<rparr>) s
            in case vcopy (unat (nsectors * 512)) target (buffer_at ad) s of
                 None \<Rightarrow> None
               | Some s \<Rightarrow> disk_read_from bios ad (target + ucast (nsectors * 512)) (lba + ucast nsectors) (sectors - nsectors) args s))"
  by pat_completeness auto
termination
proof (relation "measure (\<lambda>(bios, ad, target, lba, sectors, args, s). unat sectors)", goal_cases)
  case (2 bios ad target lba sectors args s nsectors)
  then have "nsectors = (if 8 < sectors then 8 else sectors)" and "sectors \<noteq> 0" by simp_all
  then show ?case using fewer_sectors [of sectors] by simp
qed simp

declare disk_read_from.simps [simp del]

text \<open>\<open>args\<close> is what the stack holds in the fields that are not set.\<close>

definition disk_read_raw :: "bios \<Rightarrow> BootAddrs \<Rightarrow> BiosArgs \<Rightarrow> u64 \<Rightarrow> u64 \<Rightarrow> u32 \<Rightarrow> Boot \<Rightarrow> Boot option" where
  "disk_read_raw bios ad args target lba sectors s =
     disk_read_from bios ad target (lba + ucast (lba_start (mbr_partition (gBootParams s)))) sectors args
       (s\<lparr>ram := dap_init ad (ram s)\<rparr>)"

section \<open>The file system\<close>

definition mfs_page :: "BootAddrs \<Rightarrow> nat \<Rightarrow> u64" where
  "mfs_page ad i = gPages_at ad + of_nat i * MFS_PAGE_SIZE"

definition mfs_read_page :: "bios \<Rightarrow> BootAddrs \<Rightarrow> BiosArgs \<Rightarrow> u64 \<Rightarrow> u64 \<Rightarrow> Boot \<Rightarrow> Boot option" where
  "mfs_read_page bios ad args page inode s = disk_read_raw bios ad args page ((MFS_RESERVED_PAGES + inode) * 8) 8 s"

definition mfs_init :: "bios \<Rightarrow> BootAddrs \<Rightarrow> BiosArgs \<Rightarrow> Boot \<Rightarrow> Boot option" where
  "mfs_init bios ad args s = disk_read_raw bios ad args (gMetadata_at ad) (MFS_METADATA_PAGE * 8) 8 s"

text \<open>The loop of \<open>mfs_lookup_at\<close> over the entries of a directory page: it has no end.\<close>

partial_function (option) mfs_find_from :: "mem \<Rightarrow> u64 \<Rightarrow> u64 \<Rightarrow> u32 \<Rightarrow> u64 option" where
  "mfs_find_from m dir name namelen =
     (if load32 m (dir + 8) = namelen \<and> memcmp m name (dir + 12) (ucast namelen) = 0 then Some (load64 m dir)
      else mfs_find_from m (dir + 12 + ucast (load32 m (dir + 8))) name namelen)"

definition mfs_lookup_at :: "bios \<Rightarrow> BootAddrs \<Rightarrow> BiosArgs \<Rightarrow> u64 \<Rightarrow> u64 \<Rightarrow> Boot \<Rightarrow> (u64 \<times> Boot) option" where
  "mfs_lookup_at bios ad args inode name s =
     (case mfs_read_page bios ad args (mfs_page ad 0) inode s of
        None \<Rightarrow> None
      | Some s \<Rightarrow>
          (case mfs_read_page bios ad args (mfs_page ad 0) (load64 (virtual_ram s) (file_data_at (mfs_page ad 0) 0)) s of
             None \<Rightarrow> None
           | Some s \<Rightarrow>
               (case strlen (virtual_ram s) name of
                  None \<Rightarrow> None
                | Some n \<Rightarrow>
                    (case mfs_find_from (virtual_ram s) (mfs_page ad 0) name (ucast n) of
                       None \<Rightarrow> None | Some i \<Rightarrow> Some (i, s)))))"

definition mfs_lookup_root :: "bios \<Rightarrow> BootAddrs \<Rightarrow> BiosArgs \<Rightarrow> u64 \<Rightarrow> Boot \<Rightarrow> (u64 \<times> Boot) option" where
  "mfs_lookup_root bios ad args name s =
     mfs_lookup_at bios ad args (load64 (virtual_ram s) (gMetadata_at ad + 16)) name s"

definition mfs_file_size :: "bios \<Rightarrow> BootAddrs \<Rightarrow> BiosArgs \<Rightarrow> u64 \<Rightarrow> Boot \<Rightarrow> (u64 \<times> Boot) option" where
  "mfs_file_size bios ad args inode s =
     (case mfs_read_page bios ad args (mfs_page ad 0) inode s of
        None \<Rightarrow> None | Some s \<Rightarrow> Some (load64 (virtual_ram s) (file_size_at (mfs_page ad 0)), s))"

definition mfs_read_idata :: "bios \<Rightarrow> BootAddrs \<Rightarrow> BiosArgs \<Rightarrow> u64 \<Rightarrow> nat \<Rightarrow> Boot \<Rightarrow> Boot option" where
  "mfs_read_idata bios ad args target count =
     for_opt count (\<lambda>i s. mfs_read_page bios ad args (target + of_nat i * MFS_PAGE_SIZE)
       (load64 (virtual_ram s) (inodes_at (mfs_page ad 1) (of_nat i))) s)"

definition mfs_read_data :: "bios \<Rightarrow> BootAddrs \<Rightarrow> BiosArgs \<Rightarrow> u64 \<Rightarrow> nat \<Rightarrow> Boot \<Rightarrow> Boot option" where
  "mfs_read_data bios ad args target count =
     for_opt count (\<lambda>i s. mfs_read_page bios ad args (target + of_nat i * MFS_PAGE_SIZE)
       (load64 (virtual_ram s) (file_data_at (mfs_page ad 0) (of_nat i))) s)"

definition mfs_read :: "bios \<Rightarrow> BootAddrs \<Rightarrow> BiosArgs \<Rightarrow> u64 \<Rightarrow> u64 \<Rightarrow> Boot \<Rightarrow> Boot option" where
  "mfs_read bios ad args target inode s =
     (case mfs_file_size bios ad args inode s of
        None \<Rightarrow> None
      | Some (sz, s) \<Rightarrow>
          (let npages = unat (ucast ((sz + MFS_PAGE_SIZE - 1) div MFS_PAGE_SIZE) :: u32);
               direct = min npages 16;
               indirect = min (npages - direct) 512
           in if npages = 0 then Some s
              else (case mfs_read_page bios ad args (mfs_page ad 0) inode s of
                      None \<Rightarrow> None
                    | Some s \<Rightarrow>
                        (case mfs_read_data bios ad args target direct s of
                           None \<Rightarrow> None
                         | Some s \<Rightarrow>
                             if npages - direct = 0 then Some s
                             else (case mfs_read_page bios ad args (mfs_page ad 1) (load64 (virtual_ram s) (file_idata_at (mfs_page ad 0))) s of
                                     None \<Rightarrow> None
                                   | Some s \<Rightarrow> mfs_read_idata bios ad args (target + of_nat direct * MFS_PAGE_SIZE) indirect s)))))"

section \<open>The initial RAM disk and the kernel\<close>

definition INITRAM_ADDR :: u64 where "INITRAM_ADDR = - 0x100000000"

text \<open>\<open>boot\<close> and \<open>initram\<close> are the addresses of the two names.\<close>

definition initram_init :: "bios \<Rightarrow> BootAddrs \<Rightarrow> BiosArgs \<Rightarrow> u64 \<Rightarrow> u64 \<Rightarrow> Boot \<Rightarrow> Boot option" where
  "initram_init bios ad args boot initram s =
     (case mfs_lookup_root bios ad args boot s of
        None \<Rightarrow> None
      | Some (inode, s) \<Rightarrow>
     (case mfs_lookup_at bios ad args inode initram s of
        None \<Rightarrow> None
      | Some (inode, s) \<Rightarrow>
     (case mfs_file_size bios ad args inode (s\<lparr>gBootParams := (gBootParams s)\<lparr>bp_initram := INITRAM_ADDR\<rparr>\<rparr>) of
        None \<Rightarrow> None
      | Some (sz, s) \<Rightarrow>
          (let s = s\<lparr>gBootParams := (gBootParams s)\<lparr>bp_initram_size := sz\<rparr>\<rparr>;
               s = valloc (bp_initram (gBootParams s)) sz s
           in mfs_read bios ad args (bp_initram (gBootParams s)) inode s))))"

definition elf_segment :: "u64 \<Rightarrow> u64 \<Rightarrow> Boot \<Rightarrow> Boot option" where
  "elf_segment base ph s =
     (let tmp = p_vaddr (virtual_ram s) ph;
          s = valloc tmp (p_memsz (virtual_ram s) ph) s
      in vcopy (unat (p_filesz (virtual_ram s) ph)) tmp (base + p_offset (virtual_ram s) ph) s)"

definition elf_load :: "u64 \<Rightarrow> Boot \<Rightarrow> (u64 \<times> Boot) option" where
  "elf_load name s =
     (let base = initram_lookup (virtual_ram s) (bp_initram (gBootParams s)) name;
          phdr = base + load64 (virtual_ram s) (e_phoff_at base);
          n = unat (load16 (virtual_ram s) (e_phnum_at base))
      in case for_opt n (\<lambda>i. elf_segment base (phdr + of_nat (56 * i))) s of
           None \<Rightarrow> None
         | Some s \<Rightarrow> Some (load64 (virtual_ram s) (e_entry_at base), s))"

end
