(* ===== verification/Boot.thy ===== *)
theory Boot
  imports BootDetect BootDisk BootPrint
begin

text \<open>
  The screen (screen.c), the choice of a graphical mode (vbe.c, vbe.h) and the main function of the
  boot loader (bmain.c). The VESA calls of the BIOS fill static variables in memory, whose addresses
  are parameters.
\<close>

section \<open>The screen\<close>

text \<open>A function of the video library on the memory and the video parameters of the boot loader.\<close>

definition on_screen :: "(screen \<Rightarrow> screen) \<Rightarrow> Boot \<Rightarrow> Boot" where
  "on_screen f s =
     (let (v, m) = f (bp_video (gBootParams s), ram s)
      in s\<lparr>gBootParams := (gBootParams s)\<lparr>bp_video := v\<rparr>, ram := m\<rparr>)"

definition screen_init :: "bios \<Rightarrow> BiosArgs \<Rightarrow> Boot \<Rightarrow> Boot" where
  "screen_init bios args s =
     (let (_, args, s) = bios_call bios 0x10 (args\<lparr>eax := 0x0003\<rparr>) s;
          (_, args, s) = bios_call bios 0x10 (args\<lparr>eax := 0x0100, ecx := 0x2607\<rparr>) s
      in on_screen video_init s)"

section \<open>Graphical modes\<close>

record VbeAddrs =
  gEDID :: u64
  gVbeInfoBlock :: u64
  gVbeVideoMode :: u64

definition EDID_DTD :: u64 where "EDID_DTD = 54"

text \<open>Fields of \<open>VbeInfoBlock\<close> and \<open>VbeVideoMode\<close>, by their offsets.\<close>

definition video_modes_ptr :: "mem \<Rightarrow> u64 \<Rightarrow> nat \<Rightarrow> u16" where
  "video_modes_ptr m b i = load16 m (b + 14 + of_nat (2 * i))"

record VbeVideoMode =
  vm_attr :: u16
  vm_pitch :: u16
  vm_xres :: u16
  vm_yres :: u16
  vm_bpp :: u8
  vm_memory_model :: u8
  vm_physbase :: u32

definition mode_at :: "mem \<Rightarrow> u64 \<Rightarrow> VbeVideoMode" where
  "mode_at m b = \<lparr>vm_attr = load16 m b, vm_pitch = load16 m (b + 16), vm_xres = load16 m (b + 18), vm_yres = load16 m (b + 20),
     vm_bpp = m (b + 25), vm_memory_model = m (b + 27), vm_physbase = load32 m (b + 40)\<rparr>"

definition vbe_info :: "bios \<Rightarrow> VbeAddrs \<Rightarrow> BiosArgs \<Rightarrow> Boot \<Rightarrow> Boot" where
  "vbe_info bios va args s =
     snd (snd (bios_call bios 0x10 (args\<lparr>eax := 0x4f00, es := ucast (drop_bit 4 (gVbeInfoBlock va)),
       edi := ucast (gVbeInfoBlock va AND 0xf)\<rparr>) s))"

text \<open>Width or height in a timing descriptor of the EDID, from its low byte and its shared high byte.\<close>

definition edid_size :: "mem \<Rightarrow> u64 \<Rightarrow> u64 \<Rightarrow> u64 \<Rightarrow> u16" where
  "edid_size m b hi lo =
     ((push_bit 4 (ucast (m (b + EDID_DTD + hi)))) OR ucast (m (b + EDID_DTD + lo))) AND 0xfff"

text \<open>\<open>None\<close> is the error result.\<close>

definition vbe_monitor_info :: "bios \<Rightarrow> VbeAddrs \<Rightarrow> BiosArgs \<Rightarrow> Boot \<Rightarrow> (u16 \<times> u16) option \<times> Boot" where
  "vbe_monitor_info bios va args s =
     (let (_, args, s) = bios_call bios 0x10 (args\<lparr>eax := 0x4f15, ebx := 1, ecx := 0, edx := 0,
            edi := ucast (gEDID va AND 0xf), es := ucast (drop_bit 4 (gEDID va))\<rparr>) s
      in if eax args AND 0xffff \<noteq> 0x4f then (None, s)
         else (Some (edid_size (ram s) (gEDID va) 4 2, edid_size (ram s) (gEDID va) 7 5), s))"

text \<open>The tests a mode has to pass, and the comparison with the best one so far.\<close>

definition mode_usable :: "u16 \<Rightarrow> u16 \<Rightarrow> VbeVideoMode \<Rightarrow> bool" where
  "mode_usable max_width max_height v \<longleftrightarrow>
     vm_attr v AND 0x90 \<noteq> 0 \<and> (vm_memory_model v = 4 \<or> vm_memory_model v = 6)
     \<and> \<not> vm_xres v > max_width \<and> \<not> vm_yres v > max_height \<and> \<not> vm_bpp v \<noteq> 32"

definition mode_better :: "VbeVideoMode \<Rightarrow> u16 \<Rightarrow> u16 \<Rightarrow> bool" where
  "mode_better v mode_width mode_height \<longleftrightarrow> vm_xres v \<ge> mode_width \<and> vm_xres v \<ge> mode_height"

definition mode_call :: "bios \<Rightarrow> VbeAddrs \<Rightarrow> u16 \<Rightarrow> BiosArgs \<Rightarrow> Boot \<Rightarrow> BiosArgs \<times> Boot" where
  "mode_call bios va m args s =
     snd (bios_call bios 0x10 (args\<lparr>eax := 0x4f01, ecx := ucast m, edi := ucast (gVbeVideoMode va AND 0xf),
       es := ucast (drop_bit 4 (gVbeVideoMode va))\<rparr>) s)"

text \<open>The loop of \<open>vbe_try_modes\<close>; the result is the mode chosen, \<open>ffff\<close> for none.\<close>

partial_function (option) try_modes_from ::
  "bios \<Rightarrow> VbeAddrs \<Rightarrow> u16 \<Rightarrow> u16 \<Rightarrow> u64 \<Rightarrow> u16 \<Rightarrow> u16 \<Rightarrow> u16 \<Rightarrow> BiosArgs \<Rightarrow> Boot \<Rightarrow> (u16 \<times> BiosArgs \<times> Boot) option" where
  "try_modes_from bios va max_width max_height modes_ptr md mode_width mode_height args s =
     (let m = load16 (ram s) modes_ptr
      in if m = 0xffff then Some (md, args, s)
         else (let (args, s) = mode_call bios va m args s; v = mode_at (ram s) (gVbeVideoMode va)
               in if mode_usable max_width max_height v \<and> mode_better v mode_width mode_height
                  then try_modes_from bios va max_width max_height (modes_ptr + 2) m (vm_xres v) (vm_yres v) args s
                  else try_modes_from bios va max_width max_height (modes_ptr + 2) md mode_width mode_height args s))"

definition set_mode :: "bios \<Rightarrow> VbeAddrs \<Rightarrow> u16 \<Rightarrow> BiosArgs \<Rightarrow> Boot \<Rightarrow> Boot" where
  "set_mode bios va md args s =
     (let (args, s) = mode_call bios va md args s;
          (_, args, s) = bios_call bios 0x10 (args\<lparr>eax := 0x4f02, ebx := ucast (md OR 0x4000), edi := 0, es := 0\<rparr>) s;
          v = mode_at (ram s) (gVbeVideoMode va)
      in on_screen (\<lambda>(b, m). (video_set_graphical_mode (ucast (vm_physbase v)) (vm_xres v) (vm_yres v) (vm_bpp v)
                                (ucast (vm_pitch v)) b, m)) s)"

definition vbe_try_modes :: "bios \<Rightarrow> VbeAddrs \<Rightarrow> u16 \<Rightarrow> u16 \<Rightarrow> BiosArgs \<Rightarrow> Boot \<Rightarrow> Boot option" where
  "vbe_try_modes bios va max_width max_height args s =
     (let modes_ptr = push_bit 4 (ucast (video_modes_ptr (ram s) (gVbeInfoBlock va) 1))
                      + ucast (video_modes_ptr (ram s) (gVbeInfoBlock va) 0)
      in case try_modes_from bios va max_width max_height modes_ptr 0xffff 0 0 args s of
           None \<Rightarrow> None
         | Some (md, args, s) \<Rightarrow> Some (if md \<noteq> 0xffff then set_mode bios va md args s else s))"

text \<open>The three functions have their own \<open>args\<close> on the stack, of unknown content.\<close>

definition vbe_init :: "bios \<Rightarrow> VbeAddrs \<Rightarrow> BiosArgs \<Rightarrow> BiosArgs \<Rightarrow> BiosArgs \<Rightarrow> Boot \<Rightarrow> Boot option" where
  "vbe_init bios va args1 args2 args3 s =
     (let s = vbe_info bios va args1 s;
          (size, s) = vbe_monitor_info bios va args2 s;
          (mon_width, mon_height) = (case size of None \<Rightarrow> (800, 600) | Some wh \<Rightarrow> wh)
      in vbe_try_modes bios va mon_width mon_height args3 s)"

section \<open>The main function\<close>

definition kernel_params_init :: "u32 \<Rightarrow> BootPartitionRecord \<Rightarrow> Boot \<Rightarrow> Boot" where
  "kernel_params_init drive mbr s = s\<lparr>gBootParams := (gBootParams s)\<lparr>boot_drive := drive, mbr_partition := mbr\<rparr>\<rparr>"

text \<open>The names the loader asks for, by their addresses, and the variable \<open>mem\<close> of \<open>memory_detect\<close>.\<close>

record LoaderAddrs =
  la_disk :: BootAddrs
  la_vbe :: VbeAddrs
  la_mem :: u64
  la_boot :: u64
  la_initram :: u64
  la_kernel :: u64

text \<open>
  \<open>bmain\<close> up to the jump: the entry point of the kernel and the state it is entered in. The messages
  are left out; \<open>stack\<close> is what the stack holds for the arguments of the BIOS.
\<close>

definition bmain :: "bios \<Rightarrow> LoaderAddrs \<Rightarrow> BiosArgs \<Rightarrow> u32 \<Rightarrow> BootPartitionRecord \<Rightarrow> Boot \<Rightarrow> (u64 \<times> Boot) option" where
  "bmain bios la stack drive mbr s =
     (let s = screen_init bios stack (kernel_params_init drive mbr s)
      in case vbe_init bios (la_vbe la) stack stack stack s of
           None \<Rightarrow> None
         | Some s \<Rightarrow>
      (case memory_detect bios (la_mem la) stack s of
           None \<Rightarrow> None
         | Some s \<Rightarrow>
      (let s = memory_identity_map s
       in case mfs_init bios (la_disk la) stack s of
           None \<Rightarrow> None
         | Some s \<Rightarrow>
      (case initram_init bios (la_disk la) stack (la_boot la) (la_initram la) s of
           None \<Rightarrow> None
         | Some s \<Rightarrow> elf_load (la_kernel la) s))))"

end
