(* ===== verification/Instr.thy ===== *)
theory Instr
  imports X86
begin

text \<open>
  The instructions of the processor that the kernel's assembly routines use, one state transformer each,
  and what they do to the fields of the state. The facts used by the proofs are in \<open>instructions\<close>; blocks
  that save or load many registers have a lemma of their own.
\<close>

section \<open>The processor\<close>

datatype reg = RAX | RBX | RCX | RDX | RSI | RDI | RSP | RBP | R8 | R9 | R10 | R11 | R12 | R13 | R14 | R15

fun reg_no :: "reg \<Rightarrow> u64" where
  "reg_no RAX = 0" | "reg_no RBX = 1" | "reg_no RCX = 2" | "reg_no RDX = 3" | "reg_no RSI = 4" | "reg_no RDI = 5"
| "reg_no RSP = 6" | "reg_no RBP = 7" | "reg_no R8 = 8" | "reg_no R9 = 9" | "reg_no R10 = 10" | "reg_no R11 = 11"
| "reg_no R12 = 12" | "reg_no R13 = 13" | "reg_no R14 = 14" | "reg_no R15 = 15"

record Core =
  gpr :: "reg \<Rightarrow> u64"
  rip :: u64
  rflags :: u64
  sel_cs :: u64
  sel_ss :: u64
  gs_base :: u64
  kernel_gs :: u64
  star :: u64
  sfmask :: u64
  cmem :: mem

text \<open>
  The instructions used: moves between a register and \<open>d(b)\<close> or \<open>%gs:d\<close>, an immediate to memory, the
  stack, and the changes of mode.
\<close>

definition movr :: "reg \<Rightarrow> reg \<Rightarrow> Core \<Rightarrow> Core" where
  "movr source target s = s\<lparr>gpr := (gpr s)(target := gpr s source)\<rparr>"

text \<open>A move of 32 bits clears the other half of its target.\<close>

definition movl :: "reg \<Rightarrow> reg \<Rightarrow> Core \<Rightarrow> Core" where
  "movl source target s = s\<lparr>gpr := (gpr s)(target := ucast (ucast (gpr s source) :: u32))\<rparr>"

definition ld :: "u64 \<Rightarrow> reg \<Rightarrow> reg \<Rightarrow> Core \<Rightarrow> Core" where
  "ld d b target s = s\<lparr>gpr := (gpr s)(target := load64 (cmem s) (gpr s b + d))\<rparr>"

definition st :: "reg \<Rightarrow> u64 \<Rightarrow> reg \<Rightarrow> Core \<Rightarrow> Core" where
  "st source d b s = s\<lparr>cmem := store64 (cmem s) (gpr s b + d) (gpr s source)\<rparr>"

definition st_imm :: "u64 \<Rightarrow> u64 \<Rightarrow> reg \<Rightarrow> Core \<Rightarrow> Core" where
  "st_imm v d b s = s\<lparr>cmem := store64 (cmem s) (gpr s b + d) v\<rparr>"

definition ld_gs :: "u64 \<Rightarrow> reg \<Rightarrow> Core \<Rightarrow> Core" where
  "ld_gs d target s = s\<lparr>gpr := (gpr s)(target := load64 (cmem s) (gs_base s + d))\<rparr>"

definition st_gs :: "reg \<Rightarrow> u64 \<Rightarrow> Core \<Rightarrow> Core" where
  "st_gs source d s = s\<lparr>cmem := store64 (cmem s) (gs_base s + d) (gpr s source)\<rparr>"

definition lea :: "u64 \<Rightarrow> reg \<Rightarrow> reg \<Rightarrow> Core \<Rightarrow> Core" where
  "lea d b target s = s\<lparr>gpr := (gpr s)(target := gpr s b + d)\<rparr>"

definition push :: "reg \<Rightarrow> Core \<Rightarrow> Core" where
  "push r s = s\<lparr>gpr := (gpr s)(RSP := gpr s RSP - 8), cmem := store64 (cmem s) (gpr s RSP - 8) (gpr s r)\<rparr>"

definition pop :: "reg \<Rightarrow> Core \<Rightarrow> Core" where
  "pop r s = s\<lparr>gpr := (gpr s)(RSP := gpr s RSP + 8, r := load64 (cmem s) (gpr s RSP))\<rparr>"

definition ret :: "Core \<Rightarrow> Core" where
  "ret s = s\<lparr>gpr := (gpr s)(RSP := gpr s RSP + 8), rip := load64 (cmem s) (gpr s RSP)\<rparr>"

definition swapgs :: "Core \<Rightarrow> Core" where
  "swapgs s = s\<lparr>gs_base := kernel_gs s, kernel_gs := gs_base s\<rparr>"

definition iretq :: "Core \<Rightarrow> Core" where
  "iretq s =
     (let sp = gpr s RSP; m = cmem s
      in s\<lparr>rip := load64 m sp, sel_cs := load64 m (sp + 8), rflags := load64 m (sp + 16),
           gpr := (gpr s)(RSP := load64 m (sp + 24)), sel_ss := load64 m (sp + 32)\<rparr>)"

text \<open>The flags that \<open>sysretq\<close> loads are those of R11 without RF, VM and the reserved bits; bit 1 is always set.\<close>

definition sysret_flags :: "u64 \<Rightarrow> u64" where "sysret_flags f = (f AND 0x3c7fd7) OR 2"

definition sysretq :: "Core \<Rightarrow> Core" where
  "sysretq s = s\<lparr>rip := gpr s RCX, rflags := sysret_flags (gpr s R11),
     sel_cs := ucast (sysret_cs (star s)), sel_ss := ucast (sysret_ss (star s))\<rparr>"

text \<open>
  An interrupt in user mode through an interrupt gate: the processor changes to the stack of the task state
  segment (a multiple of 16), saves there what it replaces, and masks the interrupts.
\<close>

definition interrupt :: "u64 \<Rightarrow> u64 \<Rightarrow> Core \<Rightarrow> Core" where
  "interrupt handler rsp0 s =
     (let m = store64 (cmem s) (rsp0 - 8) (sel_ss s);
          m = store64 m (rsp0 - 16) (gpr s RSP);
          m = store64 m (rsp0 - 24) (rflags s);
          m = store64 m (rsp0 - 32) (sel_cs s);
          m = store64 m (rsp0 - 40) (rip s)
      in s\<lparr>cmem := m, gpr := (gpr s)(RSP := rsp0 - 40), rip := handler,
           sel_cs := of_nat X86_SEL_CODE0, sel_ss := 0, rflags := rflags s AND NOT X86_FLAG_IF\<rparr>)"

text \<open>The instruction \<open>syscall\<close>, with the registers that \<open>sys_init\<close> sets.\<close>

definition syscall :: "u64 \<Rightarrow> Core \<Rightarrow> Core" where
  "syscall handler s = s\<lparr>gpr := (gpr s)(RCX := rip s, R11 := rflags s), rip := handler,
     rflags := rflags s AND NOT (sfmask s), sel_cs := ucast (syscall_cs (star s)), sel_ss := ucast (syscall_ss (star s))\<rparr>"

definition exec :: "(Core \<Rightarrow> Core) list \<Rightarrow> Core \<Rightarrow> Core" where
  "exec is s = fold (\<lambda>i s. i s) is s"

section \<open>Loads and stores at offsets\<close>

lemma offset_apart:
  fixes c d :: u64
  assumes "8 \<le> d - c" and "8 \<le> c - d"
  shows "disjoint_ranges (a + c) 8 (a + d) 8"
  unfolding disjoint_ranges_def in_range_def
proof (intro allI impI)
  fix i :: nat assume i: "i < 8"
  have "c \<noteq> d" using assms(1) by auto
  then have "unat (d - c) + unat (c - d) = 2 ^ 64"
    using unat_bound_u64 [of c] unat_bound_u64 [of d] by (auto simp: unat_sub_if_size word_size word_unat_eq_iff)
  moreover have "8 \<le> unat (d - c)" "8 \<le> unat (c - d)" using assms by (simp_all add: word_le_nat_alt)
  ultimately have "unat (d - c + of_nat i) = unat (d - c) + i" using i by (intro unat_add_nat) simp
  moreover have e: "a + d + of_nat i - (a + c) = d - c + of_nat i" by simp
  ultimately show "\<not> unat (a + d + of_nat i - (a + c)) < 8" using \<open>8 \<le> unat (d - c)\<close> unfolding e by simp
qed

lemma load_other_offset:
  fixes c d :: u64
  shows "8 \<le> d - c \<Longrightarrow> 8 \<le> c - d \<Longrightarrow> load64 (store64 m (a + c) v) (a + d) = load64 m (a + d)"
    and "8 \<le> d \<Longrightarrow> 8 \<le> - d \<Longrightarrow> load64 (store64 m a v) (a + d) = load64 m (a + d)"
    and "8 \<le> - c \<Longrightarrow> 8 \<le> c \<Longrightarrow> load64 (store64 m (a + c) v) a = load64 m a"
  using offset_apart [of d c a] offset_apart [of d 0 a] offset_apart [of 0 c a]
  by (simp_all add: load_store_disjoint)

lemma disjoint_part:
  assumes "disjoint_ranges a n b k"
  shows "unat c + l \<le> k \<Longrightarrow> disjoint_ranges a n (b + c) l"
    and "unat c + l \<le> n \<Longrightarrow> n \<le> 2 ^ 64 \<Longrightarrow> disjoint_ranges (a + c) l b k"
proof -
  assume k: "unat c + l \<le> k"
  show "disjoint_ranges a n (b + c) l"
    unfolding disjoint_ranges_def
  proof (intro allI impI)
    fix i assume "i < l"
    then have "unat c + i < k" using k by simp
    moreover have "b + c + of_nat i = b + of_nat (unat c + i)" by simp
    ultimately show "\<not> in_range a n (b + c + of_nat i)" using assms unfolding disjoint_ranges_def by metis
  qed
next
  assume "unat c + l \<le> n" and "n \<le> 2 ^ 64"
  then show "disjoint_ranges (a + c) l b k"
    using assms in_subrange [of "unat c" l n a] unfolding disjoint_ranges_def by auto
qed

lemma subranges_disjoint:
  assumes "disjoint_ranges a n b k" and "unat c + 8 \<le> n" and "unat d + 8 \<le> k" and "n \<le> 2 ^ 64"
  shows "disjoint_ranges (a + c) 8 (b + d) 8"
  using disjoint_part(1) [OF disjoint_part(2) [OF assms(1,2,4)] assms(3)] .

lemma load_apart:
  assumes "disjoint_ranges a n b k" and "n \<le> 2 ^ 64"
  shows "unat c + 8 \<le> n \<Longrightarrow> unat d + 8 \<le> k \<Longrightarrow> load64 (store64 m (a + c) v) (b + d) = load64 m (b + d)"
    and "8 \<le> n \<Longrightarrow> unat d + 8 \<le> k \<Longrightarrow> load64 (store64 m a v) (b + d) = load64 m (b + d)"
    and "unat c + 8 \<le> n \<Longrightarrow> 8 \<le> k \<Longrightarrow> load64 (store64 m (a + c) v) b = load64 m b"
    and "8 \<le> n \<Longrightarrow> 8 \<le> k \<Longrightarrow> load64 (store64 m a v) b = load64 m b"
  using subranges_disjoint [OF assms(1) _ _ assms(2)] subranges_disjoint [OF assms(1) _ _ assms(2), of 0]
    subranges_disjoint [OF assms(1) _ _ assms(2), of _ 0] subranges_disjoint [OF assms(1) _ _ assms(2), of 0 0]
  by (simp_all add: load_store_disjoint)

section \<open>What the instructions do\<close>

text \<open>What each instruction does to the fields of the state that the proofs follow.\<close>

named_theorems instructions

lemma exec_steps [instructions]: "exec [] s = s" "exec (i # is) s = exec is (i s)"
  by (simp_all add: exec_def)

lemma gpr_steps [instructions]:
  "gpr (movr a b s) r = (if r = b then gpr s a else gpr s r)"
  "gpr (ld d b a s) r = (if r = a then load64 (cmem s) (gpr s b + d) else gpr s r)"
  "gpr (ld_gs d a s) r = (if r = a then load64 (cmem s) (gs_base s + d) else gpr s r)"
  "gpr (lea d b a s) r = (if r = a then gpr s b + d else gpr s r)"
  "gpr (push a s) r = (if r = RSP then gpr s RSP - 8 else gpr s r)"
  "gpr (pop a s) r = (if r = a then load64 (cmem s) (gpr s RSP) else if r = RSP then gpr s RSP + 8 else gpr s r)"
  "gpr (st a d b s) r = gpr s r" "gpr (st_imm v d b s) r = gpr s r" "gpr (st_gs a d s) r = gpr s r" "gpr (swapgs s) r = gpr s r"
  "gpr (sysretq s) r = gpr s r" "gpr (iretq s) r = (if r = RSP then load64 (cmem s) (gpr s RSP + 24) else gpr s r)"
  by (simp_all add: movr_def ld_def ld_gs_def lea_def push_def pop_def st_def st_imm_def st_gs_def swapgs_def sysretq_def
      iretq_def Let_def)

lemma cmem_steps [instructions]:
  "cmem (st a d b s) = store64 (cmem s) (gpr s b + d) (gpr s a)" "cmem (st_imm v d b s) = store64 (cmem s) (gpr s b + d) v"
  "cmem (st_gs a d s) = store64 (cmem s) (gs_base s + d) (gpr s a)" "cmem (push a s) = store64 (cmem s) (gpr s RSP - 8) (gpr s a)"
  "cmem (movr a b s) = cmem s" "cmem (ld d b a s) = cmem s" "cmem (ld_gs d a s) = cmem s" "cmem (lea d b a s) = cmem s"
  "cmem (pop a s) = cmem s" "cmem (swapgs s) = cmem s" "cmem (sysretq s) = cmem s"
  by (simp_all add: sysretq_def movr_def ld_def ld_gs_def lea_def push_def pop_def st_def st_imm_def st_gs_def swapgs_def)

lemma system_steps [instructions]:
  "gs_base (swapgs s) = kernel_gs s" "kernel_gs (swapgs s) = gs_base s" "star (swapgs s) = star s"
  "f \<in> {gs_base, kernel_gs, star} \<Longrightarrow> f (movr a b s) = f s" "f \<in> {gs_base, kernel_gs, star} \<Longrightarrow> f (ld d b a s) = f s"
  "f \<in> {gs_base, kernel_gs, star} \<Longrightarrow> f (ld_gs d a s) = f s" "f \<in> {gs_base, kernel_gs, star} \<Longrightarrow> f (lea d b a s) = f s"
  "f \<in> {gs_base, kernel_gs, star} \<Longrightarrow> f (push a s) = f s" "f \<in> {gs_base, kernel_gs, star} \<Longrightarrow> f (pop a s) = f s"
  "f \<in> {gs_base, kernel_gs, star} \<Longrightarrow> f (st a d b s) = f s" "f \<in> {gs_base, kernel_gs, star} \<Longrightarrow> f (st_imm v d b s) = f s"
  "f \<in> {gs_base, kernel_gs, star} \<Longrightarrow> f (st_gs a d s) = f s" "f \<in> {gs_base, kernel_gs, star} \<Longrightarrow> f (iretq s) = f s"
  "f \<in> {gs_base, kernel_gs, star} \<Longrightarrow> f (sysretq s) = f s"
  by (auto simp: movr_def ld_def ld_gs_def lea_def push_def pop_def st_def st_imm_def st_gs_def swapgs_def iretq_def
      sysretq_def Let_def)

lemma user_mode_steps [instructions]:
  "rip (iretq s) = load64 (cmem s) (gpr s RSP)" "sel_cs (iretq s) = load64 (cmem s) (gpr s RSP + 8)"
  "rflags (iretq s) = load64 (cmem s) (gpr s RSP + 16)" "sel_ss (iretq s) = load64 (cmem s) (gpr s RSP + 32)"
  "rip (sysretq s) = gpr s RCX" "rflags (sysretq s) = sysret_flags (gpr s R11)"
  "sel_cs (sysretq s) = ucast (sysret_cs (star s))" "sel_ss (sysretq s) = ucast (sysret_ss (star s))"
  by (simp_all add: iretq_def sysretq_def Let_def)

section \<open>Registers in memory\<close>

text \<open>The 64-bit word \<open>j\<close> of the structure at \<open>p\<close>; a register is saved at the word of its number.\<close>

definition word_of :: "mem \<Rightarrow> u64 \<Rightarrow> u64 \<Rightarrow> u64" where
  "word_of m p j = load64 m (p + 8 * j)"

lemma word_of_store:
  assumes "i < 84" and "j < 84"
  shows "word_of (store64 m (p + 8 * i) v) p j = (if i = j then v else word_of m p j)"
proof (cases "i = j")
  case False
  have "unat i < 84" "unat j < 84" using assms by (simp_all add: word_less_nat_alt)
  then show ?thesis
    using load_store_element [of "unat i" "unat j" 8 m p v] False
    by (simp add: word_of_def word_unat_eq_iff)
qed (simp add: word_of_def)

lemma word_of_apart:
  assumes "disjoint_ranges a 8 p 672" and "j < 84"
  shows "word_of (store64 m a v) p j = word_of m p j"
proof -
  have "unat (8 * j) + 8 \<le> 672" using assms(2) by (simp add: word_less_nat_alt unat_word_ariths)
  then show ?thesis using load_apart(2) [OF assms(1), of "8 * j" m v] by (simp add: word_of_def)
qed

lemma load_word_apart:
  assumes "disjoint_ranges p 672 a 8" and "i < 84"
  shows "load64 (store64 m (p + 8 * i) v) a = load64 m a"
proof -
  have "unat (8 * i) + 8 \<le> 672" using assms(2) by (simp add: word_less_nat_alt unat_word_ariths)
  then show ?thesis using load_apart(3) [OF assms(1), of "8 * i" m v] by simp
qed

lemma reg_no_word: "reg_no r < 16" "reg_no r < 84" "reg_no r = reg_no q \<longleftrightarrow> r = q"
proof -
  show "reg_no r < 16" and "reg_no r < 84" by (cases r; simp)+
  show "reg_no r = reg_no q \<longleftrightarrow> r = q" by (cases r; cases q; simp)
qed

lemma store_regs:
  assumes "s' = exec (map (\<lambda>r. st r (reg_no r * 8) b) rs) s" and "p = gpr s b"
  shows "gpr s' = gpr s" and "gs_base s' = gs_base s" and "kernel_gs s' = kernel_gs s" and "star s' = star s"
    and "word_of (cmem s') p (reg_no r) = (if r \<in> set rs then gpr s r else word_of (cmem s) p (reg_no r))"
    and "16 \<le> j \<Longrightarrow> j < 84 \<Longrightarrow> word_of (cmem s') p j = word_of (cmem s) p j"
    and "disjoint_ranges p 672 a 8 \<Longrightarrow> load64 (cmem s') a = load64 (cmem s) a"
proof -
  define f where "f = (\<lambda>r. st r (reg_no r * 8) b)"
  have step: "gpr (f r s) = gpr s" "gs_base (f r s) = gs_base s" "kernel_gs (f r s) = kernel_gs s" "star (f r s) = star s"
      "cmem (f r s) = store64 (cmem s) (gpr s b + 8 * reg_no r) (gpr s r)" for r s
    by (simp_all add: f_def st_def mult.commute)
  have keeps: "gpr (exec (map f rs) s) = gpr s" "gs_base (exec (map f rs) s) = gs_base s"
      "kernel_gs (exec (map f rs) s) = kernel_gs s" "star (exec (map f rs) s) = star s" for rs s
    by (induction rs arbitrary: s) (simp_all add: instructions step)
  then show "gpr s' = gpr s" and "gs_base s' = gs_base s" and "kernel_gs s' = kernel_gs s" and "star s' = star s"
    by (simp_all add: assms(1) f_def)
  have "gpr s b = p \<Longrightarrow> word_of (cmem (exec (map f rs) s)) p (reg_no r) = (if r \<in> set rs then gpr s r else word_of (cmem s) p (reg_no r))"
    by (induction rs arbitrary: s) (simp_all add: instructions step word_of_store reg_no_word)
  then show "word_of (cmem s') p (reg_no r) = (if r \<in> set rs then gpr s r else word_of (cmem s) p (reg_no r))"
    by (simp add: assms f_def)
  have "gpr s b = p \<Longrightarrow> 16 \<le> j \<Longrightarrow> j < 84 \<Longrightarrow> word_of (cmem (exec (map f rs) s)) p j = word_of (cmem s) p j"
    using reg_no_word(1) by (induction rs arbitrary: s) (auto simp: instructions step word_of_store reg_no_word dest: leD)
  then show "16 \<le> j \<Longrightarrow> j < 84 \<Longrightarrow> word_of (cmem s') p j = word_of (cmem s) p j" by (simp add: assms f_def)
  have "gpr s b = p \<Longrightarrow> disjoint_ranges p 672 a 8 \<Longrightarrow> load64 (cmem (exec (map f rs) s)) a = load64 (cmem s) a"
  proof (induction rs arbitrary: s)
    case (Cons r rs)
    then show ?case by (simp add: instructions step load_word_apart reg_no_word)
  qed (simp add: instructions)
  then show "disjoint_ranges p 672 a 8 \<Longrightarrow> load64 (cmem s') a = load64 (cmem s) a" by (simp add: assms f_def)
qed

lemma load_regs:
  assumes "s' = exec (map (\<lambda>r. ld (reg_no r * 8) b r) rs) s" and "b \<notin> set rs"
  shows "cmem s' = cmem s" and "gs_base s' = gs_base s" and "kernel_gs s' = kernel_gs s" and "star s' = star s"
    and "gpr s' r = (if r \<in> set rs then word_of (cmem s) (gpr s b) (reg_no r) else gpr s r)"
proof -
  define f where "f = (\<lambda>r. ld (reg_no r * 8) b r)"
  have step: "cmem (f r s) = cmem s" "gs_base (f r s) = gs_base s" "kernel_gs (f r s) = kernel_gs s" "star (f r s) = star s"
      "gpr (f r s) = (gpr s)(r := word_of (cmem s) (gpr s b) (reg_no r))" for r s
    by (simp_all add: f_def ld_def word_of_def mult.commute)
  have "cmem (exec (map f rs) s) = cmem s" "gs_base (exec (map f rs) s) = gs_base s"
      "kernel_gs (exec (map f rs) s) = kernel_gs s" "star (exec (map f rs) s) = star s" for rs s
    by (induction rs arbitrary: s) (simp_all add: instructions step)
  then show "cmem s' = cmem s" and "gs_base s' = gs_base s" and "kernel_gs s' = kernel_gs s" and "star s' = star s"
    by (simp_all add: assms(1) f_def)
  have "b \<notin> set rs \<Longrightarrow> gpr (exec (map f rs) s) r = (if r \<in> set rs then word_of (cmem s) (gpr s b) (reg_no r) else gpr s r)"
    by (induction rs arbitrary: s) (simp_all add: instructions step)
  then show "gpr s' r = (if r \<in> set rs then word_of (cmem s) (gpr s b) (reg_no r) else gpr s r)"
    using assms by (simp add: f_def)
qed

end
