(* ===== verification/Context.thy ===== *)
theory Context
  imports Procs Instr
begin

text \<open>
  Entry to and return from user mode: the macro \<open>SAVE_CONTEXT\<close> and \<open>int_timer\<close> (interrupts/common.S,
  timer.S), \<open>proc_run\<close> and \<open>proc_run_sysret\<close> (arch/x86/proc.S) and \<open>x86_sys_handler\<close> (arch/x86/syscall.S),
  as sequences of the instructions they are written in. A process that is interrupted, or makes a system
  call, finds its registers again.
\<close>

section \<open>The code\<close>

definition X86_RING3 :: u64 where "X86_RING3 = 3"

text \<open>The field \<open>run\<close> of a process is at \<open>18 * 8 + 512\<close>.\<close>

definition SAVE_CONTEXT :: "u64 \<Rightarrow> Core \<Rightarrow> Core" where
  "SAVE_CONTEXT run_addr = exec [
     swapgs,
     push RDI,
     ld_gs 8 RDI,
     st_imm run_addr (18 * 8 + 512) RDI,
     st RAX (reg_no RAX * 8) RDI,
     st RBX (reg_no RBX * 8) RDI,
     st RCX (reg_no RCX * 8) RDI,
     st RDX (reg_no RDX * 8) RDI,
     st RSI (reg_no RSI * 8) RDI,
     pop RAX,
     st RAX (reg_no RDI * 8) RDI,
     ld 24 RSP RAX,
     st RAX (reg_no RSP * 8) RDI,
     st RBP (reg_no RBP * 8) RDI,
     st R8 (reg_no R8 * 8) RDI,
     st R9 (reg_no R9 * 8) RDI,
     st R10 (reg_no R10 * 8) RDI,
     st R11 (reg_no R11 * 8) RDI,
     st R12 (reg_no R12 * 8) RDI,
     st R13 (reg_no R13 * 8) RDI,
     st R14 (reg_no R14 * 8) RDI,
     st R15 (reg_no R15 * 8) RDI,
     ld 0 RSP RAX,
     st RAX (X86_REG_IP * 8) RDI,
     ld 16 RSP RAX,
     st RAX (X86_REG_FLAGS * 8) RDI,
     lea (8 * 5) RSP RSP]"

definition proc_run :: "Core \<Rightarrow> Core" where
  "proc_run = exec [
     lea (- (5 * 8)) RSP RSP,
     ld (X86_REG_IP * 8) RDI RAX,
     st RAX 0 RSP,
     st_imm (of_nat X86_SEL_CODE3 OR X86_RING3) 8 RSP,
     ld (X86_REG_FLAGS * 8) RDI RAX,
     st RAX 16 RSP,
     ld (reg_no RSP * 8) RDI RAX,
     st RAX 24 RSP,
     st_imm (of_nat X86_SEL_DATA3 OR X86_RING3) 32 RSP,
     ld (reg_no RAX * 8) RDI RAX,
     ld (reg_no RBX * 8) RDI RBX,
     ld (reg_no RCX * 8) RDI RCX,
     ld (reg_no RDX * 8) RDI RDX,
     ld (reg_no RSI * 8) RDI RSI,
     ld (reg_no RBP * 8) RDI RBP,
     ld (reg_no R8 * 8) RDI R8,
     ld (reg_no R9 * 8) RDI R9,
     ld (reg_no R10 * 8) RDI R10,
     ld (reg_no R11 * 8) RDI R11,
     ld (reg_no R12 * 8) RDI R12,
     ld (reg_no R13 * 8) RDI R13,
     ld (reg_no R14 * 8) RDI R14,
     ld (reg_no R15 * 8) RDI R15,
     ld (reg_no RDI * 8) RDI RDI,
     swapgs,
     iretq]"

definition proc_run_sysret :: "Core \<Rightarrow> Core" where
  "proc_run_sysret = exec [
     ld (X86_REG_IP * 8) RDI RCX,
     ld (X86_REG_FLAGS * 8) RDI R11,
     ld (reg_no RAX * 8) RDI RAX,
     ld (reg_no RBX * 8) RDI RBX,
     ld (reg_no RDX * 8) RDI RDX,
     ld (reg_no RSI * 8) RDI RSI,
     ld (reg_no RSP * 8) RDI RSP,
     ld (reg_no RBP * 8) RDI RBP,
     ld (reg_no R8 * 8) RDI R8,
     ld (reg_no R9 * 8) RDI R9,
     ld (reg_no R10 * 8) RDI R10,
     ld (reg_no R12 * 8) RDI R12,
     ld (reg_no R13 * 8) RDI R13,
     ld (reg_no R14 * 8) RDI R14,
     ld (reg_no R15 * 8) RDI R15,
     ld (reg_no RDI * 8) RDI RDI,
     swapgs,
     sysretq]"

definition sys_save :: "u64 \<Rightarrow> Core \<Rightarrow> Core" where
  "sys_save sysret_addr = exec [
     swapgs,
     st_gs RSP 24,
     ld_gs 8 RSP,
     st RBX (reg_no RBX * 8) RSP,
     st RDX (reg_no RDX * 8) RSP,
     st RDI (reg_no RDI * 8) RSP,
     st RSI (reg_no RSI * 8) RSP,
     st RBP (reg_no RBP * 8) RSP,
     st R8 (reg_no R8 * 8) RSP,
     st R9 (reg_no R9 * 8) RSP,
     st R10 (reg_no R10 * 8) RSP,
     st R12 (reg_no R12 * 8) RSP,
     st R13 (reg_no R13 * 8) RSP,
     st R14 (reg_no R14 * 8) RSP,
     st R15 (reg_no R15 * 8) RSP,
     st RCX (X86_REG_IP * 8) RSP,
     st R11 (X86_REG_FLAGS * 8) RSP,
     ld_gs 24 RBX,
     st RBX (reg_no RSP * 8) RSP,
     st_imm sysret_addr (18 * 8 + 512) RSP]"

definition sys_args :: "Core \<Rightarrow> Core" where
  "sys_args = exec [
     ld_gs 0 RSP,
     lea (32 + 16384) RSP RSP,
     lea (- (6 * 8)) RSP RSP,
     st RDI (0 * 8) RSP,
     st RSI (1 * 8) RSP,
     st RDX (2 * 8) RSP,
     st R10 (3 * 8) RSP,
     st R8 (4 * 8) RSP,
     st R9 (5 * 8) RSP,
     ld_gs 8 RDI,
     movr RSP RSI]"

definition ENOSYS :: u64 where "ENOSYS = 55"

definition bad_sys :: "Core \<Rightarrow> Core" where
  "bad_sys s = sysretq (s\<lparr>gpr := (gpr s)(RAX := - ENOSYS)\<rparr>)"

text \<open>
  \<open>x86_sys_handler\<close>. The number is compared as a signed one. \<open>handlers\<close> is the address of \<open>gSysHandlers\<close>;
  \<open>call\<close> is what a call of the function at an address does.
\<close>

definition x86_sys_handler :: "u64 \<Rightarrow> u64 \<Rightarrow> (u64 \<Rightarrow> Core \<Rightarrow> Core) \<Rightarrow> Core \<Rightarrow> Core" where
  "x86_sys_handler handlers sysret_addr call s =
     (if 32 \<le> sint (gpr s RAX) then bad_sys s
      else (let s = s\<lparr>gpr := (gpr s)(RAX := load64 (cmem s) (handlers + gpr s RAX * 8))\<rparr>
            in if gpr s RAX = 0 then bad_sys s
               else (let s = sys_args (sys_save sysret_addr s);
                         s = call (gpr s RAX) s
                     in proc_run_sysret (exec [ld_gs 8 RDI, st RAX (8 * reg_no RAX) RDI] s))))"

section \<open>The saved registers of a process\<close>

declare reg_no.simps [simp del]

lemma reg_offsets:
  "reg_no r * 8 = 8 * reg_no r" "X86_REG_IP * 8 = 8 * X86_REG_IP" "X86_REG_FLAGS * 8 = 8 * X86_REG_FLAGS"
  "reg_at p i = p + 8 * i"
  by (simp_all add: mult.commute reg_at_def)

lemma reg_numbers:
  "16 \<le> X86_REG_IP" "16 \<le> X86_REG_FLAGS" "X86_REG_IP < 84" "X86_REG_FLAGS < 84" "X86_REG_IP \<noteq> X86_REG_FLAGS"
  "X86_REG_FLAGS \<noteq> X86_REG_IP" "X86_REG_IP \<noteq> 82" "X86_REG_FLAGS \<noteq> 82"
  by (simp_all add: X86_REG_IP_def X86_REG_FLAGS_def)

lemma reg_no_other:
  assumes "16 \<le> j" shows "reg_no r \<noteq> j" and "j \<noteq> reg_no r"
  using reg_no_word(1) [of r] assms by auto

lemma word_of_run: "j < 84 \<Longrightarrow> word_of (store64 m (p + 656) v) p j = (if j = 82 then v else word_of m p j)"
  using word_of_store [of 82 j m p v] by auto

lemmas saved_simps = reg_offsets reg_numbers reg_no_word reg_no_other word_of_store word_of_run

section \<open>Interrupts\<close>

lemma save_context_blocks:
  "SAVE_CONTEXT run_addr s =
     exec [ld 0 RSP RAX, st RAX (X86_REG_IP * 8) RDI, ld 16 RSP RAX, st RAX (X86_REG_FLAGS * 8) RDI, lea (8 * 5) RSP RSP]
       (exec (map (\<lambda>r. st r (reg_no r * 8) RDI) [RBP, R8, R9, R10, R11, R12, R13, R14, R15])
         (exec [pop RAX, st RAX (reg_no RDI * 8) RDI, ld 24 RSP RAX, st RAX (reg_no RSP * 8) RDI]
           (exec (map (\<lambda>r. st r (reg_no r * 8) RDI) [RAX, RBX, RCX, RDX, RSI])
             (exec [swapgs, push RDI, ld_gs 8 RDI, st_imm run_addr (18 * 8 + 512) RDI] s))))"
  by (simp only: SAVE_CONTEXT_def exec_steps list.map)

lemma save_context_saves:
  assumes "proc = load64 (cmem u) (kernel_gs u + 8)" and "disjoint_ranges stk 48 proc 672" and "disjoint_ranges proc 672 stk 48"
    and "disjoint_ranges stk 48 (kernel_gs u + 8) 8"
    and s: "s = SAVE_CONTEXT run_addr (interrupt handler (stk + 48) u)"
  shows "word_of (cmem s) proc (reg_no r) = gpr u r" and "word_of (cmem s) proc X86_REG_IP = rip u"
    and "word_of (cmem s) proc X86_REG_FLAGS = rflags u" and "word_of (cmem s) proc 82 = run_addr"
    and "gs_base s = kernel_gs u" and "kernel_gs s = gs_base u" and "gpr s RSP = stk + 48"
proof -
  note off = load_other_offset load_apart [OF assms(2)] load_apart [OF assms(3)] load_apart [OF assms(4)]
    add.commute [of "numeral w" stk for w]
  define s0 where "s0 = interrupt handler (stk + 48) u"
  define s1 where "s1 = exec [swapgs, push RDI, ld_gs 8 RDI, st_imm run_addr (18 * 8 + 512) RDI] s0"
  define s2 where "s2 = exec (map (\<lambda>r. st r (reg_no r * 8) RDI) [RAX, RBX, RCX, RDX, RSI]) s1"
  define s3 where "s3 = exec [pop RAX, st RAX (reg_no RDI * 8) RDI, ld 24 RSP RAX, st RAX (reg_no RSP * 8) RDI] s2"
  define s4 where "s4 = exec (map (\<lambda>r. st r (reg_no r * 8) RDI) [RBP, R8, R9, R10, R11, R12, R13, R14, R15]) s3"
  have s: "s = exec [ld 0 RSP RAX, st RAX (X86_REG_IP * 8) RDI, ld 16 RSP RAX, st RAX (X86_REG_FLAGS * 8) RDI, lea (8 * 5) RSP RSP] s4"
    by (simp only: s save_context_blocks s0_def s1_def s2_def s3_def s4_def)
  have s0: "gpr s0 = (gpr u)(RSP := stk + 8)" "gs_base s0 = gs_base u" "kernel_gs s0 = kernel_gs u"
    "load64 (cmem s0) (stk + 8) = rip u" "load64 (cmem s0) (stk + 24) = rflags u" "load64 (cmem s0) (stk + 32) = gpr u RSP"
    "load64 (cmem s0) (kernel_gs u + 8) = proc"
    by (simp_all add: s0_def interrupt_def off assms(1) [symmetric])
  have s1: "gpr s1 = (gpr u)(RSP := stk, RDI := proc)" "gs_base s1 = kernel_gs u" "kernel_gs s1 = gs_base u"
    "load64 (cmem s1) stk = gpr u RDI" "load64 (cmem s1) (stk + 8) = rip u" "load64 (cmem s1) (stk + 24) = rflags u"
    "load64 (cmem s1) (stk + 32) = gpr u RSP" "word_of (cmem s1) proc 82 = run_addr"
    by (simp_all add: s1_def s0 instructions off word_of_def fun_eq_iff)
  have d: "disjoint_ranges proc 672 stk 8" "disjoint_ranges proc 672 (stk + 8) 8" "disjoint_ranges proc 672 (stk + 24) 8"
      "disjoint_ranges proc 672 (stk + 32) 8"
    using disjoint_part(1) [OF assms(3), of _ 8] disjoint_part(1) [OF assms(3), of 0 8] by simp_all
  note r2 = store_regs [OF s2_def, of proc]
  have s3: "gpr s3 = (gpr u)(RSP := stk + 8, RDI := proc, RAX := gpr u RSP)" "gs_base s3 = kernel_gs u" "kernel_gs s3 = gs_base u"
    "load64 (cmem s3) (stk + 8) = rip u" "load64 (cmem s3) (stk + 24) = rflags u" "word_of (cmem s3) proc 82 = run_addr"
    by (simp_all add: s3_def r2 s1 d instructions saved_simps fun_eq_iff load_word_apart
        add.commute [of "numeral w" stk for w])
  have w3: "r \<in> {RAX, RBX, RCX, RDX, RSI, RDI, RSP} \<Longrightarrow> word_of (cmem s3) proc (reg_no r) = gpr u r"
    by (auto simp: s3_def r2 s1 d instructions saved_simps load_word_apart add.commute [of "numeral w" stk for w])
  note r4 = store_regs [OF s4_def, of proc]
  show "gs_base s = kernel_gs u" "kernel_gs s = gs_base u" "gpr s RSP = stk + 48"
    by (simp_all add: s r4 s3 instructions)
  show "word_of (cmem s) proc (reg_no r) = gpr u r"
    using w3 by (cases r) (simp_all add: s r4 s3 instructions saved_simps)
  show "word_of (cmem s) proc X86_REG_IP = rip u" and "word_of (cmem s) proc X86_REG_FLAGS = rflags u"
    and "word_of (cmem s) proc 82 = run_addr"
    by (simp_all add: s r4 s3 d instructions saved_simps load_word_apart add.commute [of "numeral w" stk for w])
qed

text \<open>The registers of a process, as they are when it runs in user mode.\<close>

definition user_regs :: "Core \<Rightarrow> (reg \<Rightarrow> u64) \<times> u64 \<times> u64 \<times> u64 \<times> u64" where
  "user_regs s = (gpr s, rip s, rflags s, sel_cs s, sel_ss s)"

lemma proc_run_blocks:
  "proc_run s =
     exec [ld (reg_no RDI * 8) RDI RDI, swapgs, iretq]
       (exec (map (\<lambda>r. ld (reg_no r * 8) RDI r) [RAX, RBX, RCX, RDX, RSI, RBP, R8, R9, R10, R11, R12, R13, R14, R15])
         (exec [lea (- (5 * 8)) RSP RSP, ld (X86_REG_IP * 8) RDI RAX, st RAX 0 RSP,
             st_imm (of_nat X86_SEL_CODE3 OR X86_RING3) 8 RSP, ld (X86_REG_FLAGS * 8) RDI RAX, st RAX 16 RSP,
             ld (reg_no RSP * 8) RDI RAX, st RAX 24 RSP, st_imm (of_nat X86_SEL_DATA3 OR X86_RING3) 32 RSP] s))"
  by (simp only: proc_run_def exec_steps list.map)

lemma proc_run_restores:
  assumes "gpr s RDI = proc" and "gpr s RSP = stk + 48" and "disjoint_ranges stk 48 proc 672" and "disjoint_ranges proc 672 stk 48"
  shows "user_regs (proc_run s) = (\<lambda>r. word_of (cmem s) proc (reg_no r), word_of (cmem s) proc X86_REG_IP,
      word_of (cmem s) proc X86_REG_FLAGS, 0x1b, 0x23)"
    and "gs_base (proc_run s) = kernel_gs s" and "kernel_gs (proc_run s) = gs_base s"
proof -
  note off = load_other_offset add.commute [of "numeral w" stk for w] word_of_apart [OF disjoint_part(2) [OF assms(3)]]
  have words: "load64 m (proc + 8 * j) = word_of m proc j" for m j by (simp add: word_of_def)
  define s1 where "s1 = exec [lea (- (5 * 8)) RSP RSP, ld (X86_REG_IP * 8) RDI RAX, st RAX 0 RSP,
             st_imm (of_nat X86_SEL_CODE3 OR X86_RING3) 8 RSP, ld (X86_REG_FLAGS * 8) RDI RAX, st RAX 16 RSP,
             ld (reg_no RSP * 8) RDI RAX, st RAX 24 RSP, st_imm (of_nat X86_SEL_DATA3 OR X86_RING3) 32 RSP] s"
  define s2 where "s2 = exec (map (\<lambda>r. ld (reg_no r * 8) RDI r)
      [RAX, RBX, RCX, RDX, RSI, RBP, R8, R9, R10, R11, R12, R13, R14, R15]) s1"
  have s: "proc_run s = exec [ld (reg_no RDI * 8) RDI RDI, swapgs, iretq] s2"
    by (simp only: proc_run_blocks s1_def s2_def)
  have s1: "gpr s1 RDI = proc" "gpr s1 RSP = stk + 8" "gs_base s1 = gs_base s" "kernel_gs s1 = kernel_gs s"
    "j < 84 \<Longrightarrow> word_of (cmem s1) proc j = word_of (cmem s) proc j"
    "load64 (cmem s1) (stk + 8) = word_of (cmem s) proc X86_REG_IP" "load64 (cmem s1) (stk + 16) = 0x1b"
    "load64 (cmem s1) (stk + 24) = word_of (cmem s) proc X86_REG_FLAGS" "load64 (cmem s1) (stk + 32) = word_of (cmem s) proc (reg_no RSP)"
    "load64 (cmem s1) (stk + 40) = 0x23" for j
    by (simp_all add: s1_def assms(1,2) instructions saved_simps words off X86_SEL_CODE3_def X86_SEL_DATA3_def X86_RING3_def)
  note r2 = load_regs [OF s2_def]
  have "gpr (proc_run s) r = word_of (cmem s) proc (reg_no r)" for r
    by (cases r) (simp_all add: s r2 s1 instructions saved_simps words off)
  moreover have "rip (proc_run s) = word_of (cmem s) proc X86_REG_IP" "rflags (proc_run s) = word_of (cmem s) proc X86_REG_FLAGS"
      "sel_cs (proc_run s) = 0x1b" "sel_ss (proc_run s) = 0x23"
    by (simp_all add: s r2 s1 instructions off)
  ultimately show "user_regs (proc_run s) = (\<lambda>r. word_of (cmem s) proc (reg_no r), word_of (cmem s) proc X86_REG_IP,
      word_of (cmem s) proc X86_REG_FLAGS, 0x1b, 0x23)" by (simp add: user_regs_def fun_eq_iff)
  show "gs_base (proc_run s) = kernel_gs s" and "kernel_gs (proc_run s) = gs_base s"
    by (simp_all add: s r2 s1 instructions)
qed

text \<open>C37. A process that a timer interrupt takes off the processor while it runs with the selectors iretq gives it (CS 0x1b, SS 0x23) finds itself as it was: when proc_run is called for
  it later, with the registers saved in it still in memory, every register, the instruction pointer, the flags, the stack
  and the selectors of user mode and the GS bases are those of the moment of the interrupt.\<close>

theorem interrupted_process_resumes:
  assumes "proc = load64 (cmem u) (kernel_gs u + 8)" and "disjoint_ranges stk 48 proc 672" and "disjoint_ranges proc 672 stk 48"
    and "disjoint_ranges stk 48 (kernel_gs u + 8) 8" and "sel_cs u = 0x1b" and "sel_ss u = 0x23"
    and "s = SAVE_CONTEXT run_addr (interrupt handler (stk + 48) u)"
    and "gpr t RDI = proc" and "gpr t RSP = stk' + 48" and "disjoint_ranges stk' 48 proc 672" and "disjoint_ranges proc 672 stk' 48"
    and "\<forall>i<18. load64 (cmem t) (reg_at proc i) = load64 (cmem s) (reg_at proc i)"
    and "gs_base t = gs_base s" and "kernel_gs t = kernel_gs s"
  shows "user_regs (proc_run t) = user_regs u \<and> gs_base (proc_run t) = gs_base u \<and> kernel_gs (proc_run t) = kernel_gs u
    \<and> load64 (cmem s) (run_at proc) = run_addr"
proof -
  note sv = save_context_saves [OF assms(1-4,7)]
  note rs = proc_run_restores [OF assms(8-11)]
  have "reg_no r < 18" for r using reg_no_word(1) [of r] by (rule less_trans) simp
  moreover have "X86_REG_IP < 18" "X86_REG_FLAGS < 18" by (simp_all add: X86_REG_IP_def X86_REG_FLAGS_def)
  moreover have "i < 18 \<Longrightarrow> word_of (cmem t) proc i = word_of (cmem s) proc i" for i
    using assms(12) by (simp add: word_of_def reg_at_def)
  ultimately show ?thesis
    using rs sv assms(5,6,13,14) by (simp add: user_regs_def fun_eq_iff word_of_def run_at_def)
qed

section \<open>System calls\<close>

text \<open>
  A handler that returns keeps the GS bases, the MSR of the selectors, the process of the thread and what is saved in it.
  A call has six arguments, in the registers of the kernel's convention.
\<close>

definition well_behaved :: "(u64 \<Rightarrow> Core \<Rightarrow> Core) \<Rightarrow> u64 \<Rightarrow> u64 \<Rightarrow> Core \<Rightarrow> bool" where
  "well_behaved call h proc s \<longleftrightarrow> gs_base (call h s) = gs_base s \<and> kernel_gs (call h s) = kernel_gs s \<and> star (call h s) = star s
     \<and> load64 (cmem (call h s)) (gs_base s + 8) = load64 (cmem s) (gs_base s + 8)
     \<and> (\<forall>i<18. load64 (cmem (call h s)) (reg_at proc i) = load64 (cmem s) (reg_at proc i))"

definition sys_arg :: "mem \<Rightarrow> u64 \<Rightarrow> u64 \<Rightarrow> u64" where
  "sys_arg m args i = load64 m (args + 8 * i)"

text \<open>The state in which the handler \<open>h\<close> is called.\<close>

definition sys_entry :: "u64 \<Rightarrow> u64 \<Rightarrow> Core \<Rightarrow> Core" where
  "sys_entry sysret_addr h s = sys_args (sys_save sysret_addr (s\<lparr>gpr := (gpr s)(RAX := h)\<rparr>))"

lemma sys_save_blocks:
  "sys_save sysret_addr s =
     exec [st RCX (X86_REG_IP * 8) RSP, st R11 (X86_REG_FLAGS * 8) RSP, ld_gs 24 RBX, st RBX (reg_no RSP * 8) RSP,
         st_imm sysret_addr (18 * 8 + 512) RSP]
       (exec (map (\<lambda>r. st r (reg_no r * 8) RSP) [RBX, RDX, RDI, RSI, RBP, R8, R9, R10, R12, R13, R14, R15])
         (exec [swapgs, st_gs RSP 24, ld_gs 8 RSP] s))"
  by (simp only: sys_save_def exec_steps list.map)

lemma sys_save_state:
  assumes "kernel_gs u = G" and "load64 (cmem u) (G + 8) = proc"
    and "disjoint_ranges G 16416 proc 672" and "disjoint_ranges proc 672 G 16416"
    and s: "s = sys_save sysret_addr u"
  shows "gs_base s = G" and "kernel_gs s = gs_base u" and "star s = star u" and "q \<notin> {RSP, RBX} \<Longrightarrow> gpr s q = gpr u q"
    and "load64 (cmem s) G = load64 (cmem u) G" and "load64 (cmem s) (G + 8) = proc"
    and "r \<notin> {RAX, RCX, R11} \<Longrightarrow> word_of (cmem s) proc (reg_no r) = gpr u r"
    and "word_of (cmem s) proc X86_REG_IP = gpr u RCX" and "word_of (cmem s) proc X86_REG_FLAGS = gpr u R11"
    and "word_of (cmem s) proc 82 = sysret_addr"
    and "disjoint_ranges G 16416 a 8 \<Longrightarrow> disjoint_ranges proc 672 a 8 \<Longrightarrow> load64 (cmem s) a = load64 (cmem u) a"
proof -
  define s1 where "s1 = exec [swapgs, st_gs RSP 24, ld_gs 8 RSP] u"
  define s2 where "s2 = exec (map (\<lambda>r. st r (reg_no r * 8) RSP) [RBX, RDX, RDI, RSI, RBP, R8, R9, R10, R12, R13, R14, R15]) s1"
  have s: "s = exec [st RCX (X86_REG_IP * 8) RSP, st R11 (X86_REG_FLAGS * 8) RSP, ld_gs 24 RBX, st RBX (reg_no RSP * 8) RSP,
         st_imm sysret_addr (18 * 8 + 512) RSP] s2"
    by (simp only: s sys_save_blocks s1_def s2_def)
  note off = load_other_offset add.commute [of "numeral w" G for w]
  have s1: "gpr s1 = (gpr u)(RSP := proc)" "gs_base s1 = G" "kernel_gs s1 = gs_base u" "star s1 = star u"
    "load64 (cmem s1) G = load64 (cmem u) G" "load64 (cmem s1) (G + 8) = proc" "load64 (cmem s1) (G + 24) = gpr u RSP"
    by (simp_all add: s1_def assms(1,2) instructions off fun_eq_iff)
  have d: "disjoint_ranges proc 672 G 8" "disjoint_ranges proc 672 (G + 8) 8" "disjoint_ranges proc 672 (G + 24) 8"
    using disjoint_part(1) [OF assms(4), of _ 8] disjoint_part(1) [OF assms(4), of 0 8] by simp_all
  have run: "disjoint_ranges proc 672 a 8 \<Longrightarrow> load64 (store64 m (proc + 656) v) a = load64 m a" for m a v
    using load_word_apart [of proc a 82 m v] by simp
  note r2 = store_regs [OF s2_def, of proc]
  show "gs_base s = G" and "kernel_gs s = gs_base u" and "star s = star u" and "q \<notin> {RSP, RBX} \<Longrightarrow> gpr s q = gpr u q"
    by (auto simp: s r2 s1 instructions)
  show "load64 (cmem s) G = load64 (cmem u) G" and "load64 (cmem s) (G + 8) = proc"
    by (simp_all add: s r2 s1 d run instructions reg_offsets reg_numbers reg_no_word load_word_apart off)
  show "r \<notin> {RAX, RCX, R11} \<Longrightarrow> word_of (cmem s) proc (reg_no r) = gpr u r"
    by (cases r) (simp_all add: s r2 s1 d instructions saved_simps load_word_apart off)
  show "word_of (cmem s) proc X86_REG_IP = gpr u RCX" and "word_of (cmem s) proc X86_REG_FLAGS = gpr u R11"
    and "word_of (cmem s) proc 82 = sysret_addr"
    by (simp_all add: s r2 s1 d instructions saved_simps off)
  assume a: "disjoint_ranges G 16416 a 8" "disjoint_ranges proc 672 a 8"
  have "load64 (cmem s1) a = load64 (cmem u) a"
    using load_store_disjoint [OF disjoint_part(2) [OF a(1), of 24 8]] by (simp add: s1_def assms(1) instructions)
  then show "load64 (cmem s) a = load64 (cmem u) a"
    using a(2) by (simp add: s r2 s1 run instructions reg_offsets reg_numbers reg_no_word load_word_apart)
qed

lemma sys_entry_state:
  assumes "kernel_gs u = G" and "load64 (cmem u) (G + 8) = proc" and "load64 (cmem u) G = G"
    and "disjoint_ranges G 16416 proc 672" and "disjoint_ranges proc 672 G 16416"
    and s: "s = sys_entry sysret_addr h u"
  shows "gs_base s = G" and "kernel_gs s = gs_base u" and "star s = star u"
    and "gpr s RAX = h" and "gpr s RDI = proc" and "gpr s RSI = G + 16368" and "gpr s RSP = G + 16368"
    and "load64 (cmem s) (G + 8) = proc"
    and "map (sys_arg (cmem s) (G + 16368)) [0, 1, 2, 3, 4, 5] = map (gpr u) [RDI, RSI, RDX, R10, R8, R9]"
    and "j < 84 \<Longrightarrow> word_of (cmem s) proc j = word_of (cmem (sys_save sysret_addr (u\<lparr>gpr := (gpr u)(RAX := h)\<rparr>))) proc j"
    and "disjoint_ranges G 16416 a 8 \<Longrightarrow> disjoint_ranges proc 672 a 8 \<Longrightarrow> load64 (cmem s) a = load64 (cmem u) a"
proof -
  define s1 where "s1 = sys_save sysret_addr (u\<lparr>gpr := (gpr u)(RAX := h)\<rparr>)"
  have s: "s = sys_args s1" by (simp add: s sys_entry_def s1_def)
  have s1: "gs_base s1 = G" "kernel_gs s1 = gs_base u" "star s1 = star u" "load64 (cmem s1) G = G" "load64 (cmem s1) (G + 8) = proc"
    "q \<notin> {RSP, RBX} \<Longrightarrow> gpr s1 q = ((gpr u)(RAX := h)) q" for q
    using assms(1-3) by (simp_all add: sys_save_state [OF _ _ assms(4,5) s1_def])
  note off = load_other_offset add.commute [of "numeral w" G for w] word_of_apart [OF disjoint_part(2) [OF assms(4)]]
  show "gs_base s = G" and "kernel_gs s = gs_base u" and "star s = star u"
    and "gpr s RAX = h" and "gpr s RDI = proc" and "gpr s RSI = G + 16368" and "gpr s RSP = G + 16368"
    and "load64 (cmem s) (G + 8) = proc"
    by (simp_all add: s sys_args_def instructions s1 off)
  show "map (sys_arg (cmem s) (G + 16368)) [0, 1, 2, 3, 4, 5] = map (gpr u) [RDI, RSI, RDX, R10, R8, R9]"
    by (simp add: s sys_args_def instructions s1 off sys_arg_def)
  show "j < 84 \<Longrightarrow> word_of (cmem s) proc j = word_of (cmem (sys_save sysret_addr (u\<lparr>gpr := (gpr u)(RAX := h)\<rparr>))) proc j"
    unfolding s1_def [symmetric] by (simp add: s sys_args_def instructions s1 off)
  assume a: "disjoint_ranges G 16416 a 8" "disjoint_ranges proc 672 a 8"
  have "unat c + 8 \<le> 16416 \<Longrightarrow> load64 (store64 m (G + c) x) a = load64 m a" for c m x
    using load_store_disjoint [OF disjoint_part(2) [OF a(1), of c 8]] by simp
  then have "load64 (cmem s) a = load64 (cmem s1) a" by (simp add: s sys_args_def instructions s1 off)
  then show "load64 (cmem s) a = load64 (cmem u) a"
    using sys_save_state(11) [OF _ _ assms(4,5) s1_def a] assms(1,2) by simp
qed

lemma proc_run_sysret_blocks:
  "proc_run_sysret s =
     exec [ld (reg_no RDI * 8) RDI RDI, swapgs, sysretq]
       (exec (map (\<lambda>r. ld (reg_no r * 8) RDI r) [RAX, RBX, RDX, RSI, RSP, RBP, R8, R9, R10, R12, R13, R14, R15])
         (exec [ld (X86_REG_IP * 8) RDI RCX, ld (X86_REG_FLAGS * 8) RDI R11] s))"
  by (simp only: proc_run_sysret_def exec_steps list.map)

lemma proc_run_sysret_restores:
  assumes "gpr s RDI = proc"
  shows "user_regs (proc_run_sysret s) =
      ((\<lambda>r. word_of (cmem s) proc (reg_no r))(RCX := word_of (cmem s) proc X86_REG_IP, R11 := word_of (cmem s) proc X86_REG_FLAGS),
       word_of (cmem s) proc X86_REG_IP, sysret_flags (word_of (cmem s) proc X86_REG_FLAGS),
       ucast (sysret_cs (star s)), ucast (sysret_ss (star s)))"
    and "gs_base (proc_run_sysret s) = kernel_gs s" and "kernel_gs (proc_run_sysret s) = gs_base s"
    and "cmem (proc_run_sysret s) = cmem s"
proof -
  have words: "load64 m (proc + 8 * j) = word_of m proc j" for m j by (simp add: word_of_def)
  define s1 where "s1 = exec [ld (X86_REG_IP * 8) RDI RCX, ld (X86_REG_FLAGS * 8) RDI R11] s"
  define s2 where "s2 = exec (map (\<lambda>r. ld (reg_no r * 8) RDI r) [RAX, RBX, RDX, RSI, RSP, RBP, R8, R9, R10, R12, R13, R14, R15]) s1"
  have s: "proc_run_sysret s = exec [ld (reg_no RDI * 8) RDI RDI, swapgs, sysretq] s2"
    by (simp only: proc_run_sysret_blocks s1_def s2_def)
  note r2 = load_regs [OF s2_def]
  have "gpr (proc_run_sysret s) r = ((\<lambda>r. word_of (cmem s) proc (reg_no r))(RCX := word_of (cmem s) proc X86_REG_IP,
      R11 := word_of (cmem s) proc X86_REG_FLAGS)) r" for r
    by (cases r) (simp_all add: s r2 s1_def assms instructions saved_simps words)
  moreover have "rip (proc_run_sysret s) = word_of (cmem s) proc X86_REG_IP"
      "rflags (proc_run_sysret s) = sysret_flags (word_of (cmem s) proc X86_REG_FLAGS)"
      "sel_cs (proc_run_sysret s) = ucast (sysret_cs (star s))" "sel_ss (proc_run_sysret s) = ucast (sysret_ss (star s))"
    by (simp_all add: s r2 s1_def assms instructions saved_simps words)
  ultimately show "user_regs (proc_run_sysret s) =
      ((\<lambda>r. word_of (cmem s) proc (reg_no r))(RCX := word_of (cmem s) proc X86_REG_IP, R11 := word_of (cmem s) proc X86_REG_FLAGS),
       word_of (cmem s) proc X86_REG_IP, sysret_flags (word_of (cmem s) proc X86_REG_FLAGS),
       ucast (sysret_cs (star s)), ucast (sysret_ss (star s)))" by (simp add: user_regs_def fun_eq_iff)
  show "gs_base (proc_run_sysret s) = kernel_gs s" and "kernel_gs (proc_run_sysret s) = gs_base s"
    and "cmem (proc_run_sysret s) = cmem s"
    by (simp_all add: s r2 s1_def instructions)
qed

lemma sys_handler_dispatch:
  assumes "sint (gpr u RAX) < 32" and "h = load64 (cmem u) (handlers + gpr u RAX * 8)" and "h \<noteq> 0"
    and "gpr (sys_entry sysret_addr h u) RAX = h"
  shows "x86_sys_handler handlers sysret_addr call u
    = proc_run_sysret (exec [ld_gs 8 RDI, st RAX (8 * reg_no RAX) RDI] (call h (sys_entry sysret_addr h u)))"
  using assms by (simp add: x86_sys_handler_def sys_entry_def Let_def)

lemma syscall_served:
  assumes "G = kernel_gs u" and "proc = load64 (cmem u) (G + 8)" and "load64 (cmem u) G = G"
    and "disjoint_ranges G 16416 proc 672" and "disjoint_ranges proc 672 G 16416"
    and "sint (gpr u RAX) < 32" and "h = load64 (cmem u) (handlers + gpr u RAX * 8)" and "h \<noteq> 0"
    and "s = sys_entry sysret_addr h (syscall lstar u)" and "well_behaved call h proc s"
    and "t = x86_sys_handler handlers sysret_addr call (syscall lstar u)"
  shows "gpr s RAX = h \<and> gpr s RDI = proc \<and> map (sys_arg (cmem s) (gpr s RSI)) [0, 1, 2, 3, 4, 5] = map (gpr u) [RDI, RSI, RDX, R10, R8, R9]
    \<and> load64 (cmem s) (run_at proc) = sysret_addr
    \<and> user_regs t = ((gpr u)(RAX := gpr (call h s) RAX, RCX := rip u, R11 := rflags u), rip u, sysret_flags (rflags u),
        ucast (sysret_cs (star u)), ucast (sysret_ss (star u)))
    \<and> gs_base t = gs_base u \<and> kernel_gs t = kernel_gs u
    \<and> cmem t = store64 (cmem (call h s)) proc (gpr (call h s) RAX)"
proof -
  define v where "v = syscall lstar u"
  define c where "c = call h s"
  define w where "w = exec [ld_gs 8 RDI, st RAX (8 * reg_no RAX) RDI] c"
  have v: "gpr v = (gpr u)(RCX := rip u, R11 := rflags u)" "gs_base v = gs_base u" "kernel_gs v = G" "star v = star u" "cmem v = cmem u"
    by (simp_all add: v_def syscall_def assms(1))
  have "kernel_gs v = G" "load64 (cmem v) (G + 8) = proc" "load64 (cmem v) G = G" by (simp_all add: v assms(2,3))
  note s = sys_entry_state [OF this assms(4,5) assms(9) [folded v_def]]
  define v' where "v' = v\<lparr>gpr := (gpr v)(RAX := h)\<rparr>"
  have "kernel_gs v' = G" "load64 (cmem v') (G + 8) = proc" by (simp_all add: v'_def v assms(2))
  note s' = sys_save_state [OF this assms(4,5) refl, where sysret_addr = sysret_addr] s(10) [folded v'_def]
  have c: "gs_base c = G" "kernel_gs c = gs_base u" "star c = star u" "load64 (cmem c) (G + 8) = proc"
    "i < 18 \<Longrightarrow> word_of (cmem c) proc i = word_of (cmem s) proc i" for i
    using assms(10) s v unfolding well_behaved_def c_def [symmetric] by (simp_all add: word_of_def reg_at_def)
  have w: "gs_base w = G" "kernel_gs w = gs_base u" "star w = star u" "gpr w RDI = proc"
    "i < 18 \<Longrightarrow> word_of (cmem w) proc i = (if i = reg_no RAX then gpr c RAX else word_of (cmem s) proc i)" for i
    using word_of_store [of "reg_no RAX" i "cmem c" proc] c by (auto simp: w_def instructions reg_no_word order.strict_trans)
  have t: "t = proc_run_sysret w"
    using sys_handler_dispatch [of v h handlers sysret_addr call] assms(6-9,11) s(4) by (simp add: v v_def [symmetric] w_def c_def)
  have n: "reg_no r < 18" "X86_REG_IP < 18" "X86_REG_FLAGS < 18" for r
    using reg_no_word(1) [of r] by (auto simp: X86_REG_IP_def X86_REG_FLAGS_def intro: less_trans)
  have saved: "word_of (cmem s) proc X86_REG_IP = rip u" "word_of (cmem s) proc X86_REG_FLAGS = rflags u"
      "r \<notin> {RAX, RCX, R11} \<Longrightarrow> word_of (cmem s) proc (reg_no r) = gpr u r" for r
    using s' by (auto simp: v v'_def saved_simps)
  have "gpr t r = ((gpr u)(RAX := gpr c RAX, RCX := rip u, R11 := rflags u)) r" for r
    using proc_run_sysret_restores(1) [OF w(4)] saved(3) [of r]
    by (auto simp: t user_regs_def w n saved saved_simps)
  then have "user_regs t = ((gpr u)(RAX := gpr (call h s) RAX, RCX := rip u, R11 := rflags u), rip u, sysret_flags (rflags u),
        ucast (sysret_cs (star u)), ucast (sysret_ss (star u)))"
    using proc_run_sysret_restores(1) [OF w(4)] unfolding t c_def [symmetric]
    by (simp add: user_regs_def fun_eq_iff w n saved reg_no_other reg_numbers)
  moreover have "load64 (cmem s) (run_at proc) = sysret_addr"
    using s'(10) s'(12) [of 82] by (simp add: word_of_def run_at_def)
  moreover have "gs_base t = gs_base u" "kernel_gs t = kernel_gs u"
    using proc_run_sysret_restores(2,3) [OF w(4)] w assms(1) by (simp_all add: t)
  moreover have "cmem t = store64 (cmem (call h s)) proc (gpr (call h s) RAX)"
    using proc_run_sysret_restores(4) [OF w(4)] c unfolding t c_def [symmetric] by (simp add: w_def instructions reg_no.simps)
  ultimately show ?thesis using s v by simp
qed

text \<open>C38. A system call with a known number reaches its handler, with the process and the six arguments of the call, and when
  the handler returns, the process continues after the call with the result in RAX and every other register as it was, but for
  RCX and R11, which hold the return address and the flags.\<close>

theorem syscall_returns:
  assumes "G = kernel_gs u" and "proc = load64 (cmem u) (G + 8)" and "load64 (cmem u) G = G"
    and "disjoint_ranges G 16416 proc 672" and "disjoint_ranges proc 672 G 16416"
    and "sint (gpr u RAX) < 32" and "h = load64 (cmem u) (handlers + gpr u RAX * 8)" and "h \<noteq> 0"
    and "s = sys_entry sysret_addr h (syscall lstar u)" and "well_behaved call h proc s"
    and "t = x86_sys_handler handlers sysret_addr call (syscall lstar u)"
  shows "gpr s RAX = h \<and> gpr s RDI = proc \<and> map (sys_arg (cmem s) (gpr s RSI)) [0, 1, 2, 3, 4, 5] = map (gpr u) [RDI, RSI, RDX, R10, R8, R9]
    \<and> load64 (cmem s) (run_at proc) = sysret_addr
    \<and> user_regs t = ((gpr u)(RAX := gpr (call h s) RAX, RCX := rip u, R11 := rflags u), rip u, sysret_flags (rflags u),
        ucast (sysret_cs (star u)), ucast (sysret_ss (star u)))
    \<and> gs_base t = gs_base u \<and> kernel_gs t = kernel_gs u"
  using syscall_served [OF assms] by blast

text \<open>C40. A system call with an unknown number, 32 or more as a signed one or without a handler, comes back at once to the
  instruction after it with -ENOSYS in RAX. The memory, the GS bases and the other general registers are as they were, but for RCX and
  R11, which hold the return address and the flags; the flags are those before, less the bits that sysret clears, and CS and SS are those
  that sysret loads.\<close>

theorem syscall_rejected:
  assumes "32 \<le> sint (gpr u RAX) \<or> load64 (cmem u) (handlers + gpr u RAX * 8) = 0"
    and "t = x86_sys_handler handlers sysret_addr call (syscall lstar u)"
  shows "user_regs t = ((gpr u)(RAX := - 55, RCX := rip u, R11 := rflags u), rip u, sysret_flags (rflags u),
        ucast (sysret_cs (star u)), ucast (sysret_ss (star u))) \<and> cmem t = cmem u \<and> gs_base t = gs_base u \<and> kernel_gs t = kernel_gs u"
  using assms by (auto simp: x86_sys_handler_def bad_sys_def syscall_def sysretq_def user_regs_def ENOSYS_def Let_def fun_eq_iff)

section \<open>Samples\<close>

definition sample_mem :: mem where
  "sample_mem = store64 (store64 (store64 (\<lambda>_. 0) 0x1000 0x1000) 0x1008 0x10000) 0x20000 0x500"

definition sample_core :: Core where
  "sample_core = \<lparr>gpr = reg_no, rip = 0x400000, rflags = 0x202, sel_cs = 0x1b, sel_ss = 0x23, gs_base = 0, kernel_gs = 0x1000,
     star = 0x0018000800000000, sfmask = 0x200, cmem = sample_mem\<rparr>"

lemma sample_words:
  "load64 sample_mem 0x1000 = 0x1000" "load64 sample_mem 0x1008 = 0x10000" "load64 sample_mem 0x20000 = 0x500"
  by (simp_all add: sample_mem_def load_store_disjoint disjoint_ranges_unat)

definition sample_handler :: "u64 \<Rightarrow> Core \<Rightarrow> Core" where
  "sample_handler h s = s\<lparr>gpr := (gpr s)(RAX := h + 7)\<rparr>"

lemma interrupted_process_resumes_witness:
  "user_regs (proc_run ((SAVE_CONTEXT 9 (interrupt 5 0x30030 sample_core))\<lparr>gpr := reg_no(RDI := 0x10000, RSP := 0x30030)\<rparr>))
     = user_regs sample_core"
  using interrupted_process_resumes [of "0x10000" sample_core "0x30000" "SAVE_CONTEXT 9 (interrupt 5 0x30030 sample_core)" 9 5
      "(SAVE_CONTEXT 9 (interrupt 5 0x30030 sample_core))\<lparr>gpr := reg_no(RDI := 0x10000, RSP := 0x30030)\<rparr>" "0x30000"]
  by (simp add: sample_core_def sample_words disjoint_ranges_unat)

lemma syscall_returns_witness:
  "gpr (x86_sys_handler 0x20000 8 sample_handler (syscall 6 sample_core)) RAX = 0x507
   \<and> gpr (x86_sys_handler 0x20000 8 sample_handler (syscall 6 sample_core)) R15 = 15"
  using syscall_returns [of "0x1000" sample_core "0x10000" "0x500" "0x20000" "sys_entry 8 0x500 (syscall 6 sample_core)" 8 6
      sample_handler "x86_sys_handler 0x20000 8 sample_handler (syscall 6 sample_core)"]
  by (simp add: sample_core_def sample_words disjoint_ranges_unat well_behaved_def sample_handler_def user_regs_def reg_no.simps)

lemma syscall_rejected_witness:
  "gpr (x86_sys_handler 0x20000 8 sample_handler (syscall 6 (sample_core\<lparr>gpr := reg_no(RAX := 32)\<rparr>))) RAX = - 55"
  using syscall_rejected [of "sample_core\<lparr>gpr := reg_no(RAX := 32)\<rparr>" "0x20000"
      "x86_sys_handler 0x20000 8 sample_handler (syscall 6 (sample_core\<lparr>gpr := reg_no(RAX := 32)\<rparr>))" 8 sample_handler 6]
  by (simp add: sample_core_def user_regs_def)

end
