(* ===== verification/KernelInit.thy ===== *)
theory KernelInit
  imports Procs BootDisk
begin

text \<open>
  The start of the kernel: the map of the physical memory (arch/x86/mem.c), which is made while the
  mapping of the boot loader is still in force, so that below 4 GiB it works on the physical memory, then the memory
  subsystems (mem/mem.c), the tables of the processor (arch/x86/init.c), the thread structure
  (thread.c), the system call table (sys/sys.c) and the main function (kmain.c). What CPUID answers is
  a parameter; messages are left out.
\<close>

section \<open>The map of the physical memory\<close>

text \<open>The four registers CPUID leaves for a leaf, as the array it fills.\<close>

type_synonym cpuid = "u64 \<Rightarrow> u64 list"

definition is_1gb_pages_supported :: "cpuid \<Rightarrow> bool" where
  "is_1gb_pages_supported cpuid \<longleftrightarrow> (cpuid 0x80000001 ! 3) AND 0x4000000 \<noteq> 0"

definition PML4_PHYSICAL :: nat where "PML4_PHYSICAL = 0x100"
definition PAGE_PRESENT :: u64 where "PAGE_PRESENT = 0x01"
definition PAGE_WRITE :: u64 where "PAGE_WRITE = 0x02"
definition PAGE_LARGE :: u64 where "PAGE_LARGE = 0x80"

text \<open>
  The tables are written at their physical addresses, through the loader's map of the first 4 GiB to
  themselves: the pages for them are below 4 GiB.
\<close>

definition early_page :: "Boot \<Rightarrow> u64 \<times> Boot" where
  "early_page s =
     (let (p, mf) = alloc_phys_early 1 (mem_free (gBootParams s))
      in (p, s\<lparr>gBootParams := (gBootParams s)\<lparr>mem_free := mf\<rparr>\<rparr>))"

definition map_1gb :: "u64 \<Rightarrow> mem \<Rightarrow> mem" where
  "map_1gb pdp = for_n 512 (\<lambda>i m. store64 m (word_at pdp i) ((of_nat i * 0x40000000) OR PAGE_PRESENT OR PAGE_WRITE OR PAGE_LARGE))"

definition map_2mb :: "nat \<Rightarrow> u64 \<Rightarrow> mem \<Rightarrow> mem" where
  "map_2mb i pd = for_n 512 (\<lambda>j m. store64 m (word_at pd j)
     ((of_nat (i * 512 + j) * 0x200000) OR PAGE_PRESENT OR PAGE_WRITE OR PAGE_LARGE))"

text \<open>A round of the loop for pages of 2 MiB: a table of 512 of them below entry \<open>i\<close>.\<close>

definition round_2mb :: "u64 \<Rightarrow> nat \<Rightarrow> Boot \<Rightarrow> Boot" where
  "round_2mb pdp i s =
     (let (pd, s) = early_page s; m = map_2mb i pd (ram s)
      in s\<lparr>ram := store64 m (word_at pdp i) (pd OR PAGE_PRESENT OR PAGE_WRITE)\<rparr>)"

definition arch_init_physical_mapping :: "cpuid \<Rightarrow> Boot \<Rightarrow> Boot" where
  "arch_init_physical_mapping cpuid s =
     (let cr3 = bp_cr3 (gBootParams s);
          (pdp, s) = early_page s;
          s = (if is_1gb_pages_supported cpuid then s\<lparr>ram := map_1gb pdp (ram s)\<rparr>
               else for_n 512 (round_2mb pdp) s)
      in s\<lparr>ram := store64 (ram s) (word_at cr3 PML4_PHYSICAL) (pdp OR PAGE_PRESENT OR PAGE_WRITE), cr3_reg := cr3\<rparr>)"

section \<open>The kernel afterwards\<close>

text \<open>
  From here on the kernel works on its own state. The parameters are the copy \<open>kmain\<close> made; the sum
  of \<open>gKernel\<close> is in the record of the kernel, besides \<open>threads\<close>.
\<close>

record Machine =
  m_kern :: Kernel
  m_cpu :: Cpu
  m_params :: BootParams
  m_threads :: u64

definition init_nx :: "cpuid \<Rightarrow> Machine \<Rightarrow> Machine" where
  "init_nx cpuid s =
     (if cpuid 0x80000000 ! 0 < 0x80000001 then s
      else if (cpuid 0x80000001 ! 3) AND 0x100000 \<noteq> 0
      then (let tmp = rdmsr X86_MSR_EFER (m_cpu s) OR 0x800
            in s\<lparr>m_kern := (m_kern s)\<lparr>nx_mask := 0x8000000000000000\<rparr>, m_cpu := wrmsr X86_MSR_EFER tmp (m_cpu s)\<rparr>)
      else s)"

text \<open>
  The entries are written through \<open>gKernel.cr3\<close>, the physical address of the table; the model writes
  them to the same table through the direct map, as everywhere.
\<close>

definition unmap_lomem :: "Kernel \<Rightarrow> Kernel" where
  "unmap_lomem k = for_n 128 (\<lambda>i k. k\<lparr>memory := store64 (memory k) (slot (physical_to_virtual (k_cr3 k)) i) 0\<rparr>) k"

text \<open>\<open>None\<close> is an allocator or a heap that fails to initialise.\<close>

definition init_mem :: "cpuid \<Rightarrow> KernelSections \<Rightarrow> Machine \<Rightarrow> Machine option" where
  "init_mem cpuid sections s =
     (let p = m_params s
      in case init_physical_memory (mem_map p) (mem_free p) (pmem (m_kern s)) of
           None \<Rightarrow> None
         | Some (a, mf) \<Rightarrow>
             (let s = init_nx cpuid (s\<lparr>m_kern := (m_kern s)\<lparr>pmem := a\<rparr>, m_params := p\<lparr>mem_free := mf\<rparr>\<rparr>);
                  k = init_kernel_mem_prot sections (m_kern s);
                  p = m_params s
              in case kmalloc (bp_initram_size p) k of
                   None \<Rightarrow> None
                 | Some (tmp, k) \<Rightarrow>
                     (let k = k\<lparr>memory := fst (memcpy (memory k) tmp (bp_initram p) (bp_initram_size p))\<rparr>;
                          k = k\<lparr>pmem := free_phys (bp_initram p) (bp_initram_size p) (pmem k)\<rparr>;
                          v = bp_video p;
                          (fb, k) = kmap 0 (framebuffer v) (ucast (pitch v * ucast (height v))) (KPROT_READ OR KPROT_WRITE) k
                      in Some (s\<lparr>m_kern := unmap_lomem k,
                                 m_params := p\<lparr>bp_initram := tmp, bp_video := v\<lparr>framebuffer := fb\<rparr>\<rparr>\<rparr>))))"

definition X86_INT_TIMER :: nat where "X86_INT_TIMER = X86_INT_OFFSET_PIC + X86_PIC_TIMER"

text \<open>\<open>int_timer\<close> and \<open>sys_handler\<close> are the addresses of the two handlers.\<close>

definition arch_init :: "cpuid \<Rightarrow> KernelSections \<Rightarrow> u64 \<Rightarrow> u64 \<Rightarrow> Machine \<Rightarrow> Machine option" where
  "arch_init cpuid sections int_timer sys_handler s =
     (let c = idt_init (gdt_init (m_cpu s));
          c = c\<lparr>ports := pic_init (ports c)\<rparr>
      in case init_mem cpuid sections (s\<lparr>m_cpu := c\<rparr>) of
           None \<Rightarrow> None
         | Some s \<Rightarrow> Some (s\<lparr>m_cpu := sys_init sys_handler (idt_set_gate_interrupt X86_INT_TIMER 0 int_timer (m_cpu s))\<rparr>))"

section \<open>Threads and system calls\<close>

text \<open>
  \<open>KernelThread\<close>: \<open>self\<close>, \<open>proc\<close>, \<open>thread_id\<close> and \<open>scratch\<close>, the stack at 32, the task state segment
  after it, padded to a multiple of 4096.
\<close>

definition KERNEL_STACK_SIZE :: u64 where "KERNEL_STACK_SIZE = 16384"
definition THREAD_SIZE :: u64 where "THREAD_SIZE = 20480"
definition stack_at :: "u64 \<Rightarrow> u64" where "stack_at t = t + 32"
definition tss_at :: "u64 \<Rightarrow> u64" where "tss_at t = t + 32 + KERNEL_STACK_SIZE"

definition thread_init :: "Machine \<Rightarrow> Machine option" where
  "thread_init s =
     (case kmalloc THREAD_SIZE (m_kern s) of
        None \<Rightarrow> None
      | Some (t, k) \<Rightarrow>
          (let m = fst (memset (memory k) t 0 THREAD_SIZE);
               m = store64 m t t;
               m = store64 m (tss_at t + 4) (stack_at t + KERNEL_STACK_SIZE);
               m = store16 m (tss_at t + 102) (of_nat TSS_SIZE);
               c = gdt_reload (gdt_add_tss X86_SEL_TSS (tss_at t) (m_cpu s));
               c = c\<lparr>tr := of_nat X86_SEL_TSS\<rparr>;
               c = wrmsr X86_MSR_FS_BASE 0 c;
               c = wrmsr X86_MSR_GS_BASE t c;
               c = wrmsr X86_MSR_KERNEL_GS_BASE 0 c
           in Some (s\<lparr>m_kern := k\<lparr>memory := m\<rparr>, m_cpu := c, m_threads := t\<rparr>)))"

definition KERNEL_MAX_SYSCALL :: nat where "KERNEL_MAX_SYSCALL = 32"

text \<open>The handlers of \<open>sys.c\<close>: the one of call 0, which returns 0, and no other.\<close>

definition test :: "u64 \<Rightarrow> u64 \<Rightarrow> Machine \<Rightarrow> u64 \<times> Machine" where
  "test proc args s = (0, s)"

definition gSysHandlers :: "(u64 \<Rightarrow> u64 \<Rightarrow> Machine \<Rightarrow> u64 \<times> Machine) option list" where
  "gSysHandlers = Some test # replicate (KERNEL_MAX_SYSCALL - 1) None"

text \<open>
  \<open>kmain\<close> up to its endless loop. Once the map of the physical memory is in force, the memory of the
  kernel is what its addresses stand for.
\<close>

definition kmain :: "cpuid \<Rightarrow> KernelSections \<Rightarrow> u64 \<Rightarrow> u64 \<Rightarrow> Boot \<Rightarrow> Machine \<Rightarrow> Machine option" where
  "kmain cpuid sections int_timer sys_handler b s =
     (let b = arch_init_physical_mapping cpuid b;
          p = gBootParams b;
          s = s\<lparr>m_params := p, m_kern := (m_kern s)\<lparr>k_cr3 := bp_cr3 p, hw_cr3 := cr3_reg b, memory := virtual_ram b\<rparr>\<rparr>
      in case arch_init cpuid sections int_timer sys_handler s of
           None \<Rightarrow> None
         | Some s \<Rightarrow> thread_init s)"

end
