(* ===== verification/LibcSys.thy ===== *)
theory LibcSys
  imports Context KernelInit
begin

text \<open>
  The C library's side of a system call: \<open>__syscall6\<close> (libc/arch/x86/syscall.S) as the instructions it is
  written in, with the wrappers of sys/syscall.h and \<open>irq_wait\<close> (libc/sys/irq.c), and what the kernel's
  \<open>x86_sys_handler\<close> makes of such a call.
\<close>

section \<open>The code\<close>

definition syscall_regs :: "Core \<Rightarrow> Core" where
  "syscall_regs = exec [
     movl RDI RAX,
     movr RSI RDI,
     movr RDX RSI,
     movr RCX RDX,
     movr R8 R10,
     movr R9 R8,
     ld 8 RSP R9]"

text \<open>\<open>serve\<close> is what the kernel does from the instruction \<open>syscall\<close> to its return.\<close>

definition syscall6 :: "(Core \<Rightarrow> Core) \<Rightarrow> Core \<Rightarrow> Core" where
  "syscall6 serve s = ret (serve (syscall_regs s))"

text \<open>
  The callers are C: for them \<open>__syscall6\<close> is a function \<open>sys6\<close> of the number and the six arguments.
\<close>

definition syscall1 :: "(u32 \<Rightarrow> u64 list \<Rightarrow> 's \<Rightarrow> u64 \<times> 's) \<Rightarrow> u32 \<Rightarrow> u64 \<Rightarrow> 's \<Rightarrow> u64 \<times> 's" where
  "syscall1 sys6 sys a1 = sys6 sys [a1, 0, 0, 0, 0, 0]"

definition SYS_IRQ_WAIT :: u32 where "SYS_IRQ_WAIT = 0"

definition irq_wait :: "(u32 \<Rightarrow> u64 list \<Rightarrow> 's \<Rightarrow> u64 \<times> 's) \<Rightarrow> u32 \<Rightarrow> 's \<Rightarrow> u32 \<times> 's" where
  "irq_wait sys6 irqs s = (let (r, s) = syscall1 sys6 SYS_IRQ_WAIT (scast irqs) s in (ucast r, s))"

text \<open>\<open>main\<close> of user/init.c, up to its endless loop.\<close>

definition init_main :: "(u32 \<Rightarrow> u64 list \<Rightarrow> 's \<Rightarrow> u64 \<times> 's) \<Rightarrow> 's \<Rightarrow> 's" where
  "init_main sys6 s = snd (irq_wait sys6 1 s)"

section \<open>A call from C to the kernel and back\<close>

lemma syscall_regs_state:
  assumes "v = syscall_regs u"
  shows "gpr v = (gpr u)(RAX := ucast (ucast (gpr u RDI) :: u32), RDI := gpr u RSI, RSI := gpr u RDX, RDX := gpr u RCX, R10 := gpr u R8,
      R8 := gpr u R9, R9 := load64 (cmem u) (gpr u RSP + 8))"
    and "cmem v = cmem u" and "gs_base v = gs_base u" and "kernel_gs v = kernel_gs u" and "star v = star u"
  by (simp_all add: assms syscall_regs_def exec_def movl_def movr_def ld_def fun_eq_iff)

lemma sint_ucast_u32: "sint (ucast (x :: u32) :: u64) = uint x"
proof -
  have b: "0 \<le> uint x" "uint x < 2 ^ 32" using unsigned_less [of x, where 'a = int] by simp_all
  then have u: "uint (ucast x :: u64) = uint x" by (simp add: unsigned_ucast_eq take_bit_int_eq_self)
  show ?thesis unfolding sint_uint u by (rule signed_take_bit_int_eq_self, rule order_trans [OF _ b(1)]) (use b(2) in simp_all)
qed

text \<open>The arguments of a call by the convention of C.\<close>

definition c_args :: "Core \<Rightarrow> u64 list" where
  "c_args s = [gpr s RSI, gpr s RDX, gpr s RCX, gpr s R8, gpr s R9, load64 (cmem s) (gpr s RSP + 8)]"

text \<open>C39. A system call through the C library: for a number below 32 that has a handler, the handler gets the six arguments that
  were given to __syscall6, and when it returns, __syscall6 returns its result to its caller, with the stack pointer of the
  caller and the registers that the convention of C preserves as they were.\<close>

theorem libc_syscall:
  assumes "G = kernel_gs u" and "proc = load64 (cmem u) (G + 8)" and "load64 (cmem u) G = G"
    and "disjoint_ranges G 16416 proc 672" and "disjoint_ranges proc 672 G 16416"
    and "(ucast (gpr u RDI) :: u32) < 32" and "h = load64 (cmem u) (handlers + ucast (ucast (gpr u RDI) :: u32) * 8)" and "h \<noteq> 0"
    and "s = sys_entry sysret_addr h (syscall lstar (syscall_regs u))" and "well_behaved call h proc s"
    and "load64 (cmem (call h s)) (gpr u RSP) = load64 (cmem s) (gpr u RSP)"
    and "disjoint_ranges G 16416 (gpr u RSP) 8" and "disjoint_ranges proc 672 (gpr u RSP) 8"
    and "t = syscall6 (\<lambda>v. x86_sys_handler handlers sysret_addr call (syscall lstar v)) u"
  shows "map (sys_arg (cmem s) (gpr s RSI)) [0, 1, 2, 3, 4, 5] = c_args u \<and> gpr t RAX = gpr (call h s) RAX
    \<and> rip t = load64 (cmem u) (gpr u RSP) \<and> gpr t RSP = gpr u RSP + 8
    \<and> (\<forall>r \<in> {RBX, RBP, R12, R13, R14, R15}. gpr t r = gpr u r)"
proof -
  define v where "v = syscall_regs u"
  note v = syscall_regs_state [OF v_def]
  define w where "w = x86_sys_handler handlers sysret_addr call (syscall lstar v)"
  have n: "sint (gpr v RAX) < 32" using sint_ucast_u32 [of "ucast (gpr u RDI)"] assms(6) by (simp add: v word_less_def)
  have served: "gpr s RAX = h \<and> gpr s RDI = proc \<and> map (sys_arg (cmem s) (gpr s RSI)) [0, 1, 2, 3, 4, 5] = map (gpr v) [RDI, RSI, RDX, R10, R8, R9]"
    "user_regs w = ((gpr v)(RAX := gpr (call h s) RAX, RCX := rip v, R11 := rflags v), rip v, sysret_flags (rflags v),
        ucast (sysret_cs (star v)), ucast (sysret_ss (star v)))" "cmem w = store64 (cmem (call h s)) proc (gpr (call h s) RAX)"
    using syscall_served [of G v proc h handlers s sysret_addr lstar call w] n assms(1-5,7-10) v by (auto simp: v_def [symmetric] w_def)
  have "kernel_gs (syscall lstar v) = G" "load64 (cmem (syscall lstar v)) (G + 8) = proc" "load64 (cmem (syscall lstar v)) G = G"
    using assms(1-3) by (simp_all add: syscall_def v)
  then have "load64 (cmem s) (gpr u RSP) = load64 (cmem u) (gpr u RSP)"
    using sys_entry_state(11) [OF _ _ _ assms(4,5) assms(9) [folded v_def] assms(12,13)] by (simp add: syscall_def v)
  then have "load64 (cmem w) (gpr u RSP) = load64 (cmem u) (gpr u RSP)"
    using load_word_apart [OF assms(13), of 0] assms(11) by (simp add: served(3))
  moreover have "t = ret w" by (simp add: assms(14) syscall6_def w_def v_def)
  ultimately show ?thesis
    using served(1,2) v(1) by (simp add: user_regs_def ret_def c_args_def)
qed

lemma libc_syscall_witness:
  "gpr (syscall6 (\<lambda>v. x86_sys_handler 0x20000 8 sample_handler (syscall 6 v)) (sample_core\<lparr>gpr := reg_no(RDI := 0, RSP := 0x40000)\<rparr>)) RAX = 0x507"
  using libc_syscall [of "0x1000" "sample_core\<lparr>gpr := reg_no(RDI := 0, RSP := 0x40000)\<rparr>" "0x10000" "0x500" "0x20000"
      "sys_entry 8 0x500 (syscall 6 (syscall_regs (sample_core\<lparr>gpr := reg_no(RDI := 0, RSP := 0x40000)\<rparr>)))" 8 6 sample_handler
      "syscall6 (\<lambda>v. x86_sys_handler 0x20000 8 sample_handler (syscall 6 v)) (sample_core\<lparr>gpr := reg_no(RDI := 0, RSP := 0x40000)\<rparr>)"]
  by (simp add: sample_core_def sample_words disjoint_ranges_unat well_behaved_def sample_handler_def)

end
