(* ===== verification/MapHistory.thy ===== *)
theory MapHistory
  imports KernelMap
begin

text \<open>
  Any sequence of mapping operations: the kernel and the list of the ranges that are mapped, as a step
  relation, with the invariant that no two mapped pages share a physical page.
\<close>

section \<open>Histories\<close>

text \<open>A mapped range is its first page and the physical pages behind it.\<close>

type_synonym mapped = "nat \<times> u64 list"

definition away :: "nat \<Rightarrow> nat \<Rightarrow> nat \<Rightarrow> nat \<Rightarrow> bool" where
  "away v n w m \<longleftrightarrow> (\<forall>i<n. \<forall>j<m. (v + i) mod 2 ^ 36 \<noteq> (w + j) mod 2 ^ 36)"

definition backing :: "Kernel \<Rightarrow> nat \<Rightarrow> nat \<Rightarrow> u64 list" where
  "backing k v n = map (\<lambda>j. the (translate (memory k) (k_cr3 k) (v + j)) AND MMASK_PHYS) [0..<n]"

definition held :: "mapped list \<Rightarrow> u64 list" where
  "held ms = concat (map snd ms)"

inductive vm_step :: "Kernel \<times> mapped list \<Rightarrow> Kernel \<times> mapped list \<Rightarrow> bool" where
  map_anon: "range_ok k (vpage addr) (vlen sz) \<Longrightarrow> vlen sz + ntables (vlen sz) + 2 \<le> card (free_pages (pmem k))
    \<Longrightarrow> \<forall>(v, fs) \<in> set ms. away v (length fs) (vpage addr) (vlen sz) \<Longrightarrow> kmapanon addr sz prot k = (addr', k')
    \<Longrightarrow> vm_step (k, ms) (k', (vpage addr, backing k' (vpage addr) (vlen sz)) # ms)"
| protect: "(vpage addr, fs) \<in> set ms \<Longrightarrow> vlen sz = length fs \<Longrightarrow> vm_step (k, ms) (kmprotect addr sz prot k, ms)"
| unmap: "vlen sz = length fs \<Longrightarrow> vm_step (k, as @ (vpage addr, fs) # bs) (kunmapanon addr sz k, as @ bs)"

section \<open>The invariant\<close>

definition is_mapped :: "Kernel \<Rightarrow> mapped \<Rightarrow> bool" where
  "is_mapped k = (\<lambda>(v, fs). fits v (length fs)
     \<and> (\<forall>j<length fs. \<exists>e. translate (memory k) (k_cr3 k) (v + j) = Some e \<and> e AND MMASK_PHYS = fs ! j))"

definition map_inv :: "u64 set \<Rightarrow> Kernel \<Rightarrow> mapped list \<Rightarrow> bool" where
  "map_inv X k ms \<longleftrightarrow> vm_ok (X \<union> set (held ms)) k \<and> nx_mask k \<in> {0, 0x8000000000000000}
     \<and> X \<inter> set (held ms) = {} \<and> distinct (held ms) \<and> set (held ms) \<subseteq> all_pages (pmem k)
     \<and> (\<forall>r \<in> set ms. is_mapped k r)
     \<and> sorted_wrt (\<lambda>a b. away (fst b) (length (snd b)) (fst a) (length (snd a))) ms"

lemma away_sym: "away v n w m \<longleftrightarrow> away w m v n"
  unfolding away_def by metis

lemma held_append [simp]: "held (as @ bs) = held as @ held bs" "held ((v, fs) # bs) = fs @ held bs" "held [] = []"
  by (simp_all add: held_def)

lemma nx_bit:
  assumes "nx \<in> {0, 0x8000000000000000 :: u64}" and "bit nx i"
  shows "i = 63"
  using assms bit_exp_iff [where n = i and m = 63 and 'a = "64 word"] by auto

lemma protected_frame:
  assumes "nx \<in> {0, 0x8000000000000000 :: u64}"
  shows "((e AND NOT (X86_PAGE_USER OR X86_PAGE_WRITE OR nx)) OR page_prot_flags nx prot) AND MMASK_PHYS = e AND MMASK_PHYS"
proof (rule bit_word_eqI)
  fix i assume "i < LENGTH(64)"
  have "bit (page_prot_flags nx prot) i \<Longrightarrow> i < 12 \<or> i = 63"
    using bit_page_prot_flags [of nx prot i] nx_bit [OF assms, of i] by auto
  then show "bit (((e AND NOT (X86_PAGE_USER OR X86_PAGE_WRITE OR nx)) OR page_prot_flags nx prot) AND MMASK_PHYS) i
      = bit (e AND MMASK_PHYS) i"
    using nx_bit [OF assms, of i] \<open>i < LENGTH(64)\<close> by (auto simp: bit_and_iff bit_or_iff bit_not_iff MMASK_PHYS_bits)
qed

lemma is_mapped_present: "is_mapped k (v, fs) \<Longrightarrow> tables_present k v (length fs)"
  unfolding tables_present_def is_mapped_def by (fastforce simp: translate_def split: option.splits)

lemma kmprotect_fields [simp]:
  "pmem (kmprotect addr sz prot k) = pmem k" "k_cr3 (kmprotect addr sz prot k) = k_cr3 k" "nx_mask (kmprotect addr sz prot k) = nx_mask k"
  by (simp_all add: kmprotect_def page_walk_preserve for_n_preserve kmprotect_entry_def Let_def)

lemma kunmapanon_fields [simp]:
  "k_cr3 (kunmapanon addr sz k) = k_cr3 k" "nx_mask (kunmapanon addr sz k) = nx_mask k"
  by (simp_all add: kunmapanon_def page_walk_preserve for_n_preserve kunmap_entry_def)

text \<open>A range that is not written to stays mapped.\<close>

lemma is_mapped_elsewhere:
  assumes "is_mapped k (w, gs)" and "away w (length gs) v n"
    and "\<And>x e. (\<forall>j<n. x mod 2 ^ 36 \<noteq> (v + j) mod 2 ^ 36) \<Longrightarrow> translate (memory k) (k_cr3 k) x = Some e \<Longrightarrow>
      translate (memory k') (k_cr3 k') x = Some e"
  shows "is_mapped k' (w, gs)"
  using assms unfolding is_mapped_def away_def by fastforce

lemma map_inv_map:
  assumes "map_inv X k ms" and "range_ok k (vpage addr) (vlen sz)"
    and "vlen sz + ntables (vlen sz) + 2 \<le> card (free_pages (pmem k))"
    and "\<forall>(v, fs) \<in> set ms. away v (length fs) (vpage addr) (vlen sz)" and "kmapanon addr sz prot k = (addr', k')"
  shows "map_inv X k' ((vpage addr, backing k' (vpage addr) (vlen sz)) # ms) \<and> same_frames X (memory k) (memory k')"
proof -
  let ?v = "vpage addr" and ?n = "vlen sz" and ?fl = "X86_PAGE_PRESENT OR page_prot_flags (nx_mask k) prot"
  have inv: "vm_ok (X \<union> set (held ms)) k" "nx_mask k \<in> {0, 0x8000000000000000}" "X \<inter> set (held ms) = {}" "distinct (held ms)"
      "set (held ms) \<subseteq> all_pages (pmem k)"
    and sorted: "sorted_wrt (\<lambda>a b. away (fst b) (length (snd b)) (fst a) (length (snd a))) ms"
    and ranges: "\<forall>r \<in> set ms. is_mapped k r"
    using assms(1) unfolding map_inv_def by blast+
  obtain fs where fs: "length fs = ?n" "distinct fs" "set fs \<subseteq> free_pages (pmem k)"
      "\<forall>j<?n. translate (memory k') (k_cr3 k') (?v + j) = Some (fs ! j OR ?fl)"
      "\<And>w e. (\<forall>j<?n. w mod 2 ^ 36 \<noteq> (?v + j) mod 2 ^ 36) \<Longrightarrow>
         translate (memory k) (k_cr3 k) w = Some e \<Longrightarrow> translate (memory k') (k_cr3 k') w = Some e"
      "same_frames (X \<union> set (held ms)) (memory k) (memory k')" "vm_ok (X \<union> set (held ms) \<union> set fs) k'"
      "all_pages (pmem k') = all_pages (pmem k)" "nx_mask k' = nx_mask k"
    using kmapanon_spec [OF inv(1) assms(2,3,5)] by blast
  have fm: "\<forall>f \<in> free_pages (pmem k). is_frame f" "(X \<union> set (held ms)) \<inter> free_pages (pmem k) = {}"
    using inv(1) unfolding vm_ok_def by blast+
  then have "is_frame f" if "f \<in> set fs" for f using fs(3) that by blast
  then have mask: "(fs ! j OR ?fl) AND MMASK_PHYS = fs ! j" if "j < ?n" for j
    using that fs(1) nx_bit [OF inv(2)] by (intro frame_entry_mask) (auto simp: bit_or_iff dest!: bit_page_prot_flags)
  have b: "backing k' ?v ?n = fs"
    using fs(1,4) mask by (intro nth_equalityI) (simp_all add: backing_def)
  have "set fs \<inter> (X \<union> set (held ms)) = {}" using fs(3) fm(2) by blast
  moreover have "is_mapped k' (?v, fs)"
    using assms(2) fs(1,4) mask by (auto simp: is_mapped_def range_ok_def)
  moreover have "is_mapped k' r" if "r \<in> set ms" for r
  proof -
    obtain w gs where r: "r = (w, gs)" by (cases r)
    then have a: "away w (length gs) ?v ?n" using assms(4) that by auto
    have "is_mapped k (w, gs)" using ranges that r by blast
    then show ?thesis unfolding r by (rule is_mapped_elsewhere [OF _ a fs(5)])
  qed
  moreover have "set fs \<subseteq> all_pages (pmem k')" using fs(3,8) free_subset_all by blast
  moreover have "\<forall>r \<in> set ms. away (fst r) (length (snd r)) ?v (length fs)" using assms(4) fs(1) by auto
  moreover have "X \<union> (set fs \<union> set (held ms)) = X \<union> set (held ms) \<union> set fs" by blast
  ultimately have "map_inv X k' ((?v, fs) # ms)"
    using inv fs(2,7,8,9) sorted by (simp add: map_inv_def) blast
  moreover have "same_frames X (memory k) (memory k')" using fs(6) by (rule same_frames_subset) simp
  ultimately show ?thesis unfolding b by simp
qed

lemma map_inv_others:
  assumes "map_inv X k (as @ (v, fs) # bs)" and "(w, gs) \<in> set (as @ bs)"
  shows "away w (length gs) v (length fs)"
proof -
  have "sorted_wrt (\<lambda>a b. away (fst b) (length (snd b)) (fst a) (length (snd a))) (as @ (v, fs) # bs)"
    using assms(1) unfolding map_inv_def by blast
  then show ?thesis using assms(2) away_sym by (fastforce simp: sorted_wrt_append)
qed

lemma map_inv_protect:
  assumes "map_inv X k ms" and "(vpage addr, fs) \<in> set ms" and "vlen sz = length fs"
  shows "map_inv X (kmprotect addr sz prot k) ms \<and> same_frames X (memory k) (memory (kmprotect addr sz prot k))"
proof -
  let ?v = "vpage addr" and ?n = "vlen sz" and ?k' = "kmprotect addr sz prot k"
  have inv: "vm_ok (X \<union> set (held ms)) k" and nx: "nx_mask k \<in> {0, 0x8000000000000000}" and ranges: "\<forall>r \<in> set ms. is_mapped k r"
    using assms(1) unfolding map_inv_def by blast+
  obtain as bs where ms: "ms = as @ (?v, fs) # bs" using split_list [OF assms(2)] by blast
  have m: "is_mapped k (?v, fs)" using ranges assms(2) by blast
  have f: "fits ?v ?n" "tables_present k ?v ?n" using is_mapped_present [OF m] m assms(3) by (simp_all add: is_mapped_def)
  have s: "\<And>j e. j < ?n \<Longrightarrow> translate (memory k) (k_cr3 k) (?v + j) = Some e \<Longrightarrow> translate (memory ?k') (k_cr3 ?k') (?v + j)
        = Some ((e AND NOT (X86_PAGE_USER OR X86_PAGE_WRITE OR nx_mask k)) OR page_prot_flags (nx_mask k) prot)"
      "\<And>w. (\<forall>j<?n. w mod 2 ^ 36 \<noteq> (?v + j) mod 2 ^ 36) \<Longrightarrow> translate (memory ?k') (k_cr3 ?k') w = translate (memory k) (k_cr3 k) w"
      "vm_ok (X \<union> set (held ms)) ?k'" "same_frames (X \<union> set (held ms)) (memory k) (memory ?k')"
    using kmprotect_spec [OF inv f refl] by blast+
  have "is_mapped ?k' (?v, fs)"
    unfolding is_mapped_def split
  proof (intro conjI allI impI)
    fix j assume "j < length fs"
    moreover from this m obtain e where "translate (memory k) (k_cr3 k) (?v + j) = Some e" "e AND MMASK_PHYS = fs ! j"
      unfolding is_mapped_def by auto
    ultimately show "\<exists>e. translate (memory ?k') (k_cr3 ?k') (?v + j) = Some e \<and> e AND MMASK_PHYS = fs ! j"
      using s(1) [of j e] protected_frame [OF nx] assms(3) by (metis (no_types))
  qed (use f(1) assms(3) in simp)
  moreover have "is_mapped ?k' (w, gs)" if "(w, gs) \<in> set (as @ bs)" for w gs
  proof -
    have "is_mapped k (w, gs)" using ranges that ms by auto
    then show ?thesis
      by (rule is_mapped_elsewhere [OF _ map_inv_others [OF assms(1) [unfolded ms] that]]) (metis s(2) assms(3))
  qed
  ultimately have "\<forall>r \<in> set ms. is_mapped ?k' r" unfolding ms by auto
  then have "map_inv X ?k' ms" using assms(1) s(3) unfolding map_inv_def kmprotect_fields by blast
  then show ?thesis using same_frames_subset [OF s(4)] by simp
qed

lemma map_inv_unmap:
  assumes "map_inv X k (as @ (vpage addr, fs) # bs)" and "vlen sz = length fs"
  shows "map_inv X (kunmapanon addr sz k) (as @ bs) \<and> same_frames X (memory k) (memory (kunmapanon addr sz k))
    \<and> free_pages (pmem (kunmapanon addr sz k)) = free_pages (pmem k) \<union> set fs"
proof -
  let ?v = "vpage addr" and ?n = "vlen sz" and ?k' = "kunmapanon addr sz k" and ?ms = "as @ (vpage addr, fs) # bs"
  have inv: "vm_ok (X \<union> set (held ?ms)) k" "X \<inter> set (held ?ms) = {}" "distinct (held ?ms)" "set (held ?ms) \<subseteq> all_pages (pmem k)"
    and nx: "nx_mask k \<in> {0, 0x8000000000000000}" and ranges: "\<forall>r \<in> set ?ms. is_mapped k r"
    and sorted: "sorted_wrt (\<lambda>a b. away (fst b) (length (snd b)) (fst a) (length (snd a))) ?ms"
    using assms(1) unfolding map_inv_def by blast+
  have m: "is_mapped k (?v, fs)" using ranges by simp
  have f: "fits ?v ?n" "tables_present k ?v ?n" using is_mapped_present [OF m] m assms(2) by (simp_all add: is_mapped_def)
  have fr: "\<forall>j<?n. fs ! j = the (translate (memory k) (k_cr3 k) (?v + j)) AND MMASK_PHYS"
    using m assms(2) by (fastforce simp: is_mapped_def)
  have img: "(!) fs ` {..<?n} = set fs" using assms(2) by (auto simp: set_conv_nth)
  have d: "distinct fs" "distinct (held (as @ bs))" "set fs \<inter> set (held (as @ bs)) = {}" using inv(3) by auto
  have inj: "inj_on ((!) fs) {..<?n}" using d(1) assms(2) by (auto simp: inj_on_def nth_eq_iff_index_eq)
  have sub: "(!) fs ` {..<?n} \<subseteq> (X \<union> set (held ?ms)) \<inter> all_pages (pmem k)" unfolding img using inv(4) by auto
  have rest: "X \<union> set (held ?ms) - set fs = X \<union> set (held (as @ bs))" using inv(2) d(3) by auto
  have s: "free_pages (pmem ?k') = free_pages (pmem k) \<union> set fs" "vm_ok (X \<union> set (held (as @ bs))) ?k'"
      "\<And>w. (\<forall>j<?n. w mod 2 ^ 36 \<noteq> (?v + j) mod 2 ^ 36) \<Longrightarrow> translate (memory ?k') (k_cr3 ?k') w = translate (memory k) (k_cr3 k) w"
      "same_frames (X \<union> set (held (as @ bs))) (memory k) (memory ?k')" "all_pages (pmem ?k') = all_pages (pmem k)"
    using kunmapanon_spec [OF inv(1) f fr inj sub refl] unfolding img rest by blast+
  have "is_mapped ?k' (w, gs)" if "(w, gs) \<in> set (as @ bs)" for w gs
  proof -
    have "is_mapped k (w, gs)" using ranges that by auto
    then show ?thesis
      by (rule is_mapped_elsewhere [OF _ map_inv_others [OF assms(1) that]]) (metis s(3) assms(2))
  qed
  then have "\<forall>r \<in> set (as @ bs). is_mapped ?k' r" by auto
  moreover have "sorted_wrt (\<lambda>a b. away (fst b) (length (snd b)) (fst a) (length (snd a))) (as @ bs)"
    using sorted by (simp add: sorted_wrt_append)
  moreover have "X \<inter> set (held (as @ bs)) = {}" "set (held (as @ bs)) \<subseteq> all_pages (pmem ?k')" using inv(2,4) s(5) by auto
  ultimately have "map_inv X ?k' (as @ bs)" using s(2) nx d(2) unfolding map_inv_def kunmapanon_fields by blast
  then show ?thesis using same_frames_subset [OF s(4)] s(1) by simp
qed

lemma vm_step_inv:
  assumes "vm_step (k, ms) (k', ms')" and "map_inv X k ms"
  shows "map_inv X k' ms' \<and> same_frames X (memory k) (memory k')"
  using assms(1)
proof cases
  case (map_anon addr sz prot addr')
  then show ?thesis using map_inv_map [OF assms(2)] by simp
next
  case (protect addr fs sz prot)
  then show ?thesis using map_inv_protect [OF assms(2)] by simp
next
  case (unmap sz fs as addr bs)
  then show ?thesis using map_inv_unmap assms(2) by simp
qed

lemma reachable_inv:
  assumes "vm_step\<^sup>*\<^sup>* (k0, []) (k, ms)" and "vm_ok X k0" and "nx_mask k0 \<in> {0, 0x8000000000000000}"
  shows "map_inv X k ms \<and> same_frames X (memory k0) (memory k)"
  using assms(1)
proof (induction rule: rtranclp_induct2)
  case refl
  then show ?case using assms(2,3) by (simp add: map_inv_def same_frames_refl)
next
  case (step k ms k' ms')
  then show ?case using vm_step_inv [OF step.hyps(2)] same_frames_trans by blast
qed

text \<open>C3. Over any sequence of kmapanon, kmprotect and kunmapanon on ranges that do not overlap, no physical page is
  behind two mapped pages, and none that is mapped is free, a page table or in use elsewhere; every page of a mapped range leads to
  the physical page it got when it was mapped, and the pages in use elsewhere keep their contents. (A step of kmapanon
  is taken on a range of one page directory, with enough free pages for it and its page tables.)\<close>

theorem mapped_pages_not_shared:
  assumes "vm_step\<^sup>*\<^sup>* (k0, []) (k, ms)" and "vm_ok X k0" and "nx_mask k0 \<in> {0, 0x8000000000000000}"
  shows "distinct (held ms) \<and> set (held ms) \<inter> (free_pages (pmem k) \<union> tables (memory k) (k_cr3 k) \<union> X) = {}
    \<and> (\<forall>(v, fs) \<in> set ms. \<forall>j<length fs. \<exists>e. translate (memory k) (k_cr3 k) (v + j) = Some e \<and> e AND MMASK_PHYS = fs ! j)
    \<and> vm_ok (X \<union> set (held ms)) k \<and> same_frames X (memory k0) (memory k)"
proof -
  have inv: "map_inv X k ms" and same: "same_frames X (memory k0) (memory k)" using reachable_inv [OF assms] by blast+
  have ok: "vm_ok (X \<union> set (held ms)) k" "X \<inter> set (held ms) = {}" "distinct (held ms)" "\<forall>r \<in> set ms. is_mapped k r"
    using inv unfolding map_inv_def by blast+
  then have "set (held ms) \<inter> (free_pages (pmem k) \<union> tables (memory k) (k_cr3 k) \<union> X) = {}" unfolding vm_ok_def by blast
  then show ?thesis using ok same unfolding is_mapped_def by fastforce
qed

lemma mapped_pages_not_shared_witness:
  "\<exists>k ms. vm_step\<^sup>*\<^sup>* (sample_kernel, []) (k, ms) \<and> length (held ms) = 2 \<and> distinct (held ms)"
proof -
  obtain a k where m: "kmapanon 0xffffc00000000000 0x2000 KPROT_WRITE sample_kernel = (a, k)" by force
  let ?ms = "[(vpage 0xffffc00000000000, backing k (vpage 0xffffc00000000000) (vlen 0x2000))]"
  have "vm_step (sample_kernel, []) (k, ?ms)"
    using vm_step.map_anon [OF sample_range sample_room _ m, of "[]"] by simp
  moreover have l: "length (backing k (vpage 0xffffc00000000000) (vlen 0x2000)) = vlen 0x2000" by (simp add: backing_def)
  then have "vm_step (k, ?ms) (kmprotect 0xffffc00000000000 0x2000 KPROT_READ k, ?ms)"
    by (intro vm_step.protect [where fs = "backing k (vpage 0xffffc00000000000) (vlen 0x2000)"]) simp_all
  ultimately have r: "vm_step\<^sup>*\<^sup>* (sample_kernel, []) (kmprotect 0xffffc00000000000 0x2000 KPROT_READ k, ?ms)" by simp
  have "nx_mask sample_kernel \<in> {0, 0x8000000000000000}" by (simp add: sample_kernel_def)
  from mapped_pages_not_shared [OF r sample_kernel_ok this] have "distinct (held ?ms)" by blast
  moreover have "length (held ?ms) = 2" using l by (simp add: vlen_def)
  ultimately show ?thesis using r by blast
qed

end
