(* ===== verification/MfsPages.thy ===== *)
theory MfsPages
  imports MkVolume
begin

text \<open>
  The volume of mkvolume.c as pages: the pages of different inodes do not overlap, and a page that has not
  been given out is blank.
\<close>

section \<open>Pages\<close>

text \<open>Inodes whose pages do not wrap around; the inodes at multiples of 32768 are the bitmaps.\<close>

definition plain :: "u64 \<Rightarrow> bool" where
  "plain i \<longleftrightarrow> unat i < 2 ^ 40 \<and> unat i mod 32768 \<noteq> 0"

definition same_page :: "u64 \<Rightarrow> mem \<Rightarrow> mem \<Rightarrow> bool" where
  "same_page i m m' \<longleftrightarrow> (\<forall>k<4096. m' (inode_page i + of_nat k) = m (inode_page i + of_nat k))"

definition word :: "mem \<Rightarrow> u64 \<Rightarrow> nat \<Rightarrow> u64" where
  "word m i k = load64 m (inode_page i + of_nat (8 * k))"

lemma same_page_refl [simp]: "same_page i m m"
  by (simp add: same_page_def)

lemma same_page_trans: "same_page i m m' \<Longrightarrow> same_page i m' m'' \<Longrightarrow> same_page i m m''"
  by (simp add: same_page_def)

lemma unat_inode_page:
  assumes "unat i < 2 ^ 40"
  shows "unat (inode_page i) = 4096 * (64 + unat i)"
proof -
  have "inode_page i = of_nat (4096 * (64 + unat i))"
    by (simp add: inode_page_def MFS_RESERVED_PAGES_def MFS_PAGE_SIZE_def algebra_simps)
  then show ?thesis using assms by (simp add: unat_of_nat_u64 del: of_nat_mult of_nat_add)
qed

lemma unat_page_byte: "unat i < 2 ^ 40 \<Longrightarrow> k < 4096 \<Longrightarrow> unat (inode_page i + of_nat k) = 4096 * (64 + unat i) + k"
  using unat_inode_page [of i] by (subst unat_add_nat) simp_all

lemma page_no_unique:
  assumes "4096 * a + k = 4096 * b + (l :: nat)" and "k < 4096" and "l < 4096"
  shows "a = b"
proof -
  have "(4096 * a + k) div 4096 = a" "(4096 * b + l) div 4096 = b" using assms(2,3) by simp_all
  then show ?thesis using assms(1) by simp
qed

lemma other_page:
  assumes "same_outside (inode_page i + of_nat off) n m m'" and "off + n \<le> 4096" and "i \<noteq> j" and "unat i < 2 ^ 40" and "unat j < 2 ^ 40"
  shows "same_page j m m'"
  unfolding same_page_def
proof (intro allI impI)
  fix k :: nat assume k: "k < 4096"
  have "\<not> in_range (inode_page i + of_nat off) n (inode_page j + of_nat k)"
  proof
    assume "in_range (inode_page i + of_nat off) n (inode_page j + of_nat k)"
    then obtain l where l: "l < n" "inode_page j + of_nat k = inode_page i + of_nat (off + l)"
      by (auto elim!: in_rangeE simp: add.assoc)
    have "unat (inode_page j + of_nat k) = unat (inode_page i + of_nat (off + l))" using l(2) by (rule arg_cong)
    then have "4096 * (64 + unat j) + k = 4096 * (64 + unat i) + (off + l)"
      using unat_page_byte [OF assms(5) k] unat_page_byte [OF assms(4), of "off + l"] l(1) assms(2) by simp
    moreover have "off + l < 4096" using l(1) assms(2) by linarith
    ultimately have "64 + unat j = 64 + unat i" using page_no_unique [OF _ k] by blast
    then have "unat j = unat i" by simp
    then show False using assms(3) by (simp add: word_unat_eq_iff)
  qed
  then show "m' (inode_page j + of_nat k) = m (inode_page j + of_nat k)" using assms(1) by (simp add: same_outside_def)
qed

lemma word_same:
  assumes "same_page i m m'" and "k < 512"
  shows "word m' i k = word m i k"
  unfolding word_def
proof (rule load_cong)
  fix j :: nat assume "j < 8"
  then have k: "8 * k + j < 4096" using assms(2) by simp
  have "inode_page i + of_nat (8 * k) + of_nat j = inode_page i + of_nat (8 * k + j)" by simp
  then show "m' (inode_page i + of_nat (8 * k) + of_nat j) = m (inode_page i + of_nat (8 * k) + of_nat j)"
    using assms(1) k unfolding same_page_def by (simp only:)
qed

lemma word_store:
  assumes "k < 512" and "l < 512"
  shows "word (store64 m (inode_page i + of_nat (8 * k)) v) i l = (if k = l then v else word m i l)"
proof -
  have "k \<noteq> l \<Longrightarrow> load64 (store64 m (inode_page i + of_nat (8 * k)) v) (inode_page i + of_nat (8 * l)) = load64 m (inode_page i + of_nat (8 * l))"
    using assms by (intro load_store_element) simp_all
  then show ?thesis by (simp add: word_def del: of_nat_mult)
qed

lemma store_same_outside: "same_outside a n m (store n m a v)"
  by (simp add: same_outside_def store_outside)

lemma store_other_page:
  assumes "k < 512" and "i \<noteq> j" and "unat i < 2 ^ 40" and "unat j < 2 ^ 40"
  shows "same_page j m (store64 m (inode_page i + of_nat (8 * k)) v)"
  using assms by (intro other_page [where off = "8 * k" and n = 8 and i = i]) (simp_all add: store_same_outside)

text \<open>The reserved pages in front of the pages of inodes.\<close>

definition low_same :: "mem \<Rightarrow> mem \<Rightarrow> bool" where
  "low_same m m' \<longleftrightarrow> (\<forall>x. unat x < 64 * 4096 \<longrightarrow> m' x = m x)"

lemma low_same_refl [simp]: "low_same m m"
  by (simp add: low_same_def)

lemma low_same_trans: "low_same m m' \<Longrightarrow> low_same m' m'' \<Longrightarrow> low_same m m''"
  by (simp add: low_same_def)

lemma other_low:
  assumes "same_outside (inode_page i + of_nat off) n m m'" and "off + n \<le> 4096" and "unat i < 2 ^ 40"
  shows "low_same m m'"
  unfolding low_same_def
proof (intro allI impI)
  fix x :: u64 assume x: "unat x < 64 * 4096"
  have "\<not> in_range (inode_page i + of_nat off) n x"
  proof
    assume "in_range (inode_page i + of_nat off) n x"
    then obtain l where l: "l < n" "x = inode_page i + of_nat (off + l)" by (auto elim!: in_rangeE simp: add.assoc)
    then have "unat x = 4096 * (64 + unat i) + (off + l)" using unat_page_byte [OF assms(3), of "off + l"] assms(2) by simp
    then show False using x by simp
  qed
  then show "m' x = m x" using assms(1) by (simp add: same_outside_def)
qed

lemma store_low:
  assumes "k < 512" and "unat i < 2 ^ 40"
  shows "low_same m (store64 m (inode_page i + of_nat (8 * k)) v)"
  using assms by (intro other_low [where off = "8 * k" and n = 8 and i = i]) (simp_all add: store_same_outside)

section \<open>Allocation\<close>

definition blank :: "mem \<Rightarrow> u64 \<Rightarrow> bool" where
  "blank m i \<longleftrightarrow> (\<forall>k<4096. m (inode_page i + of_nat k) = 0)"

definition fresh :: "MfsVolume \<Rightarrow> bool" where
  "fresh v \<longleftrightarrow> (\<forall>i. plain i \<longrightarrow> next_inode v < i \<longrightarrow> blank (v_data v) i)"

lemma blank_same: "same_page i m m' \<Longrightarrow> blank m i \<Longrightarrow> blank m' i"
  by (simp add: same_page_def blank_def)

lemma blank_word:
  assumes "blank m i" and "k < 512"
  shows "word m i k = 0"
proof -
  have "m (inode_page i + of_nat (8 * k) + of_nat j) = 0" if "j < 8" for j
  proof -
    have k: "8 * k + j < 4096" using that assms(2) by simp
    have "inode_page i + of_nat (8 * k) + of_nat j = inode_page i + of_nat (8 * k + j)" by simp
    then show ?thesis using assms(1) k unfolding blank_def by (simp only:)
  qed
  then show ?thesis unfolding word_def load_def by (intro word_le_zeros) auto
qed

lemma unat_mod_bitmap: "unat (n mod MFS_BITMAP_SIZE) = unat n mod 32768"
  by (simp add: MFS_BITMAP_SIZE_def unat_mod)

lemma alloc_page_spec:
  assumes "alloc_page v = (i, v')" and "fresh v" and "unat (next_inode v) + 2 < 2 ^ 40"
  shows "plain i" and "next_inode v < i" and "next_inode v' = i" and "unat i \<le> unat (next_inode v) + 2" and "fresh v'"
    and "plain j \<Longrightarrow> same_page j (v_data v) (v_data v')" and "v_root v' = v_root v" and "v_size v' = v_size v"
    and "low_same (v_data v) (v_data v')"
proof -
  define n where "n = next_inode v + 1"
  have n: "unat n = unat (next_inode v) + 1" using assms(3) unat_add_nat [of "next_inode v" 1] by (simp add: n_def)
  have i: "i = (if n mod MFS_BITMAP_SIZE = 0 then n + 1 else n)"
    using assms(1) unfolding alloc_page_def Let_def n_def [symmetric] by (simp only: prod.inject)
  have z: "n mod MFS_BITMAP_SIZE = 0 \<longleftrightarrow> unat n mod 32768 = 0"
    unfolding word_unat_eq_iff unat_mod_bitmap by simp
  have n1: "unat (n + 1) = unat n + 1" using assms(3) n unat_add_nat [of n 1] by simp
  then have ui: "unat i = (if unat n mod 32768 = 0 then unat n + 1 else unat n)" by (simp add: i z)
  have "(unat n + 1) mod 32768 \<noteq> 0" if "unat n mod 32768 = 0" using that by (simp add: mod_Suc)
  then have "unat i mod 32768 \<noteq> 0" unfolding ui by (auto split: if_split)
  moreover have bd: "unat (next_inode v) < unat i" "unat i \<le> unat (next_inode v) + 2" unfolding ui n by simp_all
  ultimately show p: "plain i" using assms(3) unfolding plain_def by linarith
  show less: "next_inode v < i" using bd(1) by (simp only: word_less_nat_alt)
  show "unat i \<le> unat (next_inode v) + 2" by (rule bd(2))
  define b where "b = i mod MFS_BITMAP_SIZE"
  define bitmap where "bitmap = i div MFS_BITMAP_SIZE * MFS_BITMAP_SIZE"
  have v': "v' = v\<lparr>next_inode := i, v_data := (v_data v)(inode_page bitmap + b div 8 := v_data v (inode_page bitmap + b div 8) OR push_bit (unat (b mod 8)) 1)\<rparr>"
    using assms(1) unfolding alloc_page_def Let_def n_def [symmetric] i [symmetric] b_def bitmap_def by (simp only: prod.inject)
  then show "next_inode v' = i" "v_root v' = v_root v" "v_size v' = v_size v" by simp_all
  have ub: "unat (b div 8) < 4096" using unat_mod_bitmap [of i] by (simp add: b_def unat_div)
  have "unat (i div MFS_BITMAP_SIZE) = unat i div 32768" by (simp add: MFS_BITMAP_SIZE_def unat_div)
  then have um: "unat bitmap = unat i div 32768 * 32768"
    using p unfolding bitmap_def MFS_BITMAP_SIZE_def by (subst unat_mult_lem [THEN iffD1]) (auto simp: plain_def MFS_BITMAP_SIZE_def)
  have out: "same_outside (inode_page bitmap + of_nat (unat (b div 8))) 1 (v_data v) (v_data v')"
    by (simp add: v' same_outside_def in_range_def)
  have ub1: "unat (b div 8) + 1 \<le> 4096" using ub by simp
  have ub2: "unat bitmap < 2 ^ 40" using div_times_less_eq_dividend [of "unat i" 32768] p unfolding um plain_def by linarith
  show "low_same (v_data v) (v_data v')" by (rule other_low [OF out ub1 ub2])
  have same: "same_page j (v_data v) (v_data v')" if "plain j" for j
  proof (rule other_page [OF out ub1 _ ub2])
    show "bitmap \<noteq> j" using that um by (auto simp: plain_def)
    show "unat j < 2 ^ 40" using that by (simp add: plain_def)
  qed
  then show "plain j \<Longrightarrow> same_page j (v_data v) (v_data v')" .
  show "fresh v'"
    using assms(2) same blank_same less order_less_trans unfolding fresh_def v' by fastforce
qed

end
