(* ===== verification/MfsFiles.thy ===== *)
theory MfsFiles
  imports MfsPages
begin

text \<open>
  Files of a volume as sequences of bytes: what \<open>file_write\<close> and \<open>file_read\<close> of mkvolume.c do to them.
\<close>

section \<open>The bytes of a file\<close>

text \<open>Page \<open>j\<close> of the file at inode \<open>F\<close>: words 7 to 22 of its page, and the words of the page that word 23 leads to.\<close>

definition data_ptr :: "mem \<Rightarrow> u64 \<Rightarrow> nat \<Rightarrow> u64" where
  "data_ptr m F j = (if j < 16 then word m F (7 + j) else if word m F 23 = 0 then 0 else word m (word m F 23) (j - 16))"

definition content :: "mem \<Rightarrow> u64 \<Rightarrow> u8 list" where
  "content m F = map (\<lambda>i. m (inode_page (data_ptr m F (i div 4096)) + of_nat (i mod 4096))) [0..<unat (word m F 2)]"

definition pages_for :: "nat \<Rightarrow> nat" where
  "pages_for n = (n + 4095) div 4096"

definition file_ok :: "MfsVolume \<Rightarrow> u64 \<Rightarrow> nat \<Rightarrow> bool" where
  "file_ok v F n \<longleftrightarrow> n \<le> 528 \<and> plain F \<and> F \<le> next_inode v
     \<and> (\<forall>j<n. plain (data_ptr (v_data v) F j) \<and> data_ptr (v_data v) F j \<le> next_inode v
          \<and> data_ptr (v_data v) F j \<noteq> F \<and> data_ptr (v_data v) F j \<noteq> word (v_data v) F 23)
     \<and> inj_on (data_ptr (v_data v) F) {..<n}
     \<and> (\<forall>j. n \<le> j \<longrightarrow> j < 528 \<longrightarrow> data_ptr (v_data v) F j = 0)
     \<and> (if 16 < n then plain (word (v_data v) F 23) \<and> word (v_data v) F 23 \<le> next_inode v \<and> word (v_data v) F 23 \<noteq> F
        else word (v_data v) F 23 = 0)"

text \<open>The inodes of the pages that belong to a file.\<close>

definition file_pages :: "mem \<Rightarrow> u64 \<Rightarrow> nat \<Rightarrow> u64 set" where
  "file_pages m F n = {F, word m F 23} \<union> data_ptr m F ` {..<n}"

text \<open>The inodes that the pages of a file take, but for its own: each data page and the page of pointers takes one, and maybe a bitmap before it.\<close>

definition pages_cost :: "nat \<Rightarrow> nat" where
  "pages_cost n = 2 * n + (if 16 < n then 2 else 0)"

lemma pages_cost_0 [simp]: "pages_cost 0 = 0"
  by (simp add: pages_cost_def)

lemma pages_cost_mono: "m \<le> n \<Longrightarrow> pages_cost m \<le> pages_cost n"
  by (auto simp: pages_cost_def)

lemma pages_cost_Suc: "pages_cost (Suc n) - pages_cost n = (if n = 16 then 4 else 2)"
  by (auto simp: pages_cost_def)

lemma plain_nonzero: "plain i \<Longrightarrow> i \<noteq> 0"
  by (auto simp: plain_def)

lemma plain_less: "plain i \<Longrightarrow> unat i < 2 ^ 40"
  by (simp add: plain_def)

section \<open>Pointers\<close>

text \<open>What an operation of the tool leaves alone: the pages of other inodes, and the pages that are still to be given out.\<close>

definition changes :: "nat \<Rightarrow> u64 set \<Rightarrow> MfsVolume \<Rightarrow> MfsVolume \<Rightarrow> bool" where
  "changes k X v v' \<longleftrightarrow> fresh v' \<and> next_inode v \<le> next_inode v' \<and> unat (next_inode v') \<le> unat (next_inode v) + k
     \<and> v_root v' = v_root v \<and> v_size v' = v_size v
     \<and> (\<forall>i. plain i \<longrightarrow> i \<le> next_inode v \<longrightarrow> i \<notin> X \<longrightarrow> same_page i (v_data v) (v_data v'))"

text \<open>An operation does not write the reserved pages either.\<close>

definition grows :: "nat \<Rightarrow> u64 set \<Rightarrow> MfsVolume \<Rightarrow> MfsVolume \<Rightarrow> bool" where
  "grows k X v v' \<longleftrightarrow> changes k X v v' \<and> low_same (v_data v) (v_data v')"

lemma grows_refl: "fresh v \<Longrightarrow> grows k X v v"
  by (simp add: grows_def changes_def)

lemma grows_trans:
  assumes "grows k X v v'" and "grows l Y v' v''" and "Y \<subseteq> Z \<union> {i. next_inode v < i}" and "X \<subseteq> Z"
  shows "grows (k + l) Z v v''"
  unfolding grows_def changes_def
proof (intro conjI allI impI)
  show "low_same (v_data v) (v_data v'')" using assms(1,2) low_same_trans unfolding grows_def by blast
  show "fresh v''" "v_root v'' = v_root v" "v_size v'' = v_size v" using assms(1,2) by (simp_all add: grows_def changes_def)
  show "next_inode v \<le> next_inode v''" using assms(1,2) by (auto simp: grows_def changes_def intro: order_trans)
  show "unat (next_inode v'') \<le> unat (next_inode v) + (k + l)" using assms(1,2) by (simp add: grows_def changes_def)
  fix i assume i: "plain i" "i \<le> next_inode v" "i \<notin> Z"
  then have "i \<notin> Y" "i \<notin> X" using assms(3,4) by auto
  moreover have "i \<le> next_inode v'" using i(2) assms(1) by (auto simp: grows_def changes_def intro: order_trans)
  ultimately show "same_page i (v_data v) (v_data v'')"
    using assms(1,2) i(1,2) same_page_trans unfolding grows_def changes_def by blast
qed

lemma grows_mono: "grows k X v v' \<Longrightarrow> k \<le> l \<Longrightarrow> X \<subseteq> Y \<Longrightarrow> grows l Y v v'"
  unfolding grows_def changes_def by (auto intro: le_trans)

text \<open>A pointer in word \<open>k\<close> of a page: it is there, or a new page is put there.\<close>

lemma pointer_or_alloc_spec:
  assumes "pointer_or_alloc (inode_page A + of_nat (8 * k)) v = (i, v')" and "k < 512" and "plain A" and "A \<le> next_inode v"
    and "fresh v" and "unat (next_inode v) + 2 < 2 ^ 40"
  shows "grows 2 {A} v v'" and "word (v_data v') A k = i" and "l < 512 \<Longrightarrow> l \<noteq> k \<Longrightarrow> word (v_data v') A l = word (v_data v) A l"
    and "word (v_data v) A k \<noteq> 0 \<Longrightarrow> v' = v"
    and "word (v_data v) A k = 0 \<Longrightarrow> plain i \<and> next_inode v < i \<and> i \<le> next_inode v' \<and> blank (v_data v') i"
proof -
  have "grows 2 {A} v v' \<and> word (v_data v') A k = i \<and> (\<forall>l<512. l \<noteq> k \<longrightarrow> word (v_data v') A l = word (v_data v) A l)
      \<and> (word (v_data v) A k \<noteq> 0 \<longrightarrow> v' = v)
      \<and> (word (v_data v) A k = 0 \<longrightarrow> plain i \<and> next_inode v < i \<and> i \<le> next_inode v' \<and> blank (v_data v') i)"
  proof (cases "word (v_data v) A k = 0")
    case False
    then have "v' = v" "i = word (v_data v) A k" using assms(1) by (auto simp: pointer_or_alloc_def word_def simp del: of_nat_mult)
    then show ?thesis using False grows_refl [OF assms(5)] by simp
  next
    case True
    obtain v1 where a: "alloc_page v = (i, v1)" and v': "v' = v1\<lparr>v_data := store64 (v_data v1) (inode_page A + of_nat (8 * k)) i\<rparr>"
      using assms(1) True by (auto simp: pointer_or_alloc_def word_def split: prod.splits simp del: of_nat_mult)
    note sp = alloc_page_spec [OF a assms(5,6)]
    have ne: "i \<noteq> A" using sp(2) assms(4) by auto
    have other: "same_page j (v_data v1) (v_data v')" if "plain j" "j \<noteq> A" for j
      using that assms(3) by (simp add: v' del: of_nat_mult) (intro store_other_page [OF assms(2)]; simp add: plain_def)
    have "fresh v'"
      unfolding fresh_def
    proof (intro allI impI)
      fix j assume j: "plain j" "next_inode v' < j"
      then have "next_inode v1 < j" by (simp add: v')
      then have "blank (v_data v1) j" using sp(5) j(1) by (simp add: fresh_def)
      moreover have "j \<noteq> A" using \<open>next_inode v1 < j\<close> sp(2,3) assms(4) by auto
      ultimately show "blank (v_data v') j" using other [OF j(1)] blank_same by blast
    qed
    moreover have "same_page j (v_data v) (v_data v')" if "plain j" "j \<noteq> A" for j
      using sp(6) [OF that(1)] other [OF that] same_page_trans by blast
    moreover have "low_same (v_data v) (v_data v')"
      using low_same_trans [OF sp(9) store_low [OF assms(2) plain_less [OF assms(3)]]] by (simp add: v' del: of_nat_mult)
    ultimately have "grows 2 {A} v v'"
      using sp by (simp add: grows_def changes_def v' less_imp_le)
    moreover have "word (v_data v') A l = (if k = l then i else word (v_data v) A l)" if "l < 512" for l
      using word_store [OF assms(2) that, of "v_data v1" A i] word_same [OF sp(6) [OF assms(3)] that] by (simp add: v' del: of_nat_mult)
    moreover have "blank (v_data v') i"
    proof -
      have "blank (v_data v) i" using assms(5) sp(1,2) by (simp add: fresh_def)
      then show ?thesis using sp(6) [OF sp(1)] other [OF sp(1) ne] blank_same by blast
    qed
    ultimately show ?thesis using True sp(1-3) assms(2) by (auto simp: v')
  qed
  then show "grows 2 {A} v v'" and "word (v_data v') A k = i" and "l < 512 \<Longrightarrow> l \<noteq> k \<Longrightarrow> word (v_data v') A l = word (v_data v) A l"
    and "word (v_data v) A k \<noteq> 0 \<Longrightarrow> v' = v"
    and "word (v_data v) A k = 0 \<Longrightarrow> plain i \<and> next_inode v < i \<and> i \<le> next_inode v' \<and> blank (v_data v') i" by blast+
qed

text \<open>The page of a file at an index: for an index below the number of pages nothing changes, the index behind them gets a new page.\<close>

lemma ptr_here:
  assumes "file_ok v F n" and "j < n" and "unat index = j"
  shows "ptr_from_data_index (inode_page F) index v = Some (inode_page (data_ptr (v_data v) F j), v)"
proof -
  have p: "plain (data_ptr (v_data v) F j)" and n: "n \<le> 528" and x: "16 < n \<Longrightarrow> plain (word (v_data v) F 23)"
    using assms(1,2) by (auto simp: file_ok_def)
  have ix: "of_nat j = index" by (simp add: assms(3) [symmetric])
  have a: "file_data_at (inode_page F) index = inode_page F + of_nat (8 * (7 + j))"
    "file_idata_at (inode_page F) = inode_page F + of_nat (8 * 23)" for F
    by (simp_all add: file_data_at_def file_idata_at_def assms(3) [symmetric] algebra_simps)
  show ?thesis
  proof (cases "j < 16")
    case True
    then have "index < 16" using assms(3) by (simp add: word_less_nat_alt)
    moreover have "pointer_or_alloc (file_data_at (inode_page F) index) v = (data_ptr (v_data v) F j, v)"
      using True plain_nonzero [OF p] by (simp add: pointer_or_alloc_def a data_ptr_def word_def del: of_nat_mult of_nat_add)
    ultimately show ?thesis by (simp add: ptr_from_data_index_def)
  next
    case False
    then have "\<not> index < 16" "index < MFS_IDATA_POINTERS + 16"
      using assms(2,3) n by (simp_all add: word_less_nat_alt MFS_IDATA_POINTERS_def)
    moreover have "pointer_or_alloc (file_idata_at (inode_page F)) v = (word (v_data v) F 23, v)"
      using False plain_nonzero [OF x] assms(2) by (simp add: pointer_or_alloc_def a word_def del: of_nat_mult)
    moreover have i: "inodes_at q (index - 16) = q + of_nat (8 * (j - 16))" for q
      using False ix by (simp add: inodes_at_def of_nat_diff)
    have "pointer_or_alloc (inodes_at (inode_page (word (v_data v) F 23)) (index - 16)) v = (data_ptr (v_data v) F j, v)"
      using False plain_nonzero [OF p] plain_nonzero [OF x] assms(2)
      by (simp add: pointer_or_alloc_def i data_ptr_def word_def del: of_nat_mult)
    ultimately show ?thesis by (simp add: ptr_from_data_index_def)
  qed
qed

lemma file_ok_extend:
  assumes ok: "file_ok v F n" and n: "n < 528" and p: "\<And>j. j < 528 \<Longrightarrow> data_ptr (v_data v') F j = (if j = n then i else data_ptr (v_data v) F j)"
    and i: "plain i" "next_inode v < i" "i \<le> next_inode v'" and le: "next_inode v \<le> next_inode v'" and x: "x = word (v_data v') F 23"
    and x16: "16 \<le> n \<Longrightarrow> plain x \<and> x \<le> next_inode v' \<and> x \<noteq> F \<and> x \<noteq> i \<and> (x = word (v_data v) F 23 \<or> next_inode v < x)"
    and x0: "n < 16 \<Longrightarrow> x = 0"
  shows "file_ok v' F (Suc n)"
proof -
  let ?d = "data_ptr (v_data v) F" and ?e = "data_ptr (v_data v') F"
  have old: "plain (?d j)" "?d j \<le> next_inode v" "?d j \<noteq> F" "?d j \<noteq> word (v_data v) F 23" "?e j = ?d j" if "j < n" for j
    using ok n that p by (auto simp: file_ok_def)
  have F: "plain F" "F \<le> next_inode v" using ok by (auto simp: file_ok_def)
  have new: "?e n = i" using p n by simp
  have ne: "?d j \<noteq> i" if "j < n" for j using old(2) [OF that] i(2) by auto
  have nx: "?d j \<noteq> x" if "j < n" for j
    using old(1,2,4) [OF that] x0 x16 plain_nonzero by (cases "n < 16") (auto dest: not_le_imp_less)
  have inj: "inj_on ?d {..<n}" using ok by (simp add: file_ok_def)
  have "inj_on ?e {..<n}" using inj old(5) by (simp add: inj_on_def)
  moreover have "?e n \<notin> ?e ` {..<n}" using ne old(5) new by (metis imageE lessThan_iff)
  ultimately have "inj_on ?e {..<Suc n}" by (simp add: lessThan_Suc)
  moreover have "\<forall>j<Suc n. plain (?e j) \<and> ?e j \<le> next_inode v' \<and> ?e j \<noteq> F \<and> ?e j \<noteq> x"
  proof (intro allI impI)
    fix j assume "j < Suc n"
    then consider "j < n" | "j = n" by linarith
    then show "plain (?e j) \<and> ?e j \<le> next_inode v' \<and> ?e j \<noteq> F \<and> ?e j \<noteq> x"
    proof cases
      case 1
      then show ?thesis using old [OF 1] nx [OF 1] le by auto
    next
      case 2
      have "i \<noteq> x" using x0 x16 plain_nonzero [OF i(1)] by (cases "n < 16") auto
      then show ?thesis using 2 new i F(2) by auto
    qed
  qed
  moreover have "\<forall>j. Suc n \<le> j \<longrightarrow> j < 528 \<longrightarrow> ?e j = 0" using ok p by (auto simp: file_ok_def)
  moreover have "if 16 < Suc n then plain x \<and> x \<le> next_inode v' \<and> x \<noteq> F else x = 0" using x0 x16 by simp
  ultimately show ?thesis using F le n by (auto simp: file_ok_def x)
qed

lemma ptr_new:
  assumes ok: "file_ok v F n" and n: "n < 528" and index: "unat index = n" and fr: "fresh v" and room: "unat (next_inode v) + 4 < 2 ^ 40"
  obtains v' i where "ptr_from_data_index (inode_page F) index v = Some (inode_page i, v')" and "data_ptr (v_data v') F n = i"
    and "file_ok v' F (Suc n)" and "grows (pages_cost (Suc n) - pages_cost n) {F, word (v_data v) F 23} v v'"
    and "\<And>j. j < n \<Longrightarrow> data_ptr (v_data v') F j = data_ptr (v_data v) F j"
    and "word (v_data v') F 2 = word (v_data v) F 2" and "next_inode v < i" and "plain i"
    and "word (v_data v') F 23 = word (v_data v) F 23 \<or> next_inode v < word (v_data v') F 23"
proof -
  have F: "plain F" "F \<le> next_inode v" and z: "data_ptr (v_data v) F n = 0" and x: "16 < n \<Longrightarrow> plain (word (v_data v) F 23) \<and> word (v_data v) F 23 \<le> next_inode v \<and> word (v_data v) F 23 \<noteq> F"
    and x0: "\<not> 16 < n \<Longrightarrow> word (v_data v) F 23 = 0"
    using ok n by (auto simp: file_ok_def)
  have ix: "of_nat n = index" by (simp add: index [symmetric])
  show ?thesis
  proof (cases "n < 16")
    case True
    have a: "file_data_at (inode_page F) index = inode_page F + of_nat (8 * (7 + n))"
      by (simp add: file_data_at_def ix [symmetric] algebra_simps)
    obtain i v' where r: "pointer_or_alloc (inode_page F + of_nat (8 * (7 + n))) v = (i, v')" by force
    have k: "7 + n < 512" using True by simp
    note s = pointer_or_alloc_spec [OF r k F fr]
    have room2: "unat (next_inode v) + 2 < 2 ^ 40" using room by simp
    note s = s [OF room2]
    have w0: "word (v_data v) F (7 + n) = 0" using z True by (simp add: data_ptr_def)
    have x1: "word (v_data v') F 23 = 0" using s(3) [of 23] x0 True by simp
    have p: "data_ptr (v_data v') F j = (if j = n then i else data_ptr (v_data v) F j)" if "j < 528" for j
      using s(2) s(3) [of "7 + j"] x0 x1 True by (simp add: data_ptr_def)
    have "index < 16" using True index by (simp add: word_less_nat_alt)
    then have "ptr_from_data_index (inode_page F) index v = Some (inode_page i, v')"
      unfolding ptr_from_data_index_def a r by simp
    moreover have "file_ok v' F (Suc n)"
      by (rule file_ok_extend [OF ok n p _ _ _ _ refl]) (use s(1,5) w0 x1 True in \<open>auto simp: grows_def changes_def\<close>)
    moreover have "grows (pages_cost (Suc n) - pages_cost n) {F, word (v_data v) F 23} v v'"
      using s(1) by (rule grows_mono) (auto simp: pages_cost_Suc)
    ultimately show ?thesis using p n s(3) [of 2] s(5) w0 x0 x1 True by (intro that [of i v']) auto
  next
    case False
    have a: "file_idata_at (inode_page F) = inode_page F + of_nat (8 * 23)" by (simp add: file_idata_at_def)
    obtain x v1 where r1: "pointer_or_alloc (inode_page F + of_nat (8 * 23)) v = (x, v1)" by force
    have room2: "unat (next_inode v) + 2 < 2 ^ 40" using room by simp
    note s1 = pointer_or_alloc_spec [OF r1 _ F fr room2]
    have wx: "word (v_data v1) F 23 = x" using s1(2) by simp
    have px: "plain x" "x \<le> next_inode v1" "x \<noteq> F" "x = word (v_data v) F 23 \<or> next_inode v < x"
      using s1(4,5) wx F x x0 by (cases "16 < n"; force dest: plain_nonzero)+
    have e1: "data_ptr (v_data v1) F j = data_ptr (v_data v) F j" if "j < 528" for j
    proof (cases "16 < n")
      case True
      then show ?thesis using s1(4) x plain_nonzero by auto
    next
      case False
      then have b: "blank (v_data v1) x" using s1(5) x0 by simp
      have "data_ptr (v_data v) F j = 0" if "16 \<le> j" using that x0 False by (simp add: data_ptr_def)
      then show ?thesis using s1(3) [of "7 + j"] blank_word [OF b, of "j - 16"] wx that by (auto simp: data_ptr_def)
    qed
    have fr1: "fresh v1" and nx1: "unat (next_inode v1) + 2 < 2 ^ 40" using s1(1) room by (auto simp: grows_def changes_def)
    obtain i v' where r: "pointer_or_alloc (inode_page x + of_nat (8 * (n - 16))) v1 = (i, v')" by force
    have k: "n - 16 < 512" using n by simp
    note s = pointer_or_alloc_spec [OF r k px(1,2) fr1 nx1]
    have w0: "word (v_data v1) x (n - 16) = 0" using e1 [OF n] z wx False plain_nonzero [OF px(1)] by (simp add: data_ptr_def)
    have F1: "word (v_data v') F l = word (v_data v1) F l" if "l < 512" for l
      using s(1) F px(3) s1(1) that by (intro word_same) (auto simp: grows_def changes_def intro: order_trans)
    have p: "data_ptr (v_data v') F j = (if j = n then i else data_ptr (v_data v) F j)" if j: "j < 528" for j
      using e1 [OF j] F1 [of "7 + j"] F1 [of 23] s(2) s(3) [of "j - 16"] wx False plain_nonzero [OF px(1)] j
      by (auto simp: data_ptr_def split: if_splits)
    have "\<not> index < 16" "index < MFS_IDATA_POINTERS + 16" using False index n by (simp_all add: word_less_nat_alt MFS_IDATA_POINTERS_def)
    moreover have "inodes_at (inode_page x) (index - 16) = inode_page x + of_nat (8 * (n - 16))"
      using False by (simp add: inodes_at_def of_nat_diff ix)
    ultimately have "ptr_from_data_index (inode_page F) index v = Some (inode_page i, v')"
      unfolding ptr_from_data_index_def a r1 using r by simp
    moreover have "file_ok v' F (Suc n)"
      by (rule file_ok_extend [OF ok n p _ _ _ _ refl])
        (use s(1,5) s1(1) w0 px F1 [of 23] wx False in \<open>auto simp: grows_def changes_def intro: order_trans le_less_trans\<close>)
    moreover have "grows (pages_cost (Suc n) - pages_cost n) {F, word (v_data v) F 23} v v'"
    proof (cases "n = 16")
      case True
      have "grows (2 + 2) {F, word (v_data v) F 23} v v'" using s1(1) s(1) by (rule grows_trans) (use px(4) in auto)
      then show ?thesis using True by (simp add: pages_cost_def)
    next
      case n16: False
      then have "word (v_data v) F 23 \<noteq> 0" using x False plain_nonzero by simp
      then have "v1 = v" using s1(4) by simp
      then show ?thesis using s(1) wx n16 by (auto simp: pages_cost_Suc intro: grows_mono)
    qed
    ultimately show ?thesis using p n F1 [of 2] F1 [of 23] s1(3) [of 2] s(5) s1(1) w0 wx px(4)
      by (intro that [of i v']) (auto simp: grows_def changes_def intro: le_less_trans)
  qed
qed

section \<open>Writing\<close>

lemma poke_bytes_at:
  assumes "length bs \<le> 2 ^ 64"
  shows "poke_bytes a bs m x = (if unat (x - a) < length bs then bs ! unat (x - a) else m x)"
proof -
  have "n \<le> length bs \<Longrightarrow> for_n n (\<lambda>i m. m(a + of_nat i := bs ! i)) m x = (if unat (x - a) < n then bs ! unat (x - a) else m x)" for n
  proof (induction n)
    case (Suc n)
    have "x = a + of_nat n \<longleftrightarrow> unat (x - a) = n"
    proof
      assume "x = a + of_nat n"
      then show "unat (x - a) = n" using Suc.prems assms by (simp add: unat_of_nat_u64)
    next
      assume "unat (x - a) = n"
      moreover have "x = a + of_nat (unat (x - a))" by simp
      ultimately show "x = a + of_nat n" by (simp only:)
    qed
    then show ?case using Suc by (auto simp: less_Suc_eq)
  qed simp
  then show ?thesis by (simp add: poke_bytes_def)
qed

lemma content_cong:
  assumes "word m' F 2 = word m F 2" and "\<And>j. j < pages_for (unat (word m F 2)) \<Longrightarrow>
      data_ptr m' F j = data_ptr m F j \<and> same_page (data_ptr m F j) m m'"
  shows "content m' F = content m F"
proof -
  have "m' (inode_page (data_ptr m' F (i div 4096)) + of_nat (i mod 4096)) = m (inode_page (data_ptr m F (i div 4096)) + of_nat (i mod 4096))"
    if "i < unat (word m F 2)" for i
  proof -
    have "i div 4096 < pages_for (unat (word m F 2))" using that by (simp add: pages_for_def less_eq_div_iff_mult_less_eq flip: Suc_le_eq)
    with assms(2) [OF this] show ?thesis by (simp add: same_page_def)
  qed
  then show ?thesis unfolding content_def assms(1) by simp
qed

text \<open>One round of the loop of \<open>file_write\<close>, once the page is there.\<close>

definition put_chunk :: "u64 \<Rightarrow> u64 \<Rightarrow> nat \<Rightarrow> u8 list \<Rightarrow> mem \<Rightarrow> mem" where
  "put_chunk F i off bs m =
     (let m = poke_bytes (inode_page i + of_nat off) bs m
      in store64 m (file_size_at (inode_page F)) (load64 m (file_size_at (inode_page F)) + of_nat (length bs)))"

lemma put_chunk_low:
  assumes "plain F" and "plain i" and "off + length bs \<le> 4096"
  shows "low_same m (put_chunk F i off bs m)"
proof -
  have at: "file_size_at (inode_page F) = inode_page F + of_nat (8 * 2)" by (simp add: file_size_at_def)
  have "same_outside (inode_page i + of_nat off) (length bs) m (poke_bytes (inode_page i + of_nat off) bs m)"
    using assms(3) by (simp add: same_outside_def poke_bytes_at in_range_def)
  then have "low_same m (poke_bytes (inode_page i + of_nat off) bs m)" by (rule other_low [OF _ assms(3) plain_less [OF assms(2)]])
  then show ?thesis
    unfolding put_chunk_def Let_def at by (rule low_same_trans [OF _ store_low]) (use plain_less [OF assms(1)] in simp_all)
qed

lemma put_chunk_effect:
  assumes F: "plain F" and i: "plain i" "i \<noteq> F" and off: "off + length bs \<le> 4096"
  shows "word (put_chunk F i off bs m) F 2 = word m F 2 + of_nat (length bs)"
    and "k < 512 \<Longrightarrow> k \<noteq> 2 \<Longrightarrow> word (put_chunk F i off bs m) F k = word m F k"
    and "unat j < 2 ^ 40 \<Longrightarrow> j \<noteq> F \<Longrightarrow> j \<noteq> i \<Longrightarrow> same_page j m (put_chunk F i off bs m)"
    and "l < 4096 \<Longrightarrow> put_chunk F i off bs m (inode_page i + of_nat l)
      = (if off \<le> l \<and> l < off + length bs then bs ! (l - off) else m (inode_page i + of_nat l))"
proof -
  define m1 where "m1 = poke_bytes (inode_page i + of_nat off) bs m"
  have at: "file_size_at (inode_page F) = inode_page F + of_nat (8 * 2)" by (simp add: file_size_at_def)
  have e: "put_chunk F i off bs m = store64 m1 (inode_page F + of_nat (8 * 2)) (word m1 F 2 + of_nat (length bs))"
    by (simp add: put_chunk_def at m1_def word_def Let_def)
  have len: "length bs \<le> 2 ^ 64" using off by simp
  have o: "same_outside (inode_page i + of_nat off) (length bs) m m1"
    by (simp add: same_outside_def m1_def poke_bytes_at [OF len] in_range_def)
  have s1: "same_page j m m1" if "unat j < 2 ^ 40" "j \<noteq> i" for j
    using other_page [OF o off that(2) [symmetric] plain_less [OF i(1)] that(1)] .
  have s2: "same_page j m1 (put_chunk F i off bs m)" if "unat j < 2 ^ 40" "j \<noteq> F" for j
    unfolding e using that F by (intro store_other_page) (simp_all add: plain_def)
  show "word (put_chunk F i off bs m) F 2 = word m F 2 + of_nat (length bs)"
    unfolding e by (subst word_store) (simp_all add: word_same [OF s1 [OF plain_less [OF F] i(2) [symmetric]]])
  show "k < 512 \<Longrightarrow> k \<noteq> 2 \<Longrightarrow> word (put_chunk F i off bs m) F k = word m F k"
    unfolding e by (subst word_store) (simp_all add: word_same [OF s1 [OF plain_less [OF F] i(2) [symmetric]]])
  show "unat j < 2 ^ 40 \<Longrightarrow> j \<noteq> F \<Longrightarrow> j \<noteq> i \<Longrightarrow> same_page j m (put_chunk F i off bs m)"
    using s1 s2 same_page_trans by blast
  assume l: "l < 4096"
  have "put_chunk F i off bs m (inode_page i + of_nat l) = m1 (inode_page i + of_nat l)"
    using s2 [OF plain_less [OF i(1)] i(2)] l by (simp add: same_page_def)
  also have "\<dots> = (if off \<le> l \<and> l < off + length bs then bs ! (l - off) else m (inode_page i + of_nat l))"
  proof -
    have "unat (inode_page i + of_nat l - (inode_page i + of_nat off)) = (if off \<le> l then l - off else l + 2 ^ 64 - off)"
    proof (cases "off \<le> l")
      case True
      then have "inode_page i + of_nat l - (inode_page i + of_nat off) = of_nat (l - off)" by (simp add: of_nat_diff)
      then show ?thesis using True l by (simp add: unat_of_nat_u64 del: of_nat_diff)
    next
      case False
      have "inode_page i + of_nat l - (inode_page i + of_nat off) = of_nat l - of_nat off" by simp
      moreover have "unat (of_nat l - of_nat off :: u64) = l + 2 ^ 64 - off"
        using unat_offset_diff [of "of_nat l" 0 "of_nat off"] False l off by (simp add: unat_of_nat_u64)
      ultimately show ?thesis using False by simp
    qed
    then show ?thesis using l off unfolding m1_def poke_bytes_at [OF len] by auto
  qed
  finally show "put_chunk F i off bs m (inode_page i + of_nat l)
      = (if off \<le> l \<and> l < off + length bs then bs ! (l - off) else m (inode_page i + of_nat l))" .
qed

lemma pages_for_mono: "m \<le> n \<Longrightarrow> pages_for m \<le> pages_for n"
  by (simp add: pages_for_def div_le_mono)

lemma pages_for_grow:
  assumes "0 < k" and "s mod 4096 + k \<le> 4096"
  shows "pages_for (s + k) = Suc (s div 4096)" and "pages_for s = (if s mod 4096 = 0 then s div 4096 else Suc (s div 4096))"
proof -
  define q r where "q = s div 4096" and "r = s mod 4096"
  have s: "s = 4096 * q + r" "r < 4096" by (simp_all add: q_def r_def)
  have "(4096 * q + r + k + 4095) div 4096 = q + (r + k + 4095) div 4096" by (simp add: add.assoc)
  moreover have "(r + k + 4095) div 4096 = 1" using assms by (intro div_nat_eqI) (simp_all add: r_def)
  ultimately show "pages_for (s + k) = Suc (s div 4096)" by (simp add: pages_for_def s(1) [symmetric] q_def [symmetric])
  have "(4096 * q + r + 4095) div 4096 = q + (r + 4095) div 4096" by (simp add: add.assoc)
  moreover have "(r + 4095) div 4096 = (if r = 0 then 0 else 1)"
    using s(2) by (auto intro: div_nat_eqI)
  ultimately show "pages_for s = (if s mod 4096 = 0 then s div 4096 else Suc (s div 4096))"
    by (simp add: pages_for_def s(1) [symmetric] q_def [symmetric] r_def [symmetric])
qed

text \<open>The page that byte \<open>s\<close>, the next one of the file, goes to.\<close>

lemma page_ready:
  assumes ok: "file_ok v F (pages_for s)" and fr: "fresh v" and sz: "unat (word (v_data v) F 2) = s" and s: "s < 528 * 4096"
    and room: "unat (next_inode v) + 4 < 2 ^ 40"
  obtains v' i where "ptr_from_data_index (inode_page F) (of_nat s div MFS_PAGE_SIZE) v = Some (inode_page i, v')"
    and "data_ptr (v_data v') F (s div 4096) = i" and "file_ok v' F (Suc (s div 4096))"
    and "grows (pages_cost (Suc (s div 4096)) - pages_cost (pages_for s)) (file_pages (v_data v) F (pages_for s)) v v'"
    and "content (v_data v') F = content (v_data v) F" and "word (v_data v') F 2 = word (v_data v) F 2"
    and "file_pages (v_data v') F (Suc (s div 4096)) \<subseteq> file_pages (v_data v) F (pages_for s) \<union> {j. next_inode v < j}"
    and "pages_for s \<le> Suc (s div 4096)" and "pages_cost (Suc (s div 4096)) \<le> pages_cost (pages_for s) + 4"
proof -
  let ?n = "pages_for s" and ?j = "s div 4096"
  have idx: "unat (of_nat s div MFS_PAGE_SIZE) = ?j"
    using s by (simp add: MFS_PAGE_SIZE_def unat_div unat_of_nat_u64)
  have j: "?j < 528" using s by (simp add: less_mult_imp_div_less)
  have n: "?n = (if s mod 4096 = 0 then ?j else Suc ?j)" using pages_for_grow(2) [of 1 s] by (simp add: Suc_le_eq)
  show ?thesis
  proof (cases "s mod 4096 = 0")
    case False
    then have n': "?n = Suc ?j" using n by simp
    then have "ptr_from_data_index (inode_page F) (of_nat s div MFS_PAGE_SIZE) v = Some (inode_page (data_ptr (v_data v) F ?j), v)"
      using ptr_here [OF ok _ idx] by simp
    then show ?thesis using ok grows_refl [OF fr] n' by (intro that [of "data_ptr (v_data v) F ?j" v]) auto
  next
    case True
    then have n': "?n = ?j" using n by simp
    obtain v' i where r: "ptr_from_data_index (inode_page F) (of_nat s div MFS_PAGE_SIZE) v = Some (inode_page i, v')"
        "data_ptr (v_data v') F ?j = i" "file_ok v' F (Suc ?j)" "grows (pages_cost (Suc ?j) - pages_cost ?j) {F, word (v_data v) F 23} v v'"
        "\<And>k. k < ?j \<Longrightarrow> data_ptr (v_data v') F k = data_ptr (v_data v) F k" "word (v_data v') F 2 = word (v_data v) F 2"
        "next_inode v < i" "plain i" "word (v_data v') F 23 = word (v_data v) F 23 \<or> next_inode v < word (v_data v') F 23"
      using ptr_new [OF ok [unfolded n'] j idx fr room] by metis
    have "same_page (data_ptr (v_data v) F k) (v_data v) (v_data v')" if "k < ?j" for k
      using ok n' that r(4) by (auto simp: file_ok_def grows_def changes_def)
    then have "content (v_data v') F = content (v_data v) F"
      using r(5) n' sz by (intro content_cong [OF r(6)]) simp
    moreover have "grows (pages_cost (Suc ?j) - pages_cost ?n) (file_pages (v_data v) F ?n) v v'"
      unfolding n' using r(4) by (rule grows_mono) (auto simp: file_pages_def)
    moreover have "file_pages (v_data v') F (Suc ?j) \<subseteq> file_pages (v_data v) F ?n \<union> {j. next_inode v < j}"
      using r(2,5,7,9) by (auto simp: file_pages_def n' less_Suc_eq)
    moreover have "?n \<le> Suc ?j" "pages_cost (Suc ?j) \<le> pages_cost ?n + 4" unfolding n' by (simp_all add: pages_cost_def)
    ultimately show ?thesis using r by (intro that)
  qed
qed

lemma file_ok_cong:
  assumes ok: "file_ok v F n" and d: "\<And>j. j < 528 \<Longrightarrow> data_ptr (v_data v') F j = data_ptr (v_data v) F j"
    and x: "word (v_data v') F 23 = word (v_data v) F 23" and le: "next_inode v \<le> next_inode v'"
  shows "file_ok v' F n"
proof -
  have n: "n \<le> 528" using ok by (simp add: file_ok_def)
  then have d': "data_ptr (v_data v') F j = data_ptr (v_data v) F j" if "j < n" for j using that d by simp
  have "inj_on (data_ptr (v_data v') F) {..<n}" using ok d' by (simp add: file_ok_def inj_on_def)
  moreover have "\<forall>j<n. plain (data_ptr (v_data v') F j) \<and> data_ptr (v_data v') F j \<le> next_inode v'
      \<and> data_ptr (v_data v') F j \<noteq> F \<and> data_ptr (v_data v') F j \<noteq> word (v_data v') F 23"
    using ok d' le unfolding x by (auto simp: file_ok_def intro: order_trans)
  moreover have "\<forall>j. n \<le> j \<longrightarrow> j < 528 \<longrightarrow> data_ptr (v_data v') F j = 0" using ok d by (simp add: file_ok_def)
  ultimately show ?thesis using ok le n unfolding file_ok_def x by (auto intro: order_trans split: if_splits)
qed

lemma put_chunk_ok:
  assumes ok: "file_ok v F n" and i: "i = data_ptr (v_data v) F (s div 4096)" and n: "n = Suc (s div 4096)"
    and sz: "unat (word (v_data v) F 2) = s" and len: "s mod 4096 + length bs \<le> 4096" and fr: "fresh v"
    and v': "v' = v\<lparr>v_data := put_chunk F i (s mod 4096) bs (v_data v)\<rparr>"
  shows "file_ok v' F n" and "unat (word (v_data v') F 2) = s + length bs" and "content (v_data v') F = content (v_data v) F @ bs"
    and "grows 0 {F, i} v v'" and "file_pages (v_data v') F n = file_pages (v_data v) F n"
proof -
  let ?m = "v_data v" and ?m' = "v_data v'"
  have F: "plain F" and ip: "plain i" "i \<noteq> F" "i \<noteq> word ?m F 23" "i \<le> next_inode v" and F': "F \<le> next_inode v" and n528: "n \<le> 528"
    using ok n by (auto simp: file_ok_def i)
  have e: "?m' = put_chunk F i (s mod 4096) bs ?m" by (simp add: v')
  note ef = put_chunk_effect(2-4) [OF F ip(1,2) len, where m = ?m, folded e]
  have ef1: "word ?m' F 2 = word ?m F 2 + of_nat (length bs)" using put_chunk_effect(1) [OF F ip(1,2) len] by (simp add: e)
  have s: "s < 528 * 4096" using n n528 by (simp add: dividend_less_times_div less_mult_imp_div_less div_less_iff_less_mult flip: Suc_le_eq)
  have x: "word ?m' F 23 = word ?m F 23" using ef(1) [of 23] by simp
  have d: "data_ptr ?m' F j = data_ptr ?m F j" if "j < 528" for j
  proof (cases "j < 16 \<or> word ?m F 23 = 0")
    case True
    then show ?thesis using ef(1) [of "7 + j"] x by (auto simp: data_ptr_def)
  next
    case False
    then have "16 < n" using ok by (auto simp: file_ok_def split: if_splits)
    then have "plain (word ?m F 23)" "word ?m F 23 \<noteq> F" using ok by (auto simp: file_ok_def)
    then have "same_page (word ?m F 23) ?m ?m'" using ip(3) by (intro ef(2)) (auto simp: plain_def)
    then show ?thesis using False x that by (simp add: data_ptr_def word_same)
  qed
  show "file_ok v' F n"
    by (rule file_ok_cong [OF ok d x]) (simp_all add: v')
  have b: "unat (word ?m F 2) + length bs < 2 ^ 64" using sz s len by simp
  show sz': "unat (word ?m' F 2) = s + length bs" unfolding ef1 using unat_add_nat [OF b] sz by simp
  show "grows 0 {F, i} v v'"
    unfolding grows_def changes_def
  proof (intro conjI allI impI)
    have keep: "same_page j ?m ?m'" if "plain j" "j \<notin> {F, i}" for j using ef(2) [OF plain_less [OF that(1)]] that(2) by blast
    show "fresh v'"
      unfolding fresh_def
    proof (intro allI impI)
      fix j assume j: "plain j" "next_inode v' < j"
      then have "next_inode v < j" by (simp add: v')
      then have "j \<notin> {F, i}" "blank ?m j" using ip(4) F' fr j(1) by (auto simp: fresh_def)
      then show "blank ?m' j" using keep [OF j(1)] blank_same by blast
    qed
    show "same_page j ?m ?m'" if "plain j" "j \<notin> {F, i}" for j using keep that .
    show "low_same ?m ?m'" unfolding e by (rule put_chunk_low [OF F ip(1) len])
  qed (simp_all add: v')
  show "file_pages ?m' F n = file_pages ?m F n" using d x n528 by (simp add: file_pages_def)
  show "content ?m' F = content ?m F @ bs"
  proof (rule nth_equalityI)
    show len': "length (content ?m' F) = length (content ?m F @ bs)" by (simp add: content_def sz sz')
    fix k assume "k < length (content ?m' F)"
    then have k: "k < s + length bs" by (simp add: content_def sz')
    have "k \<le> 4096 * (s div 4096) + 4095" using k len mult_div_mod_eq [of 4096 s] by linarith
    then have q: "k div 4096 \<le> s div 4096" by linarith
    then have qn: "k div 4096 < n" using n by simp
    then have "content ?m' F ! k = ?m' (inode_page (data_ptr ?m F (k div 4096)) + of_nat (k mod 4096))"
      using k d n528 by (simp add: content_def sz')
    also have "\<dots> = (content ?m F @ bs) ! k"
    proof (cases "k < s")
      case True
      then have c: "(content ?m F @ bs) ! k = ?m (inode_page (data_ptr ?m F (k div 4096)) + of_nat (k mod 4096))"
        by (simp add: nth_append content_def sz)
      show ?thesis
      proof (cases "k div 4096 = s div 4096")
        case same: True
        then have "k mod 4096 < s mod 4096" using True mult_div_mod_eq [of 4096 s] mult_div_mod_eq [of 4096 k] by linarith
        then show ?thesis unfolding c same i [symmetric] using ef(3) [of "k mod 4096"] by simp
      next
        case False
        then have "data_ptr ?m F (k div 4096) \<noteq> i"
          using ok qn n by (auto simp: file_ok_def i inj_on_def)
        moreover have "data_ptr ?m F (k div 4096) \<noteq> F" "unat (data_ptr ?m F (k div 4096)) < 2 ^ 40"
          using ok qn by (auto simp: file_ok_def plain_def)
        ultimately show ?thesis unfolding c using ef(2) by (simp add: same_page_def)
      qed
    next
      case False
      define l where "l = k - s"
      have l: "k = 4096 * (s div 4096) + (s mod 4096 + l)" "s mod 4096 + l < 4096" "l < length bs"
        using False k len mult_div_mod_eq [of 4096 s] by (auto simp: l_def)
      have "(4096 * a + b) div 4096 = a" "(4096 * a + b) mod 4096 = b" if "b < 4096" for a b :: nat using that by simp_all
      from this [OF l(2), of "s div 4096"] have km: "k div 4096 = s div 4096" "k mod 4096 = s mod 4096 + l"
        unfolding l(1) [symmetric] by blast+
      have "(content ?m F @ bs) ! k = bs ! l" using False by (simp add: nth_append content_def sz l_def)
      then show ?thesis unfolding km i [symmetric] using ef(3) [OF l(2)] l(3) by (simp del: of_nat_add)
    qed
    finally show "content ?m' F ! k = (content ?m F @ bs) ! k" .
  qed
qed

lemma file_write_loop:
  assumes "file_ok v F (pages_for s)" and "fresh v" and "f = \<lparr>mf_file = inode_page F, mf_pos = of_nat s\<rparr>"
    and "unat (word (v_data v) F 2) = s" and "res + L = length buf" and "s + L \<le> 528 * 4096" and "unat (next_inode v) + 4 * L < 2 ^ 40"
  shows "\<exists>v'. file_write_from buf res f (of_nat L) v = Some (\<lparr>mf_file = inode_page F, mf_pos = of_nat (s + L)\<rparr>, v')
    \<and> file_ok v' F (pages_for (s + L)) \<and> content (v_data v') F = content (v_data v) F @ drop res buf
    \<and> unat (word (v_data v') F 2) = s + L
    \<and> grows (pages_cost (pages_for (s + L)) - pages_cost (pages_for s)) (file_pages (v_data v) F (pages_for s)) v v'
    \<and> file_pages (v_data v') F (pages_for (s + L)) \<subseteq> file_pages (v_data v) F (pages_for s) \<union> {j. next_inode v < j}"
  using assms
proof (induction L arbitrary: v f s res rule: less_induct)
  case (less L)
  show ?case
  proof (cases "L = 0")
    case True
    then show ?thesis using less.prems grows_refl by (subst file_write_from.simps) simp
  next
    case False
    have s: "s < 528 * 4096" and room: "unat (next_inode v) + 4 < 2 ^ 40" and L: "L < 2 ^ 64"
      using False less.prems(6,7) by simp_all
    have us: "unat (of_nat s :: u64) = s" using s by (intro unat_of_nat_u64) simp
    have uL: "unat (of_nat L :: u64) = L" using L by (rule unat_of_nat_u64)
    then have L0: "of_nat L \<noteq> (0 :: u64)" using False by (metis unsigned_0)
    define off where "off = s mod 4096"
    define k where "k = min (4096 - off) L"
    have off: "off < 4096" and k: "0 < k" "k \<le> L" "off + k \<le> 4096" using False by (auto simp: off_def k_def)
    have uoff: "of_nat s mod MFS_PAGE_SIZE = (of_nat off :: u64)"
      by (simp add: word_unat_eq_iff unat_mod us MFS_PAGE_SIZE_def off_def unat_of_nat_u64)
    have tmp: "(if MFS_PAGE_SIZE - of_nat off > of_nat L then of_nat L else MFS_PAGE_SIZE - of_nat off) = (of_nat k :: u64)"
    proof -
      have "MFS_PAGE_SIZE - of_nat off = (of_nat (4096 - off) :: u64)" using off by (simp add: MFS_PAGE_SIZE_def of_nat_diff)
      then show ?thesis
        using off uL by (simp add: word_less_nat_alt unat_of_nat_u64 k_def min_def del: of_nat_diff)
    qed
    have uk: "unat (of_nat k :: u64) = k" using k by (simp add: unat_of_nat_u64)
    obtain v1 i where p: "ptr_from_data_index (inode_page F) (of_nat s div MFS_PAGE_SIZE) v = Some (inode_page i, v1)"
        "data_ptr (v_data v1) F (s div 4096) = i" "file_ok v1 F (Suc (s div 4096))"
        "grows (pages_cost (Suc (s div 4096)) - pages_cost (pages_for s)) (file_pages (v_data v) F (pages_for s)) v v1"
        "content (v_data v1) F = content (v_data v) F" "word (v_data v1) F 2 = word (v_data v) F 2"
        "file_pages (v_data v1) F (Suc (s div 4096)) \<subseteq> file_pages (v_data v) F (pages_for s) \<union> {j. next_inode v < j}"
        "pages_for s \<le> Suc (s div 4096)" "pages_cost (Suc (s div 4096)) \<le> pages_cost (pages_for s) + 4"
      using page_ready [OF less.prems(1,2,4) s room] by blast
    define bs where "bs = take k (drop res buf)"
    have bs: "length bs = k" using less.prems(5) k(2) by (simp add: bs_def)
    define v2 where "v2 = v1\<lparr>v_data := put_chunk F i off bs (v_data v1)\<rparr>"
    have sz1: "unat (word (v_data v1) F 2) = s" and fr1: "fresh v1" and le1: "next_inode v \<le> next_inode v1"
      and nx1: "unat (next_inode v1) \<le> unat (next_inode v) + 4"
      using p(4,6,9) less.prems(4) by (auto simp: grows_def changes_def)
    have len: "s mod 4096 + length bs \<le> 4096" using k(3) bs by (simp add: off_def)
    note pc = put_chunk_ok [OF p(3) p(2) [symmetric] refl sz1 len fr1 v2_def [unfolded off_def]]
    have n2: "pages_for (s + k) = Suc (s div 4096)" using pages_for_grow(1) [OF k(1)] len bs by simp
    define f2 where "f2 = \<lparr>mf_file = inode_page F, mf_pos = (of_nat (s + k) :: u64)\<rparr>"
    have step: "file_write_from buf res f (of_nat L) v = file_write_from buf (res + k) f2 (of_nat (L - k)) v2"
      using p(1) k(2) bs L0
      by (subst file_write_from.simps)
        (simp add: less.prems(3) uoff tmp uk Let_def f2_def v2_def put_chunk_def bs_def [symmetric] of_nat_diff)
    have prem: "file_ok v2 F (pages_for (s + k))" "fresh v2" "unat (word (v_data v2) F 2) = s + k" "res + k + (L - k) = length buf"
        "s + k + (L - k) \<le> 528 * 4096" "unat (next_inode v2) + 4 * (L - k) < 2 ^ 40"
      using pc n2 bs less.prems(5,6,7) k nx1 by (simp_all add: grows_def changes_def v2_def)
    have lk: "L - k < L" using k(1) False by simp
    obtain v' where v': "file_write_from buf (res + k) f2 (of_nat (L - k)) v2 = Some (\<lparr>mf_file = inode_page F, mf_pos = of_nat (s + k + (L - k))\<rparr>, v')"
        "file_ok v' F (pages_for (s + k + (L - k)))" "content (v_data v') F = content (v_data v2) F @ drop (res + k) buf"
        "unat (word (v_data v') F 2) = s + k + (L - k)" "grows (pages_cost (pages_for (s + k + (L - k))) - pages_cost (pages_for (s + k))) (file_pages (v_data v2) F (pages_for (s + k))) v2 v'"
        "file_pages (v_data v') F (pages_for (s + k + (L - k))) \<subseteq> file_pages (v_data v2) F (pages_for (s + k)) \<union> {j. next_inode v2 < j}"
      using less.IH [OF lk prem(1,2) f2_def prem(3-6)] by blast
    have c: "content (v_data v') F = content (v_data v) F @ drop res buf"
      using v'(3) pc(3) p(5) by (simp add: bs_def) (metis add.commute append_take_drop_id drop_drop)
    have "grows (pages_cost (Suc (s div 4096)) - pages_cost (pages_for s) + 0) (file_pages (v_data v) F (pages_for s)) v v2"
      using p(4) pc(4) by (rule grows_trans) (use p(2,7) in \<open>auto simp: file_pages_def\<close>)
    then have "grows (pages_cost (Suc (s div 4096)) - pages_cost (pages_for s) + 0 + (pages_cost (pages_for (s + k + (L - k))) - pages_cost (pages_for (s + k))))
        (file_pages (v_data v) F (pages_for s)) v v'"
      using v'(5) by (rule grows_trans) (use p(7) pc(5) n2 in auto)
    moreover have "pages_cost (pages_for s) \<le> pages_cost (Suc (s div 4096))" using p(8) by (rule pages_cost_mono)
    moreover have "pages_cost (pages_for (s + k)) \<le> pages_cost (pages_for (s + k + (L - k)))"
      by (intro pages_cost_mono pages_for_mono) simp
    ultimately have "grows (pages_cost (pages_for (s + L)) - pages_cost (pages_for s)) (file_pages (v_data v) F (pages_for s)) v v'"
      using k(2) unfolding n2 by (elim grows_mono) auto
    moreover have "file_pages (v_data v') F (pages_for (s + L)) \<subseteq> file_pages (v_data v) F (pages_for s) \<union> {j. next_inode v < j}"
      using v'(6) p(7) pc(5) n2 k(2) le1 by (fastforce simp: v2_def)
    ultimately show ?thesis using step v' c k(2) by simp
  qed
qed

section \<open>Reading\<close>

lemma length_content [simp]: "length (content m F) = unat (word m F 2)"
  by (simp add: content_def)

lemma peek_content:
  assumes "s mod 4096 + k \<le> 4096" and "s + k \<le> unat (word m F 2)"
  shows "peek_bytes m (inode_page (data_ptr m F (s div 4096)) + of_nat (s mod 4096)) k = take k (drop s (content m F))"
proof (rule nth_equalityI)
  show "length (peek_bytes m (inode_page (data_ptr m F (s div 4096)) + of_nat (s mod 4096)) k) = length (take k (drop s (content m F)))"
    using assms(2) by (simp add: peek_bytes_def)
  fix l assume "l < length (peek_bytes m (inode_page (data_ptr m F (s div 4096)) + of_nat (s mod 4096)) k)"
  then have l: "l < k" by (simp add: peek_bytes_def)
  have "(4096 * a + b) div 4096 = a" "(4096 * a + b) mod 4096 = b" if "b < 4096" for a b :: nat using that by simp_all
  from this [of "s mod 4096 + l" "s div 4096"] l assms(1)
  have "(s + l) div 4096 = s div 4096" "(s + l) mod 4096 = s mod 4096 + l" by (simp_all add: add.assoc [symmetric])
  then show "peek_bytes m (inode_page (data_ptr m F (s div 4096)) + of_nat (s mod 4096)) k ! l = take k (drop s (content m F)) ! l"
    using l assms(2) by (simp add: peek_bytes_def content_def add.assoc)
qed

lemma file_read_loop:
  assumes "file_ok v F (pages_for S)" and "S = unat (word (v_data v) F 2)" and "s \<le> S" and "f = \<lparr>mf_file = inode_page F, mf_pos = of_nat s\<rparr>"
    and "S + L < 2 ^ 63"
  shows "file_read_from buf f (of_nat L) v
    = Some (buf @ take L (drop s (content (v_data v) F)), \<lparr>mf_file = inode_page F, mf_pos = of_nat (min S (s + L))\<rparr>, v)"
  using assms
proof (induction L arbitrary: s f buf rule: less_induct)
  case (less L)
  let ?m = "v_data v"
  have sz: "load64 ?m (file_size_at (inode_page F)) = of_nat S"
    by (simp add: less.prems(2) word_def file_size_at_def)
  have us: "unat (of_nat s :: u64) = s" "unat (of_nat S :: u64) = S" "unat (of_nat L :: u64) = L"
    using less.prems(3,5) by (simp_all add: unat_of_nat_u64)
  have L0: "of_nat L = (0 :: u64) \<longleftrightarrow> L = 0"
  proof
    assume "of_nat L = (0 :: u64)"
    then show "L = 0" using us(3) by (simp only: unsigned_0)
  qed simp
  have sS: "of_nat s = (of_nat S :: u64) \<longleftrightarrow> s = S"
  proof
    assume "of_nat s = (of_nat S :: u64)"
    then have "unat (of_nat s :: u64) = unat (of_nat S :: u64)" by (rule arg_cong)
    then show "s = S" unfolding us(1) us(2) .
  qed simp
  note eq = L0 sS
  show ?case
  proof (cases "L = 0 \<or> s = S")
    case True
    then show ?thesis using less.prems(3,4) sz eq
      by (subst file_read_from.simps) (auto simp: less.prems(2) min_def)
  next
    case False
    define off where "off = s mod 4096"
    define k where "k = min (min (4096 - off) L) (S - s)"
    have off: "off < 4096" and k: "0 < k" "k \<le> L" "off + k \<le> 4096" "s + k \<le> S" using False less.prems(3) by (auto simp: off_def k_def)
    have uoff: "of_nat s mod MFS_PAGE_SIZE = (of_nat off :: u64)"
      by (simp add: word_unat_eq_iff unat_mod us MFS_PAGE_SIZE_def off_def unat_of_nat_u64)
    define j where "j = min (4096 - off) L"
    have tmp: "(if MFS_PAGE_SIZE - of_nat off > of_nat L then of_nat L else MFS_PAGE_SIZE - of_nat off) = (of_nat j :: u64)"
    proof -
      have "MFS_PAGE_SIZE - of_nat off = (of_nat (4096 - off) :: u64)" using off by (simp add: MFS_PAGE_SIZE_def of_nat_diff)
      then show ?thesis
        using off us by (simp add: word_less_nat_alt unat_of_nat_u64 j_def min_def del: of_nat_diff)
    qed
    have tmp2: "(if of_nat j + of_nat s > (of_nat S :: u64) then of_nat S - of_nat s else of_nat j) = (of_nat k :: u64)"
    proof -
      have "unat (of_nat j + of_nat s :: u64) = j + s"
        using less.prems(3,5) unat_of_nat_u64 [of "j + s"] by (simp add: j_def)
      moreover have "of_nat S - of_nat s = (of_nat (S - s) :: u64)" using less.prems(3) by (simp add: of_nat_diff)
      ultimately show ?thesis using us less.prems(3) by (auto simp: word_less_nat_alt k_def j_def min_def)
    qed
    have uk: "unat (of_nat k :: u64) = k" using k by (simp add: unat_of_nat_u64)
    have idx: "unat (of_nat s div MFS_PAGE_SIZE) = s div 4096" by (simp add: MFS_PAGE_SIZE_def unat_div us)
    have "s div 4096 < pages_for S" using k(1,4) by (simp add: pages_for_def less_eq_div_iff_mult_less_eq flip: Suc_le_eq)
    note p = ptr_here [OF less.prems(1) this idx]
    have pk: "peek_bytes ?m (inode_page (data_ptr ?m F (s div 4096)) + of_nat off) k = take k (drop s (content ?m F))"
      unfolding off_def using k(3,4) by (intro peek_content) (simp_all add: off_def less.prems(2))
    define f2 where "f2 = \<lparr>mf_file = inode_page F, mf_pos = (of_nat (s + k) :: u64)\<rparr>"
    have step: "file_read_from buf f (of_nat L) v = file_read_from (buf @ take k (drop s (content ?m F))) f2 (of_nat (L - k)) v"
      using p k(2) eq False pk
      by (subst file_read_from.simps) (simp add: less.prems(4) sz uoff tmp tmp2 uk Let_def f2_def of_nat_diff cong: if_cong)
    have "L - k < L" using k False by simp
    moreover have "S + (L - k) < 2 ^ 63" using less.prems(5) by simp
    moreover have "take k (drop s (content ?m F)) @ take (L - k) (drop (s + k) (content ?m F)) = take L (drop s (content ?m F))"
      using k(2) by (metis add.commute drop_drop le_add_diff_inverse take_add)
    moreover have "s + k + (L - k) = s + L" using k(2) by simp
    ultimately show ?thesis
      unfolding step using less.IH [OF _ less.prems(1,2) k(4) f2_def, of "L - k"] by simp
  qed
qed

end
