(* ===== verification/MfsDirs.thy ===== *)
theory MfsDirs
  imports MfsFiles
begin

text \<open>
  The files of a volume as a map from inodes to bytes: what it means that a volume holds one
  (\<open>volume_holds\<close>), and that a file that mkvolume.c makes or extends changes this map at its inode alone.
\<close>

section \<open>Whole files\<close>

lemma pages_for_le: "pages_for n \<le> k \<Longrightarrow> n \<le> k * 4096"
  unfolding pages_for_def by linarith

lemma pages_for_0 [simp]: "pages_for 0 = 0"
  by (simp add: pages_for_def)

lemma pages_for_add: "pages_for (m + n) \<le> pages_for m + pages_for n"
proof -
  have "(m + n + 4095) div 4096 \<le> (m + 4095 + (n + 4095)) div 4096" by (rule div_le_mono) simp
  moreover have "m \<le> 4096 * pages_for m" "n \<le> 4096 * pages_for n" unfolding pages_for_def by linarith+
  then have "m + n + 4095 < 4096 * (pages_for m + pages_for n + 1)" by simp
  then have "(m + n + 4095) div 4096 < pages_for m + pages_for n + 1" by (simp add: div_less_iff_less_mult mult.commute)
  ultimately show ?thesis by (simp add: pages_for_def)
qed

text \<open>One page more takes at most two pages, with a bitmap in front of each.\<close>

lemma pages_cost_step: "n \<le> m + 1 \<Longrightarrow> pages_cost n \<le> pages_cost m + 4"
  by (auto simp: pages_cost_def)

lemma pages_cost_bytes: "pages_cost (pages_for n) \<le> 4 * n"
proof (cases "n = 0")
  case False
  then have "pages_for n \<le> n" unfolding pages_for_def by linarith
  then show ?thesis by (auto simp: pages_cost_def)
qed simp

lemma file_write_appends:
  assumes "file_ok v F (pages_for s)" and "fresh v" and "f = \<lparr>mf_file = inode_page F, mf_pos = of_nat s\<rparr>"
    and "unat (word (v_data v) F 2) = s" and "s + length buf \<le> 528 * 4096" and "unat (next_inode v) + 4 * length buf < 2 ^ 40"
  obtains v' where "file_write buf f v = Some (\<lparr>mf_file = inode_page F, mf_pos = of_nat (s + length buf)\<rparr>, v')"
    and "file_ok v' F (pages_for (s + length buf))" and "content (v_data v') F = content (v_data v) F @ buf"
    and "unat (word (v_data v') F 2) = s + length buf" and "grows (pages_cost (pages_for (s + length buf)) - pages_cost (pages_for s)) (file_pages (v_data v) F (pages_for s)) v v'"
    and "file_pages (v_data v') F (pages_for (s + length buf)) \<subseteq> file_pages (v_data v) F (pages_for s) \<union> {i. next_inode v < i}"
  using file_write_loop [where res = 0 and buf = buf and L = "length buf", OF assms(1-4) _ assms(5,6)] that
  by (auto simp: file_write_def)

lemma changes_file:
  assumes "changes k X v v'" and "file_ok v G n" and "file_pages (v_data v) G n \<inter> X = {}" and "pages_for (unat (word (v_data v) G 2)) \<le> n"
  shows "content (v_data v') G = content (v_data v) G" and "file_ok v' G n" and "file_pages (v_data v') G n = file_pages (v_data v) G n"
    and "word (v_data v') G 2 = word (v_data v) G 2"
proof -
  let ?m = "v_data v" and ?m' = "v_data v'"
  have G: "plain G" "G \<le> next_inode v" and n: "n \<le> 528" using assms(2) by (auto simp: file_ok_def)
  have keep: "same_page i ?m ?m'" if "plain i" "i \<le> next_inode v" "i \<in> file_pages ?m G n" for i
    using assms(1,3) that by (auto simp: grows_def changes_def)
  have wG: "word ?m' G k = word ?m G k" if "k < 512" for k
    using keep [OF G] that by (intro word_same) (simp_all add: file_pages_def)
  have d: "data_ptr ?m' G j = data_ptr ?m G j" if "j < 528" for j
  proof (cases "j < 16 \<or> word ?m G 23 = 0")
    case True
    then show ?thesis using wG [of "7 + j"] wG [of 23] by (auto simp: data_ptr_def)
  next
    case False
    then have "plain (word ?m G 23)" "word ?m G 23 \<le> next_inode v" using assms(2) by (auto simp: file_ok_def split: if_splits)
    then have "same_page (word ?m G 23) ?m ?m'" by (rule keep) (simp add: file_pages_def)
    then show ?thesis using False wG [of 23] that by (simp add: data_ptr_def word_same)
  qed
  show "file_ok v' G n" using d wG [of 23] assms(1) by (intro file_ok_cong [OF assms(2)]) (simp_all add: grows_def changes_def)
  show "file_pages ?m' G n = file_pages ?m G n" using d wG [of 23] n by (auto simp: file_pages_def)
  show "word ?m' G 2 = word ?m G 2" using wG by simp
  show "content ?m' G = content ?m G"
  proof (rule content_cong)
    show "word ?m' G 2 = word ?m G 2" using wG by simp
    fix j assume "j < pages_for (unat (word ?m G 2))"
    then have j: "j < n" using assms(4) by simp
    then have "plain (data_ptr ?m G j)" "data_ptr ?m G j \<le> next_inode v" "data_ptr ?m G j \<in> file_pages ?m G n"
      using assms(2) by (auto simp: file_ok_def file_pages_def)
    then show "data_ptr ?m' G j = data_ptr ?m G j \<and> same_page (data_ptr ?m G j) ?m ?m'" using d j n keep by simp
  qed
qed


text \<open>A file that was just made is empty; making it leaves the other pages alone.\<close>

lemma create_file_raw_spec:
  assumes "create_file_raw mode v = (F, v')" and "fresh v" and "unat (next_inode v) + 2 < 2 ^ 40"
  shows "plain F" and "next_inode v < F" and "file_ok v' F (pages_for 0)" and "word (v_data v') F 2 = 0" and "content (v_data v') F = []"
    and "grows 2 {} v v'" and "next_inode v' = F"
proof -
  obtain v1 where a: "alloc_page v = (F, v1)" by (cases "alloc_page v") (use assms(1) that in \<open>simp add: create_file_raw_def Let_def\<close>)
  note al = alloc_page_spec [OF a assms(2,3)]
  define m1 where "m1 = store32 (v_data v1) (inode_page F) mode"
  define m where "m = store64 (store64 (store64 (store64 m1 (inode_page F + of_nat (8 * 3)) (v_now v1))
    (inode_page F + of_nat (8 * 4)) (v_now v1)) (inode_page F + of_nat (8 * 5)) (v_now v1)) (inode_page F + of_nat (8 * 6)) (v_now v1)"
  have v': "v' = v1\<lparr>v_data := m\<rparr>"
    using assms(1) a by (auto simp: create_file_raw_def m_def m1_def Let_def)
  have bl: "blank (v_data v1) F" using assms(2) al(1,2) al(6) by (auto simp: fresh_def intro: blank_same)
  have w1: "word m1 F l = word (v_data v1) F l" if "0 < l" "l < 512" for l
  proof -
    have "disjoint_ranges (inode_page F + of_nat (8 * 0)) 8 (inode_page F + of_nat (8 * l)) 8"
      using that by (intro disjoint_ranges_elements) simp_all
    then have "disjoint_ranges (inode_page F) 4 (inode_page F + of_nat (8 * l)) 8"
      by (simp add: disjoint_ranges_def in_range_def) (meson less_le_trans numeral_le_iff semiring_norm)
    then show ?thesis unfolding word_def m1_def by (rule load_store_disjoint)
  qed
  have w: "word m F l = 0" if "l = 2 \<or> 7 \<le> l" "l < 512" for l
    using that w1 [of l] blank_word [OF bl, of l] by (auto simp add: m_def word_store simp del: of_nat_mult numeral_times_numeral of_nat_numeral)
  have other: "same_page j (v_data v) m" if "plain j" "j \<noteq> F" for j
  proof -
    have j: "unat j < 2 ^ 40" "unat F < 2 ^ 40" using that(1) al(1) by (auto simp: plain_def)
    have 1: "same_page j (v_data v1) m1" unfolding m1_def
      using store_same_outside [of "inode_page F" 4 "v_data v1" mode] that(2) j
      by (intro other_page [where off = 0 and n = 4 and i = F]) simp_all
    have "same_page j t (store64 t (inode_page F + of_nat (8 * k)) x)" if "k < 512" for k t x
      using that \<open>j \<noteq> F\<close> j by (intro store_other_page) simp_all
    note st = this
    have "same_page j m1 m" unfolding m_def by (rule same_page_trans [OF same_page_trans [OF same_page_trans [OF st st] st] st]) simp_all
    with 1 show ?thesis using same_page_trans al(6) [OF that(1)] by blast
  qed
  have low: "low_same (v_data v1) m"
  proof -
    have F: "unat F < 2 ^ 40" using al(1) by (simp add: plain_def)
    have "low_same (v_data v1) m1" unfolding m1_def
      using store_same_outside [of "inode_page F" 4 "v_data v1" mode] F by (intro other_low [where off = 0 and n = 4 and i = F]) simp_all
    moreover have "low_same t (store64 t (inode_page F + of_nat (8 * k)) x)" if "k < 512" for k t x by (rule store_low [OF that F])
    note st = this
    have "low_same m1 m" unfolding m_def by (rule low_same_trans [OF low_same_trans [OF low_same_trans [OF st st] st] st]) simp_all
    ultimately show ?thesis by (rule low_same_trans)
  qed
  show "plain F" "next_inode v < F" "next_inode v' = F" using al v' by simp_all
  show "word (v_data v') F 2 = 0" using w v' by simp
  then show "content (v_data v') F = []" by (simp add: content_def)
  have "data_ptr m F j = 0" if "j < 528" for j using that w by (auto simp: data_ptr_def)
  then show "file_ok v' F (pages_for 0)" using al(1,3) w by (simp add: file_ok_def v')
  show "grows 2 {} v v'"
    unfolding grows_def changes_def
  proof (intro conjI allI impI)
    show "low_same (v_data v) (v_data v')" using low_same_trans [OF al(9) low] v' by simp
    show "fresh v'" using assms(2) other al(2,3) unfolding fresh_def v'
      by simp (metis blank_same less_irrefl order_less_trans)
    fix i assume "plain i" "i \<le> next_inode v" "i \<notin> {}"
    then show "same_page i (v_data v) (v_data v')" using other al(2) v' by auto
  qed (use al v' in \<open>auto simp: less_imp_le\<close>)
qed


lemma write_chunks_appends:
  assumes "file_ok v F (pages_for s)" and "fresh v" and "f = \<lparr>mf_file = inode_page F, mf_pos = of_nat s\<rparr>"
    and "unat (word (v_data v) F 2) = s" and "s + length bs \<le> 528 * 4096" and "unat (next_inode v) + 4 * length bs < 2 ^ 40"
  shows "\<exists>v'. write_chunks bs f v = Some (\<lparr>mf_file = inode_page F, mf_pos = of_nat (s + length bs)\<rparr>, v')
    \<and> file_ok v' F (pages_for (s + length bs)) \<and> content (v_data v') F = content (v_data v) F @ bs
    \<and> unat (word (v_data v') F 2) = s + length bs \<and> grows (pages_cost (pages_for (s + length bs)) - pages_cost (pages_for s)) (file_pages (v_data v) F (pages_for s)) v v'
    \<and> file_pages (v_data v') F (pages_for (s + length bs)) \<subseteq> file_pages (v_data v) F (pages_for s) \<union> {i. next_inode v < i}"
  using assms
proof (induction bs arbitrary: s f v rule: length_induct)
  case (1 bs)
  show ?case
  proof (cases "bs = []")
    case True
    then show ?thesis using 1 grows_refl by (subst write_chunks.simps) simp
  next
    case False
    define c where "c = take 4096 bs"
    define d where "d = drop 4096 bs"
    have b: "bs = c @ d" "c \<noteq> []" "length bs = length c + length d" using False by (auto simp: c_def d_def)
    obtain v1 where v1: "file_write c f v = Some (\<lparr>mf_file = inode_page F, mf_pos = of_nat (s + length c)\<rparr>, v1)"
        "file_ok v1 F (pages_for (s + length c))" "content (v_data v1) F = content (v_data v) F @ c"
        "unat (word (v_data v1) F 2) = s + length c" "grows (pages_cost (pages_for (s + length c)) - pages_cost (pages_for s)) (file_pages (v_data v) F (pages_for s)) v v1"
        "file_pages (v_data v1) F (pages_for (s + length c)) \<subseteq> file_pages (v_data v) F (pages_for s) \<union> {i. next_inode v < i}"
      using file_write_appends [OF 1(2-5), of c] 1(6,7) b(3) by auto
    have c1: "4 \<le> 4 * length c" using b(2) by (cases c) simp_all
    have ps: "pages_for (s + length c) \<le> pages_for s + 1"
      using pages_for_add [of s "length c"] pages_for_mono [of "length c" 4096] by (simp add: c_def pages_for_def)
    have prem: "fresh v1" "s + length c + length d \<le> 528 * 4096" "unat (next_inode v1) + 4 * length d < 2 ^ 40" "length d < length bs"
      and le: "next_inode v \<le> next_inode v1"
      using v1(5) 1(6,7) b(2,3) c1 pages_cost_step [OF ps] by (auto simp: grows_def changes_def)
    obtain v' where v': "write_chunks d \<lparr>mf_file = inode_page F, mf_pos = of_nat (s + length c)\<rparr> v1
          = Some (\<lparr>mf_file = inode_page F, mf_pos = of_nat (s + length c + length d)\<rparr>, v')"
        "file_ok v' F (pages_for (s + length c + length d))" "content (v_data v') F = content (v_data v1) F @ d"
        "unat (word (v_data v') F 2) = s + length c + length d" "grows (pages_cost (pages_for (s + length c + length d)) - pages_cost (pages_for (s + length c))) (file_pages (v_data v1) F (pages_for (s + length c))) v1 v'"
        "file_pages (v_data v') F (pages_for (s + length c + length d)) \<subseteq> file_pages (v_data v1) F (pages_for (s + length c)) \<union> {i. next_inode v1 < i}"
      using 1(1) [rule_format, OF prem(4) v1(2) prem(1) refl v1(4) prem(2,3)] by blast
    have "write_chunks bs f v = Some (\<lparr>mf_file = inode_page F, mf_pos = of_nat (s + length c + length d)\<rparr>, v')"
      using v1(1) v'(1) b(2) by (subst write_chunks.simps) (simp add: c_def [symmetric] d_def [symmetric] Let_def)
    moreover have "grows (pages_cost (pages_for (s + length c)) - pages_cost (pages_for s) + (pages_cost (pages_for (s + length c + length d)) - pages_cost (pages_for (s + length c))))
        (file_pages (v_data v) F (pages_for s)) v v'"
      using v1(5) v'(5) by (rule grows_trans) (use v1(6) in auto)
    then have "grows (pages_cost (pages_for (s + length bs)) - pages_cost (pages_for s)) (file_pages (v_data v) F (pages_for s)) v v'"
      using pages_cost_mono [OF pages_for_mono [of s "s + length c"]]
        pages_cost_mono [OF pages_for_mono [of "s + length c" "s + length c + length d"]] by (simp add: b(3) add.assoc)
    moreover have "file_pages (v_data v') F (pages_for (s + length c + length d)) \<subseteq> file_pages (v_data v) F (pages_for s) \<union> {i. next_inode v < i}"
      using v1(6) v'(6) le by fastforce
    ultimately show ?thesis using v' v1(3) b(1) by (simp add: add.assoc distrib_left)
  qed
qed


section \<open>The files of a volume\<close>

definition holds :: "MfsVolume \<Rightarrow> u64 \<Rightarrow> u8 list \<Rightarrow> bool" where
  "holds v F bs \<longleftrightarrow> file_ok v F (pages_for (length bs)) \<and> content (v_data v) F = bs"

text \<open>The pages of the file at \<open>F\<close>; a null pointer leads to none.\<close>

definition pages_of_file :: "MfsVolume \<Rightarrow> u64 \<Rightarrow> u64 set" where
  "pages_of_file v F = {i \<in> file_pages (v_data v) F (pages_for (length (content (v_data v) F))). plain i}"

text \<open>
  A volume whose files are those of \<open>files\<close>, a map from inodes to bytes: each is well-formed, they share
  no page, and what is not given out is blank.
\<close>

definition volume_holds :: "MfsVolume \<Rightarrow> (u64 \<rightharpoonup> u8 list) \<Rightarrow> bool" where
  "volume_holds v files \<longleftrightarrow> fresh v \<and> (\<forall>F bs. files F = Some bs \<longrightarrow> holds v F bs)
     \<and> (\<forall>F \<in> dom files. \<forall>G \<in> dom files. F \<noteq> G \<longrightarrow> pages_of_file v F \<inter> pages_of_file v G = {})"

lemma holds_size: "holds v F bs \<Longrightarrow> unat (word (v_data v) F 2) = length bs"
  by (auto simp: holds_def)

lemma pages_given_out:
  assumes "holds v F bs" and "i \<in> pages_of_file v F"
  shows "i \<le> next_inode v"
  using assms by (auto simp: holds_def pages_of_file_def file_pages_def file_ok_def plain_def split: if_splits)

lemma changes_plain: "changes k X v v' \<Longrightarrow> {i \<in> X. plain i} \<subseteq> Y \<Longrightarrow> changes k Y v v'"
  unfolding changes_def by blast

lemma grows_changes: "grows k X v v' \<Longrightarrow> changes k X v v'"
  by (simp add: grows_def)

lemma changes_holds:
  assumes "changes k X v v'" and "holds v G bs" and "pages_of_file v G \<inter> X = {}"
  shows "holds v' G bs" and "pages_of_file v' G = pages_of_file v G"
proof -
  have ok: "file_ok v G (pages_for (length bs))" and c: "content (v_data v) G = bs" using assms(2) by (simp_all add: holds_def)
  have p: "changes k {i \<in> X. plain i} v v'" by (rule changes_plain [OF assms(1)]) blast
  have "file_pages (v_data v) G (pages_for (length bs)) \<inter> {i \<in> X. plain i} = {}"
    using assms(3) c by (auto simp: pages_of_file_def)
  note g = changes_file [OF p ok this, unfolded holds_size [OF assms(2)], OF order_refl]
  show "holds v' G bs" using g(1,2) c by (simp add: holds_def)
  show "pages_of_file v' G = pages_of_file v G" using g(1,3) c by (simp add: pages_of_file_def)
qed

text \<open>One file changes or is new; the others are as they were.\<close>

lemma volume_holds_update:
  assumes "volume_holds v files" and "grows k X v v'" and "{i \<in> X. plain i} \<subseteq> pages_of_file v F \<union> {i. next_inode v < i}"
    and "holds v' F bs" and "pages_of_file v' F \<subseteq> pages_of_file v F \<union> {i. next_inode v < i}"
    and "F \<in> dom files \<or> pages_of_file v F \<inter> {i. i \<le> next_inode v} = {}"
  shows "volume_holds v' (files(F \<mapsto> bs))"
proof -
  have old: "holds v' G cs \<and> pages_of_file v' G = pages_of_file v G \<and> pages_of_file v G \<inter> pages_of_file v' F = {}"
    if G: "files G = Some cs" "G \<noteq> F" for G cs
  proof -
    have h: "holds v G cs" using assms(1) G by (simp add: volume_holds_def)
    note le = pages_given_out [OF h]
    have "pages_of_file v G \<inter> pages_of_file v F = {}"
      using assms(1,6) G le unfolding volume_holds_def by (blast dest: domI)
    then have d: "pages_of_file v G \<inter> (pages_of_file v F \<union> {i. next_inode v < i}) = {}" using le by fastforce
    have "pages_of_file v G \<inter> {i \<in> X. plain i} = {}" using d assms(3) by blast
    then show ?thesis using changes_holds [OF changes_plain [OF grows_changes [OF assms(2)] order_refl] h] d assms(5) by blast
  qed
  show ?thesis
    unfolding volume_holds_def
  proof (intro conjI allI impI ballI)
    show "fresh v'" using assms(2) by (simp add: grows_def changes_def)
    show "holds v' G cs" if "(files(F \<mapsto> bs)) G = Some cs" for G cs
      using that assms(4) old by (auto split: if_splits)
    show "pages_of_file v' G \<inter> pages_of_file v' H = {}"
      if GH: "G \<in> dom (files(F \<mapsto> bs))" "H \<in> dom (files(F \<mapsto> bs))" "G \<noteq> H" for G H
    proof (cases "G = F \<or> H = F")
      case True
      then show ?thesis using GH old by (auto simp: Int_commute)
    next
      case False
      then obtain cs ds where "files G = Some cs" "files H = Some ds" using GH by auto
      then show ?thesis using old False assms(1) GH(3) unfolding volume_holds_def by (metis domI)
    qed
  qed
qed


section \<open>New files, and entries of directories\<close>

lemma file_pages_empty: "file_ok v F (pages_for 0) \<Longrightarrow> file_pages (v_data v) F (pages_for 0) = {F, 0}"
  by (auto simp: file_pages_def file_ok_def)

lemma not_plain_0 [simp]: "\<not> plain 0"
  by (simp add: plain_def)

definition grown :: "nat \<Rightarrow> MfsVolume \<Rightarrow> MfsVolume \<Rightarrow> bool" where
  "grown k v v' \<longleftrightarrow> v_root v' = v_root v \<and> v_size v' = v_size v \<and> next_inode v \<le> next_inode v' \<and> unat (next_inode v') \<le> unat (next_inode v) + k
     \<and> low_same (v_data v) (v_data v')"

lemma grown_refl: "grown k v v"
  by (simp add: grown_def)

lemma grown_trans: "grown k v v' \<Longrightarrow> grown l v' v'' \<Longrightarrow> grown (k + l) v v''"
  unfolding grown_def by (auto intro: order_trans low_same_trans)

lemma grown_mono: "grown k v v' \<Longrightarrow> k \<le> l \<Longrightarrow> grown l v v'"
  by (auto simp: grown_def)

lemma grows_grown: "grows k X v v' \<Longrightarrow> grown k v v'"
  by (simp add: grows_def changes_def grown_def)

lemma volume_inodes:
  assumes "volume_holds v files" and "F \<in> dom files"
  shows "plain F" and "F \<le> next_inode v"
  using assms by (auto simp: volume_holds_def holds_def file_ok_def)

text \<open>A file or directory that is made and written is new, and nothing else changes.\<close>

lemma new_file_spec:
  assumes "volume_holds v files" and "length bs \<le> 528 * 4096" and "unat (next_inode v) + (4 * length bs + 2) < 2 ^ 40"
  obtains F v1 f v2 where "create_file_raw mode v = (F, v1)" and "write_chunks bs (inode_open F) v1 = Some (f, v2)"
    and "F \<notin> dom files" and "volume_holds v2 (files(F \<mapsto> bs))" and "grown (pages_cost (pages_for (length bs)) + 2) v v2"
    and "next_inode v < F" and "plain F"
proof -
  obtain F v1 where c: "create_file_raw mode v = (F, v1)" by (cases "create_file_raw mode v")
  have fr: "fresh v" using assms(1) by (simp add: volume_holds_def)
  have "unat (next_inode v) + 2 < 2 ^ 40" using assms(3) by simp
  note cr = create_file_raw_spec [OF c fr this]
  have fr1: "fresh v1" and nx1: "unat (next_inode v1) \<le> unat (next_inode v) + 2" "next_inode v \<le> next_inode v1"
    using cr(6) by (auto simp: grows_def changes_def)
  have open0: "inode_open F = \<lparr>mf_file = inode_page F, mf_pos = of_nat 0\<rparr>" by (simp add: inode_open_def)
  have "unat (word (v_data v1) F 2) = 0" "0 + length bs \<le> 528 * 4096" "unat (next_inode v1) + 4 * length bs < 2 ^ 40"
    using cr(4) assms(2,3) nx1 by simp_all
  from write_chunks_appends [OF cr(3) fr1 open0 this, unfolded pages_for_0 file_pages_empty [OF cr(3), unfolded pages_for_0] cr(5) add_0 append_Nil pages_cost_0 diff_zero]
  obtain f v2 where w: "write_chunks bs (inode_open F) v1 = Some (f, v2)" "file_ok v2 F (pages_for (length bs))"
      "content (v_data v2) F = bs" "grows (pages_cost (pages_for (length bs))) {F, 0} v1 v2" "file_pages (v_data v2) F (pages_for (length bs)) \<subseteq> {F, 0} \<union> {i. next_inode v1 < i}"
    by blast
  have g: "grows (2 + pages_cost (pages_for (length bs))) {F, 0} v v2"
    using cr(6) w(4) by (rule grows_trans) auto
  have p: "pages_of_file v2 F \<subseteq> {F} \<union> {i. next_inode v < i}"
    using w(3,5) nx1(2) by (auto simp: pages_of_file_def)
  have Fn: "F \<notin> dom files" using volume_inodes [OF assms(1)] cr(2) leD by blast
  have z: "file_pages (v_data v) F (pages_for (length (content (v_data v) F))) \<inter> {i. plain i \<and> i \<le> next_inode v} = {}"
    if "content (v_data v) F = []" "word (v_data v) F 23 = 0" using that cr(2) by (auto simp: file_pages_def)
  have b: "blank (v_data v) F" using fr cr(1,2) by (simp add: fresh_def)
  have "content (v_data v) F = []" "word (v_data v) F 23 = 0"
    using blank_word [OF b, of 2] blank_word [OF b, of 23] by (simp_all add: content_def)
  from z [OF this] have "pages_of_file v F \<inter> {i. i \<le> next_inode v} = {}" by (auto simp: pages_of_file_def)
  then have e: "F \<in> dom files \<or> pages_of_file v F \<inter> {i. i \<le> next_inode v} = {}" by blast
  have "volume_holds v2 (files(F \<mapsto> bs))"
  proof (rule volume_holds_update [OF assms(1) g _ _ _ e])
    show "{i \<in> {F, 0}. plain i} \<subseteq> pages_of_file v F \<union> {i. next_inode v < i}" using cr(2) by auto
    show "holds v2 F bs" using w(2,3) by (simp add: holds_def)
    show "pages_of_file v2 F \<subseteq> pages_of_file v F \<union> {i. next_inode v < i}" using p cr(2) by auto
  qed
  moreover have "grown (pages_cost (pages_for (length bs)) + 2) v v2" using grows_grown [OF g] by (simp add: add.commute)
  ultimately show thesis using that c w(1) Fn cr(1,2) by blast
qed

lemma file_write_spec:
  assumes "volume_holds v files" and "files d = Some es" and "length es + length bs \<le> 528 * 4096"
    and "unat (next_inode v) + 4 * length bs < 2 ^ 40"
  obtains v' where "file_write bs \<lparr>mf_file = inode_page d, mf_pos = of_nat (length es)\<rparr> v
      = Some (\<lparr>mf_file = inode_page d, mf_pos = of_nat (length (es @ bs))\<rparr>, v')"
    and "volume_holds v' (files(d \<mapsto> es @ bs))" and "grown (pages_cost (pages_for (length (es @ bs))) - pages_cost (pages_for (length es))) v v'"
proof -
  have h: "holds v d es" and fr: "fresh v" using assms(1,2) by (simp_all add: volume_holds_def)
  then have ok: "file_ok v d (pages_for (length es))" and c: "content (v_data v) d = es" by (simp_all add: holds_def)
  obtain v' where v': "file_write bs \<lparr>mf_file = inode_page d, mf_pos = of_nat (length es)\<rparr> v
      = Some (\<lparr>mf_file = inode_page d, mf_pos = of_nat (length es + length bs)\<rparr>, v')"
      "file_ok v' d (pages_for (length es + length bs))" "content (v_data v') d = es @ bs"
      "grows (pages_cost (pages_for (length es + length bs)) - pages_cost (pages_for (length es))) (file_pages (v_data v) d (pages_for (length es))) v v'"
      "file_pages (v_data v') d (pages_for (length es + length bs)) \<subseteq> file_pages (v_data v) d (pages_for (length es)) \<union> {i. next_inode v < i}"
    using file_write_appends [OF ok fr refl holds_size [OF h] assms(3,4)] c by auto
  have "volume_holds v' (files(d \<mapsto> es @ bs))"
    using v' c assms(2) by (intro volume_holds_update [OF assms(1) v'(4)]) (auto simp: holds_def pages_of_file_def)
  then show thesis using that v'(1) grows_grown [OF v'(4)] by simp
qed

end
