(* ===== verification/MfsTree.thy ===== *)
theory MfsTree
  imports MfsDirs "HOL-Library.Sublist"
begin

text \<open>
  Directories of a volume: what mkvolume.c appends to them and finds in them, and the tree of directories
  that \<open>copy_file\<close> extends by a file.
\<close>

section \<open>Directories\<close>

text \<open>The bytes of a directory with these entries, and the names that are C strings.\<close>

definition dirent_bytes :: "u64 \<times> u8 list \<Rightarrow> u8 list" where
  "dirent_bytes e = dir_entry (fst e) (of_nat (length (snd e))) @ snd e"

definition dir_bytes :: "(u64 \<times> u8 list) list \<Rightarrow> u8 list" where
  "dir_bytes es = concat (map dirent_bytes es)"

definition names_ok :: "(u64 \<times> u8 list) list \<Rightarrow> bool" where
  "names_ok es \<longleftrightarrow> (\<forall>(i, n) \<in> set es. 0 \<notin> set n \<and> length n < 2 ^ 32)"

text \<open>The entry that is found: the first whose name begins the name that is asked for.\<close>

definition first_match :: "(u64 \<times> u8 list) list \<Rightarrow> u8 list \<Rightarrow> u64 option" where
  "first_match es name = map_option fst (find (\<lambda>e. prefix (snd e) name) es)"

text \<open>The first entry with exactly this name, which the boot loader takes.\<close>

definition exact_match :: "(u64 \<times> u8 list) list \<Rightarrow> u8 list \<Rightarrow> u64 option" where
  "exact_match ents name = map_option fst (find (\<lambda>e. snd e = name) ents)"

lemma exact_match_append: "exact_match (es @ fs) name = (case exact_match es name of None \<Rightarrow> exact_match fs name | Some i \<Rightarrow> Some i)"
  by (induction es) (simp_all add: exact_match_def)

lemma exact_match_new: "name \<notin> snd ` set es \<Longrightarrow> exact_match (es @ [(i, name)]) name = Some i"
  by (induction es) (auto simp: exact_match_def)

lemma of_nat_u64_eq: "a < 2 ^ 64 \<Longrightarrow> b < 2 ^ 64 \<Longrightarrow> of_nat a = (of_nat b :: u64) \<longleftrightarrow> a = b"
  by (metis unat_of_nat_u64)

lemma dir_bytes_simps [simp]:
  "dir_bytes [] = []" "dir_bytes (e # es) = dirent_bytes e @ dir_bytes es" "dir_bytes (es @ es') = dir_bytes es @ dir_bytes es'"
  by (simp_all add: dir_bytes_def)

lemma length_dir_entry [simp]: "length (dir_entry i n) = 12"
  by (simp add: dir_entry_def)

lemma length_dirent_bytes [simp]: "length (dirent_bytes e) = 12 + length (snd e)"
  by (simp add: dirent_bytes_def)

lemma first_match_append: "first_match (es @ es') name = (case first_match es name of None \<Rightarrow> first_match es' name | Some i \<Rightarrow> Some i)"
  by (induction es) (simp_all add: first_match_def)

lemma first_match_Cons: "first_match (e # es) name = (if prefix (snd e) name then Some (fst e) else first_match es name)"
  by (simp add: first_match_def)

lemma first_match_Nil [simp]: "first_match [] name = None"
  by (simp add: first_match_def)

lemma first_match_entry:
  assumes "first_match es name = Some i"
  obtains m where "(i, m) \<in> set es" and "prefix m name"
proof -
  obtain e where "find (\<lambda>e. prefix (snd e) name) es = Some e" "i = fst e" using assms by (auto simp: first_match_def)
  then have "e \<in> set es" "prefix (snd e) name" by (auto simp: find_Some_iff)
  then show thesis using that [of "snd e"] \<open>i = fst e\<close> by simp
qed

lemma strncmp_eq_prefix: "0 \<notin> set n \<Longrightarrow> strncmp_eq (n @ x) (name @ [0]) (length n) \<longleftrightarrow> prefix n name"
  by (induction n arbitrary: name) (case_tac name; auto)+

lemma file_read_spec:
  assumes "holds v F bs" and "s \<le> length bs" and "length bs + L < 2 ^ 63"
  shows "file_read \<lparr>mf_file = inode_page F, mf_pos = of_nat s\<rparr> (of_nat L) v
    = Some (take L (drop s bs), \<lparr>mf_file = inode_page F, mf_pos = of_nat (min (length bs) (s + L))\<rparr>, v)"
  using file_read_loop [OF _ holds_size [OF assms(1), symmetric] assms(2) refl assms(3), of "[]"] assms(1)
  by (simp add: file_read_def holds_def)

lemma file_size_spec:
  "holds v F bs \<Longrightarrow> load64 (v_data v) (file_size_at (inode_page F)) = of_nat (length bs)"
  by (simp add: holds_size [symmetric] word_def file_size_at_def)

lemma find_file_from_spec:
  assumes "holds v F bs" and "bs = p @ dir_bytes es" and "names_ok es" and "length bs < 2 ^ 62" and "length e = 12"
  shows "find_file_from e b \<lparr>mf_file = inode_page F, mf_pos = of_nat (length p)\<rparr> name v
    = Some (case first_match es name of None \<Rightarrow> 0 | Some i \<Rightarrow> i, v)"
  using assms(2,3,5)
proof (induction es arbitrary: p e b)
  case Nil
  then show ?case using file_size_spec [OF assms(1)] by (subst find_file_from.simps) simp
next
  case (Cons x es)
  obtain i n where x: "x = (i, n)" by force
  have n: "0 \<notin> set n" "length n < 2 ^ 32" and es: "names_ok es" using Cons.prems(2) x by (auto simp: names_ok_def)
  have bs: "bs = p @ dir_entry i (of_nat (length n)) @ n @ dir_bytes es" using Cons.prems(1) x by (simp add: dirent_bytes_def)
  have len: "length bs = length p + 12 + length n + length (dir_bytes es)" using bs by simp
  have "of_nat (length p) \<noteq> (of_nat (length bs) :: u64)"
    using len assms(4) by (subst of_nat_u64_eq) simp_all
  then have more: "of_nat (length p) \<noteq> load64 (v_data v) (file_size_at (inode_page F))"
    by (simp add: file_size_spec [OF assms(1)])
  have r1: "file_read \<lparr>mf_file = inode_page F, mf_pos = of_nat (length p)\<rparr> 12 v
      = Some (dir_entry i (of_nat (length n)), \<lparr>mf_file = inode_page F, mf_pos = of_nat (length p + 12)\<rparr>, v)"
    using file_read_spec [OF assms(1), of "length p" 12] assms(4) len by (simp add: bs)
  have r2: "file_read \<lparr>mf_file = inode_page F, mf_pos = of_nat (length p + 12)\<rparr> (of_nat (length n)) v
      = Some (n, \<lparr>mf_file = inode_page F, mf_pos = of_nat (length p + 12 + length n)\<rparr>, v)"
    using file_read_spec [OF assms(1), of "length p + 12" "length n"] assms(4) n(2) len by (simp add: bs)
  have nl: "word_le (take 4 (drop 8 (dir_entry i (of_nat (length n))))) = (of_nat (length n) :: u32)"
    "word_le (take 8 (dir_entry i (of_nat (length n)))) = i"
    by (simp_all add: dir_entry_def word_le_bytes_le)
  have un: "unat (of_nat (length n) :: u32) = length n" using n(2) by (simp add: unsigned_of_nat take_bit_nat_eq_self)
  have ul: "ucast (of_nat (length n) :: u32) = (of_nat (length n) :: u64)"
    using n(2) by (simp only: word_unat_eq_iff unsigned_ucast_eq un) (simp add: unsigned_of_nat take_bit_nat_eq_self)
  have pre: "strncmp_eq (over n b) (name @ [0]) (length n) \<longleftrightarrow> prefix n name"
    using strncmp_eq_prefix [OF n(1)] by (simp add: over_def)
  have "bs = (p @ dirent_bytes x) @ dir_bytes es" using Cons.prems(1) by simp
  note IH = Cons.IH [OF this es, of "dir_entry i (of_nat (length n))" "over n b"]
  show ?case
    using more r1 r2 nl ul un pre IH Cons.prems(3)
    by (subst find_file_from.simps) (simp add: over_def x first_match_Cons Let_def add.assoc)
qed


text \<open>The two operations on directories.\<close>

lemma find_file_dir_spec:
  assumes "volume_holds v files" and "files d = Some (dir_bytes es)" and "names_ok es" and "length (dir_bytes es) < 2 ^ 62"
  shows "find_file_dir d name v = Some (case first_match es name of None \<Rightarrow> 0 | Some i \<Rightarrow> i, v)"
proof -
  have "holds v d (dir_bytes es)" using assms(1,2) by (simp add: volume_holds_def)
  from find_file_from_spec [OF this _ assms(3,4), of "[]"] show ?thesis
    by (simp add: find_file_dir_def inode_open_def)
qed

lemma append_dir_spec:
  assumes "volume_holds v files" and "files d = Some (dir_bytes es)" and "length (dir_bytes es) + 12 + length name \<le> 528 * 4096"
    and "unat (next_inode v) + 4 * (12 + length name) < 2 ^ 40"
  obtains v' where "append_dir d name i v = Some v'" and "volume_holds v' (files(d \<mapsto> dir_bytes (es @ [(i, name)])))"
    and "length name \<le> 4084 \<Longrightarrow> grown 4 v v'"
proof -
  let ?h = "dir_entry i (of_nat (length name))"
  have h: "holds v d (dir_bytes es)" using assms(1,2) by (simp add: volume_holds_def)
  obtain v1 where v1: "file_write ?h \<lparr>mf_file = inode_page d, mf_pos = of_nat (length (dir_bytes es))\<rparr> v
      = Some (\<lparr>mf_file = inode_page d, mf_pos = of_nat (length (dir_bytes es @ ?h))\<rparr>, v1)"
      "volume_holds v1 (files(d \<mapsto> dir_bytes es @ ?h))"
      "grown (pages_cost (pages_for (length (dir_bytes es @ ?h))) - pages_cost (pages_for (length (dir_bytes es)))) v v1"
    using file_write_spec [OF assms(1,2), of ?h] assms(3,4) by auto
  let ?a = "length (dir_bytes es)" and ?b = "length (dir_bytes es @ ?h)" and ?c = "length ((dir_bytes es @ ?h) @ name)"
  have "pages_for ?b \<le> pages_for ?a + 1" using pages_for_add [of ?a 12] by (simp add: pages_for_def)
  then have "pages_cost (pages_for ?b) \<le> pages_cost (pages_for ?a) + 4" by (rule pages_cost_step)
  then have room: "unat (next_inode v1) + 4 * length name < 2 ^ 40" using v1(3) assms(4) by (auto simp: grown_def)
  obtain v' where v': "file_write name \<lparr>mf_file = inode_page d, mf_pos = of_nat (length (dir_bytes es @ ?h))\<rparr> v1
      = Some (\<lparr>mf_file = inode_page d, mf_pos = of_nat (length ((dir_bytes es @ ?h) @ name))\<rparr>, v')"
      "volume_holds v' (files(d \<mapsto> (dir_bytes es @ ?h) @ name))" "grown (pages_cost (pages_for ?c) - pages_cost (pages_for ?b)) v1 v'"
    using file_write_spec [OF v1(2) _ _ room, of d "dir_bytes es @ ?h"] assms(3) by auto
  have "append_dir d name i v = Some v'"
    using v1(1) v'(1) by (simp add: append_dir_def inode_open_def file_size_spec [OF h])
  moreover have "grown 4 v v'" if n: "length name \<le> 4084"
  proof -
    have "pages_for ?c \<le> pages_for ?a + 1"
      using pages_for_add [of ?a "12 + length name"] pages_for_mono [of "12 + length name" 4096] n by (simp add: pages_for_def)
    then have "pages_cost (pages_for ?c) \<le> pages_cost (pages_for ?a) + 4" by (rule pages_cost_step)
    moreover have "pages_cost (pages_for ?a) \<le> pages_cost (pages_for ?b)" "pages_cost (pages_for ?b) \<le> pages_cost (pages_for ?c)"
      by (intro pages_cost_mono pages_for_mono; simp)+
    ultimately show ?thesis using grown_trans [OF v1(3) v'(3)] by (elim grown_mono) simp
  qed
  ultimately show thesis using that v'(2) by (simp add: dirent_bytes_def)
qed

section \<open>The tree of directories\<close>

text \<open>The files of \<open>files\<close> that are directories, with their entries.\<close>

definition tree_holds :: "MfsVolume \<Rightarrow> (u64 \<rightharpoonup> u8 list) \<Rightarrow> (u64 \<rightharpoonup> (u64 \<times> u8 list) list) \<Rightarrow> bool" where
  "tree_holds v files dirs \<longleftrightarrow> volume_holds v files \<and> v_root v \<in> dom dirs
     \<and> (\<forall>d es. dirs d = Some es \<longrightarrow> files d = Some (dir_bytes es) \<and> names_ok es)"

text \<open>The components of a path before the last, and the last, the way \<open>copy_file\<close> takes them.\<close>

fun path_parts :: "u8 list \<Rightarrow> u8 list \<Rightarrow> u8 list list \<times> u8 list" where
  "path_parts [] e = ([], e)"
| "path_parts (c # cs) e = (if c = SLASH then (e # fst (path_parts cs []), snd (path_parts cs [])) else path_parts cs (e @ [c]))"

text \<open>The directory that a list of names leads to.\<close>

fun resolve :: "(u64 \<rightharpoonup> (u64 \<times> u8 list) list) \<Rightarrow> u64 \<Rightarrow> u8 list list \<Rightarrow> u64 option" where
  "resolve dirs d [] = Some d"
| "resolve dirs d (n # ns) =
     (case dirs d of None \<Rightarrow> None | Some es \<Rightarrow> (case first_match es n of None \<Rightarrow> None | Some i \<Rightarrow> resolve dirs i ns))"

text \<open>No name of the list is taken by a file that is not a directory, in no directory.\<close>

definition no_clash :: "(u64 \<rightharpoonup> (u64 \<times> u8 list) list) \<Rightarrow> u8 list list \<Rightarrow> bool" where
  "no_clash dirs ns \<longleftrightarrow> (\<forall>d es n i. dirs d = Some es \<longrightarrow> n \<in> set ns \<longrightarrow> first_match es n = Some i \<longrightarrow> i \<in> dom dirs)"

definition dirs_extend :: "(u64 \<rightharpoonup> (u64 \<times> u8 list) list) \<Rightarrow> (u64 \<rightharpoonup> (u64 \<times> u8 list) list) \<Rightarrow> bool" where
  "dirs_extend dirs dirs' \<longleftrightarrow> (\<forall>d es. dirs d = Some es \<longrightarrow> (\<exists>fs. dirs' d = Some (es @ fs)))"

definition dirs_room :: "nat \<Rightarrow> (u64 \<rightharpoonup> (u64 \<times> u8 list) list) \<Rightarrow> bool" where
  "dirs_room k dirs \<longleftrightarrow> (\<forall>d es. dirs d = Some es \<longrightarrow> length (dir_bytes es) + k \<le> 528 * 4096)"

text \<open>The names of the entries that are not directories.\<close>

definition file_names :: "(u64 \<rightharpoonup> (u64 \<times> u8 list) list) \<Rightarrow> u8 list set" where
  "file_names dirs = {n. \<exists>d es i. dirs d = Some es \<and> (i, n) \<in> set es \<and> i \<notin> dom dirs}"

definition all_names :: "(u64 \<rightharpoonup> (u64 \<times> u8 list) list) \<Rightarrow> u8 list set" where
  "all_names dirs = {n. \<exists>d es i. dirs d = Some es \<and> (i, n) \<in> set es}"

lemma dirs_extend_refl: "dirs_extend dirs dirs"
  by (auto simp: dirs_extend_def)

lemma dirs_extend_trans: "dirs_extend a b \<Longrightarrow> dirs_extend b c \<Longrightarrow> dirs_extend a c"
  unfolding dirs_extend_def by (metis append_assoc)

lemma resolve_extend:
  assumes "dirs_extend dirs dirs'" and "resolve dirs d ns = Some d'"
  shows "resolve dirs' d ns = Some d'"
  using assms(2)
proof (induction ns arbitrary: d)
  case (Cons n ns)
  then obtain es i where es: "dirs d = Some es" "first_match es n = Some i" "resolve dirs i ns = Some d'"
    by (auto split: option.splits)
  then obtain fs where "dirs' d = Some (es @ fs)" using assms(1) unfolding dirs_extend_def by blast
  then show ?case using es Cons.IH by (simp add: first_match_append)
qed simp


text \<open>A new file, or an empty one that is to be a directory, gets an entry in a directory.\<close>

lemma add_to_dir:
  assumes "tree_holds v files dirs" and "dirs d = Some es" and "0 \<notin> set n" and "length n \<le> 4084" and "length bs \<le> 528 * 4096"
    and "length (dir_bytes es) + 12 + length n \<le> 528 * 4096" and "unat (next_inode v) + (4 * length bs + 2 + 4 * (12 + length n)) < 2 ^ 40"
  obtains F v1 f v2 v3 where "create_file_raw mode v = (F, v1)" and "write_chunks bs (inode_open F) v1 = Some (f, v2)"
    and "append_dir d n F v2 = Some v3" and "F \<notin> dom files" and "plain F"
    and "tree_holds v3 (files(F \<mapsto> bs, d \<mapsto> dir_bytes (es @ [(F, n)]))) (dirs(d \<mapsto> es @ [(F, n)]))"
    and "grown (pages_cost (pages_for (length bs)) + 2 + 4) v v3"
proof -
  have vh: "volume_holds v files" and d: "files d = Some (dir_bytes es)" and root: "v_root v \<in> dom dirs"
    and dirs: "\<And>d es. dirs d = Some es \<Longrightarrow> files d = Some (dir_bytes es) \<and> names_ok es"
    using assms(1,2) unfolding tree_holds_def by blast+
  have room: "unat (next_inode v) + (4 * length bs + 2) < 2 ^ 40" using assms(7) by simp
  obtain F v1 f v2 where c: "create_file_raw mode v = (F, v1)" "write_chunks bs (inode_open F) v1 = Some (f, v2)" "F \<notin> dom files"
      "volume_holds v2 (files(F \<mapsto> bs))" "grown (pages_cost (pages_for (length bs)) + 2) v v2" "plain F"
    using new_file_spec [OF vh assms(5) room] by metis
  have F: "F \<noteq> d" "F \<notin> dom dirs" using c(3) d dirs by auto
  have "(files(F \<mapsto> bs)) d = Some (dir_bytes es)" "unat (next_inode v2) + 4 * (12 + length n) < 2 ^ 40"
    using F d c(5) assms(7) pages_cost_bytes [of "length bs"] by (simp_all add: grown_def)
  from append_dir_spec [OF c(4) this(1) assms(6) this(2), of F]
  obtain v3 where a: "append_dir d n F v2 = Some v3" "volume_holds v3 (files(F \<mapsto> bs, d \<mapsto> dir_bytes (es @ [(F, n)])))"
      "grown 4 v2 v3" using assms(4) by metis
  have g: "grown (pages_cost (pages_for (length bs)) + 2 + 4) v v3" using grown_trans [OF c(5) a(3)] .
  have "names_ok (es @ [(F, n)])" using dirs [OF assms(2)] assms(3,4) by (simp add: names_ok_def)
  then have new: "(files(F \<mapsto> bs, d \<mapsto> dir_bytes (es @ [(F, n)]))) e = Some (dir_bytes fs) \<and> names_ok fs"
    if "(dirs(d \<mapsto> es @ [(F, n)])) e = Some fs" for e fs
  proof (cases "e = d")
    case True
    then have "es @ [(F, n)] = fs" using that by simp
    then show ?thesis using True \<open>names_ok (es @ [(F, n)])\<close> by simp
  next
    case False
    then have e: "dirs e = Some fs" using that by simp
    then have "e \<noteq> F" using F(2) by blast
    then show ?thesis using dirs [OF e] False by simp
  qed
  have "v_root v3 \<in> dom (dirs(d \<mapsto> es @ [(F, n)]))" using root g by (simp add: grown_def)
  with a(2) new have "tree_holds v3 (files(F \<mapsto> bs, d \<mapsto> dir_bytes (es @ [(F, n)]))) (dirs(d \<mapsto> es @ [(F, n)]))"
    unfolding tree_holds_def by blast
  then show thesis using that c a(1) g by blast
qed

lemma tree_holds_directory:
  assumes "tree_holds v files dirs" and "files F = Some []"
  shows "tree_holds v files (dirs(F \<mapsto> []))"
  using assms by (auto simp: tree_holds_def names_ok_def)

lemma no_clash_add:
  assumes "no_clash dirs ns" and "dirs d = Some es" and "F \<notin> dom dirs"
  shows "no_clash (dirs(d \<mapsto> es @ [(F, n)], F \<mapsto> [])) ns"
  unfolding no_clash_def
proof (intro allI impI)
  fix e fs m i
  assume e: "(dirs(d \<mapsto> es @ [(F, n)], F \<mapsto> [])) e = Some fs" and m: "m \<in> set ns" and i: "first_match fs m = Some i"
  have old: "j \<in> dom dirs" if "dirs d' = Some es'" "first_match es' m = Some j" for d' es' j
    using assms(1) that m unfolding no_clash_def by blast
  have "fs = [] \<or> fs = es @ [(F, n)] \<or> dirs e = Some fs" using e by (simp split: if_splits)
  then consider "fs = []" | "fs = es @ [(F, n)]" | "dirs e = Some fs" by blast
  then show "i \<in> dom (dirs(d \<mapsto> es @ [(F, n)], F \<mapsto> []))"
  proof cases
    case 2
    show ?thesis
    proof (cases "first_match es m")
      case None
      then show ?thesis using 2 i by (simp add: first_match_append first_match_Cons split: if_splits)
    next
      case (Some j)
      then show ?thesis using 2 i old [OF assms(2) Some] by (simp add: first_match_append)
    qed
  next
    case 3
    then show ?thesis using old [OF 3 i] by simp
  qed (use i in simp)
qed

lemma dirs_extend_add:
  assumes "dirs d = Some es" and "F \<notin> dom dirs"
  shows "dirs_extend dirs (dirs(d \<mapsto> es @ [(F, n)], F \<mapsto> []))" and "dirs_extend dirs (dirs(d \<mapsto> es @ [(F, n)]))"
  using assms by (auto simp: dirs_extend_def)

lemma file_names_add:
  assumes "dirs d = Some es" and "F \<notin> dom dirs"
  shows "file_names (dirs(d \<mapsto> es @ [(F, n)], F \<mapsto> [])) \<subseteq> file_names dirs"
    and "file_names (dirs(d \<mapsto> es @ [(F, n)])) \<subseteq> insert n (file_names dirs)"
proof -
  show "file_names (dirs(d \<mapsto> es @ [(F, n)], F \<mapsto> [])) \<subseteq> file_names dirs"
  proof
    fix m assume "m \<in> file_names (dirs(d \<mapsto> es @ [(F, n)], F \<mapsto> []))"
    then obtain e fs i where e: "(dirs(d \<mapsto> es @ [(F, n)], F \<mapsto> [])) e = Some fs" "(i, m) \<in> set fs" "i \<notin> dom dirs" "i \<noteq> F"
      unfolding file_names_def by auto
    then have "(i, m) \<in> set es \<or> dirs e = Some fs" by (auto split: if_splits)
    then show "m \<in> file_names dirs" using e(2,3) assms(1) unfolding file_names_def by blast
  qed
  show "file_names (dirs(d \<mapsto> es @ [(F, n)])) \<subseteq> insert n (file_names dirs)"
  proof
    fix m assume "m \<in> file_names (dirs(d \<mapsto> es @ [(F, n)]))"
    then obtain e fs i where e: "(dirs(d \<mapsto> es @ [(F, n)])) e = Some fs" "(i, m) \<in> set fs" "i \<notin> dom dirs"
      unfolding file_names_def by auto
    then have "m = n \<or> (i, m) \<in> set es \<or> dirs e = Some fs" by (auto split: if_splits)
    then show "m \<in> insert n (file_names dirs)" using e(2,3) assms(1) unfolding file_names_def by blast
  qed
qed

lemma all_names_add:
  assumes "dirs d = Some es"
  shows "all_names (dirs(d \<mapsto> es @ [(F, n)], F \<mapsto> [])) \<subseteq> insert n (all_names dirs)"
    and "all_names (dirs(d \<mapsto> es @ [(F, n)])) \<subseteq> insert n (all_names dirs)"
  using assms unfolding all_names_def by (auto split: if_splits)

lemma all_names_dir: "dirs d = Some es \<Longrightarrow> snd ` set es \<subseteq> all_names dirs"
  unfolding all_names_def by force

lemma no_clash_names:
  assumes "\<And>n m. n \<in> set ns \<Longrightarrow> m \<in> file_names dirs \<Longrightarrow> \<not> prefix m n"
  shows "no_clash dirs ns"
  unfolding no_clash_def
proof (intro allI impI)
  fix d es n i assume "dirs d = Some es" "n \<in> set ns" "first_match es n = Some i"
  moreover from this(3) obtain m where "(i, m) \<in> set es" "prefix m n"
    by (rule first_match_entry)
  ultimately show "i \<in> dom dirs" using assms unfolding file_names_def by blast
qed

lemma dirs_room_add:
  assumes "dirs_room (k + (12 + length n)) dirs" and "dirs d = Some es"
  shows "dirs_room k (dirs(d \<mapsto> es @ [(F, n)], F \<mapsto> []))" and "dirs_room k (dirs(d \<mapsto> es @ [(F, n)]))"
proof -
  have r: "length (dir_bytes es) + (k + (12 + length n)) \<le> 528 * 4096" if "dirs d = Some es" for d es
    using assms(1) that unfolding dirs_room_def by blast
  show "dirs_room k (dirs(d \<mapsto> es @ [(F, n)], F \<mapsto> []))" unfolding dirs_room_def
  proof (intro allI impI)
    fix e fs assume "(dirs(d \<mapsto> es @ [(F, n)], F \<mapsto> [])) e = Some fs"
    then have "fs = [] \<or> fs = es @ [(F, n)] \<or> dirs e = Some fs" by (simp split: if_splits)
    then consider "fs = []" | "fs = es @ [(F, n)]" | "dirs e = Some fs" by blast
    then show "length (dir_bytes fs) + k \<le> 528 * 4096"
    proof cases
      case 3
      show ?thesis using r [OF 3] by linarith
    qed (use r [OF assms(2)] in simp_all)
  qed
  show "dirs_room k (dirs(d \<mapsto> es @ [(F, n)]))" unfolding dirs_room_def
  proof (intro allI impI)
    fix e fs assume "(dirs(d \<mapsto> es @ [(F, n)])) e = Some fs"
    then have "fs = es @ [(F, n)] \<or> dirs e = Some fs" by (simp split: if_splits)
    then show "length (dir_bytes fs) + k \<le> 528 * 4096"
    proof
      assume "dirs e = Some fs"
      then show ?thesis using r [of e fs] by linarith
    qed (use r [OF assms(2)] in simp)
  qed
qed

section \<open>Copying a file\<close>

lemma dirs_room_mono: "dirs_room k dirs \<Longrightarrow> l \<le> k \<Longrightarrow> dirs_room l dirs"
  unfolding dirs_room_def by (meson add_le_mono1 add_left_mono le_trans)

lemma no_clash_subset: "no_clash dirs ns \<Longrightarrow> set ms \<subseteq> set ns \<Longrightarrow> no_clash dirs ms"
  unfolding no_clash_def by blast

text \<open>A tree that has grown: every directory and every file that was there still is.\<close>

definition tree_grows :: "(u64 \<rightharpoonup> u8 list) \<Rightarrow> (u64 \<rightharpoonup> (u64 \<times> u8 list) list) \<Rightarrow> MfsVolume \<Rightarrow> (u64 \<rightharpoonup> u8 list) \<Rightarrow> (u64 \<rightharpoonup> (u64 \<times> u8 list) list) \<Rightarrow> bool" where
  "tree_grows files dirs v' files' dirs' \<longleftrightarrow> tree_holds v' files' dirs' \<and> dirs_extend dirs dirs' \<and> dom files \<subseteq> dom files'
     \<and> (\<forall>F bs. files F = Some bs \<longrightarrow> F \<notin> dom dirs \<longrightarrow> files' F = Some bs \<and> F \<notin> dom dirs')"

lemma tree_grows_refl: "tree_holds v files dirs \<Longrightarrow> tree_grows files dirs v files dirs"
  by (simp add: tree_grows_def dirs_extend_refl)

lemma tree_grows_trans: "tree_grows files dirs v1 f1 d1 \<Longrightarrow> tree_grows f1 d1 v2 f2 d2 \<Longrightarrow> tree_grows files dirs v2 f2 d2"
  unfolding tree_grows_def using dirs_extend_trans by blast

lemma tree_grows_add:
  assumes "tree_holds v' (files(F \<mapsto> bs, d \<mapsto> dir_bytes (es @ [(F, n)]))) dirs'" and "dirs d = Some es" and "files d \<noteq> None" and "F \<notin> dom files" and "F \<notin> dom dirs"
    and "dirs' = dirs(d \<mapsto> es @ [(F, n)], F \<mapsto> []) \<or> dirs' = dirs(d \<mapsto> es @ [(F, n)])"
  shows "tree_grows files dirs v' (files(F \<mapsto> bs, d \<mapsto> dir_bytes (es @ [(F, n)]))) dirs'"
proof -
  have "dirs_extend dirs dirs'" using assms(6) dirs_extend_add [OF assms(2,5)] by blast
  moreover have "(files(F \<mapsto> bs, d \<mapsto> dir_bytes (es @ [(F, n)]))) G = Some cs \<and> G \<notin> dom dirs'" if G: "files G = Some cs" "G \<notin> dom dirs" for G cs
  proof -
    have "G \<noteq> F" "G \<noteq> d" using assms(2,4) G by auto
    then show ?thesis using G assms(6) by auto
  qed
  ultimately show ?thesis using assms(1) unfolding tree_grows_def by auto
qed

text \<open>A directory that is not there is made, with its entry.\<close>

lemma make_dir:
  assumes "tree_holds v files dirs" and "dirs d = Some es" and "0 \<notin> set n" and "length n \<le> 4084"
    and "length (dir_bytes es) + 12 + length n \<le> 528 * 4096" and "unat (next_inode v) + (2 + 4 * (12 + length n)) < 2 ^ 40"
  obtains F v1 v2 files' where "create_directory v = (F, v1)" and "append_dir d n F v1 = Some v2" and "F \<noteq> d" and "F \<notin> dom dirs"
    and "tree_grows files dirs v2 files' (dirs(d \<mapsto> es @ [(F, n)], F \<mapsto> []))" and "grown 6 v v2"
proof -
  have dirs: "files d = Some (dir_bytes es) \<and> names_ok es" if "dirs d = Some es" for d es using assms(1) that unfolding tree_holds_def by blast
  have "length ([] :: u8 list) \<le> 528 * 4096" "unat (next_inode v) + (4 * length ([] :: u8 list) + 2 + 4 * (12 + length n)) < 2 ^ 40" using assms(6) by simp_all
  from add_to_dir [OF assms(1-4) this(1) assms(5) this(2), where mode = "MFS_TYPE_DIR OR 0x1ed"]
  obtain F v1 f v2 v3 where a: "create_directory v = (F, v1)" "write_chunks [] (inode_open F) v1 = Some (f, v2)"
      "append_dir d n F v2 = Some v3" "F \<notin> dom files"
      "tree_holds v3 (files(F \<mapsto> [], d \<mapsto> dir_bytes (es @ [(F, n)]))) (dirs(d \<mapsto> es @ [(F, n)]))"
      "grown (pages_cost (pages_for (length ([] :: u8 list))) + 2 + 4) v v3"
    unfolding create_directory_def by metis
  have v2: "v2 = v1" using a(2) by (subst (asm) write_chunks.simps) simp
  have Fd: "F \<noteq> d" "F \<notin> dom dirs" using a(4) dirs assms(2) by auto
  have "tree_holds v3 (files(F \<mapsto> [], d \<mapsto> dir_bytes (es @ [(F, n)]))) (dirs(d \<mapsto> es @ [(F, n)], F \<mapsto> []))"
    by (rule tree_holds_directory [OF a(5)]) (use Fd in simp)
  then have "tree_grows files dirs v3 (files(F \<mapsto> [], d \<mapsto> dir_bytes (es @ [(F, n)]))) (dirs(d \<mapsto> es @ [(F, n)], F \<mapsto> []))"
    using dirs [OF assms(2)] by (intro tree_grows_add [OF _ assms(2) _ a(4) Fd(2)]) simp_all
  moreover have "grown 6 v v3" using a(6) by simp
  ultimately show thesis using that a(1,3) Fd by (simp add: v2)
qed

text \<open>The directories of a path, those that are there and those that are made.\<close>

lemma copy_dirs_spec:
  assumes "tree_holds v files dirs" and "d \<in> dom dirs" and "no_clash dirs (fst (path_parts cs e))" and "0 \<notin> set cs" and "0 \<notin> set e"
    and "dirs_room (length e + length cs + 12 * (count_list cs SLASH + 1) + K) dirs" and "unat (next_inode v) + 60 * (length e + length cs) < 2 ^ 40"
    and "length e + length cs \<le> 4084"
  shows "\<exists>v' files' dirs' d'. copy_dirs cs e d v = Some (d', snd (path_parts cs e), v') \<and> tree_grows files dirs v' files' dirs'
    \<and> resolve dirs' d (fst (path_parts cs e)) = Some d' \<and> d' \<in> dom dirs' \<and> grown (6 * count_list cs SLASH) v v'
    \<and> dirs_room (length (snd (path_parts cs e)) + 12 + K) dirs' \<and> file_names dirs' \<subseteq> file_names dirs
    \<and> all_names dirs' \<subseteq> all_names dirs \<union> set (fst (path_parts cs e))"
  using assms
proof (induction cs arbitrary: e d v files dirs)
  case Nil
  then show ?case using tree_grows_refl grown_refl by fastforce
next
  case (Cons c cs)
  show ?case
  proof (cases "c = SLASH")
    case False
    have "no_clash dirs (fst (path_parts cs (e @ [c])))" "0 \<notin> set cs" "0 \<notin> set (e @ [c])"
      "dirs_room (length (e @ [c]) + length cs + 12 * (count_list cs SLASH + 1) + K) dirs" "unat (next_inode v) + 60 * (length (e @ [c]) + length cs) < 2 ^ 40"
      "length (e @ [c]) + length cs \<le> 4084"
      using Cons.prems False by (simp_all add: add.commute add.left_commute)
    from Cons.IH [OF Cons.prems(1,2) this] show ?thesis using False by simp
  next
    case True
    have vh: "volume_holds v files" and dirs: "\<And>d es. dirs d = Some es \<Longrightarrow> files d = Some (dir_bytes es) \<and> names_ok es"
      using Cons.prems(1) unfolding tree_holds_def by blast+
    obtain es where es: "dirs d = Some es" using Cons.prems(2) by blast
    have room: "length (dir_bytes es) + (length e + length (c # cs) + 12 * (count_list (c # cs) SLASH + 1) + K) \<le> 528 * 4096"
      using Cons.prems(6) es unfolding dirs_room_def by blast
    then have "length (dir_bytes es) < 2 ^ 62" by simp
    with find_file_dir_spec [OF vh] dirs [OF es]
    have find: "find_file_dir d e v = Some (case first_match es e of None \<Rightarrow> 0 | Some i \<Rightarrow> i, v)" by blast
    let ?ns = "fst (path_parts cs [])" and ?e = "snd (path_parts cs [])"
    have parts: "path_parts (c # cs) e = (e # ?ns, ?e)" using True by simp
    have clash: "no_clash dirs ?ns" using Cons.prems(3) unfolding parts by (rule no_clash_subset) auto
    have cs: "0 \<notin> set cs" "0 \<notin> set ([] :: u8 list)" "length ([] :: u8 list) + length cs \<le> 4084" using Cons.prems(4,8) by simp_all
    show ?thesis
    proof (cases "first_match es e")
      case (Some i)
      then have i: "i \<in> dom dirs" using Cons.prems(3) es unfolding parts no_clash_def by auto
      then have "i \<in> dom files" using dirs by blast
      then have "i \<noteq> 0" using volume_inodes(1) [OF vh] by fastforce
      then have step: "copy_dirs (c # cs) e d v = copy_dirs cs [] i v" using find Some True by simp
      have rm: "dirs_room (length ([] :: u8 list) + length cs + 12 * (count_list cs SLASH + 1) + K) dirs" by (rule dirs_room_mono [OF Cons.prems(6)]) simp
      have nx: "unat (next_inode v) + 60 * (length ([] :: u8 list) + length cs) < 2 ^ 40" using Cons.prems(7) by simp
      obtain v' files' dirs' d' where r: "copy_dirs cs [] i v = Some (d', ?e, v')" "tree_grows files dirs v' files' dirs'"
          "resolve dirs' i ?ns = Some d'" "d' \<in> dom dirs'" "grown (6 * count_list cs SLASH) v v'"
          "dirs_room (length ?e + 12 + K) dirs'" "file_names dirs' \<subseteq> file_names dirs" "all_names dirs' \<subseteq> all_names dirs \<union> set ?ns"
        using Cons.IH [OF Cons.prems(1) i clash cs(1,2) rm nx cs(3), unfolded list.size(3) add_0] by blast
      obtain fs where "dirs' d = Some (es @ fs)" using r(2) es unfolding tree_grows_def dirs_extend_def by blast
      then have "resolve dirs' d (e # ?ns) = Some d'" using r(3) Some by (simp add: first_match_append)
      moreover have "grown (6 * count_list (c # cs) SLASH) v v'" by (rule grown_mono [OF r(5)]) simp
      moreover have "all_names dirs' \<subseteq> all_names dirs \<union> set (e # ?ns)" using r(8) by auto
      ultimately show ?thesis unfolding parts step fst_conv snd_conv using r(1,2,4,6,7) by blast
    next
      case None
      have "length e \<le> 4084" "length (dir_bytes es) + 12 + length e \<le> 528 * 4096" "unat (next_inode v) + (2 + 4 * (12 + length e)) < 2 ^ 40"
        using room Cons.prems(7,8) by simp_all
      from make_dir [OF Cons.prems(1) es Cons.prems(5) this]
      obtain F v1 v2 f where a: "create_directory v = (F, v1)" "append_dir d e F v1 = Some v2" "F \<noteq> d" "F \<notin> dom dirs"
          "tree_grows files dirs v2 f (dirs(d \<mapsto> es @ [(F, e)], F \<mapsto> []))" "grown 6 v v2" by metis
      let ?d = "dirs(d \<mapsto> es @ [(F, e)], F \<mapsto> [])"
      have step: "copy_dirs (c # cs) e d v = copy_dirs cs [] F v2" using find None True a(1,2) by simp
      have t: "tree_holds v2 f ?d" using a(5) by (simp add: tree_grows_def)
      have "dirs_room (length ([] :: u8 list) + length cs + 12 * (count_list cs SLASH + 1) + K + (12 + length e)) dirs"
        by (rule dirs_room_mono [OF Cons.prems(6)]) (simp add: True)
      note rm = dirs_room_add(1) [OF this es, of F]
      have nx: "unat (next_inode v2) + 60 * (length ([] :: u8 list) + length cs) < 2 ^ 40"
        using a(6) Cons.prems(7) by (simp add: grown_def)
      have Fin: "F \<in> dom ?d" by simp
      obtain v' files' dirs' d' where r: "copy_dirs cs [] F v2 = Some (d', ?e, v')" "tree_grows f ?d v' files' dirs'"
          "resolve dirs' F ?ns = Some d'" "d' \<in> dom dirs'" "grown (6 * count_list cs SLASH) v2 v'"
          "dirs_room (length ?e + 12 + K) dirs'" "file_names dirs' \<subseteq> file_names ?d" "all_names dirs' \<subseteq> all_names ?d \<union> set ?ns"
        using Cons.IH [OF t Fin no_clash_add [OF clash es a(4)] cs(1,2) rm nx cs(3), unfolded list.size(3) add_0] by blast
      have "?d d = Some (es @ [(F, e)])" using a(3) by simp
      then obtain fs where "dirs' d = Some ((es @ [(F, e)]) @ fs)" using r(2) unfolding tree_grows_def dirs_extend_def by blast
      then have "resolve dirs' d (e # ?ns) = Some d'" using r(3) None by (simp add: first_match_append first_match_Cons)
      moreover have "grown (6 + 6 * count_list cs SLASH) v v'" using a(6) r(5) by (rule grown_trans)
      then have "grown (6 * count_list (c # cs) SLASH) v v'" by (rule grown_mono) (simp add: True)
      moreover have "tree_grows files dirs v' files' dirs'" using a(5) r(2) by (rule tree_grows_trans)
      moreover have "file_names dirs' \<subseteq> file_names dirs" using r(7) file_names_add(1) [OF es a(4)] by (rule order_trans)
      moreover have "all_names dirs' \<subseteq> all_names dirs \<union> set (e # ?ns)" using r(8) all_names_add(1) [of dirs d es F e, OF es] by auto
      ultimately show ?thesis unfolding parts step fst_conv snd_conv using r(1,4,6) by blast
    qed
  qed
qed


text \<open>The components of a path, without a slash in front.\<close>

definition parts_of :: "u8 list \<Rightarrow> u8 list list \<times> u8 list" where
  "parts_of path = path_parts (case path of c # cs \<Rightarrow> if c = SLASH then cs else path | [] \<Rightarrow> path) []"

lemma path_parts_name: "set (snd (path_parts cs e)) \<subseteq> set cs \<union> set e" "length (snd (path_parts cs e)) \<le> length cs + length e"
  by (induction cs e rule: path_parts.induct) auto

text \<open>The inodes that a file takes, with the directories of its path: 6 for each directory, 2 for the inode, 4 for the entry, and
  those of its pages.\<close>

definition file_cost :: "u8 list \<Rightarrow> nat \<Rightarrow> nat" where
  "file_cost path n = 6 * count_list path SLASH + 6 + pages_cost (pages_for n)"

text \<open>The bytes that the entries of a path take in directories, at most.\<close>

definition entries_size :: "u8 list \<Rightarrow> nat" where
  "entries_size path = length path + 12 * (count_list path SLASH + 1)"

lemma count_list_le: "count_list xs x \<le> length xs"
  by (induction xs) auto

lemma file_cost_le: "file_cost path n \<le> 6 * (length path + 1) + 4 * n"
  using count_list_le [of path SLASH] pages_cost_bytes [of n] by (simp add: file_cost_def)

lemma entries_size_le: "entries_size path \<le> 13 * (length path + 1)"
  using count_list_le [of path SLASH] by (simp add: entries_size_def)

lemma copy_file_spec:
  assumes "tree_holds v files dirs" and "no_clash dirs (fst (parts_of path))" and "0 \<notin> set path" and "length bytes \<le> 528 * 4096"
    and "dirs_room (entries_size path + K) dirs" and "unat (next_inode v) + 64 * (length path + 1) + 4 * length bytes < 2 ^ 40"
    and "length path < 1024"
  obtains v' files' dirs' d es F where "copy_file path bytes v = Some v'" and "tree_grows files dirs v' files' dirs'"
    and "resolve dirs' (v_root v) (fst (parts_of path)) = Some d" and "dirs' d = Some (es @ [(F, snd (parts_of path))])"
    and "files' F = Some bytes" and "F \<notin> dom files" and "F \<notin> dom dirs'"
    and "grown (file_cost path (length bytes)) v v'" and "dirs_room K dirs'"
    and "file_names dirs' \<subseteq> insert (snd (parts_of path)) (file_names dirs)"
    and "snd ` set es \<subseteq> all_names dirs \<union> set (fst (parts_of path))"
    and "all_names dirs' \<subseteq> insert (snd (parts_of path)) (all_names dirs \<union> set (fst (parts_of path)))"
proof -
  define cs where "cs = (case path of c # cs \<Rightarrow> if c = SLASH then cs else path | [] \<Rightarrow> path)"
  have cs: "0 \<notin> set cs" "length cs \<le> length path" "count_list cs SLASH \<le> count_list path SLASH" using assms(3) by (auto simp: cs_def split: list.splits)
  have parts: "parts_of path = path_parts cs []" by (simp add: parts_of_def cs_def)
  let ?ns = "fst (parts_of path)" and ?e = "snd (parts_of path)"
  have e: "0 \<notin> set ?e" "length ?e \<le> length path" using path_parts_name [of cs "[]"] cs unfolding parts by auto
  have root: "v_root v \<in> dom dirs" using assms(1) by (simp add: tree_holds_def)
  have z: "0 \<notin> set ([] :: u8 list)" by simp
  have rm: "dirs_room (length ([] :: u8 list) + length cs + 12 * (count_list cs SLASH + 1) + K) dirs"
    by (rule dirs_room_mono [OF assms(5)]) (use cs(2,3) in \<open>simp add: entries_size_def\<close>)
  have nx: "unat (next_inode v) + 60 * (length ([] :: u8 list) + length cs) < 2 ^ 40" using assms(6) cs(2) by simp
  have lc: "length ([] :: u8 list) + length cs \<le> 4084" using assms(7) cs(2) by simp
  obtain v1 f1 ds1 d where c: "copy_dirs cs [] (v_root v) v = Some (d, ?e, v1)" "tree_grows files dirs v1 f1 ds1"
      "resolve ds1 (v_root v) ?ns = Some d" "d \<in> dom ds1" "grown (6 * count_list cs SLASH) v v1" "dirs_room (length ?e + 12 + K) ds1"
      "file_names ds1 \<subseteq> file_names dirs" "all_names ds1 \<subseteq> all_names dirs \<union> set ?ns"
    using copy_dirs_spec [OF assms(1) root assms(2) [unfolded parts] cs(1) z rm nx lc, folded parts, unfolded list.size(3) add_0] by blast
  have t1: "tree_holds v1 f1 ds1" using c(2) by (simp add: tree_grows_def)
  then have ds1: "f1 d = Some (dir_bytes es) \<and> names_ok es" if "ds1 d = Some es" for d es using that unfolding tree_holds_def by blast
  obtain es where es: "ds1 d = Some es" using c(4) by blast
  have "length (dir_bytes es) + (length ?e + 12 + K) \<le> 528 * 4096" using c(6) es unfolding dirs_room_def by blast
  then have "length (dir_bytes es) + 12 + length ?e \<le> 528 * 4096" by simp
  moreover have "unat (next_inode v1) + (4 * length bytes + 2 + 4 * (12 + length ?e)) < 2 ^ 40"
    using c(5) assms(6) cs(2) e(2) path_parts_name(2) [of cs "[]"] count_list_le [of cs SLASH] by (auto simp: grown_def parts)
  moreover have "length ?e \<le> 4084" using e(2) assms(7) by simp
  ultimately obtain F v2 f v3 v4 where a: "create_file v1 = (F, v2)" "write_chunks bytes (inode_open F) v2 = Some (f, v3)"
      "append_dir d ?e F v3 = Some v4" "F \<notin> dom f1"
      "tree_holds v4 (f1(F \<mapsto> bytes, d \<mapsto> dir_bytes (es @ [(F, ?e)]))) (ds1(d \<mapsto> es @ [(F, ?e)]))"
      "grown (pages_cost (pages_for (length bytes)) + 2 + 4) v1 v4"
    using add_to_dir [OF t1 es e(1) _ assms(4), where mode = "MFS_TYPE_FILE OR 0x1a4"] unfolding create_file_def by metis
  have Fd: "F \<noteq> d" "F \<notin> dom ds1" using a(4) ds1 es by auto
  have g: "tree_grows f1 ds1 v4 (f1(F \<mapsto> bytes, d \<mapsto> dir_bytes (es @ [(F, ?e)]))) (ds1(d \<mapsto> es @ [(F, ?e)]))"
    using ds1 [OF es] by (intro tree_grows_add [OF a(5) es _ a(4) Fd(2)]) simp_all
  show thesis
  proof
    show "copy_file path bytes v = Some v4" using c(1) a(1-3) by (simp add: copy_file_def cs_def [symmetric])
    show "tree_grows files dirs v4 (f1(F \<mapsto> bytes, d \<mapsto> dir_bytes (es @ [(F, ?e)]))) (ds1(d \<mapsto> es @ [(F, ?e)]))"
      using c(2) g by (rule tree_grows_trans)
    show "resolve (ds1(d \<mapsto> es @ [(F, ?e)])) (v_root v) ?ns = Some d"
      using c(3) by (rule resolve_extend [OF dirs_extend_add(2) [OF es Fd(2)]])
    show "F \<notin> dom files" using a(4) c(2) unfolding tree_grows_def by blast
    show "F \<notin> dom (ds1(d \<mapsto> es @ [(F, ?e)]))" using Fd by simp
    show "(f1(F \<mapsto> bytes, d \<mapsto> dir_bytes (es @ [(F, ?e)]))) F = Some bytes" "(ds1(d \<mapsto> es @ [(F, ?e)])) d = Some (es @ [(F, ?e)])"
      using Fd by simp_all
    have "dirs_room (K + (12 + length ?e)) ds1" by (rule dirs_room_mono [OF c(6)]) simp
    then show "dirs_room K (ds1(d \<mapsto> es @ [(F, ?e)]))" using es by (rule dirs_room_add(2))
    show "file_names (ds1(d \<mapsto> es @ [(F, ?e)])) \<subseteq> insert ?e (file_names dirs)"
      using file_names_add(2) [OF es Fd(2)] c(7) by blast
    show "snd ` set es \<subseteq> all_names dirs \<union> set ?ns" using all_names_dir [of ds1 d es, OF es] c(8) by blast
    show "all_names (ds1(d \<mapsto> es @ [(F, ?e)])) \<subseteq> insert ?e (all_names dirs \<union> set ?ns)"
      using all_names_add(2) [of ds1 d es F ?e, OF es] c(8) by blast
    show "grown (file_cost path (length bytes)) v v4"
      using grown_trans [OF c(5) a(6)] by (rule grown_mono) (use cs(3) in \<open>simp add: file_cost_def\<close>)
  qed
qed

end
