(* ===== verification/MfsTool.thy ===== *)
theory MfsTool
  imports MfsTree
begin

text \<open>
  The tool as a whole: the volume it starts with, the boot record in front of it, and the files that the
  specification names.
\<close>

section \<open>The pages in front of the inodes\<close>

lemma low_same_page:
  assumes "same_outside a n m m'" and "unat a + n \<le> 64 * 4096" and "unat i < 2 ^ 40"
  shows "same_page i m m'"
  unfolding same_page_def
proof (intro allI impI)
  fix k :: nat assume k: "k < 4096"
  have u: "unat (inode_page i + of_nat k) = 4096 * (64 + unat i) + k" by (rule unat_page_byte [OF assms(3) k])
  then have "a \<le> inode_page i + of_nat k" using assms(2) by (simp add: word_le_nat_alt)
  then have "unat (inode_page i + of_nat k - a) = 4096 * (64 + unat i) + k - unat a" by (simp add: unat_sub u)
  then have "\<not> in_range a n (inode_page i + of_nat k)" using assms(2) by (simp add: in_range_def)
  then show "m' (inode_page i + of_nat k) = m (inode_page i + of_nat k)" using assms(1) by (simp add: same_outside_def)
qed

lemma volume_holds_same:
  assumes "volume_holds v files" and "next_inode v' = next_inode v" and "\<And>i. plain i \<Longrightarrow> same_page i (v_data v) (v_data v')"
  shows "volume_holds v' files"
proof -
  define w where "w = v\<lparr>v_data := v_data v'\<rparr>"
  have fr: "fresh v" using assms(1) by (simp add: volume_holds_def)
  then have "fresh w" using assms(3) blank_same unfolding fresh_def w_def by simp metis
  then have g: "changes 0 {} v w" using assms(3) by (simp add: changes_def w_def)
  have eq: "holds v' F bs = holds w F bs" "pages_of_file v' F = pages_of_file w F" "fresh v' = fresh w" for F bs
    using assms(2) by (simp_all add: holds_def file_ok_def pages_of_file_def fresh_def w_def)
  have old: "holds w F bs" "pages_of_file w F = pages_of_file v F" if "files F = Some bs" for F bs
    using changes_holds [OF g, of F bs] assms(1) that by (simp_all add: volume_holds_def)
  show ?thesis
    unfolding volume_holds_def eq
  proof (intro conjI allI impI ballI)
    show "fresh w" by (rule \<open>fresh w\<close>)
    show "holds w F bs" if "files F = Some bs" for F bs by (rule old [OF that])
    show "pages_of_file w F \<inter> pages_of_file w G = {}" if FG: "F \<in> dom files" "G \<in> dom files" "F \<noteq> G" for F G
    proof -
      obtain bs cs where "files F = Some bs" "files G = Some cs" using FG by blast
      then show ?thesis using old(2) assms(1) FG unfolding volume_holds_def by metis
    qed
  qed
qed

lemma tree_holds_same:
  assumes "tree_holds v files dirs" and "next_inode v' = next_inode v" and "v_root v' = v_root v"
    and "\<And>i. plain i \<Longrightarrow> same_page i (v_data v) (v_data v')"
  shows "tree_holds v' files dirs"
  using assms volume_holds_same [OF _ assms(2)] unfolding tree_holds_def by metis

lemma poke_bytes_outside: "length bs \<le> 2 ^ 64 \<Longrightarrow> same_outside a (length bs) m (poke_bytes a bs m)"
  by (simp add: same_outside_def in_range_def poke_bytes_at)

lemma vbr_from_at:
  assumes "length bs < 2 ^ 40" and "unat p + length bs < 2 ^ 63"
  shows "vbr_from bs p m x = (if unat (x - p) < length bs then bs ! unat (x - p) else m x)"
  using assms
proof (induction bs p m rule: vbr_from.induct)
  case (1 bs p m)
  show ?case
  proof (cases "bs = []")
    case True
    then show ?thesis by (subst vbr_from.simps) simp
  next
    case False
    define c where "c = length (take 4096 bs)"
    have c: "c \<le> length bs" "c < 2 ^ 64" using 1(2) by (simp_all add: c_def)
    have uc: "unat (of_nat c :: u64) = c" using c by (simp add: unat_of_nat_u64)
    have step: "vbr_from bs p m = vbr_from (drop 4096 bs) (p + of_nat c) (poke_bytes p (take 4096 bs) m)"
      using False by (subst vbr_from.simps) (simp add: c_def)
    have ne: "take 4096 bs \<noteq> []" and ld: "length (drop 4096 bs) < 2 ^ 40" using False 1(2) by simp_all
    have up: "unat (p + of_nat c) + length (drop 4096 bs) < 2 ^ 63"
      using 1(3) c(1) unat_add_nat [of p c] by (simp add: c_def)
    have IH: "vbr_from bs p m x = (if unat (x - (p + of_nat c)) < length (drop 4096 bs) then drop 4096 bs ! unat (x - (p + of_nat c))
        else poke_bytes p (take 4096 bs) m x)"
      unfolding step by (rule 1(1) [OF refl ne ld, folded c_def, OF up])
    have pk: "poke_bytes p (take 4096 bs) m x = (if unat (x - p) < c then take 4096 bs ! unat (x - p) else m x)"
      using c(2) by (simp add: poke_bytes_at c_def)
    define d where "d = x - p"
    have e: "x - (p + of_nat c) = d - of_nat c" by (simp add: d_def)
    show ?thesis
    proof (cases "unat d < c")
      case True
      then have "unat (d - of_nat c) = unat d + 2 ^ 64 - c" using uc by (simp add: unat_sub_if')
      then have "\<not> unat (d - of_nat c) < length (drop 4096 bs)" using 1(2) c by simp
      then show ?thesis using True IH pk c(1) unfolding e d_def [symmetric] by (simp add: c_def)
    next
      case False
      then have "unat (d - of_nat c) = unat d - c" using uc by (simp add: unat_sub_if')
      then show ?thesis using False IH pk c(1) unfolding e d_def [symmetric] by (auto simp: c_def)
    qed
  qed
qed


section \<open>The volume at the start\<close>

lemma plain_1: "plain 1"
  by (simp add: plain_def)

lemma make_volume_spec:
  obtains v where "make_volume sz time = v" and "tree_holds v [1 \<mapsto> []] [1 \<mapsto> []]" and "v_root v = 1" and "next_inode v = 1" and "load64 (v_data v) 0x3f010 = 1"
    and "v_size v = of_int ((sz + 4096 - 1) div 4096 * 4096)"
proof -
  let ?sz = "(sz + 4096 - 1) div 4096 * 4096" and ?meta = "MFS_METADATA_PAGE * MFS_PAGE_SIZE"
  have meta: "?meta = 0x3f000" by (simp add: MFS_METADATA_PAGE_def MFS_PAGE_SIZE_def)
  define m where "m = store64 (store32 (poke_bytes ?meta MFS_MAGIC (\<lambda>_. 0)) (?meta + 4) (0x01000000 :: u32)) (?meta + 8) (of_int ?sz div MFS_PAGE_SIZE)"
  define v0 where "v0 = \<lparr>v_size = of_int ?sz, v_data = m, v_now = time, v_root = 0, next_inode = 0\<rparr>"
  have "same_page i (\<lambda>_. 0) m" if "plain i" for i
  proof -
    have i: "unat i < 2 ^ 40" using that by (simp add: plain_def)
    have "same_page i (\<lambda>_. 0) (poke_bytes ?meta MFS_MAGIC (\<lambda>_. 0))"
      by (rule low_same_page [OF poke_bytes_outside _ i]) (simp_all add: meta MFS_MAGIC_def)
    moreover have "same_page i t (store n t a w)" if "unat a + n \<le> 64 * 4096" for t n a and w :: "'a::len word"
      by (rule low_same_page [OF store_same_outside that i])
    ultimately show ?thesis unfolding m_def
      by (elim same_page_trans) (rule same_page_trans; rule low_same_page [OF store_same_outside _ i]; simp add: meta)
  qed
  then have "fresh v0" unfolding fresh_def v0_def by (auto simp: blank_def same_page_def)
  then have vh: "volume_holds v0 Map.empty" by (simp add: volume_holds_def)
  have "length ([] :: u8 list) \<le> 528 * 4096" "unat (next_inode v0) + (4 * length ([] :: u8 list) + 2) < 2 ^ 40" by (simp_all add: v0_def)
  from new_file_spec [OF vh this, where mode = "MFS_TYPE_DIR OR 0x1ed"]
  obtain F v1 f v2 where c: "create_directory v0 = (F, v1)" "write_chunks [] (inode_open F) v1 = Some (f, v2)"
      "volume_holds v2 [F \<mapsto> []]" unfolding create_directory_def by metis
  have v2: "v2 = v1" using c(2) by (subst (asm) write_chunks.simps) simp
  have F: "F = 1" "next_inode v1 = 1" "v_size v1 = of_int ?sz"
    using c(1) by (auto simp: create_directory_def create_file_raw_def alloc_page_def Let_def v0_def MFS_BITMAP_SIZE_def)
  define v where "v = v1\<lparr>v_data := store64 (v_data v1) (?meta + 16) 1, v_root := 1\<rparr>"
  have mk: "make_volume sz time = v"
    unfolding make_volume_def Let_def m_def [symmetric] v0_def [symmetric] c(1) by (simp add: v_def F(1))
  have "volume_holds v [1 \<mapsto> []]"
  proof (rule volume_holds_same)
    show "volume_holds v1 [1 \<mapsto> []]" using c(3) by (simp add: v2 F(1))
    show "next_inode v = next_inode v1" by (simp add: v_def)
    fix i assume "plain i"
    then show "same_page i (v_data v1) (v_data v)"
      unfolding v_def by simp (rule low_same_page [OF store_same_outside], simp_all add: meta plain_def)
  qed
  then have "tree_holds v [1 \<mapsto> []] [1 \<mapsto> []]" by (simp add: tree_holds_def names_ok_def v_def)
  moreover have "load64 (v_data v) 0x3f010 = 1" by (simp add: v_def meta)
  ultimately show thesis using that [OF mk] F(2,3) by (simp add: v_def)
qed

lemma make_vbr_spec:
  assumes "tree_holds v files dirs" and "length vbr \<le> 63 * 4096"
  shows "tree_holds (make_vbr vbr v) files dirs" and "v_root (make_vbr vbr v) = v_root v" and "next_inode (make_vbr vbr v) = next_inode v"
    and "v_size (make_vbr vbr v) = v_size v" and "load64 (v_data (make_vbr vbr v)) 0x3f010 = load64 (v_data v) 0x3f010"
proof -
  show s: "v_root (make_vbr vbr v) = v_root v" "next_inode (make_vbr vbr v) = next_inode v" "v_size (make_vbr vbr v) = v_size v"
    by (simp_all add: make_vbr_def)
  have so: "same_outside 0 (length vbr) (v_data v) (v_data (make_vbr vbr v))"
    using assms(2) by (simp add: make_vbr_def same_outside_def in_range_def vbr_from_at)
  show "load64 (v_data (make_vbr vbr v)) 0x3f010 = load64 (v_data v) 0x3f010"
  proof (rule load_cong)
    fix i :: nat assume "i < 8"
    then have "unat (0x3f010 + of_nat i :: u64) = 0x3f010 + i" by (subst unat_add_nat) simp_all
    then have "\<not> in_range 0 (length vbr) (0x3f010 + of_nat i)" using assms(2) by (simp add: in_range_def)
    then show "v_data (make_vbr vbr v) (0x3f010 + of_nat i) = v_data v (0x3f010 + of_nat i)" using so by (simp add: same_outside_def)
  qed
  from so show "tree_holds (make_vbr vbr v) files dirs"
    by (intro tree_holds_same [OF assms(1) s(2,1)], elim low_same_page) (use assms(2) in \<open>simp_all add: plain_def\<close>)
qed


section \<open>The files of a specification\<close>

lemma c_str_nonzero: "0 \<notin> set (c_str bs)"
  using set_takeWhileD [of 0 "\<lambda>b. b \<noteq> 0" bs] by (auto simp: c_str_def)

text \<open>The file at a path, below a directory.\<close>

definition stored :: "(u64 \<rightharpoonup> u8 list) \<Rightarrow> (u64 \<rightharpoonup> (u64 \<times> u8 list) list) \<Rightarrow> u64 \<Rightarrow> u8 list \<Rightarrow> u8 list \<Rightarrow> bool" where
  "stored files dirs r path bytes \<longleftrightarrow> (\<exists>d es F. resolve dirs r (fst (parts_of path)) = Some d \<and> dirs d = Some es
     \<and> (F, snd (parts_of path)) \<in> set es \<and> files F = Some bytes \<and> F \<notin> dom dirs)"

text \<open>No name of a file begins the name of a directory of a later path.\<close>

fun clash_free :: "u8 list list \<Rightarrow> u8 list list \<Rightarrow> bool" where
  "clash_free names [] = True"
| "clash_free names (p # ps) =
     ((\<forall>n \<in> set (fst (parts_of p)). \<forall>m \<in> set names. \<not> prefix m n) \<and> clash_free (snd (parts_of p) # names) ps)"

definition paths_of :: "Spec list \<Rightarrow> u8 list list" where
  "paths_of sps = map (\<lambda>sp. c_str (dst sp)) sps"

definition bytes_of :: "host_files \<Rightarrow> Spec \<Rightarrow> u8 list" where
  "bytes_of fs sp = the (fs (c_str (src sp)))"

text \<open>The pages that the files and directories of a specification take, at most.\<close>

definition pages_taken :: "host_files \<Rightarrow> Spec list \<Rightarrow> nat" where
  "pages_taken fs sps = sum_list (map (\<lambda>sp. file_cost (c_str (dst sp)) (length (bytes_of fs sp))) sps)"

text \<open>The bytes that the entries of a specification take in directories, at most.\<close>

definition names_taken :: "Spec list \<Rightarrow> nat" where
  "names_taken sps = sum_list (map (\<lambda>sp. entries_size (c_str (dst sp))) sps)"

definition spec_fits :: "host_files \<Rightarrow> Spec list \<Rightarrow> bool" where
  "spec_fits fs sps \<longleftrightarrow> (\<forall>sp \<in> set sps. fs (c_str (src sp)) \<noteq> None \<and> length (bytes_of fs sp) \<le> 528 * 4096
     \<and> length (c_str (dst sp)) < 1024) \<and> names_taken sps \<le> 528 * 4096"

lemma stored_extend:
  assumes "stored files dirs r path bytes" and "tree_grows files dirs v files' dirs'"
  shows "stored files' dirs' r path bytes"
proof -
  obtain d es F where s: "resolve dirs r (fst (parts_of path)) = Some d" "dirs d = Some es" "(F, snd (parts_of path)) \<in> set es"
      "files F = Some bytes" "F \<notin> dom dirs" using assms(1) unfolding stored_def by blast
  have ext: "dirs_extend dirs dirs'" using assms(2) by (simp add: tree_grows_def)
  obtain gs where "dirs' d = Some (es @ gs)" using ext s(2) unfolding dirs_extend_def by blast
  moreover have "(F, snd (parts_of path)) \<in> set (es @ gs)" using s(3) by simp
  moreover have "files' F = Some bytes \<and> F \<notin> dom dirs'" using assms(2) s(4,5) unfolding tree_grows_def by blast
  ultimately show ?thesis using resolve_extend [OF ext s(1)] unfolding stored_def by blast
qed

text \<open>
  A file whose entry is the first with its name: that is so when the name is none of the names that are there
  before, which \<open>fresh_names\<close> asks for every path of a list.
\<close>

definition stored_first :: "(u64 \<rightharpoonup> u8 list) \<Rightarrow> (u64 \<rightharpoonup> (u64 \<times> u8 list) list) \<Rightarrow> u64 \<Rightarrow> u8 list \<Rightarrow> u8 list \<Rightarrow> bool" where
  "stored_first files dirs r path bytes \<longleftrightarrow> (\<exists>d es F. resolve dirs r (fst (parts_of path)) = Some d \<and> dirs d = Some es
     \<and> exact_match es (snd (parts_of path)) = Some F \<and> files F = Some bytes \<and> F \<notin> dom dirs)"

fun fresh_names :: "u8 list list \<Rightarrow> u8 list list \<Rightarrow> bool" where
  "fresh_names names [] = True"
| "fresh_names names (p # ps) =
     (snd (parts_of p) \<notin> set (fst (parts_of p) @ names) \<and> fresh_names (snd (parts_of p) # fst (parts_of p) @ names) ps)"

definition path_names :: "u8 list list \<Rightarrow> u8 list set" where
  "path_names ps = (\<Union>p \<in> set ps. insert (snd (parts_of p)) (set (fst (parts_of p))))"

lemma stored_first_extend:
  assumes "stored_first files dirs r path bytes" and "tree_grows files dirs v files' dirs'"
  shows "stored_first files' dirs' r path bytes"
proof -
  obtain d es F where s: "resolve dirs r (fst (parts_of path)) = Some d" "dirs d = Some es" "exact_match es (snd (parts_of path)) = Some F"
      "files F = Some bytes" "F \<notin> dom dirs" using assms(1) unfolding stored_first_def by blast
  have ext: "dirs_extend dirs dirs'" using assms(2) by (simp add: tree_grows_def)
  obtain gs where "dirs' d = Some (es @ gs)" using ext s(2) unfolding dirs_extend_def by blast
  moreover have "exact_match (es @ gs) (snd (parts_of path)) = Some F" using s(3) by (simp add: exact_match_append)
  moreover have "files' F = Some bytes \<and> F \<notin> dom dirs'" using assms(2) s(4,5) unfolding tree_grows_def by blast
  ultimately show ?thesis using resolve_extend [OF ext s(1)] unfolding stored_first_def by blast
qed

text \<open>What copying the files of \<open>sps\<close> makes of a tree.\<close>

definition files_copied :: "host_files \<Rightarrow> Spec list \<Rightarrow> nat \<Rightarrow> MfsVolume \<Rightarrow> (u64 \<rightharpoonup> u8 list) \<Rightarrow> (u64 \<rightharpoonup> (u64 \<times> u8 list) list)
    \<Rightarrow> MfsVolume \<Rightarrow> (u64 \<rightharpoonup> u8 list) \<Rightarrow> (u64 \<rightharpoonup> (u64 \<times> u8 list) list) \<Rightarrow> bool" where
  "files_copied fs sps K v files dirs v' files' dirs' \<longleftrightarrow> tree_grows files dirs v' files' dirs' \<and> grown (pages_taken fs sps) v v'
     \<and> dirs_room K dirs' \<and> all_names dirs' \<subseteq> all_names dirs \<union> path_names (paths_of sps)
     \<and> (\<forall>sp \<in> set sps. stored files' dirs' (v_root v) (c_str (dst sp)) (bytes_of fs sp))
     \<and> (\<forall>names. all_names dirs \<subseteq> set names \<longrightarrow> fresh_names names (paths_of sps) \<longrightarrow>
          (\<forall>sp \<in> set sps. stored_first files' dirs' (v_root v) (c_str (dst sp)) (bytes_of fs sp)))"

lemma files_copied_Cons:
  assumes g: "tree_grows files dirs v1 f1 d1" and gr: "grown (file_cost p (length b)) v v1" and p: "p = c_str (dst sp)" "b = bytes_of fs sp"
    and res: "resolve d1 (v_root v) (fst (parts_of p)) = Some d" and d: "d1 d = Some (es @ [(F, snd (parts_of p))])" and F: "f1 F = Some b" "F \<notin> dom d1"
    and es: "snd ` set es \<subseteq> all_names dirs \<union> set (fst (parts_of p))"
    and an: "all_names d1 \<subseteq> insert (snd (parts_of p)) (all_names dirs \<union> set (fst (parts_of p)))"
    and r: "files_copied fs sps K v1 f1 d1 v' files' dirs'"
  shows "files_copied fs (sp # sps) K v files dirs v' files' dirs'"
proof -
  note q = r [unfolded files_copied_def]
  have g1: "tree_grows f1 d1 v' files' dirs'" using q by simp
  have root: "v_root v1 = v_root v" using gr by (simp add: grown_def)
  have "stored f1 d1 (v_root v) p b" using res d F unfolding stored_def by force
  then have "stored files' dirs' (v_root v) p b" using g1 by (rule stored_extend)
  then have st: "\<forall>s \<in> set (sp # sps). stored files' dirs' (v_root v) (c_str (dst s)) (bytes_of fs s)" using q root p by simp
  have "\<forall>s \<in> set (sp # sps). stored_first files' dirs' (v_root v) (c_str (dst s)) (bytes_of fs s)"
    if n: "all_names dirs \<subseteq> set names" "fresh_names names (paths_of (sp # sps))" for names
  proof -
    have new: "snd (parts_of p) \<notin> set (fst (parts_of p) @ names)" and rest: "fresh_names (snd (parts_of p) # fst (parts_of p) @ names) (paths_of sps)"
      using n(2) p by (simp_all add: paths_of_def)
    have "snd (parts_of p) \<notin> snd ` set es" using new es n(1) by auto
    from exact_match_new [OF this, of F] have "stored_first f1 d1 (v_root v) p b" using res d F unfolding stored_first_def by blast
    then have "stored_first files' dirs' (v_root v) p b" using g1 by (rule stored_first_extend)
    moreover have "all_names d1 \<subseteq> set (snd (parts_of p) # fst (parts_of p) @ names)" using an n(1) by auto
    then have "\<forall>s \<in> set sps. stored_first files' dirs' (v_root v) (c_str (dst s)) (bytes_of fs s)" using q rest unfolding root by blast
    ultimately show ?thesis using p by simp
  qed
  moreover have "grown (pages_taken fs (sp # sps)) v v'"
    using grown_trans [OF gr] q p by (simp add: pages_taken_def)
  moreover have "all_names dirs' \<subseteq> all_names dirs \<union> path_names (paths_of (sp # sps))"
    using q an p unfolding path_names_def paths_of_def by auto
  ultimately show ?thesis using tree_grows_trans [OF g g1] st q unfolding files_copied_def by blast
qed

lemma copy_files_spec:
  assumes "tree_holds v files dirs" and "clash_free names (paths_of sps)" and "file_names dirs \<subseteq> set names"
    and "\<forall>sp \<in> set sps. fs (c_str (src sp)) \<noteq> None \<and> length (bytes_of fs sp) \<le> 528 * 4096 \<and> length (c_str (dst sp)) < 1024"
    and "dirs_room (names_taken sps + K) dirs" and "unat (next_inode v) + pages_taken fs sps < 2 ^ 39"
  shows "\<exists>v' files' dirs'. copy_files fs sps v = Some v' \<and> files_copied fs sps K v files dirs v' files' dirs'"
  using assms
proof (induction sps arbitrary: v files dirs names)
  case Nil
  then show ?case using tree_grows_refl grown_refl by (fastforce simp: files_copied_def names_taken_def)
next
  case (Cons sp sps)
  let ?p = "c_str (dst sp)" and ?b = "bytes_of fs sp"
  have b: "fs (c_str (src sp)) = Some ?b" "length ?b \<le> 528 * 4096" "length ?p < 1024" using Cons.prems(4) by (auto simp: bytes_of_def)
  have nc: "no_clash dirs (fst (parts_of ?p))"
    using Cons.prems(2,3) by (intro no_clash_names) (auto simp: paths_of_def)
  have rm: "dirs_room (entries_size ?p + (names_taken sps + K)) dirs" using Cons.prems(5) by (simp add: names_taken_def add.assoc)
  have pt: "pages_taken fs (sp # sps) = file_cost ?p (length ?b) + pages_taken fs sps" by (simp add: pages_taken_def)
  have nx: "unat (next_inode v) + 64 * (length ?p + 1) + 4 * length ?b < 2 ^ 40" using Cons.prems(6) b(2,3) by simp
  obtain v1 f1 ds1 d es F where c: "copy_file ?p ?b v = Some v1" "tree_grows files dirs v1 f1 ds1"
      "resolve ds1 (v_root v) (fst (parts_of ?p)) = Some d" "ds1 d = Some (es @ [(F, snd (parts_of ?p))])" "f1 F = Some ?b" "F \<notin> dom ds1"
      "grown (file_cost ?p (length ?b)) v v1" "dirs_room (names_taken sps + K) ds1"
      "file_names ds1 \<subseteq> insert (snd (parts_of ?p)) (file_names dirs)" "snd ` set es \<subseteq> all_names dirs \<union> set (fst (parts_of ?p))"
      "all_names ds1 \<subseteq> insert (snd (parts_of ?p)) (all_names dirs \<union> set (fst (parts_of ?p)))"
    by (rule copy_file_spec [OF Cons.prems(1) nc c_str_nonzero b(2) rm nx b(3)]) (rule that)
  have t1: "tree_holds v1 f1 ds1" using c(2) by (simp add: tree_grows_def)
  have cf: "clash_free (snd (parts_of ?p) # names) (paths_of sps)" using Cons.prems(2) by (simp add: paths_of_def)
  have fn: "file_names ds1 \<subseteq> set (snd (parts_of ?p) # names)" using c(9) Cons.prems(3) by auto
  have nx1: "unat (next_inode v1) + pages_taken fs sps < 2 ^ 39" using c(7) Cons.prems(6) unfolding pt by (simp add: grown_def)
  have al: "\<forall>sp \<in> set sps. fs (c_str (src sp)) \<noteq> None \<and> length (bytes_of fs sp) \<le> 528 * 4096 \<and> length (c_str (dst sp)) < 1024"
    using Cons.prems(4) by simp
  obtain v' files' dirs' where r: "copy_files fs sps v1 = Some v'" "files_copied fs sps K v1 f1 ds1 v' files' dirs'"
    using Cons.IH [OF t1 cf fn al c(8) nx1] by blast
  have "files_copied fs (sp # sps) K v files dirs v' files' dirs'"
    by (rule files_copied_Cons [OF c(2,7) refl refl c(3-6,10,11) r(2)])
  moreover have "copy_files fs (sp # sps) v = Some v'" using b(1) c(1) r(1) by simp
  ultimately show ?case by blast
qed


section \<open>What the tool writes\<close>

lemma mkvolume_spec:
  assumes "parse_specs (opened spec) = Some sps" and "spec_fits fs sps" and "clash_free [] (paths_of sps)" and "length vbr \<le> 63 * 4096"
    and "4096 * (66 + int (pages_taken fs sps)) \<le> sz" and "sz < 2 ^ 31 - 4096" and "names_taken sps + K \<le> 528 * 4096"
  obtains v0 v files dirs where "mkvolume fs sz time vbr spec = Some (peek_bytes (v_data v) 0 (unat (v_size v)))"
    and "files_copied fs sps K v0 [1 \<mapsto> []] [1 \<mapsto> []] v files dirs" and "v_root v0 = 1" and "v_root v = 1"
    and "4096 * (65 + unat (next_inode v)) \<le> unat (v_size v)" and "load64 (v_data v) 0x3f010 = 1" and "unat (v_size v) < 2 ^ 31"
proof -
  let ?sz = "(sz + 4096 - 1) div 4096 * 4096"
  obtain v0 where v0: "make_volume sz time = v0" "tree_holds v0 [1 \<mapsto> []] [1 \<mapsto> []]" "v_root v0 = 1" "next_inode v0 = 1"
      "load64 (v_data v0) 0x3f010 = 1" "v_size v0 = of_int ?sz"
    by (rule make_volume_spec)
  note vb = make_vbr_spec [OF v0(2) assms(4)]
  have small: "4096 * (66 + pages_taken fs sps) < 2 ^ 31"
  proof -
    have "int (4096 * (66 + pages_taken fs sps)) < int (2 ^ 31)" using assms(5,6) by simp
    then show ?thesis by (simp only: of_nat_less_iff)
  qed
  have al: "\<forall>sp \<in> set sps. fs (c_str (src sp)) \<noteq> None \<and> length (bytes_of fs sp) \<le> 528 * 4096 \<and> length (c_str (dst sp)) < 1024"
    using assms(2) by (simp add: spec_fits_def)
  have rm: "dirs_room (names_taken sps + K) [1 \<mapsto> []]" using assms(7) by (simp add: dirs_room_def)
  have fn: "file_names [1 \<mapsto> []] \<subseteq> set []" by (auto simp: file_names_def split: if_splits)
  have nx: "unat (next_inode (make_vbr vbr v0)) + pages_taken fs sps < 2 ^ 39" using small by (simp add: vb(3) v0(4))
  obtain v files dirs where c: "copy_files fs sps (make_vbr vbr v0) = Some v" "files_copied fs sps K (make_vbr vbr v0) [1 \<mapsto> []] [1 \<mapsto> []] v files dirs"
    using copy_files_spec [OF vb(1) assms(3) fn al rm nx] by blast
  have gr: "grown (pages_taken fs sps) (make_vbr vbr v0) v" using c(2) by (simp add: files_copied_def)
  have lim: "?sz \<le> 4096 * 2 ^ 20" and up: "sz \<le> ?sz" and lt: "?sz < 2 ^ 31"
    using assms(6) div_mult_mod_eq [of "sz + 4096 - 1" 4096] pos_mod_bound [of 4096 "sz + 4096 - 1"] pos_mod_sign [of 4096 "sz + 4096 - 1"] by simp_all
  then have "0 \<le> ?sz" using assms(5) by simp
  then have "(of_int ?sz :: u64) = of_int (int (nat ?sz))" by (simp only: int_nat_eq if_True)
  moreover have "nat ?sz < 2 ^ 64" using lim by simp
  ultimately have "unat (of_int ?sz :: u64) = nat ?sz" by (simp only: of_int_of_nat_eq unat_of_nat_u64)
  then have vsz: "unat (v_size v) = nat ?sz" using gr vb(4) v0(6) by (simp add: grown_def)
  define N where "N = unat (next_inode v)"
  have "N \<le> 1 + pages_taken fs sps" using gr vb(3) v0(4) by (simp add: grown_def N_def)
  then have "int (4096 * (65 + N)) \<le> ?sz" using assms(5) up by simp
  then have "4096 * (65 + N) \<le> nat ?sz" by (metis nat_int nat_mono)
  then have lim: "4096 * (65 + unat (next_inode v)) \<le> unat (v_size v)" by (simp add: vsz N_def)
  have root: "load64 (v_data v) 0x3f010 = load64 (v_data (make_vbr vbr v0)) 0x3f010"
  proof (rule load_cong)
    fix i :: nat assume "i < 8"
    then have "unat (0x3f010 + of_nat i :: u64) < 64 * 4096" by (subst unat_add_nat) simp_all
    then show "v_data v (0x3f010 + of_nat i) = v_data (make_vbr vbr v0) (0x3f010 + of_nat i)" using gr by (simp add: grown_def low_same_def)
  qed
  show thesis
    by (rule that [OF _ c(2) _ _ lim]) (use c(1) vb(2,5) v0(1,3,5) gr root vsz lt assms(1) in \<open>simp_all add: mkvolume_def grown_def\<close>)
qed

text \<open>C4. The volume tool stores every file of a specification: when the sources exist and have at most 528 pages, paths have less
  than 1024 characters, all entries together fit a directory of 528 pages, the boot record fits its 63 pages, no file has a name that begins the
  name of a directory of a later path, and the volume has less than 2 GiB and is large enough (66 pages, and for each file at most two
  for each of its own pages, six for each directory of its path, and eight more), then mkvolume writes a volume in which
  the directories of each path lead to an entry with its last component, whose inode holds the bytes of the source;
  files and directories share no page and all of them lie inside the volume.\<close>

theorem mkvolume_stores_files:
  assumes "parse_specs (opened spec) = Some sps" and "spec_fits fs sps" and "clash_free [] (paths_of sps)" and "length vbr \<le> 63 * 4096"
    and "4096 * (66 + int (pages_taken fs sps)) \<le> sz" and "sz < 2 ^ 31 - 4096"
  shows "\<exists>v files dirs. mkvolume fs sz time vbr spec = Some (peek_bytes (v_data v) 0 (unat (v_size v)))
    \<and> tree_holds v files dirs \<and> v_root v = 1 \<and> 4096 * (65 + unat (next_inode v)) \<le> unat (v_size v)
    \<and> (\<forall>sp \<in> set sps. stored files dirs 1 (c_str (dst sp)) (bytes_of fs sp))"
proof -
  have K: "names_taken sps + 0 \<le> 528 * 4096" using assms(2) by (simp add: spec_fits_def)
  obtain v0 v files dirs where v: "mkvolume fs sz time vbr spec = Some (peek_bytes (v_data v) 0 (unat (v_size v)))"
      "files_copied fs sps 0 v0 [1 \<mapsto> []] [1 \<mapsto> []] v files dirs" "v_root v0 = 1" "v_root v = 1" "4096 * (65 + unat (next_inode v)) \<le> unat (v_size v)"
    by (rule mkvolume_spec [OF assms K])
  then show ?thesis unfolding files_copied_def tree_grows_def by metis
qed

lemma mkvolume_stores_files_witness:
  "\<exists>v files dirs. mkvolume sample_files 2097152 0 [0xeb, 0xfe] sample_spec = Some (peek_bytes (v_data v) 0 (unat (v_size v)))
     \<and> tree_holds v files dirs \<and> stored files dirs 1 [47, 98] [1, 2, 3]"
proof -
  define sps where "sps = [\<lparr>spec_type = 70, src = [120], dst = [47, 98]\<rparr> :: Spec]"
  have "spec_fits sample_files sps" "clash_free [] (paths_of sps)" "4096 * (66 + int (pages_taken sample_files sps)) \<le> 2097152"
    by (simp_all add: sps_def spec_fits_def bytes_of_def c_str_def sample_files_def names_taken_def paths_of_def parts_of_def SLASH_def pages_taken_def
        entries_size_def file_cost_def pages_cost_def pages_for_def)
  from mkvolume_stores_files [OF sample_spec_records [folded sps_def] this(1,2) _ this(3), of "[0xeb, 0xfe]" 0]
  show ?thesis by (force simp: sps_def c_str_def bytes_of_def sample_files_def)
qed




section \<open>Inodes keep their type\<close>

text \<open>
  \<open>files\<close> and \<open>dirs\<close> type the inodes of a volume: an inode of \<open>files\<close> holds bytes, one that is in \<open>dirs\<close> too holds
  entries with names. Copying a file keeps the typing and extends it.
\<close>



end
