(* ===== verification/BootRead.thy ===== *)
theory BootRead
  imports BootDisk MfsTool
begin

text \<open>
  The boot loader reads what the volume tool wrote. The disk is a list of bytes that the BIOS reads sectors
  of; the loader runs with tables that map low memory to itself, and reads into an area that they map
  elsewhere.
\<close>

section \<open>The BIOS reads sectors\<close>

text \<open>
  Call 0x42 of interrupt 0x13, the extended read, as it is documented: for a packet of 16 bytes at the address in
  \<open>esi\<close> that names sectors of the disk, their bytes are put at the address of the packet. The BIOS may write the
  packet (the number of sectors that were read) and its own memory \<open>B\<close>.
\<close>

definition reads_disk :: "bios \<Rightarrow> u32 \<Rightarrow> u8 list \<Rightarrow> u64 set \<Rightarrow> bool" where
  "reads_disk bios drive disk B \<longleftrightarrow> (\<forall>args m dap buf n lba.
     eax args = 0x4200 \<longrightarrow> edx args = drive \<longrightarrow> es args = 0 \<longrightarrow> dap = ucast (esi args) \<longrightarrow> unat dap + 16 \<le> 2 ^ 16
     \<longrightarrow> m dap = 16 \<longrightarrow> m (dap + 1) = 0 \<longrightarrow> n = unat (load16 m (dap + 2)) \<longrightarrow> 0 < n \<longrightarrow> n \<le> 127
     \<longrightarrow> buf = 16 * ucast (load16 m (dap + 6)) + ucast (load16 m (dap + 4)) \<longrightarrow> lba = unat (load64 m (dap + 8)) \<longrightarrow> 512 * (lba + n) \<le> length disk
     \<longrightarrow> (\<exists>cf args' m'. bios 0x13 args m = (cf, args', m') \<and> (\<forall>k<512 * n. m' (buf + of_nat k) = disk ! (512 * lba + k))
          \<and> (\<forall>x. \<not> in_range buf (512 * n) x \<longrightarrow> \<not> in_range dap 16 x \<longrightarrow> x \<notin> B \<longrightarrow> m' x = m x)))"

section \<open>Virtual memory\<close>

definition maps :: "Boot \<Rightarrow> nat \<Rightarrow> u64 \<Rightarrow> (nat \<Rightarrow> u64) \<Rightarrow> bool" where
  "maps s n va P \<longleftrightarrow> (\<forall>k<n. phys s (va + of_nat k) = Some (P k))"

text \<open>The tables that CR3 points to are in \<open>T\<close>: a change elsewhere keeps every translation.\<close>

definition tables_in :: "u64 set \<Rightarrow> Boot \<Rightarrow> bool" where
  "tables_in T s \<longleftrightarrow> (\<forall>m'. (\<forall>x \<in> T. m' x = ram s x) \<longrightarrow> mmu m' (cr3_reg s) = mmu (ram s) (cr3_reg s))"

text \<open>A change of memory outside \<open>T\<close>: the translations and the registers stay.\<close>

definition keeps :: "u64 set \<Rightarrow> Boot \<Rightarrow> Boot \<Rightarrow> bool" where
  "keeps T s s' \<longleftrightarrow> gBootParams s' = gBootParams s \<and> cr3_reg s' = cr3_reg s \<and> (\<forall>x \<in> T. ram s' x = ram s x)"

lemma keeps_refl: "keeps T s s"
  by (simp add: keeps_def)

lemma keeps_trans: "keeps T s s' \<Longrightarrow> keeps T s' s'' \<Longrightarrow> keeps T s s''"
  by (simp add: keeps_def)

lemma keeps_mmu:
  assumes "tables_in T s" and "keeps T s s'"
  shows "mmu (ram s') (cr3_reg s') = mmu (ram s) (cr3_reg s)"
proof -
  have "\<forall>x \<in> T. ram s' x = ram s x" "cr3_reg s' = cr3_reg s" using assms(2) unfolding keeps_def by blast+
  then show ?thesis using assms(1) unfolding tables_in_def by metis
qed

lemma keeps_phys: "tables_in T s \<Longrightarrow> keeps T s s' \<Longrightarrow> phys s' = phys s"
  unfolding phys_def fun_eq_iff by (simp only: keeps_mmu) blast

lemma keeps_tables:
  assumes "tables_in T s" and "keeps T s s'"
  shows "tables_in T s'"
  unfolding tables_in_def
proof (intro allI impI)
  fix m' assume m': "\<forall>x \<in> T. m' x = ram s' x"
  have k: "\<forall>x \<in> T. ram s' x = ram s x" "cr3_reg s' = cr3_reg s" using assms(2) unfolding keeps_def by blast+
  with m' have "\<forall>x \<in> T. m' x = ram s x" by simp
  then have "mmu m' (cr3_reg s) = mmu (ram s) (cr3_reg s)" using assms(1) unfolding tables_in_def by blast
  then show "mmu m' (cr3_reg s') = mmu (ram s') (cr3_reg s')" using keeps_mmu [OF assms] k(2) by simp
qed

lemma keeps_maps: "tables_in T s \<Longrightarrow> keeps T s s' \<Longrightarrow> maps s' n va P = maps s n va P"
  by (simp add: maps_def keeps_phys)

lemma maps_head:
  assumes "maps s (Suc n) va P"
  shows "phys s va = Some (P 0)"
proof -
  have "phys s (va + of_nat 0) = Some (P 0)" using assms unfolding maps_def by blast
  then show ?thesis by simp
qed

lemma maps_tail:
  assumes "maps s (Suc n) va P"
  shows "maps s n (va + 1) (\<lambda>k. P (Suc k))"
  unfolding maps_def
proof (intro allI impI)
  fix k assume "k < n"
  then have "phys s (va + of_nat (Suc k)) = Some (P (Suc k))" using assms unfolding maps_def by blast
  then show "phys s (va + 1 + of_nat k) = Some (P (Suc k))" by (simp add: add.assoc)
qed

lemma vcopy_spec:
  assumes "tables_in T s" and "maps s n va P" and "maps s n from_a Q" and "inj_on P {..<n}" and "\<forall>k<n. P k \<notin> T" and "\<forall>j<n. \<forall>k<n. P j \<noteq> Q k"
  shows "\<exists>s'. vcopy n va from_a s = Some s' \<and> keeps T s s' \<and> (\<forall>k<n. ram s' (P k) = ram s (Q k)) \<and> (\<forall>x. x \<notin> P ` {..<n} \<longrightarrow> ram s' x = ram s x)"
  using assms
proof (induction n arbitrary: va from_a s P Q)
  case 0
  then show ?case using keeps_refl by simp
next
  case (Suc n)
  have p: "phys s va = Some (P 0)" "phys s from_a = Some (Q 0)" using maps_head Suc.prems(2,3) by blast+
  let ?s = "s\<lparr>ram := (ram s)(P 0 := ram s (Q 0))\<rparr>" and ?P = "\<lambda>k. P (Suc k)" and ?Q = "\<lambda>k. Q (Suc k)"
  have k: "keeps T s ?s" using Suc.prems(5) by (auto simp: keeps_def)
  have "maps s n (va + 1) ?P" "maps s n (from_a + 1) ?Q"
    using maps_tail [OF Suc.prems(2)] maps_tail [OF Suc.prems(3)] .
  then have m: "maps ?s n (va + 1) ?P" "maps ?s n (from_a + 1) ?Q" using keeps_maps [OF Suc.prems(1) k] by simp_all
  have i: "inj_on ?P {..<n}" using Suc.prems(4) by (auto simp: inj_on_def)
  obtain s' where s': "vcopy n (va + 1) (from_a + 1) ?s = Some s'" "keeps T ?s s'" "\<forall>k<n. ram s' (?P k) = ram ?s (?Q k)"
      "\<forall>x. x \<notin> ?P ` {..<n} \<longrightarrow> ram s' x = ram ?s x"
    using Suc.IH [OF keeps_tables [OF Suc.prems(1) k] m i] Suc.prems(5,6) by auto
  have "P 0 \<notin> ?P ` {..<n}" using Suc.prems(4) by (auto simp: inj_on_def)
  then have "ram s' (P k) = ram s (Q k)" if "k < Suc n" for k
  proof (cases k)
    case 0
    then show ?thesis using s'(4) \<open>P 0 \<notin> ?P ` {..<n}\<close> by simp
  next
    case (Suc j)
    have "P 0 \<noteq> Q (Suc j)" using Suc.prems(6) that Suc by blast
    then show ?thesis using s'(3) that Suc by auto
  qed
  moreover have "ram s' x = ram s x" if "x \<notin> P ` {..<Suc n}" for x
  proof -
    have "x \<noteq> P 0" "x \<notin> ?P ` {..<n}" using that by auto
    then show ?thesis using s'(4) by simp
  qed
  moreover have "keeps T s s'" using k s'(2) by (rule keeps_trans)
  ultimately show ?case using p s'(1) by simp
qed


section \<open>Reading a page\<close>

lemma load64_halves:
  "load64 (store32 (store32 m a (ucast (w AND 0xffffffff) :: u32)) (a + 4) (ucast (drop_bit 32 w) :: u32)) a = (w :: u64)"
proof -
  let ?m = "store32 (store32 m a (ucast (w AND 0xffffffff) :: u32)) (a + 4) (ucast (drop_bit 32 w) :: u32)"
  have ones: "(0xffffffff :: u64) = mask 32" by (simp add: mask_eq_exp_minus_1)
  have "?m (a + of_nat i) = bytes_le 8 w ! i" if "i < 8" for i
  proof (cases "i < 4")
    case True
    have "unat (of_nat i - 4 :: u64) = 2 ^ 64 + i - 4" using True by (simp add: unat_sub_if' unat_of_nat_u64)
    then show ?thesis using True that
      by (simp add: store_def unat_of_nat_u64 ones) (rule bit_word_eqI, auto simp: bit_simps)
  next
    case False
    then obtain j where j: "i = 4 + j" "j < 4" using \<open>i < 8\<close> by (intro that [of "i - 4"]) simp_all
    then show ?thesis
      by (simp add: store_def unat_of_nat_u64) (rule bit_word_eqI, auto simp: bit_simps algebra_simps)
  qed
  then have "map (\<lambda>i. ?m (a + of_nat i)) [0..<8] = bytes_le 8 w" by (intro nth_equalityI) simp_all
  then show ?thesis unfolding load_def by (simp only:) (simp add: word_le_bytes_le)
qed


text \<open>The packet that is filled in for a transfer.\<close>

lemma dap_fields:
  assumes m': "m' = dap_transfer ad lba n (dap_init ad m)"
  shows "m' (dap_at ad) = 16" and "m' (dap_at ad + 1) = 0" and "load16 m' (dap_at ad + 2) = ucast n"
    and "load16 m' (dap_at ad + 4) = ucast (buffer_at ad)" and "load16 m' (dap_at ad + 6) = 0" and "load64 m' (dap_at ad + 8) = lba"
    and "\<not> in_range (dap_at ad) 16 x \<Longrightarrow> m' x = m x"
proof -
  let ?d = "dap_at ad"
  have ap: "disjoint_ranges (?d + of_nat a) k (?d + of_nat b) l" if "a + k \<le> b \<or> b + l \<le> a" "a + k \<le> 16" "b + l \<le> 16" for a b k l
    unfolding disjoint_ranges_def in_range_def
  proof (intro allI impI)
    fix i assume i: "i < l"
    show "\<not> unat (?d + of_nat b + of_nat i - (?d + of_nat a)) < k"
    proof (cases "a \<le> b + i")
      case True
      then have "?d + of_nat b + of_nat i - (?d + of_nat a) = (of_nat (b + i - a) :: u64)" by (simp add: of_nat_diff)
      then show ?thesis using that i True by (simp add: unat_of_nat_u64 del: of_nat_diff)
    next
      case False
      then have "?d + of_nat b + of_nat i - (?d + of_nat a) = - (of_nat (a - (b + i)) :: u64)" by (simp add: of_nat_diff)
      also have "\<dots> = of_nat (2 ^ 64 - (a - (b + i)))" using False that by (simp add: of_nat_diff)
      finally show ?thesis using that i False by (simp add: unat_of_nat_u64 del: of_nat_diff)
    qed
  qed
  define m0 where "m0 = m(?d := 16, ?d + 1 := 0)"
  define m1 where "m1 = store16 (store16 m0 (?d + of_nat 4) (ucast (buffer_at ad) :: u16)) (?d + of_nat 6) (0 :: u16)"
  define m2 where "m2 = store32 (store32 m1 (?d + of_nat 8) (ucast (lba AND 0xffffffff) :: u32)) (?d + of_nat 12) (ucast (drop_bit 32 lba) :: u32)"
  have m'': "m' = store16 m2 (?d + of_nat 2) (ucast n)" by (simp add: m' m2_def m1_def m0_def dap_transfer_def dap_init_def Let_def)
  note other = load_store_disjoint [OF ap]
  note other_field = other [of 2 2 8 8, simplified] other [of 2 2 6 2, simplified] other [of 2 2 4 2, simplified]
    other [of 12 4 6 2, simplified] other [of 8 4 6 2, simplified] other [of 12 4 4 2, simplified] other [of 8 4 4 2, simplified]
    other [of 6 2 4 2, simplified]
  have "load64 m2 (?d + 8) = lba" using load64_halves [of m1 "?d + 8" lba] by (simp add: m2_def add.assoc)
  then show "load64 m' (?d + 8) = lba" by (simp add: m'' other_field)
  show "load16 m' (?d + 2) = ucast n" by (simp add: m'')
  show "load16 m' (?d + 6) = 0" by (simp add: m'' m2_def m1_def other_field)
  show "load16 m' (?d + 4) = ucast (buffer_at ad)" by (simp add: m'' m2_def m1_def other_field)
  show "m' ?d = 16" "m' (?d + 1) = 0"
    by (simp_all add: m'' m2_def m1_def m0_def store_def unsigned_minus_1_eq_mask mask_eq_exp_minus_1)
  show "m' x = m x" if x: "\<not> in_range ?d 16 x"
  proof -
    have "\<not> in_range (?d + of_nat a) k x" if "a + k \<le> 16" for a k using in_subrange [OF that _] x by auto
    note o = store_outside [OF this]
    have "x \<noteq> ?d" "x \<noteq> ?d + 1" using x by (auto simp: in_range_def)
    then show ?thesis unfolding m'' m2_def m1_def m0_def by (simp add: o del: of_nat_numeral)
  qed
qed


text \<open>
  What a read may overwrite beside its target, the static pages of mfs.c, and the state in which the loader
  reads: its tables are in \<open>T\<close> and map the low 4 GiB to themselves, and its variables do not overlap.
\<close>

definition scratch :: "BootAddrs \<Rightarrow> u64 set \<Rightarrow> u64 set" where
  "scratch ad B = {x. in_range (buffer_at ad) 4096 x \<or> in_range (dap_at ad) 16 x} \<union> B"

definition statics :: "BootAddrs \<Rightarrow> u64 set" where
  "statics ad = {x. in_range (gPages_at ad) (4 * 4096) x \<or> in_range (gMetadata_at ad) 4096 x}"

definition loader_env :: "BootAddrs \<Rightarrow> u64 set \<Rightarrow> u64 set \<Rightarrow> Boot \<Rightarrow> bool" where
  "loader_env ad T B s \<longleftrightarrow> tables_in T s \<and> (\<forall>a. unat a < 2 ^ 32 \<longrightarrow> phys s a = Some a)
     \<and> unat (dap_at ad) + 16 \<le> 2 ^ 16 \<and> unat (buffer_at ad) + 4096 \<le> 2 ^ 16
     \<and> unat (gPages_at ad) + 4 * 4096 \<le> 2 ^ 32 \<and> unat (gMetadata_at ad) + 4096 \<le> 2 ^ 32
     \<and> T \<inter> scratch ad B = {} \<and> T \<inter> statics ad = {} \<and> statics ad \<inter> scratch ad B = {}
     \<and> (\<forall>x. in_range (gPages_at ad) (4 * 4096) x \<longrightarrow> \<not> in_range (gMetadata_at ad) 4096 x)"

lemma loader_env_keeps:
  assumes "loader_env ad T B s" and "keeps T s s'"
  shows "loader_env ad T B s'"
proof -
  have t: "tables_in T s" using assms(1) by (simp add: loader_env_def)
  show ?thesis
    using assms(1) keeps_tables [OF t assms(2)] unfolding loader_env_def keeps_phys [OF t assms(2)] by blast
qed

text \<open>The disk holds the volume from the first sector of the partition on, with all pages that are given out.\<close>

definition volume_on_disk :: "u8 list \<Rightarrow> Boot \<Rightarrow> MfsVolume \<Rightarrow> bool" where
  "volume_on_disk disk s v \<longleftrightarrow> (let at = 512 * unat (lba_start (mbr_partition (gBootParams s))) in
     at + unat (v_size v) \<le> length disk \<and> (\<forall>a<unat (v_size v). disk ! (at + a) = v_data v (of_nat a))
     \<and> 4096 * (65 + unat (next_inode v)) \<le> unat (v_size v))"

lemma disk_read_page:
  assumes "reads_disk bios drive disk B" and "loader_env ad T B s" and "boot_drive (gBootParams s) = drive"
    and "maps s 4096 va P" and "inj_on P {..<4096}" and "\<forall>k<4096. P k \<notin> T \<union> scratch ad B"
    and "unat lba + unat (lba_start (mbr_partition (gBootParams s))) + 8 \<le> 2 ^ 50"
    and off: "off = 512 * (unat lba + unat (lba_start (mbr_partition (gBootParams s))))" and "off + 4096 \<le> length disk"
  shows "\<exists>s'. disk_read_raw bios ad args va lba 8 s = Some s' \<and> keeps T s s' \<and> (\<forall>k<4096. ram s' (P k) = disk ! (off + k))
    \<and> (\<forall>x. x \<notin> P ` {..<4096} \<longrightarrow> x \<notin> scratch ad B \<longrightarrow> ram s' x = ram s x)"
proof -
  let ?l = "lba + ucast (lba_start (mbr_partition (gBootParams s)))"
  define m1 where "m1 = dap_transfer ad ?l 8 (dap_init ad (ram s))"
  note d = dap_fields [OF m1_def]
  have env: "tables_in T s" "\<And>a. unat a < 2 ^ 32 \<Longrightarrow> phys s a = Some a" "unat (dap_at ad) + 16 \<le> 2 ^ 16"
    "unat (buffer_at ad) + 4096 \<le> 2 ^ 16" "T \<inter> scratch ad B = {}"
    using assms(2) unfolding loader_env_def by blast+
  have uc: "unat (ucast (x :: u32) :: u64) = unat x" for x
    using unsigned_less [of x, where 'a = nat] by (simp add: unsigned_ucast_eq take_bit_nat_eq_self)
  have ul: "unat ?l = unat lba + unat (lba_start (mbr_partition (gBootParams s)))"
    using assms(7) by (subst unat_add_u64) (simp_all add: uc)
  have ud: "ucast (ucast (dap_at ad) :: u32) = dap_at ad"
    using env(3) by (simp add: word_unat_eq_iff uc) (simp add: unsigned_ucast_eq take_bit_nat_eq_self)
  have ub: "ucast (ucast (buffer_at ad) :: u16) = buffer_at ad"
    using env(4) by (simp add: word_unat_eq_iff unsigned_ucast_eq unsigned_take_bit_eq take_bit_nat_eq_self)
  define args1 where "args1 = args\<lparr>eax := 0x4200, edx := drive, esi := ucast (dap_at ad), es := 0\<rparr>"
  have "\<exists>cf args' m'. bios 0x13 args1 m1 = (cf, args', m') \<and> (\<forall>k<512 * 8. m' (buffer_at ad + of_nat k) = disk ! (512 * unat ?l + k))
          \<and> (\<forall>x. \<not> in_range (buffer_at ad) (512 * 8) x \<longrightarrow> \<not> in_range (dap_at ad) 16 x \<longrightarrow> x \<notin> B \<longrightarrow> m' x = m1 x)"
  proof (rule assms(1) [unfolded reads_disk_def, rule_format])
    show "eax args1 = 0x4200" "edx args1 = drive" "es args1 = 0" "dap_at ad = ucast (esi args1)" by (simp_all add: args1_def ud)
    show "unat (dap_at ad) + 16 \<le> 2 ^ 16" by (rule env(3))
    show "m1 (dap_at ad) = 16" "m1 (dap_at ad + 1) = 0" by (rule d)+
    show "8 = unat (load16 m1 (dap_at ad + 2))" by (simp add: d(3))
    show "buffer_at ad = 16 * ucast (load16 m1 (dap_at ad + 6)) + ucast (load16 m1 (dap_at ad + 4))" by (simp only: d(4,5)) (simp add: ub)
    show "unat ?l = unat (load64 m1 (dap_at ad + 8))" by (simp add: d(6))
    show "512 * (unat ?l + 8) \<le> length disk" using assms(9) unfolding off ul by simp
  qed simp_all
  then obtain cf args' m' where b: "bios 0x13 args1 m1 = (cf, args', m')" "\<And>k. k < 4096 \<Longrightarrow> m' (buffer_at ad + of_nat k) = disk ! (off + k)"
      "\<And>x. x \<notin> scratch ad B \<Longrightarrow> m' x = m1 x" unfolding ul off scratch_def by auto
  define s1 where "s1 = s\<lparr>ram := m'\<rparr>"
  have same: "m' x = ram s x" if "x \<notin> scratch ad B" for x
    using b(3) [OF that] d(7) [of x] that by (simp add: scratch_def)
  then have k1: "keeps T s s1" using env(5) by (auto simp: keeps_def s1_def)
  have t1: "tables_in T s1" "maps s1 4096 va P" using keeps_tables [OF env(1) k1] keeps_maps [OF env(1) k1] assms(4) by simp_all
  have q: "maps s1 4096 (buffer_at ad) (\<lambda>k. buffer_at ad + of_nat k)"
    unfolding maps_def keeps_phys [OF env(1) k1]
  proof (intro allI impI env(2))
    fix k :: nat assume "k < 4096"
    then show "unat (buffer_at ad + of_nat k) < 2 ^ 32" using env(4) by (subst unat_add_nat) simp_all
  qed
  have ne: "\<forall>j<4096. \<forall>k<4096. P j \<noteq> buffer_at ad + of_nat k"
  proof (intro allI impI)
    fix j k :: nat assume "j < 4096" "k < 4096"
    then have "buffer_at ad + of_nat k \<in> scratch ad B" "P j \<notin> scratch ad B" using assms(6) by (auto simp: scratch_def in_range_offset)
    then show "P j \<noteq> buffer_at ad + of_nat k" by metis
  qed
  have "\<forall>k<4096. P k \<notin> T" using assms(6) by blast
  from vcopy_spec [OF t1 q assms(5) this ne]
  obtain s' where s': "vcopy 4096 va (buffer_at ad) s1 = Some s'" "keeps T s1 s'" "\<forall>k<4096. ram s' (P k) = ram s1 (buffer_at ad + of_nat k)"
      "\<forall>x. x \<notin> P ` {..<4096} \<longrightarrow> ram s' x = ram s1 x" by blast
  have "disk_read_raw bios ad args va lba 8 s = Some s'"
    using b(1) s'(1) assms(3)
    by (simp add: disk_read_raw_def disk_read_from.simps [of bios ad va] disk_read_from.simps [of bios ad _ _ 0] Let_def bios_call_def
          m1_def args1_def s1_def)
  moreover have "keeps T s s'" using k1 s'(2) by (rule keeps_trans)
  moreover have "\<forall>k<4096. ram s' (P k) = disk ! (off + k)" using s'(3) b(2) by (simp add: s1_def)
  moreover have "\<forall>x. x \<notin> P ` {..<4096} \<longrightarrow> x \<notin> scratch ad B \<longrightarrow> ram s' x = ram s x" using s'(4) same by (simp add: s1_def)
  ultimately show ?thesis by blast
qed


text \<open>
  An area that can be read into: \<open>n\<close> bytes from \<open>va\<close> on at the physical addresses \<open>P\<close>, apart from the tables, from
  what a read overwrites and from the loader's pages.
\<close>

definition area :: "BootAddrs \<Rightarrow> u64 set \<Rightarrow> u64 set \<Rightarrow> Boot \<Rightarrow> nat \<Rightarrow> u64 \<Rightarrow> (nat \<Rightarrow> u64) \<Rightarrow> bool" where
  "area ad T B s n va P \<longleftrightarrow> maps s n va P \<and> inj_on P {..<n} \<and> P ` {..<n} \<inter> (T \<union> scratch ad B \<union> statics ad) = {}"

lemma read_page:
  assumes "reads_disk bios drive disk B" and "loader_env ad T B s" and "boot_drive (gBootParams s) = drive" and "volume_on_disk disk s v"
    and "maps s 4096 va P" and "inj_on P {..<4096}" and "P ` {..<4096} \<inter> (T \<union> scratch ad B) = {}"
    and "i \<le> next_inode v" and "unat i < 2 ^ 40"
  obtains s' where "mfs_read_page bios ad args va i s = Some s'" and "keeps T s s'"
    and "\<And>k. k < 4096 \<Longrightarrow> ram s' (P k) = v_data v (inode_page i + of_nat k)"
    and "\<And>x. x \<notin> P ` {..<4096} \<Longrightarrow> x \<notin> scratch ad B \<Longrightarrow> ram s' x = ram s x"
proof -
  let ?lba = "unat (lba_start (mbr_partition (gBootParams s)))"
  have "unat ((MFS_RESERVED_PAGES + i) * 8) = 8 * (64 + unat i)"
  proof -
    have "(MFS_RESERVED_PAGES + i) * 8 = of_nat (8 * (64 + unat i))" by (simp add: MFS_RESERVED_PAGES_def algebra_simps)
    then show ?thesis using assms(9) by (simp add: unat_of_nat_u64 del: of_nat_mult of_nat_add)
  qed
  then have off: "512 * ?lba + 4096 * (64 + unat i) = 512 * (unat ((MFS_RESERVED_PAGES + i) * 8) + ?lba)" by simp
  have "?lba < 2 ^ 32" using unsigned_less [of "lba_start (mbr_partition (gBootParams s))", where 'a = nat] by simp
  then have small: "unat ((MFS_RESERVED_PAGES + i) * 8) + ?lba + 8 \<le> 2 ^ 50" using assms(9) off by simp
  have i: "unat i \<le> unat (next_inode v)" using assms(8) by (simp add: word_le_nat_alt)
  have vd: "512 * ?lba + unat (v_size v) \<le> length disk" "\<And>a. a < unat (v_size v) \<Longrightarrow> disk ! (512 * ?lba + a) = v_data v (of_nat a)"
    "4096 * (65 + unat (next_inode v)) \<le> unat (v_size v)" using assms(4) by (simp_all add: volume_on_disk_def Let_def)
  have len: "512 * ?lba + 4096 * (64 + unat i) + 4096 \<le> length disk" using vd(1,3) i by simp
  have P: "\<forall>k<4096. P k \<notin> T \<union> scratch ad B" using assms(7) by blast
  obtain s' where s': "disk_read_raw bios ad args va ((MFS_RESERVED_PAGES + i) * 8) 8 s = Some s'" "keeps T s s'"
      "\<forall>k<4096. ram s' (P k) = disk ! (512 * ?lba + 4096 * (64 + unat i) + k)"
      "\<forall>x. x \<notin> P ` {..<4096} \<longrightarrow> x \<notin> scratch ad B \<longrightarrow> ram s' x = ram s x"
    using disk_read_page [OF assms(1-3,5,6) P small off len] by blast
  have "ram s' (P k) = v_data v (inode_page i + of_nat k)" if k: "k < 4096" for k
  proof -
    have "4096 * (64 + unat i) + k < unat (v_size v)" using vd(3) i k by simp
    moreover have "of_nat (4096 * (64 + unat i) + k) = inode_page i + of_nat k"
      by (simp add: inode_page_def MFS_RESERVED_PAGES_def MFS_PAGE_SIZE_def algebra_simps)
    ultimately show ?thesis using s'(3) vd(2) [of "4096 * (64 + unat i) + k"] k by (simp only: add.assoc)
  qed
  then show thesis using that s' unfolding mfs_read_page_def by blast
qed


text \<open>A page of the volume in one of the static pages of mfs.c, where the code then reads its words.\<close>

definition page_in :: "BootAddrs \<Rightarrow> Boot \<Rightarrow> nat \<Rightarrow> MfsVolume \<Rightarrow> u64 \<Rightarrow> bool" where
  "page_in ad s j v i \<longleftrightarrow> (\<forall>k<4096. virtual_ram s (mfs_page ad j + of_nat k) = v_data v (inode_page i + of_nat k))"

lemma page_in_word:
  assumes "page_in ad s j v i" and "l < 512"
  shows "load64 (virtual_ram s) (mfs_page ad j + of_nat (8 * l)) = word (v_data v) i l"
  unfolding word_def load_def
proof (rule arg_cong [where f = word_le], rule map_cong [OF refl])
  fix b assume "b \<in> set [0..<8]"
  then have k: "8 * l + b < 4096" using assms(2) by simp
  have "a + of_nat (8 * l) + of_nat b = a + of_nat (8 * l + b)" for a :: u64 by simp
  then show "virtual_ram s (mfs_page ad j + of_nat (8 * l) + of_nat b) = v_data v (inode_page i + of_nat (8 * l) + of_nat b)"
    using assms(1) k unfolding page_in_def by (simp only:)
qed

lemma virtual_ram_maps: "maps s n va P \<Longrightarrow> k < n \<Longrightarrow> virtual_ram s (va + of_nat k) = ram s (P k)"
  by (simp add: maps_def virtual_ram_def)

lemma static_page:
  assumes "loader_env ad T B s" and "j < 4"
  shows "maps s 4096 (mfs_page ad j) (\<lambda>k. mfs_page ad j + of_nat k)" and "inj_on (\<lambda>k. mfs_page ad j + of_nat k) {..<4096}"
    and "(\<lambda>k. mfs_page ad j + of_nat k) ` {..<4096} \<subseteq> statics ad"
    and "statics ad \<inter> (T \<union> scratch ad B) = {}"
proof -
  have env: "\<And>a. unat a < 2 ^ 32 \<Longrightarrow> phys s a = Some a" "unat (gPages_at ad) + 4 * 4096 \<le> 2 ^ 32"
    "T \<inter> statics ad = {}" "statics ad \<inter> scratch ad B = {}" using assms(1) unfolding loader_env_def by blast+
  have at: "mfs_page ad j + of_nat k = gPages_at ad + of_nat (4096 * j + k)" for k
    by (simp add: mfs_page_def MFS_PAGE_SIZE_def)
  have lt: "4096 * j + k < 4 * 4096" if "k < 4096" for k using assms(2) that by simp
  have "unat (mfs_page ad j + of_nat k) < 2 ^ 32" if "k < 4096" for k
    unfolding at using lt [OF that] env(2) by (subst unat_add_nat) simp_all
  then show "maps s 4096 (mfs_page ad j) (\<lambda>k. mfs_page ad j + of_nat k)" unfolding maps_def using env(1) by blast
  show "inj_on (\<lambda>k. mfs_page ad j + of_nat k) {..<4096}"
    by (rule inj_onI) (simp add: of_nat_u64_eq)
  show "(\<lambda>k. mfs_page ad j + of_nat k) ` {..<4096} \<subseteq> statics ad"
  proof
    fix x assume "x \<in> (\<lambda>k. mfs_page ad j + of_nat k) ` {..<4096}"
    then obtain k where k: "k < 4096" "x = gPages_at ad + of_nat (4096 * j + k)" unfolding at by blast
    have "in_range (gPages_at ad) (4 * 4096) x" unfolding k(2) using lt [OF k(1)] by (intro in_range_offset) simp_all
    then show "x \<in> statics ad" by (simp add: statics_def)
  qed
  show "statics ad \<inter> (T \<union> scratch ad B) = {}" using env(3,4) by blast
qed

lemma other_static_page:
  assumes "j \<noteq> l" and "j < 4" and "l < 4"
  shows "(\<lambda>k. mfs_page ad j + of_nat k) ` {..<4096} \<inter> (\<lambda>k. mfs_page ad l + of_nat k) ` {..<4096} = {}"
proof -
  have "mfs_page ad j + of_nat a \<noteq> mfs_page ad l + of_nat b" if "a < 4096" "b < 4096" for a b
  proof
    have at: "mfs_page ad j + of_nat k = gPages_at ad + of_nat (4096 * j + k)" for j k
      by (simp add: mfs_page_def MFS_PAGE_SIZE_def)
    assume "mfs_page ad j + of_nat a = mfs_page ad l + of_nat b"
    then have "(of_nat (4096 * j + a) :: u64) = of_nat (4096 * l + b)" unfolding at by (simp only: add_left_cancel)
    then have "4096 * j + a = 4096 * l + b" using assms(2,3) that by (subst (asm) of_nat_u64_eq) simp_all
    then show False using page_no_unique [OF _ that] assms(1) by blast
  qed
  then show ?thesis by auto
qed

lemma read_static:
  assumes "reads_disk bios drive disk B" and "loader_env ad T B s" and "boot_drive (gBootParams s) = drive" and "volume_on_disk disk s v"
    and "j < 4" and "i \<le> next_inode v" and "unat i < 2 ^ 40"
  obtains s' where "mfs_read_page bios ad args (mfs_page ad j) i s = Some s'" and "keeps T s s'" and "page_in ad s' j v i"
    and "\<And>x. x \<notin> (\<lambda>k. mfs_page ad j + of_nat k) ` {..<4096} \<Longrightarrow> x \<notin> scratch ad B \<Longrightarrow> ram s' x = ram s x"
proof -
  note st = static_page [OF assms(2,5)]
  have t: "tables_in T s" using assms(2) by (simp add: loader_env_def)
  have d: "(\<lambda>k. mfs_page ad j + of_nat k) ` {..<4096} \<inter> (T \<union> scratch ad B) = {}" using st(3,4) by blast
  obtain s' where s': "mfs_read_page bios ad args (mfs_page ad j) i s = Some s'" "keeps T s s'"
      "\<And>k. k < 4096 \<Longrightarrow> ram s' (mfs_page ad j + of_nat k) = v_data v (inode_page i + of_nat k)"
      "\<And>x. x \<notin> (\<lambda>k. mfs_page ad j + of_nat k) ` {..<4096} \<Longrightarrow> x \<notin> scratch ad B \<Longrightarrow> ram s' x = ram s x"
    by (rule read_page [OF assms(1-4) st(1,2) d assms(6,7), of args]) (rule that)
  have "maps s' 4096 (mfs_page ad j) (\<lambda>k. mfs_page ad j + of_nat k)" using st(1) keeps_maps [OF t s'(2)] by simp
  then have "page_in ad s' j v i" unfolding page_in_def using s'(3) by (simp add: virtual_ram_maps)
  then show thesis using that s' by blast
qed


section \<open>Reading a file\<close>

lemma area_part:
  assumes "area ad T B s n va P" and "off + k \<le> n"
  shows "area ad T B s k (va + of_nat off) (\<lambda>i. P (off + i))"
proof -
  have a: "maps s n va P" "inj_on P {..<n}" "P ` {..<n} \<inter> (T \<union> scratch ad B \<union> statics ad) = {}"
    using assms(1) unfolding area_def by blast+
  have lt: "off + i < n" if "i < k" for i using assms(2) that by simp
  have "maps s k (va + of_nat off) (\<lambda>i. P (off + i))"
    unfolding maps_def
  proof (intro allI impI)
    fix i assume "i < k"
    then have "phys s (va + of_nat (off + i)) = Some (P (off + i))" using a(1) lt unfolding maps_def by blast
    then show "phys s (va + of_nat off + of_nat i) = Some (P (off + i))" by (simp add: add.assoc)
  qed
  moreover have "inj_on (\<lambda>i. P (off + i)) {..<k}"
    by (rule inj_onI) (use a(2) lt in \<open>auto dest: inj_onD\<close>)
  moreover have "(\<lambda>i. P (off + i)) ` {..<k} \<subseteq> P ` {..<n}" using lt by auto
  ultimately show ?thesis using a(3) unfolding area_def by blast
qed

lemma area_keeps: "loader_env ad T B s \<Longrightarrow> keeps T s s' \<Longrightarrow> area ad T B s n va P \<Longrightarrow> area ad T B s' n va P"
  unfolding area_def loader_env_def by (elim conjE) (simp only: keeps_maps)

lemma keeps_subset: "keeps T s s' \<Longrightarrow> U \<subseteq> T \<Longrightarrow> keeps U s s'"
  unfolding keeps_def by blast

text \<open>The two loops of \<open>mfs_read\<close>: page after page into the area, with the pointers in a static page.\<close>

lemma read_pages:
  assumes "reads_disk bios drive disk B" and "loader_env ad T B s" and "boot_drive (gBootParams s) = drive" and "volume_on_disk disk s v"
    and "area ad T B s (4096 * n) va P" and "\<And>i. i < n \<Longrightarrow> ptr i \<le> next_inode v \<and> unat (ptr i) < 2 ^ 40"
    and "\<And>i s'. i < n \<Longrightarrow> keeps (T \<union> statics ad) s s' \<Longrightarrow> g i s' = ptr i"
  shows "\<exists>s'. for_opt n (\<lambda>i s. mfs_read_page bios ad args (va + of_nat i * MFS_PAGE_SIZE) (g i s) s) s = Some s'
    \<and> keeps (T \<union> statics ad) s s' \<and> (\<forall>k<4096 * n. ram s' (P k) = v_data v (inode_page (ptr (k div 4096)) + of_nat (k mod 4096)))
    \<and> (\<forall>x. x \<notin> P ` {..<4096 * n} \<longrightarrow> x \<notin> scratch ad B \<longrightarrow> ram s' x = ram s x)"
  using assms(5-7)
proof (induction n)
  case 0
  then show ?case using keeps_refl by simp
next
  case (Suc n)
  have "area ad T B s (4096 * n) (va + of_nat 0) (\<lambda>i. P (0 + i))" by (rule area_part [OF Suc.prems(1)]) simp
  then have a: "area ad T B s (4096 * n) va P" by simp
  obtain s1 where s1: "for_opt n (\<lambda>i s. mfs_read_page bios ad args (va + of_nat i * MFS_PAGE_SIZE) (g i s) s) s = Some s1"
      "keeps (T \<union> statics ad) s s1" "\<forall>k<4096 * n. ram s1 (P k) = v_data v (inode_page (ptr (k div 4096)) + of_nat (k mod 4096))"
      "\<forall>x. x \<notin> P ` {..<4096 * n} \<longrightarrow> x \<notin> scratch ad B \<longrightarrow> ram s1 x = ram s x"
    using Suc.IH [OF a] Suc.prems(2,3) by auto
  let ?Q = "\<lambda>k. P (4096 * n + k)"
  have k1: "keeps T s s1" using s1(2) by (rule keeps_subset) simp
  note env1 = loader_env_keeps [OF assms(2) k1]
  have p1: "gBootParams s1 = gBootParams s" using k1 by (simp add: keeps_def)
  have vd: "volume_on_disk disk s1 v" using assms(4) p1 by (simp add: volume_on_disk_def)
  have "area ad T B s1 4096 (va + of_nat (4096 * n)) ?Q" by (rule area_keeps [OF assms(2) k1 area_part [OF Suc.prems(1)]]) simp
  then have q: "maps s1 4096 (va + of_nat (4096 * n)) ?Q" "inj_on ?Q {..<4096}" "?Q ` {..<4096} \<inter> (T \<union> scratch ad B \<union> statics ad) = {}"
    unfolding area_def by blast+
  have gp: "g n s1 = ptr n" "ptr n \<le> next_inode v" "unat (ptr n) < 2 ^ 40" using Suc.prems(2,3) s1(2) by auto
  have dr: "boot_drive (gBootParams s1) = drive" using assms(3) p1 by simp
  have qd: "?Q ` {..<4096} \<inter> (T \<union> scratch ad B) = {}" using q(3) by blast
  obtain s' where s': "mfs_read_page bios ad args (va + of_nat (4096 * n)) (ptr n) s1 = Some s'" "keeps T s1 s'"
      "\<And>k. k < 4096 \<Longrightarrow> ram s' (?Q k) = v_data v (inode_page (ptr n) + of_nat k)"
      "\<And>x. x \<notin> ?Q ` {..<4096} \<Longrightarrow> x \<notin> scratch ad B \<Longrightarrow> ram s' x = ram s1 x"
    by (rule read_page [OF assms(1) env1 dr vd q(1,2) qd gp(2,3), of args]) (rule that)
  have st: "statics ad \<inter> scratch ad B = {}" using assms(2) unfolding loader_env_def by blast
  have "keeps (T \<union> statics ad) s1 s'" using s'(2,4) q(3) st unfolding keeps_def by blast
  with s1(2) have kp: "keeps (T \<union> statics ad) s s'" by (rule keeps_trans)
  have inj: "inj_on P {..<4096 * Suc n}" and out: "P ` {..<4096 * Suc n} \<inter> scratch ad B = {}" using Suc.prems(1) unfolding area_def by blast+
  have "ram s' (P k) = v_data v (inode_page (ptr (k div 4096)) + of_nat (k mod 4096))" if k: "k < 4096 * Suc n" for k
  proof (cases "k < 4096 * n")
    case True
    have "P k \<notin> ?Q ` {..<4096}"
    proof
      assume "P k \<in> ?Q ` {..<4096}"
      then obtain j where "j < 4096" "P k = P (4096 * n + j)" by blast
      then have "k = 4096 * n + j" using inj_onD [OF inj] k by simp
      then show False using True by simp
    qed
    moreover have "P k \<notin> scratch ad B" using out k by blast
    ultimately show ?thesis using s'(4) s1(3) True by simp
  next
    case False
    then obtain j where j: "k = 4096 * n + j" "j < 4096" using k by (intro that [of "k - 4096 * n"]) simp_all
    then show ?thesis using s'(3) [OF j(2)] by simp
  qed
  moreover have "ram s' x = ram s x" if "x \<notin> P ` {..<4096 * Suc n}" "x \<notin> scratch ad B" for x
  proof -
    have "x \<notin> ?Q ` {..<4096}" "x \<notin> P ` {..<4096 * n}" using that(1) by auto
    then show ?thesis using s'(4) s1(4) that(2) by simp
  qed
  moreover have "va + of_nat n * MFS_PAGE_SIZE = va + of_nat (4096 * n)" by (simp add: MFS_PAGE_SIZE_def)
  ultimately show ?case using s1(1) s'(1) gp(1) kp by simp
qed


lemma page_in_keeps:
  assumes "loader_env ad T B s" and "keeps (T \<union> statics ad) s s'" and "j < 4" and "page_in ad s j v i"
  shows "page_in ad s' j v i"
proof -
  note st = static_page [OF assms(1,3)]
  have t: "tables_in T s" using assms(1) by (simp add: loader_env_def)
  have k: "keeps T s s'" using assms(2) by (rule keeps_subset) simp
  have m: "maps s' 4096 (mfs_page ad j) (\<lambda>k. mfs_page ad j + of_nat k)" using st(1) keeps_maps [OF t k] by simp
  have "ram s' (mfs_page ad j + of_nat b) = ram s (mfs_page ad j + of_nat b)" if "b < 4096" for b
    using assms(2) st(3) that unfolding keeps_def by blast
  then show ?thesis using assms(4) virtual_ram_maps [OF m] virtual_ram_maps [OF st(1)] unfolding page_in_def by simp
qed

lemma pages_of_size:
  assumes "sz = of_nat L" and "pages_for L \<le> 528"
  shows "unat (ucast ((sz + MFS_PAGE_SIZE - 1) div MFS_PAGE_SIZE) :: u32) = pages_for L"
proof -
  have "(L + 4095) div 4096 < 529" using assms(2) by (simp add: pages_for_def)
  then have L: "L + 4095 < 529 * 4096" by (simp only: div_less_iff_less_mult)
  have "sz + MFS_PAGE_SIZE - 1 = of_nat (L + 4095)" by (simp add: assms(1) MFS_PAGE_SIZE_def)
  then have "unat (sz + MFS_PAGE_SIZE - 1) = L + 4095" using L by (simp add: unat_of_nat_u64 del: of_nat_add)
  then have "unat ((sz + MFS_PAGE_SIZE - 1) div MFS_PAGE_SIZE) = pages_for L" by (simp add: unat_div MFS_PAGE_SIZE_def pages_for_def)
  then show ?thesis using assms(2) by (simp add: unsigned_ucast_eq take_bit_nat_eq_self)
qed

lemma mfs_file_size_spec:
  assumes "reads_disk bios drive disk B" and "loader_env ad T B s" and "boot_drive (gBootParams s) = drive" and "volume_on_disk disk s v"
    and "holds v F bs"
  obtains s' where "mfs_file_size bios ad args F s = Some (of_nat (length bs), s')" and "keeps T s s'"
proof -
  have F: "F \<le> next_inode v" "unat F < 2 ^ 40" using assms(5) by (auto simp: holds_def file_ok_def plain_def)
  obtain s' where s': "mfs_read_page bios ad args (mfs_page ad 0) F s = Some s'" "keeps T s s'" "page_in ad s' 0 v F"
    by (rule read_static [OF assms(1-4), of 0 F args]) (use F in auto)
  have "load64 (virtual_ram s') (file_size_at (mfs_page ad 0)) = word (v_data v) F 2"
    using page_in_word [OF s'(3), of 2] by (simp add: file_size_at_def)
  also have "\<dots> = of_nat (length bs)" by (simp add: holds_size [OF assms(5), symmetric])
  finally show thesis using that s' by (simp add: mfs_file_size_def)
qed


text \<open>The pages of a file that are in an area, as far as they have been read.\<close>

definition pages_at :: "Boot \<Rightarrow> (nat \<Rightarrow> u64) \<Rightarrow> MfsVolume \<Rightarrow> u64 \<Rightarrow> nat \<Rightarrow> bool" where
  "pages_at s P v F n \<longleftrightarrow> (\<forall>k<4096 * n. ram s (P k) = v_data v (inode_page (data_ptr (v_data v) F (k div 4096)) + of_nat (k mod 4096)))"

lemma mfs_read_data_spec:
  assumes "reads_disk bios drive disk B" and "loader_env ad T B s" and "boot_drive (gBootParams s) = drive" and "volume_on_disk disk s v"
    and "area ad T B s (4096 * n) va P" and "file_ok v F N" and "n \<le> N" and "n \<le> 16" and "page_in ad s 0 v F"
  obtains s' where "mfs_read_data bios ad args va n s = Some s'" and "keeps (T \<union> statics ad) s s'" and "pages_at s' P v F n"
proof -
  have "load64 (virtual_ram s') (file_data_at (mfs_page ad 0) (of_nat i)) = data_ptr (v_data v) F i"
    if "i < n" "keeps (T \<union> statics ad) s s'" for i s'
  proof -
    have "page_in ad s' 0 v F" by (rule page_in_keeps [OF assms(2) that(2) _ assms(9)]) simp
    then show ?thesis using page_in_word [of ad s' 0 v F "7 + i"] that(1) assms(8) by (simp add: file_data_at_def data_ptr_def add.assoc)
  qed
  moreover have "data_ptr (v_data v) F i \<le> next_inode v \<and> unat (data_ptr (v_data v) F i) < 2 ^ 40" if "i < n" for i
    using assms(6,7) that by (auto simp: file_ok_def plain_def)
  ultimately show thesis
    using read_pages [OF assms(1-5), of "data_ptr (v_data v) F" "\<lambda>i s. load64 (virtual_ram s) (file_data_at (mfs_page ad 0) (of_nat i))" args] that
    unfolding mfs_read_data_def pages_at_def by blast
qed

lemma mfs_read_idata_spec:
  assumes "reads_disk bios drive disk B" and "loader_env ad T B s" and "boot_drive (gBootParams s) = drive" and "volume_on_disk disk s v"
    and "area ad T B s (4096 * (16 + n)) va P" and "file_ok v F (16 + n)" and "0 < n" and "page_in ad s 1 v (word (v_data v) F 23)"
    and "pages_at s P v F 16"
  obtains s' where "mfs_read_idata bios ad args (va + of_nat 16 * MFS_PAGE_SIZE) n s = Some s'" and "keeps (T \<union> statics ad) s s'"
    and "pages_at s' P v F (16 + n)"
proof -
  let ?x = "word (v_data v) F 23" and ?Q = "\<lambda>i. P (4096 * 16 + i)"
  have N: "16 + n \<le> 528" and x: "?x \<noteq> 0" using assms(6,7) by (auto simp: file_ok_def plain_def)
  have ptr: "data_ptr (v_data v) F (16 + i) = word (v_data v) ?x i" for i using x by (simp add: data_ptr_def)
  have g: "load64 (virtual_ram s') (inodes_at (mfs_page ad 1) (of_nat i)) = data_ptr (v_data v) F (16 + i)"
    if "i < n" "keeps (T \<union> statics ad) s s'" for i s'
  proof -
    have "page_in ad s' 1 v ?x" by (rule page_in_keeps [OF assms(2) that(2) _ assms(8)]) simp
    then show ?thesis using page_in_word [of ad s' 1 v ?x i] that(1) N by (simp add: inodes_at_def ptr)
  qed
  have p: "data_ptr (v_data v) F (16 + i) \<le> next_inode v \<and> unat (data_ptr (v_data v) F (16 + i)) < 2 ^ 40" if "i < n" for i
    using assms(6) that by (auto simp: file_ok_def plain_def)
  have a: "area ad T B s (4096 * n) (va + of_nat (4096 * 16)) ?Q" by (rule area_part [OF assms(5)]) simp
  obtain s' where s': "mfs_read_idata bios ad args (va + of_nat (4096 * 16)) n s = Some s'" "keeps (T \<union> statics ad) s s'"
      "\<forall>k<4096 * n. ram s' (?Q k) = v_data v (inode_page (data_ptr (v_data v) F (16 + k div 4096)) + of_nat (k mod 4096))"
      "\<forall>x. x \<notin> ?Q ` {..<4096 * n} \<longrightarrow> x \<notin> scratch ad B \<longrightarrow> ram s' x = ram s x"
    using read_pages [where ptr = "\<lambda>i. data_ptr (v_data v) F (16 + i)" and args = args
        and g = "\<lambda>i s. load64 (virtual_ram s) (inodes_at (mfs_page ad 1) (of_nat i))", OF assms(1-4) a p g]
    unfolding mfs_read_idata_def by blast
  have inj: "inj_on P {..<4096 * (16 + n)}" and out: "P ` {..<4096 * (16 + n)} \<inter> scratch ad B = {}" using assms(5) unfolding area_def by blast+
  have "ram s' (P k) = v_data v (inode_page (data_ptr (v_data v) F (k div 4096)) + of_nat (k mod 4096))" if k: "k < 4096 * (16 + n)" for k
  proof (cases "k < 4096 * 16")
    case True
    have "P k \<notin> ?Q ` {..<4096 * n}"
    proof
      assume "P k \<in> ?Q ` {..<4096 * n}"
      then obtain j where "j < 4096 * n" "P k = P (4096 * 16 + j)" by blast
      then have "k = 4096 * 16 + j" using inj_onD [OF inj] k by simp
      then show False using True by simp
    qed
    moreover have "P k \<notin> scratch ad B" using out k by blast
    ultimately show ?thesis using s'(4) assms(9) True by (simp add: pages_at_def)
  next
    case False
    then obtain j where j: "k = 4096 * 16 + j" "j < 4096 * n" using k by (intro that [of "k - 4096 * 16"]) simp_all
    have "(4096 * a + b) div 4096 = a + b div 4096" "(4096 * a + b) mod 4096 = b mod 4096" for a b :: nat by simp_all
    from this [of 16 j] show ?thesis using s'(3) j by (simp only:)
  qed
  moreover have "va + of_nat 16 * MFS_PAGE_SIZE = va + of_nat (4096 * 16)" by (simp add: MFS_PAGE_SIZE_def)
  ultimately show thesis using that s'(1,2) unfolding pages_at_def by simp
qed


lemma mfs_read_spec:
  assumes "reads_disk bios drive disk B" and "loader_env ad T B s" and "boot_drive (gBootParams s) = drive" and "volume_on_disk disk s v"
    and "holds v F bs" and "area ad T B s (4096 * pages_for (length bs)) va P"
  shows "\<exists>s'. mfs_read bios ad args va F s = Some s' \<and> keeps T s s' \<and> (\<forall>k<length bs. virtual_ram s' (va + of_nat k) = bs ! k)"
proof -
  let ?n = "pages_for (length bs)"
  have ok: "file_ok v F ?n" and c: "content (v_data v) F = bs" using assms(5) by (simp_all add: holds_def)
  have F: "F \<le> next_inode v" "unat F < 2 ^ 40" and n: "?n \<le> 528" using ok by (auto simp: file_ok_def plain_def)
  have t: "tables_in T s" using assms(2) by (simp add: loader_env_def)
  have params: "boot_drive (gBootParams s') = drive" "volume_on_disk disk s' v" if "keeps T s s'" for s'
    using assms(3,4) that by (simp_all add: keeps_def volume_on_disk_def)
  note env = loader_env_keeps [OF assms(2)] and area = area_keeps [OF assms(2) _ assms(6)]
  obtain s1 where s1: "mfs_file_size bios ad args F s = Some (of_nat (length bs), s1)" "keeps T s s1"
    by (rule mfs_file_size_spec [OF assms(1-5)])
  note np = pages_of_size [OF refl n]
  have all: "\<forall>k<length bs. virtual_ram s' (va + of_nat k) = bs ! k" if k: "keeps T s s'" and p: "pages_at s' P v F ?n" for s'
  proof (intro allI impI)
    fix k assume "k < length bs"
    then have kn: "k < 4096 * ?n" unfolding pages_for_def by simp
    have "maps s' (4096 * ?n) va P" using area [OF k] by (simp add: area_def)
    then have "virtual_ram s' (va + of_nat k) = v_data v (inode_page (data_ptr (v_data v) F (k div 4096)) + of_nat (k mod 4096))"
      using virtual_ram_maps kn p by (simp add: pages_at_def)
    also have "\<dots> = content (v_data v) F ! k" using \<open>k < length bs\<close> holds_size [OF assms(5)] by (simp add: content_def)
    finally show "virtual_ram s' (va + of_nat k) = bs ! k" using c by simp
  qed
  show ?thesis
  proof (cases "?n = 0")
    case True
    then have "length bs = 0" by (simp add: pages_for_def div_eq_0_iff)
    then show ?thesis using s1 np True by (intro exI [of _ s1]) (simp add: mfs_read_def Let_def)
  next
    case False
    obtain s2 where s2: "mfs_read_page bios ad args (mfs_page ad 0) F s1 = Some s2" "keeps T s1 s2" "page_in ad s2 0 v F"
      by (rule read_static [OF assms(1) env [OF s1(2)] params [OF s1(2)], of 0 F args]) (use F in auto)
    have k2: "keeps T s s2" using s1(2) s2(2) by (rule keeps_trans)
    let ?d = "min ?n 16"
    have "area ad T B s2 (4096 * ?d) (va + of_nat 0) (\<lambda>i. P (0 + i))" by (rule area_part [OF area [OF k2]]) simp
    then have ar: "area ad T B s2 (4096 * ?d) va P" by simp
    obtain s3 where s3: "mfs_read_data bios ad args va ?d s2 = Some s3" "keeps (T \<union> statics ad) s2 s3" "pages_at s3 P v F ?d"
      by (rule mfs_read_data_spec [OF assms(1) env [OF k2] params [OF k2] ar ok _ _ s2(3)]) simp_all
    have k3: "keeps T s s3" using k2 keeps_subset [OF s3(2)] keeps_trans by blast
    show ?thesis
    proof (cases "?n \<le> 16")
      case True
      then have "mfs_read bios ad args va F s = Some s3"
        using s1(1) s2(1) s3(1) np False by (simp add: mfs_read_def Let_def)
      then show ?thesis using k3 all [OF k3] s3(3) True by (simp add: min_absorb1)
    next
      case more: False
      define n where "n = ?n - 16"
      have n16: "?n = 16 + n" "0 < n" "n \<le> 512" using more n by (simp_all add: n_def)
      have X: "word (v_data v) F 23 \<le> next_inode v" "unat (word (v_data v) F 23) < 2 ^ 40"
        using ok more by (auto simp: file_ok_def plain_def)
      have p3: "page_in ad s3 0 v F" by (rule page_in_keeps [OF env [OF k2] s3(2) _ s2(3)]) simp
      have idata: "load64 (virtual_ram s3) (file_idata_at (mfs_page ad 0)) = word (v_data v) F 23"
        using page_in_word [OF p3, of 23] by (simp add: file_idata_at_def)
      obtain s4 where s4: "mfs_read_page bios ad args (mfs_page ad 1) (word (v_data v) F 23) s3 = Some s4" "keeps T s3 s4"
          "page_in ad s4 1 v (word (v_data v) F 23)"
          "\<And>x. x \<notin> (\<lambda>k. mfs_page ad 1 + of_nat k) ` {..<4096} \<Longrightarrow> x \<notin> scratch ad B \<Longrightarrow> ram s4 x = ram s3 x"
        by (rule read_static [OF assms(1) env [OF k3] params [OF k3] _ X, of 1 args]) (simp, rule that)
      have k4: "keeps T s s4" using k3 s4(2) by (rule keeps_trans)
      have st: "(\<lambda>k. mfs_page ad 1 + of_nat k) ` {..<4096} \<subseteq> statics ad" by (rule static_page(3) [OF assms(2)]) simp
      have out: "P ` {..<4096 * ?n} \<inter> (T \<union> scratch ad B \<union> statics ad) = {}" using assms(6) unfolding area_def by blast
      have p4: "pages_at s4 P v F 16"
        unfolding pages_at_def
      proof (intro allI impI)
        fix k :: nat assume k: "k < 4096 * 16"
        then have "P k \<in> P ` {..<4096 * ?n}" using n16(1) by simp
        then have "P k \<notin> statics ad" "P k \<notin> scratch ad B" using out by blast+
        then have "ram s4 (P k) = ram s3 (P k)" using s4(4) st by blast
        then show "ram s4 (P k) = v_data v (inode_page (data_ptr (v_data v) F (k div 4096)) + of_nat (k mod 4096))"
          using s3(3) k more by (simp add: pages_at_def)
      qed
      obtain s5 where s5: "mfs_read_idata bios ad args (va + of_nat 16 * MFS_PAGE_SIZE) n s4 = Some s5" "keeps (T \<union> statics ad) s4 s5"
          "pages_at s5 P v F (16 + n)"
        by (rule mfs_read_idata_spec [OF assms(1) env [OF k4] params [OF k4] area [OF k4, unfolded n16(1)] ok [unfolded n16(1)] n16(2) s4(3) p4])
          (rule that)
      have k5: "keeps T s s5" using k4 keeps_subset [OF s5(2)] keeps_trans by blast
      have "mfs_read bios ad args va F s = Some s5"
        using s1(1) s2(1) s3(1) s4(1) s5(1) np more n16 by (simp add: mfs_read_def Let_def idata n_def [symmetric] min_absorb2)
      then show ?thesis using k5 all [OF k5] s5(3) n16(1) by simp
    qed
  qed
qed


section \<open>Finding a name\<close>

definition bytes_at :: "mem \<Rightarrow> u64 \<Rightarrow> u8 list \<Rightarrow> bool" where
  "bytes_at m a bs \<longleftrightarrow> (\<forall>k<length bs. m (a + of_nat k) = bs ! k)"

lemma bytes_at_append: "bytes_at m a (bs @ cs) \<longleftrightarrow> bytes_at m a bs \<and> bytes_at m (a + of_nat (length bs)) cs"
proof
  assume l: "bytes_at m a (bs @ cs)"
  have "m (a + of_nat (length bs) + of_nat k) = cs ! k" if "k < length cs" for k
  proof -
    have "m (a + of_nat (length bs + k)) = (bs @ cs) ! (length bs + k)" using l [unfolded bytes_at_def, rule_format, of "length bs + k"] that by simp
    then show ?thesis by (simp add: add.assoc)
  qed
  moreover have "m (a + of_nat k) = bs ! k" if "k < length bs" for k
  proof -
    have "m (a + of_nat k) = (bs @ cs) ! k" using l that unfolding bytes_at_def by simp
    then show ?thesis using that by (simp add: nth_append)
  qed
  ultimately show "bytes_at m a bs \<and> bytes_at m (a + of_nat (length bs)) cs" by (simp add: bytes_at_def)
next
  assume r: "bytes_at m a bs \<and> bytes_at m (a + of_nat (length bs)) cs"
  show "bytes_at m a (bs @ cs)"
    unfolding bytes_at_def
  proof (intro allI impI)
    fix k assume k: "k < length (bs @ cs)"
    show "m (a + of_nat k) = (bs @ cs) ! k"
    proof (cases "k < length bs")
      case False
      then obtain j where "k = length bs + j" "j < length cs" using k by (intro that [of "k - length bs"]) auto
      then show ?thesis using r by (simp add: bytes_at_def add.assoc)
    qed (use r in \<open>simp add: bytes_at_def nth_append\<close>)
  qed
qed

lemma load_bytes_at: "bytes_at m a bs \<Longrightarrow> load (length bs) m a = word_le bs"
  unfolding load_def by (rule arg_cong [where f = word_le], rule nth_equalityI) (simp_all add: bytes_at_def)

lemma mfs_find_from_spec:
  assumes "cstr_at m name nm" and "length nm < 2 ^ 32" and "exact_match ents nm = Some i" and "names_ok ents" and "bytes_at m dir (dir_bytes ents)"
  shows "mfs_find_from m dir name (of_nat (length nm)) = Some i"
  using assms(3-5)
proof (induction ents arbitrary: dir)
  case Nil
  then show ?case by (simp add: exact_match_def)
next
  case (Cons e ents)
  obtain j n where e: "e = (j, n)" by force
  have n: "length n < 2 ^ 32" and ents: "names_ok ents" using Cons.prems(2) by (auto simp: names_ok_def e)
  have b: "bytes_at m dir (bytes_le 8 j)" "bytes_at m (dir + 8) (bytes_le 4 (of_nat (length n) :: u32))" "bytes_at m (dir + 12) n"
    "bytes_at m (dir + 12 + of_nat (length n)) (dir_bytes ents)"
    using Cons.prems(3) by (simp_all add: e dirent_bytes_def dir_entry_def bytes_at_append add.assoc)
  have ld: "load64 m dir = j" "load32 m (dir + 8) = of_nat (length n)"
    using load_bytes_at [OF b(1), where 'a = 64] load_bytes_at [OF b(2), where 'a = 32] by (simp_all add: word_le_bytes_le)
  have u32: "of_nat a = (of_nat b :: u32) \<longleftrightarrow> a = b" if "a < 2 ^ 32" "b < 2 ^ 32" for a b
    using that by (simp add: word_unat_eq_iff unsigned_of_nat take_bit_nat_eq_self)
  have uc: "ucast (of_nat (length n) :: u32) = (of_nat (length n) :: u64)"
    using n by (simp add: word_unat_eq_iff unsigned_ucast_eq unsigned_of_nat take_bit_nat_eq_self)
  have cmp: "memcmp m name (dir + 12) (ucast (of_nat (length nm) :: u32)) = 0 \<longleftrightarrow> nm = n" if l: "length nm = length n"
  proof -
    have "memcmp m name (dir + 12) (of_nat (length n)) = 0 \<longleftrightarrow> (\<forall>k<length n. nm ! k = n ! k)"
      using n assms(1) b(3) l by (simp add: memcmp_def memcmp_from_zero unat_of_nat_u64 cstr_at_def bytes_at_def)
    then show ?thesis using l uc by (auto intro: nth_equalityI)
  qed
  have test: "load32 m (dir + 8) = of_nat (length nm) \<and> memcmp m name (dir + 12) (ucast (of_nat (length nm) :: u32)) = 0 \<longleftrightarrow> n = nm"
  proof (cases "length n = length nm")
    case True
    then have "load32 m (dir + 8) = of_nat (length nm)" using ld(2) by (simp only:)
    then show ?thesis using cmp [OF True [symmetric]] by blast
  next
    case False
    then have "load32 m (dir + 8) \<noteq> of_nat (length nm)" using ld(2) u32 [OF n assms(2)] by (simp only: not_False_eq_True)
    then show ?thesis using False by blast
  qed
  show ?case
  proof (cases "n = nm")
    case True
    then show ?thesis using test ld(1) Cons.prems(1) by (subst mfs_find_from.simps) (simp add: exact_match_def e)
  next
    case False
    then have "exact_match ents nm = Some i" using Cons.prems(1) by (simp add: exact_match_def e)
    from Cons.IH [OF this ents b(4)] show ?thesis using test False ld(2) uc by (subst mfs_find_from.simps, simp) blast
  qed
qed


text \<open>A string that the loader keeps where reads do not overwrite it.\<close>

definition name_at :: "BootAddrs \<Rightarrow> u64 set \<Rightarrow> Boot \<Rightarrow> u64 \<Rightarrow> u8 list \<Rightarrow> bool" where
  "name_at ad B s a nm \<longleftrightarrow> cstr_at (virtual_ram s) a nm \<and> length nm < 2 ^ 32
     \<and> (\<exists>P. maps s (Suc (length nm)) a P \<and> P ` {..<Suc (length nm)} \<inter> (scratch ad B \<union> statics ad) = {})"

text \<open>What the functions of mfs.c leave alone: everything but the scratch memory and the static pages.\<close>

definition quiet :: "BootAddrs \<Rightarrow> u64 set \<Rightarrow> Boot \<Rightarrow> Boot \<Rightarrow> bool" where
  "quiet ad B s s' \<longleftrightarrow> gBootParams s' = gBootParams s \<and> cr3_reg s' = cr3_reg s
     \<and> (\<forall>x. x \<notin> scratch ad B \<union> {x. in_range (gPages_at ad) (4 * 4096) x} \<longrightarrow> ram s' x = ram s x)"

lemma quiet_refl: "quiet ad B s s"
  by (simp add: quiet_def)

lemma quiet_trans: "quiet ad B s s' \<Longrightarrow> quiet ad B s' s'' \<Longrightarrow> quiet ad B s s''"
  by (simp add: quiet_def)

lemma quiet_keeps: "loader_env ad T B s \<Longrightarrow> quiet ad B s s' \<Longrightarrow> keeps T s s'"
  unfolding quiet_def keeps_def loader_env_def statics_def by blast

lemma name_at_keeps:
  assumes "loader_env ad T B s" and "keeps T s s'" and "\<And>x. x \<notin> scratch ad B \<union> statics ad \<Longrightarrow> ram s' x = ram s x" and "name_at ad B s a nm"
  shows "name_at ad B s' a nm"
proof -
  have t: "tables_in T s" using assms(1) by (simp add: loader_env_def)
  obtain P where P: "maps s (Suc (length nm)) a P" "P ` {..<Suc (length nm)} \<inter> (scratch ad B \<union> statics ad) = {}"
    using assms(4) unfolding name_at_def by blast
  have m: "maps s' (Suc (length nm)) a P" using P(1) keeps_maps [OF t assms(2)] by simp
  have "virtual_ram s' (a + of_nat i) = virtual_ram s (a + of_nat i)" if "i < Suc (length nm)" for i
  proof -
    have "P i \<notin> scratch ad B \<union> statics ad" using P(2) that by blast
    then have "ram s' (P i) = ram s (P i)" by (rule assms(3))
    then show ?thesis using virtual_ram_maps [OF m that] virtual_ram_maps [OF P(1) that] by simp
  qed
  then have "cstr_at (virtual_ram s') a nm" using assms(4) unfolding name_at_def cstr_at_def by simp
  then show ?thesis using assms(4) P(2) m unfolding name_at_def by blast
qed

lemma name_at_quiet:
  assumes "loader_env ad T B s" and "quiet ad B s s'" and "name_at ad B s a nm"
  shows "name_at ad B s' a nm"
  by (rule name_at_keeps [OF assms(1) quiet_keeps [OF assms(1,2)] _ assms(3)]) (use assms(2) in \<open>simp add: quiet_def statics_def\<close>)

lemma static_gPages: "j < 4 \<Longrightarrow> (\<lambda>k. mfs_page ad j + of_nat k) ` {..<4096} \<subseteq> {x. in_range (gPages_at ad) (4 * 4096) x}"
proof
  fix x assume j: "j < 4" and "x \<in> (\<lambda>k. mfs_page ad j + of_nat k) ` {..<4096}"
  then obtain k where k: "k < 4096" "x = mfs_page ad j + of_nat k" by blast
  have "x = gPages_at ad + of_nat (4096 * j + k)" by (simp add: k(2) mfs_page_def MFS_PAGE_SIZE_def)
  moreover have "4096 * j + k < 4 * 4096" using j k(1) by simp
  ultimately show "x \<in> {x. in_range (gPages_at ad) (4 * 4096) x}" using in_range_offset [of "4096 * j + k" "4 * 4096"] by simp
qed

lemma read_static_quiet:
  assumes "reads_disk bios drive disk B" and "loader_env ad T B s" and "boot_drive (gBootParams s) = drive" and "volume_on_disk disk s v"
    and "j < 4" and "i \<le> next_inode v" and "unat i < 2 ^ 40"
  obtains s' where "mfs_read_page bios ad args (mfs_page ad j) i s = Some s'" and "quiet ad B s s'" and "page_in ad s' j v i"
proof -
  obtain s' where s': "mfs_read_page bios ad args (mfs_page ad j) i s = Some s'" "keeps T s s'" "page_in ad s' j v i"
      "\<And>x. x \<notin> (\<lambda>k. mfs_page ad j + of_nat k) ` {..<4096} \<Longrightarrow> x \<notin> scratch ad B \<Longrightarrow> ram s' x = ram s x"
    by (rule read_static [OF assms, of args]) (rule that)
  have "quiet ad B s s'" using s'(2,4) static_gPages [OF assms(5), of ad] unfolding quiet_def keeps_def by blast
  then show thesis using that s' by blast
qed

lemma mfs_lookup_at_spec:
  assumes "reads_disk bios drive disk B" and "loader_env ad T B s" and "boot_drive (gBootParams s) = drive" and "volume_on_disk disk s v"
    and "holds v d (dir_bytes ents)" and "names_ok ents" and "length (dir_bytes ents) \<le> 4096" and "exact_match ents nm = Some i" and "name_at ad B s a nm"
  obtains s' where "mfs_lookup_at bios ad args d a s = Some (i, s')" and "quiet ad B s s'"
proof -
  have ne: "0 < length (dir_bytes ents)" using assms(8) by (cases ents) (auto simp: exact_match_def)
  then have pf: "pages_for (length (dir_bytes ents)) = 1" using assms(7) unfolding pages_for_def by (intro div_nat_eqI) (linarith, simp)
  have ok: "file_ok v d 1" and c: "content (v_data v) d = dir_bytes ents" using assms(5) unfolding holds_def pf by blast+
  have dl: "d \<le> next_inode v" "unat d < 2 ^ 40" using ok by (auto simp: file_ok_def plain_def)
  let ?p = "data_ptr (v_data v) d 0"
  have p: "?p \<le> next_inode v" "unat ?p < 2 ^ 40" using ok by (auto simp: file_ok_def plain_def)
  have j: "(0 :: nat) < 4" by simp
  obtain s1 where s1: "mfs_read_page bios ad args (mfs_page ad 0) d s = Some s1" "quiet ad B s s1" "page_in ad s1 0 v d"
    by (rule read_static_quiet [OF assms(1-4) j dl])
  have ptr: "load64 (virtual_ram s1) (file_data_at (mfs_page ad 0) 0) = ?p"
    using page_in_word [OF s1(3), of 7] by (simp add: file_data_at_def data_ptr_def)
  note k1 = quiet_keeps [OF assms(2) s1(2)] and q1 = name_at_quiet [OF assms(2) s1(2) assms(9)]
  note env1 = loader_env_keeps [OF assms(2) k1]
  have pr: "boot_drive (gBootParams s1) = drive" "volume_on_disk disk s1 v" using assms(3,4) k1 by (simp_all add: keeps_def volume_on_disk_def)
  obtain s2 where s2: "mfs_read_page bios ad args (mfs_page ad 0) ?p s1 = Some s2" "quiet ad B s1 s2" "page_in ad s2 0 v ?p"
    by (rule read_static_quiet [OF assms(1) env1 pr j p])
  have nm: "cstr_at (virtual_ram s2) a nm" "length nm < 2 ^ 32" using name_at_quiet [OF env1 s2(2) q1] by (simp_all add: name_at_def)
  have "virtual_ram s2 (mfs_page ad 0 + of_nat k) = dir_bytes ents ! k" if k: "k < length (dir_bytes ents)" for k
  proof -
    have "k < 4096" using k assms(7) by simp
    then have "k div 4096 = 0" "k mod 4096 = k" by simp_all
    then have "content (v_data v) d ! k = v_data v (inode_page ?p + of_nat k)"
      using k holds_size [OF assms(5)] by (simp add: content_def)
    then show ?thesis using s2(3) \<open>k < 4096\<close> c by (simp add: page_in_def)
  qed
  then have "bytes_at (virtual_ram s2) (mfs_page ad 0) (dir_bytes ents)" by (simp add: bytes_at_def)
  from mfs_find_from_spec [OF nm assms(8,6) this]
  have "mfs_find_from (virtual_ram s2) (mfs_page ad 0) a (of_nat (length nm)) = Some i" .
  moreover have "ucast (of_nat (length nm) :: u64) = (of_nat (length nm) :: u32)"
    using nm(2) by (simp add: word_unat_eq_iff unsigned_ucast_eq unsigned_of_nat take_bit_nat_eq_self)
  ultimately have "mfs_lookup_at bios ad args d a s = Some (i, s2)"
    using s1(1) s2(1) strlen_cstr [OF nm(1)] by (simp add: mfs_lookup_at_def ptr)
  then show thesis using that quiet_trans [OF s1(2) s2(2)] by blast
qed

end
