(* ===== verification/BootTables.thy ===== *)
theory BootTables
  imports BootMem PageMap
begin

text \<open>
  The page tables of the boot loader. Its memory is the physical one; seen through the direct map of
  the kernel it is the memory the theory of page tables is about, so the trees, their invariant and
  the translations of \<open>PageTree\<close> and \<open>PageMap\<close> are used here as well.
\<close>

section \<open>The memory through the direct map\<close>

definition direct_view :: "mem \<Rightarrow> mem" where
  "direct_view m = (\<lambda>y. m (y - 0xffff800000000000))"

lemma frame_virtual: "is_frame t \<Longrightarrow> physical_to_virtual t = t + 0xffff800000000000"
  by (simp add: word_unat_eq_iff unat_physical_to_virtual is_frame_def unat_add_u64)

lemma direct_view_store: "direct_view (store n m a w) = store n (direct_view m) (a + 0xffff800000000000) w"
  by (simp add: direct_view_def store_def fun_eq_iff algebra_simps)

lemma direct_view_fill: "direct_view (fill a n c m) = fill (a + 0xffff800000000000) n c (direct_view m)"
  by (simp add: direct_view_def fill_def in_range_def fun_eq_iff algebra_simps)

lemma load_direct_view: "load n (direct_view m) (a + 0xffff800000000000) = load n m a"
  by (simp add: direct_view_def load_def algebra_simps)

lemma word_at_slot: "is_frame t \<Longrightarrow> slot (physical_to_virtual t) i = word_at t i + 0xffff800000000000"
  by (simp add: frame_virtual slot_def word_at_def)

lemma entry_direct_view: "is_frame t \<Longrightarrow> entry (direct_view m) t i = load64 m (word_at t i)"
  by (simp add: entry_def word_at_slot load_direct_view)

lemma store_word_at:
  "is_frame t \<Longrightarrow> direct_view (store64 m (word_at t i) e) = store64 (direct_view m) (slot (physical_to_virtual t) i) e"
  by (simp add: direct_view_store word_at_slot)

lemma zero_page_eq: "zero_page f s = (f, s\<lparr>ram := fill f 4096 0 (ram s)\<rparr>)"
  by (simp add: zero_page_def memset_eq PAGESIZE_def)

lemma direct_view_zero: "is_frame f \<Longrightarrow> direct_view (fill f 4096 0 m) = zero_frame f (direct_view m)"
  unfolding zero_frame_eq direct_view_fill by (simp only: frame_virtual)

section \<open>The free pages\<close>

definition low_pages :: "BootMemRegion \<Rightarrow> u64 set" where
  "low_pages r = {p. 4096 dvd unat p \<and> unat (r_base r) \<le> unat p \<and> unat p < unat (r_base r) + unat (r_size r)}"

definition low_region :: "BootMemRegion \<Rightarrow> bool" where
  "low_region r \<longleftrightarrow> 4096 dvd unat (r_base r) \<and> 4096 dvd unat (r_size r) \<and> unat (r_base r) + unat (r_size r) \<le> 2 ^ 32"

text \<open>
  The regions the loops over 32 entries get to before one that is not below 4 GiB: as long as these
  have a page, \<open>alloc_page_hi\<close> and \<open>alloc_phys_early\<close> return a page the identity map covers.
\<close>

definition usable_upto :: "nat \<Rightarrow> BootMemRegion list \<Rightarrow> BootMemRegion list" where
  "usable_upto n rs = takeWhile low_region (take n rs)"

definition usable :: "BootMemRegion list \<Rightarrow> BootMemRegion list" where
  "usable rs = usable_upto 32 rs"

lemma usable_upto_simps [simp]:
  "usable_upto 0 rs = []" "usable_upto n [] = []"
  "usable_upto (Suc n) (r # rs) = (if low_region r then r # usable_upto n rs else [])"
  by (simp_all add: usable_upto_def)

lemma usable_all: "length rs \<le> 32 \<Longrightarrow> \<forall>r \<in> set rs. low_region r \<Longrightarrow> usable rs = rs"
  by (simp add: usable_def usable_upto_def takeWhile_eq_all_conv)

definition pages_of :: "BootMemRegion list \<Rightarrow> u64 set" where
  "pages_of rs = (\<Union>r \<in> set rs. low_pages r)"

fun pool_ok :: "BootMemRegion list \<Rightarrow> bool" where
  "pool_ok [] = True"
| "pool_ok (r # rs) = (low_region r \<and> low_pages r \<inter> pages_of rs = {} \<and> pool_ok rs)"

lemma pages_of_simps [simp]: "pages_of [] = {}" "pages_of (r # rs) = low_pages r \<union> pages_of rs"
  by (simp_all add: pages_of_def)

lemma region_frames: "low_region r \<Longrightarrow> p \<in> low_pages r \<Longrightarrow> is_frame p \<and> unat p < 2 ^ 32"
  by (auto simp: low_pages_def low_region_def is_frame_def)

lemma pool_frames: "pool_ok rs \<Longrightarrow> p \<in> pages_of rs \<Longrightarrow> is_frame p \<and> unat p < 2 ^ 32"
  by (induction rs) (auto dest: region_frames)

lemma region_step:
  assumes "low_region r" and "r_size r \<noteq> 0"
  defines "r' \<equiv> r\<lparr>r_base := r_base r + PAGESIZE, r_size := r_size r - PAGESIZE\<rparr>"
  shows "r_base r \<in> low_pages r" and "low_pages r' = low_pages r - {r_base r}" and "low_region r'"
proof -
  have "unat (r_size r) \<noteq> 0" using assms(2) by (simp add: unat_eq_zero)
  with assms(1) obtain k j where k: "unat (r_size r) = 4096 * Suc k" "unat (r_base r) = 4096 * j"
    unfolding low_region_def dvd_def by (metis not0_implies_Suc mult_0_right)
  have s: "unat (r_size r - PAGESIZE) = unat (r_size r) - 4096"
    using k(1) by (subst unat_sub) (simp_all add: PAGESIZE_def word_le_nat_alt)
  have b: "unat (r_base r + PAGESIZE) = unat (r_base r) + 4096"
    using assms(1) by (simp add: PAGESIZE_def unat_add_u64 low_region_def)
  show "r_base r \<in> low_pages r" using k by (simp add: low_pages_def)
  show "low_region r'" using assms(1) k s b by (simp add: low_region_def r'_def dvd_diff_nat)
  have "unat p = 4096 * j \<or> 4096 * j + 4096 \<le> unat p" if p: "4096 dvd unat p" "4096 * j \<le> unat p" for p :: u64
  proof -
    obtain i where "unat p = 4096 * i" using p(1) by (auto simp: dvd_def)
    with p(2) show ?thesis by (cases "i = j") auto
  qed
  then show "low_pages r' = low_pages r - {r_base r}"
    using k s b by (auto simp: low_pages_def r'_def word_unat_eq_iff)
qed

lemma region_empty: "r_size r = 0 \<Longrightarrow> low_pages r = {}"
  by (simp add: low_pages_def)

lemma take_hi_spec:
  "pool_ok (usable_upto n rs) \<Longrightarrow> pages_of (usable_upto n rs) \<noteq> {} \<Longrightarrow>
     \<exists>p rs'. take_hi n rs = Some (p, rs') \<and> p \<in> pages_of (usable_upto n rs)
       \<and> pages_of (usable_upto n rs') = pages_of (usable_upto n rs) - {p} \<and> pool_ok (usable_upto n rs')"
proof (induction n rs rule: take_hi.induct)
  case (3 n r rs)
  have low: "low_region r" using 3(3) by (auto split: if_splits)
  show ?case
  proof (cases "r_size r = 0")
    case True
    with 3 low region_empty [OF True] obtain p rs' where "take_hi n rs = Some (p, rs')" "p \<in> pages_of (usable_upto n rs)"
        "pages_of (usable_upto n rs') = pages_of (usable_upto n rs) - {p}" "pool_ok (usable_upto n rs')" by auto
    with True low 3(2) region_empty [OF True] show ?thesis by auto
  next
    case False
    note step = region_step [OF low False]
    have "pages_of (usable_upto n rs) \<inter> low_pages r = {}" using 3(2) low by auto
    with 3(2) low False step show ?thesis by auto
  qed
qed simp_all

definition hi_pages :: "Boot \<Rightarrow> u64 set" where
  "hi_pages s = pages_of (usable (mem_free (gBootParams s)))"

text \<open>The first 4 GiB, which the loader maps to themselves.\<close>

definition identity_mapped :: "u64 set" where "identity_mapped = {p. unat p < 2 ^ 32}"

lemma alloc_page_hi_spec:
  assumes "pool_ok (usable (mem_free (gBootParams s)))" and "hi_pages s \<noteq> {}"
  obtains f rs where "alloc_page_hi s = (f, s\<lparr>gBootParams := (gBootParams s)\<lparr>mem_free := rs\<rparr>, ram := fill f 4096 0 (ram s)\<rparr>)"
    and "f \<in> hi_pages s" and "pages_of (usable rs) = hi_pages s - {f}" and "pool_ok (usable rs)" and "is_frame f" and "f \<in> identity_mapped"
proof -
  obtain f rs where f: "take_hi 32 (mem_free (gBootParams s)) = Some (f, rs)" "f \<in> hi_pages s"
      "pages_of (usable rs) = hi_pages s - {f}" "pool_ok (usable rs)"
    using take_hi_spec [OF assms(1) [unfolded usable_def]] assms(2) by (auto simp: hi_pages_def usable_def)
  moreover have "is_frame f" "f \<in> identity_mapped"
    using pool_frames [OF assms(1)] f(2) by (simp_all add: hi_pages_def identity_mapped_def)
  ultimately show thesis by (intro that) (simp_all add: alloc_page_hi_def zero_page_eq)
qed

section \<open>The invariant\<close>

abbreviation view :: "Boot \<Rightarrow> mem" where "view s \<equiv> direct_view (ram s)"
abbreviation root :: "Boot \<Rightarrow> u64" where "root s \<equiv> bp_cr3 (gBootParams s)"

text \<open>Tables, free pages and the frames \<open>X\<close> in use are apart, and the tables, like the free pages, lie
  in the memory the loader maps to itself: it reads and writes them there.\<close>

definition boot_vm :: "u64 set \<Rightarrow> Boot \<Rightarrow> bool" where
  "boot_vm X s \<longleftrightarrow> pool_ok (usable (mem_free (gBootParams s))) \<and> (\<forall>x \<in> X. is_frame x) \<and> tables_ok (view s) (root s)
     \<and> tables (view s) (root s) \<inter> hi_pages s = {} \<and> tables (view s) (root s) \<inter> X = {} \<and> X \<inter> hi_pages s = {}
     \<and> tables (view s) (root s) \<subseteq> identity_mapped"

text \<open>On the way to the table of page \<open>w\<close> every entry is null or leads to a table.\<close>

definition clear_way :: "mem \<Rightarrow> u64 \<Rightarrow> nat \<Rightarrow> bool" where
  "clear_way m t w \<longleftrightarrow> (\<forall>q i r u. page_path w = q @ i # r \<longrightarrow> table_at m t q = Some u \<longrightarrow> entry m u i \<noteq> 0 \<longrightarrow>
     child (entry m u i) = Some (entry m u i AND TABLE_MASK))"

lemma TABLE_MASK_bits: "bit TABLE_MASK k \<longleftrightarrow> 12 \<le> k \<and> k < 64"
proof -
  have m: "TABLE_MASK = NOT (mask 12)" by (simp add: TABLE_MASK_def mask_eq_exp_minus_1)
  show ?thesis unfolding m by (auto simp: bit_not_iff bit_mask_iff)
qed

lemma frame_low_bits:
  assumes "is_frame f" and "\<And>k. bit g k \<Longrightarrow> k < 7"
  shows "(f OR g) AND TABLE_MASK = f" and "bit g 0 \<Longrightarrow> child (f OR g) = Some f"
proof -
  show "(f OR g) AND TABLE_MASK = f"
    using frame_bits [OF assms(1)] assms(2) by (intro bit_word_eqI) (fastforce simp: bit_and_iff bit_or_iff TABLE_MASK_bits)
  have "(f OR g) AND MMASK_PHYS = f" using assms(2) by (intro frame_entry_mask [OF assms(1)]) fastforce
  moreover have "\<not> bit (f OR g) 7" using frame_bits [OF assms(1), of 7] assms(2) [of 7] by (auto simp: bit_or_iff)
  ultimately show "bit g 0 \<Longrightarrow> child (f OR g) = Some f" by (simp add: child_def flag_test_iff bit_or_iff)
qed

lemma bit_3: "bit (3 :: u64) k \<longleftrightarrow> k < 2"
proof -
  have m: "(3 :: u64) = mask 2" by (simp add: mask_eq_exp_minus_1)
  show ?thesis unfolding m by (auto simp: bit_mask_iff)
qed

lemma entry_3: "is_frame f \<Longrightarrow> child (f OR 3) = Some f" "is_frame f \<Longrightarrow> (f OR 3) AND TABLE_MASK = f"
proof -
  have b: "k < 7" if "bit (3 :: u64) k" for k using iffD1 [OF bit_3 that] by simp
  have "bit (3 :: u64) 0" by (simp only: bit_3)
  then show "is_frame f \<Longrightarrow> child (f OR 3) = Some f" "is_frame f \<Longrightarrow> (f OR 3) AND TABLE_MASK = f"
    using frame_low_bits [of f 3] b by blast+
qed

section \<open>A table below an entry\<close>

lemma lower_table_spec:
  assumes ok: "boot_vm X s" and p: "ok_path p" "length p < 3" "i < 512" "table_at (view s) (root s) p = Some t"
    and way: "entry (view s) t i \<noteq> 0 \<Longrightarrow> child (entry (view s) t i) = Some (entry (view s) t i AND TABLE_MASK)"
    and room: "hi_pages s \<noteq> {}"
  obtains u s' where "lower_table alloc_page_hi t i s = (u, s')" and "boot_vm X s'" and "root s' = root s"
    and "table_at (view s') (root s) (p @ [i]) = Some u" and "same_frames X (view s) (view s')"
    and "hi_pages s' \<subseteq> hi_pages s" and "card (hi_pages s) \<le> Suc (card (hi_pages s'))"
    and "tables (view s') (root s) \<subseteq> tables (view s) (root s) \<union> hi_pages s"
    and "\<And>q v j. ok_path q \<Longrightarrow> table_at (view s) (root s) q = Some v \<Longrightarrow> j < 512 \<Longrightarrow>
      table_at (view s') (root s) q = Some v \<and> (entry (view s') v j = entry (view s) v j \<or> entry (view s) v j = 0 \<and> length q < 3)"
    and "\<And>q v j. ok_path q \<Longrightarrow> table_at (view s') (root s) q = Some v \<Longrightarrow> j < 512 \<Longrightarrow> entry (view s') v j \<noteq> 0 \<Longrightarrow>
      entry (view s') v j = entry (view s) v j \<and> table_at (view s) (root s) q = Some v
      \<or> child (entry (view s') v j) = Some (entry (view s') v j AND TABLE_MASK)"
proof -
  let ?e = "entry (view s) t i"
  have tok: "tables_ok (view s) (root s)" and X: "\<forall>x \<in> X. is_frame x" using ok by (simp_all add: boot_vm_def)
  have t: "is_frame t" using tables_okD(1) [OF tok p(1,4)] .
  note e = entry_direct_view [OF t]
  show thesis
  proof (cases "?e = 0")
    case False
    then have "lower_table alloc_page_hi t i s = (?e AND TABLE_MASK, s)" by (simp add: lower_table_def e)
    moreover have "table_at (view s) (root s) (p @ [i]) = Some (?e AND TABLE_MASK)"
      using way [OF False] p(4) by (simp add: table_at_snoc)
    ultimately show thesis using ok by (intro that) (auto simp: same_frames_refl)
  next
    case True
    obtain f rs where f: "alloc_page_hi s = (f, s\<lparr>gBootParams := (gBootParams s)\<lparr>mem_free := rs\<rparr>, ram := fill f 4096 0 (ram s)\<rparr>)"
        "f \<in> hi_pages s" "pages_of (usable rs) = hi_pages s - {f}" "pool_ok (usable rs)" "is_frame f" "f \<in> identity_mapped"
      by (rule alloc_page_hi_spec [OF _ room]) (use ok in \<open>simp add: boot_vm_def\<close>)
    have ff: "f \<notin> tables (view s) (root s)" "f \<notin> X" using ok f(2) by (auto simp: boot_vm_def)
    have none: "child ?e = None" using True by simp
    have tt: "t \<in> tables (view s) (root s)" using p by (auto simp: tables_def)
    have tX: "t \<notin> X" using ok tt by (auto simp: boot_vm_def)
    let ?s = "s\<lparr>gBootParams := (gBootParams s)\<lparr>mem_free := rs\<rparr>, ram := store64 (fill f 4096 0 (ram s)) (word_at t i) (f OR 3)\<rparr>"
    have run: "lower_table alloc_page_hi t i s = (f, ?s)"
      using True by (simp add: lower_table_def e [symmetric] f(1) entry_3(2) [OF f(5)])
    have v: "view ?s = store64 (zero_frame f (view s)) (slot (physical_to_virtual t) i) (f OR 3)"
      by (simp add: store_word_at [OF t] direct_view_zero [OF f(5)])
    note link = link_entry [OF tok p none f(5) ff(1) entry_3(1) [OF f(5)], folded v]
    have hp: "hi_pages ?s = hi_pages s - {f}" using f(3) by (simp add: hi_pages_def)
    have okS: "boot_vm X ?s" using ok link(2,3) f(4,6) ff(2) hp by (auto simp: boot_vm_def)
    have tabS: "table_at (view ?s) (root s) (p @ [i]) = Some f" using link(1) p by (simp add: ok_path_snoc)
    have sameS: "same_frames X (view s) (view ?s)"
      unfolding v using same_frames_zero [OF f(5) ff(2) X] same_frames_store [OF t p(3) tX X] by (rule same_frames_trans)
    have cardS: "card (hi_pages s) \<le> Suc (card (hi_pages ?s))"
      unfolding hp using f(2) by (simp add: card_Diff_singleton)
    have old: "table_at (view ?s) (root s) q = Some v' \<and> v' \<noteq> f" if "ok_path q" "table_at (view s) (root s) q = Some v'" for q v'
      using that link(1) [OF that(1)] p(4) none ff(1) by (auto simp: table_at_snoc tables_def)
    have ent: "entry (view ?s) v' j = entry (view s) v' j \<or> entry (view s) v' j = 0 \<and> length q < 3"
      if "ok_path q" "table_at (view s) (root s) q = Some v'" "j < 512" for q v' j
      using link(4) [OF tables_okD(1) [OF tok that(1,2)] that(3)] old [OF that(1,2)] True p(2) tables_okD(2) [OF tok p(1,4) that(1)] that(2) by auto
    have new: "entry (view ?s) v' j = entry (view s) v' j \<and> table_at (view s) (root s) q = Some v'
        \<or> child (entry (view ?s) v' j) = Some (entry (view ?s) v' j AND TABLE_MASK)"
      if q: "ok_path q" "table_at (view ?s) (root s) q = Some v'" "j < 512" "entry (view ?s) v' j \<noteq> 0" for q v' j
    proof -
      have "is_frame v'" using tables_okD(1) [OF link(3) q(1,2)] .
      from link(4) [OF this q(3)] link(1) [OF q(1)] q entry_3 [OF f(5)] show ?thesis by (auto split: if_splits)
    qed
    show thesis
    proof (rule that [OF run okS _ tabS sameS _ cardS])
      show "hi_pages ?s \<subseteq> hi_pages s" unfolding hp by blast
      show "tables (view ?s) (root s) \<subseteq> tables (view s) (root s) \<union> hi_pages s" unfolding link(2) using f(2) by simp
    qed (use old ent new in \<open>simp_all\<close>)
  qed
qed

section \<open>Mapping one page\<close>

lemma decompose_path:
  assumes "decompose_addr va = (a, b, c, d)"
  shows "page_path (unat va div 4096) = [a, b, c]" and "d = unat va div 4096 mod 512"
    and "a < 512" and "b < 512" and "c < 512"
proof -
  have "(0x1ff :: u64) = mask 9" by (simp add: mask_eq_exp_minus_1)
  then have bits: "unat (drop_bit n va AND 0x1ff) = unat va div 2 ^ n mod 512" for n
    by (simp only: take_bit_eq_mask [symmetric] unsigned_take_bit_eq unsigned_drop_bit_eq)
      (use unat_bound_u64 [of va] in \<open>simp add: drop_bit_eq_div take_bit_eq_mod\<close>)
  show "page_path (unat va div 4096) = [a, b, c]" and "d = unat va div 4096 mod 512" and "a < 512" and "b < 512" and "c < 512"
    using assms by (auto simp: decompose_addr_def bits page_path_def div_mult2_eq [symmetric])
qed

lemma translate_grown:
  assumes "\<And>q v j. ok_path q \<Longrightarrow> table_at m r q = Some v \<Longrightarrow> j < 512 \<Longrightarrow>
      table_at m' r q = Some v \<and> (entry m' v j = entry m v j \<or> entry m v j = 0 \<and> length q < 3)"
    and "translate m r w = Some e"
  shows "translate m' r w = Some e"
proof -
  from assms(2) obtain t where t: "table_at m r (page_path w) = Some t" "entry m t (w mod 512) = e"
    by (auto simp: translate_def split: option.splits)
  with assms(1) [OF ok_page_path(1) t(1), of "w mod 512"] show ?thesis by (simp add: translate_def)
qed

lemma tables_cong: "(\<And>q. ok_path q \<Longrightarrow> table_at m' r q = table_at m r q) \<Longrightarrow> tables m' r = tables m r"
  by (auto simp: tables_def)

lemma table_of_page: "table_at m r (page_path w) = Some t \<Longrightarrow> t \<in> tables m r"
  unfolding tables_def using ok_page_path(1) by blast

lemma clear_wayD:
  "clear_way m r w \<Longrightarrow> page_path w = q @ i # p \<Longrightarrow> table_at m r q = Some u \<Longrightarrow> entry m u i \<noteq> 0 \<Longrightarrow>
    child (entry m u i) = Some (entry m u i AND TABLE_MASK)"
  unfolding clear_way_def by blast

lemma clear_way_grown:
  assumes "clear_way m r w"
    and "\<And>q v j. ok_path q \<Longrightarrow> table_at m' r q = Some v \<Longrightarrow> j < 512 \<Longrightarrow> entry m' v j \<noteq> 0 \<Longrightarrow>
      entry m' v j = entry m v j \<and> table_at m r q = Some v \<or> child (entry m' v j) = Some (entry m' v j AND TABLE_MASK)"
  shows "clear_way m' r w"
  unfolding clear_way_def
proof (intro allI impI)
  fix q i p u assume w: "page_path w = q @ i # p" and u: "table_at m' r q = Some u" "entry m' u i \<noteq> 0"
  have "ok_path (page_path w)" by simp
  then have "ok_path q" "i < 512" unfolding w by (auto simp: ok_path_def)
  from assms(2) [OF this(1) u(1) this(2) u(2)] u clear_wayD [OF assms(1) w]
  show "child (entry m' u i) = Some (entry m' u i AND TABLE_MASK)" by auto
qed

text \<open>The tables stay where they are and an entry changes only when it was null, or when it is the entry of one of the pages \<open>W\<close>.\<close>

definition tables_grow :: "nat set \<Rightarrow> u64 \<Rightarrow> mem \<Rightarrow> mem \<Rightarrow> bool" where
  "tables_grow W r m m' \<longleftrightarrow> (\<forall>q v. ok_path q \<longrightarrow> table_at m r q = Some v \<longrightarrow> table_at m' r q = Some v
     \<and> (\<forall>j<512. entry m' v j = entry m v j \<or> entry m v j = 0 \<or> (\<exists>w \<in> W. page_path w = q \<and> w mod 512 = j)))"

lemma tables_grow_refl: "tables_grow W r m m"
  by (simp add: tables_grow_def)

lemma tables_grow_trans:
  assumes "tables_grow W r m m1" and "tables_grow W r m1 m2"
  shows "tables_grow W r m m2"
  unfolding tables_grow_def
proof (intro allI impI)
  fix q v assume q: "ok_path q" "table_at m r q = Some v"
  then have 1: "table_at m1 r q = Some v" "\<forall>j<512. entry m1 v j = entry m v j \<or> entry m v j = 0 \<or> (\<exists>w \<in> W. page_path w = q \<and> w mod 512 = j)"
    using assms(1) unfolding tables_grow_def by blast+
  then have 2: "table_at m2 r q = Some v" "\<forall>j<512. entry m2 v j = entry m1 v j \<or> entry m1 v j = 0 \<or> (\<exists>w \<in> W. page_path w = q \<and> w mod 512 = j)"
    using assms(2) q(1) unfolding tables_grow_def by blast+
  show "table_at m2 r q = Some v \<and> (\<forall>j<512. entry m2 v j = entry m v j \<or> entry m v j = 0 \<or> (\<exists>w \<in> W. page_path w = q \<and> w mod 512 = j))"
    using 1(2) 2 by metis
qed

lemma tables_grow_mono: "tables_grow V r m m' \<Longrightarrow> V \<subseteq> W \<Longrightarrow> tables_grow W r m m'"
  unfolding tables_grow_def by blast

text \<open>One level of \<open>map_single\<close>: the table below entry \<open>i\<close> on the way to page \<open>w\<close>.\<close>

definition level_done :: "u64 set \<Rightarrow> nat \<Rightarrow> nat list \<Rightarrow> u64 \<Rightarrow> Boot \<Rightarrow> Boot \<Rightarrow> bool" where
  "level_done X w p t s s' \<longleftrightarrow> boot_vm X s' \<and> root s' = root s \<and> table_at (view s') (root s) p = Some t
     \<and> (\<forall>v. clear_way (view s) (root s) v \<longrightarrow> clear_way (view s') (root s) v) \<and> same_frames X (view s) (view s') \<and> hi_pages s' \<subseteq> hi_pages s
     \<and> card (hi_pages s) \<le> length p + card (hi_pages s') \<and> tables_grow {} (root s) (view s) (view s')
     \<and> tables (view s') (root s) \<subseteq> tables (view s) (root s) \<union> hi_pages s
     \<and> (\<forall>v e. translate (view s) (root s) v = Some e \<longrightarrow> translate (view s') (root s) v = Some e)"

lemma level_step:
  assumes "level_done X w p t s0 s" and "page_path w = p @ i # r" and "4 \<le> card (hi_pages s0)" and "clear_way (view s0) (root s0) w"
  obtains u s' where "lower_table alloc_page_hi t i s = (u, s')" and "level_done X w (p @ [i]) u s0 s'"
proof -
  note l = assms(1) [unfolded level_done_def]
  have "ok_path (page_path w)" "length (page_path w) = 3" by simp_all
  then have p: "ok_path p" "length p < 3" "i < 512" unfolding assms(2) by (auto simp: ok_path_def)
  have rt: "root s = root s0" and ok: "boot_vm X s" and t: "table_at (view s) (root s) p = Some t" using l by simp_all
  have "card (hi_pages s0) \<le> length p + card (hi_pages s)" using l by blast
  with assms(3) p(2) have "card (hi_pages s) \<noteq> 0" by linarith
  then have room: "hi_pages s \<noteq> {}" by auto
  have way: "entry (view s) t i \<noteq> 0 \<Longrightarrow> child (entry (view s) t i) = Some (entry (view s) t i AND TABLE_MASK)"
    using clear_wayD [of "view s" "root s0" w p i r t] l assms(2,4) by simp
  obtain u s' where u: "lower_table alloc_page_hi t i s = (u, s')" "boot_vm X s'" "root s' = root s"
      "table_at (view s') (root s) (p @ [i]) = Some u" "same_frames X (view s) (view s')"
      "hi_pages s' \<subseteq> hi_pages s" "card (hi_pages s) \<le> Suc (card (hi_pages s'))" "tables (view s') (root s) \<subseteq> tables (view s) (root s) \<union> hi_pages s"
    and grown: "\<And>q v j. ok_path q \<Longrightarrow> table_at (view s) (root s) q = Some v \<Longrightarrow> j < 512 \<Longrightarrow>
      table_at (view s') (root s) q = Some v \<and> (entry (view s') v j = entry (view s) v j \<or> entry (view s) v j = 0 \<and> length q < 3)"
    and new: "\<And>q v j. ok_path q \<Longrightarrow> table_at (view s') (root s) q = Some v \<Longrightarrow> j < 512 \<Longrightarrow> entry (view s') v j \<noteq> 0 \<Longrightarrow>
      entry (view s') v j = entry (view s) v j \<and> table_at (view s) (root s) q = Some v
      \<or> child (entry (view s') v j) = Some (entry (view s') v j AND TABLE_MASK)"
    using lower_table_spec [OF ok p t way room] by blast
  have cw: "clear_way (view s') (root s0) v" if "clear_way (view s0) (root s0) v" for v
    using clear_way_grown [of "view s" "root s0" v "view s'"] l new that unfolding rt by blast
  have tr: "translate (view s') (root s0) v = Some e" if "translate (view s0) (root s0) v = Some e" for v e
    using translate_grown [of "view s" "root s" "view s'" v e] grown that l unfolding rt by blast
  have sf: "same_frames X (view s0) (view s')" using same_frames_trans u(5) l by blast
  have "(0 :: nat) < 512" by simp
  then have "tables_grow {} (root s0) (view s) (view s')" using grown unfolding tables_grow_def rt by blast
  then have tg: "tables_grow {} (root s0) (view s0) (view s')" using tables_grow_trans l by blast
  have tb: "tables (view s') (root s0) \<subseteq> tables (view s0) (root s0) \<union> hi_pages s0" using u(8) l unfolding rt by blast
  have "level_done X w (p @ [i]) u s0 s'"
    using u(2-4,6,7) l rt cw tr sf tg tb unfolding level_done_def by auto
  with u(1) show thesis by (rule that)
qed

text \<open>
  A page added to the tables: \<open>p\<close> is a page that was free, filled with zeros and in use afterwards; the translation of
  page \<open>w\<close> is \<open>p\<close> with the present bit, and no other one changes; the tables grow, and no frame in use is written.
\<close>

definition page_added :: "u64 set \<Rightarrow> nat \<Rightarrow> u64 \<Rightarrow> Boot \<Rightarrow> Boot \<Rightarrow> bool" where
  "page_added X w p s s' \<longleftrightarrow> p \<in> hi_pages s \<and> translate (view s') (root s) w = Some (p OR 1)
     \<and> (\<forall>i<4096. view s' (physical_to_virtual p + of_nat i) = 0) \<and> boot_vm (insert p X) s'
     \<and> (\<forall>v e. \<not> same_entry v w \<longrightarrow> translate (view s) (root s) v = Some e \<longrightarrow> translate (view s') (root s) v = Some e)
     \<and> same_frames X (view s) (view s') \<and> root s' = root s \<and> hi_pages s' \<subseteq> hi_pages s - {p}
     \<and> card (hi_pages s) \<le> 4 + card (hi_pages s') \<and> tables_grow {w} (root s) (view s) (view s')
     \<and> (\<forall>v. clear_way (view s) (root s) v \<longrightarrow> clear_way (view s') (root s) v)
     \<and> tables (view s') (root s) \<subseteq> tables (view s) (root s) \<union> hi_pages s"

text \<open>The last step of \<open>map_single\<close>: a page, and its entry in the table on the way to page \<open>w\<close>.\<close>

lemma leaf_step:
  assumes "boot_vm X s" and "table_at (view s) (root s) (page_path w) = Some t" and "hi_pages s \<noteq> {}"
  obtains p s1 where "alloc_page_hi s = (p, s1)"
    and "page_added X w p s (s1\<lparr>ram := store64 (ram s1) (word_at t (w mod 512)) (p OR 1)\<rparr>)"
    and "card (hi_pages s) \<le> Suc (card (hi_pages s1))" and "tables (view (s1\<lparr>ram := store64 (ram s1) (word_at t (w mod 512)) (p OR 1)\<rparr>)) (root s) = tables (view s) (root s)"
proof -
  obtain p rs where p: "alloc_page_hi s = (p, s\<lparr>gBootParams := (gBootParams s)\<lparr>mem_free := rs\<rparr>, ram := fill p 4096 0 (ram s)\<rparr>)"
      "p \<in> hi_pages s" "pages_of (usable rs) = hi_pages s - {p}" "pool_ok (usable rs)" "is_frame p" "p \<in> identity_mapped"
    by (rule alloc_page_hi_spec [OF _ assms(3)]) (use assms(1) in \<open>simp add: boot_vm_def\<close>)
  define s1 where "s1 = s\<lparr>gBootParams := (gBootParams s)\<lparr>mem_free := rs\<rparr>, ram := fill p 4096 0 (ram s)\<rparr>"
  define s' where "s' = s1\<lparr>ram := store64 (ram s1) (word_at t (w mod 512)) (p OR 1)\<rparr>"
  have X: "\<forall>x \<in> X. is_frame x" and pX: "p \<notin> X" and pt: "p \<notin> tables (view s) (root s)"
    and tok: "tables_ok (view s) (root s)" using assms(1) p(2) by (auto simp: boot_vm_def)
  let ?z = "zero_frame p (view s)"
  have keep: "entry ?z u j = entry (view s) u j" if "u \<in> tables (view s) (root s)" "j < 512" for u j
    using that p(5) pt tables_okD(1) [OF tok] by (intro entry_zero_other) (auto simp: tables_def)
  have same: "table_at ?z (root s) q = table_at (view s) (root s) q" if "ok_path q" for q
    using that by (intro table_at_cong arg_cong [where f = child] keep) (auto simp: tables_def)
  have tr: "translate ?z (root s) v = translate (view s) (root s) v" for v
  proof (cases "table_at (view s) (root s) (page_path v)")
    case (Some u)
    from keep [OF table_of_page [OF this], of "v mod 512"] Some same show ?thesis by (simp add: translate_def)
  qed (simp add: translate_def same)
  have tabz: "tables ?z (root s) = tables (view s) (root s)" by (rule tables_cong [OF same])
  have tokz: "tables_ok ?z (root s)" using tok same by (simp add: tables_ok_def)
  have tz: "table_at ?z (root s) (page_path w) = Some t" using assms(2) same by simp
  have tf: "is_frame t" "t \<in> tables (view s) (root s)"
    using tables_okD(1) [OF tok _ assms(2)] table_of_page [OF assms(2)] by simp_all
  have v': "view s' = store64 ?z (slot (physical_to_virtual t) (w mod 512)) (p OR 1)"
    by (simp add: s'_def s1_def store_word_at [OF tf(1)] direct_view_zero [OF p(5)])
  note leaf = store_leaf_entry [OF tokz tz v']
  have tabs: "tables (view s') (root s) = tables (view s) (root s)" using tables_cong [OF leaf(1)] tabz by simp
  have tok': "tables_ok (view s') (root s)" using tokz leaf(1) by (simp add: tables_ok_def)
  have ent: "entry (view s') u j = entry (view s) u j \<or> q = page_path w \<and> j = w mod 512"
    if q: "ok_path q" "table_at (view s) (root s) q = Some u" and j: "j < 512" for q u j
  proof -
    have u: "is_frame u" "u \<in> tables (view s) (root s)" using tables_okD(1) [OF tok q] q by (auto simp: tables_def)
    have "entry (view s') u j = entry ?z u j \<or> t = u \<and> w mod 512 = j"
      unfolding v' using entry_store [OF tf(1) u(1) _ j, of "w mod 512"] by simp
    then show ?thesis using keep [OF u(2) j] tables_okD(2) [OF tok _ assms(2) q(1)] q(2) by auto
  qed
  have tab': "table_at (view s') (root s) q = table_at (view s) (root s) q" if "ok_path q" for q
    using leaf(1) [OF that] same [OF that] by simp
  have Xp: "\<forall>x \<in> insert p X. is_frame x" and tX: "t \<notin> insert p X" using X p(5) assms(1) pt tf(2) by (auto simp: boot_vm_def)
  have frp: "same_frames (insert p X) ?z (view s')"
    unfolding v' using same_frames_store [OF tf(1) _ tX Xp] by simp
  have frX: "same_frames X (view s) ?z" by (rule same_frames_zero [OF p(5) pX X])
  have hp: "hi_pages s' = hi_pages s - {p}" "hi_pages s1 = hi_pages s - {p}" using p(3) by (simp_all add: hi_pages_def s'_def s1_def)
  have rt': "root s' = root s" by (simp add: s'_def s1_def)
  have "boot_vm (insert p X) s'"
    using assms(1) p(2,4,5) pt tok' hp unfolding boot_vm_def rt' tabs by (auto simp: s'_def s1_def)
  moreover have "view s' (physical_to_virtual p + of_nat i) = 0" if "i < 4096" for i
  proof -
    have "in_range (physical_to_virtual p) 4096 (physical_to_virtual p + of_nat i)" using that by (intro in_range_offset) auto
    then have "?z (physical_to_virtual p + of_nat i) = 0" by (simp add: zero_frame_eq fill_at)
    then show ?thesis using frp that by (simp add: same_frames_def)
  qed
  moreover have "same_frames X (view s) (view s')"
    using same_frames_trans [OF frX same_frames_subset [OF frp]] by blast
  moreover have "translate (view s') (root s) w = Some (p OR 1)" using leaf(2) by (simp add: same_entry_def)
  moreover have "translate (view s') (root s) v = Some e" if "\<not> same_entry v w" "translate (view s) (root s) v = Some e" for v e
    using that leaf(2) tr by simp
  moreover have "tables_grow {w} (root s) (view s) (view s')" using ent tab' unfolding tables_grow_def by (metis insertI1)
  moreover have "clear_way (view s') (root s) v" if v: "clear_way (view s) (root s) v" for v
    unfolding clear_way_def
  proof (intro allI impI)
    fix q i r u assume q: "page_path v = q @ i # r" and u: "table_at (view s') (root s) q = Some u" "entry (view s') u i \<noteq> 0"
    have "ok_path (page_path v)" "length (page_path v) = 3" "length (page_path w) = 3" by simp_all
    then have "ok_path q" "i < 512" "q \<noteq> page_path w" unfolding q by (auto simp: ok_path_def)
    then show "child (entry (view s') u i) = Some (entry (view s') u i AND TABLE_MASK)"
      using ent tab' u clear_wayD [OF v q] by metis
  qed
  moreover have "card (hi_pages s) \<le> Suc (card (hi_pages s1))" using p(2) by (simp add: hp card_Diff_singleton)
  ultimately show thesis
    using that [of p s1] p(1,2) rt' hp tabs unfolding s1_def [symmetric] s'_def [symmetric] page_added_def by auto
qed

lemma map_single_spec:
  assumes "boot_vm X s" and "clear_way (view s) (root s) (unat va div 4096)" and "4 \<le> card (hi_pages s)"
  obtains p where "page_added X (unat va div 4096) p s (map_single va s)"
proof -
  let ?w = "unat va div 4096"
  obtain a b c d where abcd: "decompose_addr va = (a, b, c, d)" by (cases "decompose_addr va")
  note path = decompose_path [OF abcd]
  have "level_done X ?w [] (root s) s s" using assms(1) by (simp add: level_done_def same_frames_refl tables_grow_refl)
  from level_step [OF this, of a "[b, c]"] path(1) assms(2,3) obtain t1 s1 where
    1: "lower_table alloc_page_hi (root s) a s = (t1, s1)" "level_done X ?w [a] t1 s s1" by auto
  from level_step [OF 1(2), of b "[c]"] path(1) assms(2,3) obtain t2 s2 where
    2: "lower_table alloc_page_hi t1 b s1 = (t2, s2)" "level_done X ?w [a, b] t2 s s2" by auto
  from level_step [OF 2(2), of c "[]"] path(1) assms(2,3) obtain t3 s3 where
    3: "lower_table alloc_page_hi t2 c s2 = (t3, s3)" "level_done X ?w [a, b, c] t3 s s3" by auto
  note l = 3(2) [unfolded level_done_def]
  have rt: "root s3 = root s" and ok3: "boot_vm X s3" and t3: "table_at (view s3) (root s3) (page_path ?w) = Some t3"
    and c3: "card (hi_pages s) \<le> 3 + card (hi_pages s3)" using l path(1) by simp_all
  have room: "hi_pages s3 \<noteq> {}" using c3 assms(3) by auto
  obtain p s4 where p: "alloc_page_hi s3 = (p, s4)" "page_added X ?w p s3 (s4\<lparr>ram := store64 (ram s4) (word_at t3 (?w mod 512)) (p OR 1)\<rparr>)"
      "card (hi_pages s3) \<le> Suc (card (hi_pages s4))"
      "tables (view (s4\<lparr>ram := store64 (ram s4) (word_at t3 (?w mod 512)) (p OR 1)\<rparr>)) (root s3) = tables (view s3) (root s3)"
    by (rule leaf_step [OF ok3 t3 room])
  define s' where "s' = s4\<lparr>ram := store64 (ram s4) (word_at t3 (?w mod 512)) (p OR 1)\<rparr>"
  have run: "map_single va s = s'"
    using path(2) by (simp add: map_single_def abcd 1(1) 2(1) 3(1) p(1) Let_def s'_def)
  have hp: "hi_pages s' = hi_pages s4" by (simp add: s'_def hi_pages_def)
  have pa: "page_added X ?w p s3 s'" using p(2) by (simp add: s'_def)
  note q = pa [unfolded page_added_def rt]
  have "tables_grow {} (root s) (view s) (view s3)" using l by blast
  then have "tables_grow {?w} (root s) (view s) (view s3)" by (rule tables_grow_mono) simp
  then have "tables_grow {?w} (root s) (view s) (view s')" using q tables_grow_trans by blast
  moreover have "same_frames X (view s) (view s')" using q l same_frames_trans by blast
  moreover have "card (hi_pages s) \<le> 4 + card (hi_pages s')" using c3 p(3) hp by simp
  moreover have "tables (view s') (root s) \<subseteq> tables (view s) (root s) \<union> hi_pages s" using p(4) l unfolding s'_def [symmetric] rt by blast
  moreover have "hi_pages s' \<subseteq> hi_pages s - {p}" "p \<in> hi_pages s" using q l by blast+
  ultimately have "page_added X ?w p s s'" using q l unfolding page_added_def by blast
  then show thesis using that run by simp
qed

section \<open>Witness\<close>

text \<open>An empty table at \<open>0x1000\<close> and eight free pages.\<close>

definition empty_tables :: Boot where
  "empty_tables = \<lparr>gBootParams = \<lparr>boot_drive = 0x80, mbr_partition = \<lparr>unused = replicate 8 0, lba_start = 1, lba_size = 63\<rparr>,
      bp_video = \<lparr>mode = 0, width = 0, height = 0, bpp = 0, pitch = 0, text_cursor_x = 0, text_cursor_y = 0,
        text_max_x = 80, text_max_y = 25, framebuffer = 0xb8000\<rparr>,
      mem_map = [], mem_free = [\<lparr>r_base = 0x1000000, r_size = 0x8000\<rparr>],
      bp_initram = 0, bp_initram_size = 0, bp_cr3 = 0x1000\<rparr>, lo_page = 0x100000, ram = (\<lambda>_. 0), cr3_reg = 0\<rparr>"

lemma entry_zero_view: "entry (direct_view (\<lambda>_. 0)) t i = 0"
  unfolding entry_def load_def direct_view_def by (rule word_le_zeros) auto

lemma empty_view_tables: "table_at (direct_view (\<lambda>_. 0)) t q = (if q = [] then Some t else None)"
  by (cases q) (simp_all add: entry_zero_view)

lemma empty_tables_pages: "hi_pages empty_tables = low_pages \<lparr>r_base = 0x1000000, r_size = 0x8000\<rparr>"
  by (simp add: hi_pages_def empty_tables_def usable_all low_region_def)

lemma empty_tables_ok: "boot_vm {} empty_tables"
proof -
  have "0x1000 \<notin> hi_pages empty_tables" by (simp add: empty_tables_pages low_pages_def)
  moreover have "tables (view empty_tables) (root empty_tables) = {0x1000}"
    by (auto simp: tables_def empty_tables_def empty_view_tables split: if_splits intro!: exI [of _ "[]"])
  moreover have "tables_ok (view empty_tables) (root empty_tables)"
    by (auto simp: tables_ok_def empty_tables_def empty_view_tables is_frame_def split: if_splits)
  ultimately show ?thesis by (simp add: boot_vm_def) (simp add: empty_tables_def usable_all low_region_def identity_mapped_def)
qed

end
