(* ===== verification/DirectMap.thy ===== *)
theory DirectMap
  imports KernelInit BootTables
begin

text \<open>
  After \<open>arch_init_physical_mapping\<close> the processor translates every address \<open>physical_to_virtual p\<close>
  with \<open>p\<close> below 512 GiB to \<open>p\<close>, whichever size of pages it uses: the direct map the kernel relies on.
  The tables are written through the loader's map of the first 4 GiB to themselves, so the pages for
  them, and the loader's table, are below 4 GiB.
\<close>

section \<open>Early pages\<close>

lemma take_early_hi:
  "pages_of (usable_upto n rs) \<noteq> {} \<Longrightarrow> take_hi n rs = Some (p, rs') \<Longrightarrow> take_early 4096 (take n rs) = (p, take n rs') \<and> drop n rs' = drop n rs"
proof (induction n rs arbitrary: rs' rule: take_hi.induct)
  case (3 n r rs)
  have low: "low_region r" using 3(2) by (auto split: if_splits)
  show ?case
  proof (cases "r_size r = 0")
    case True
    with 3 low region_empty [OF True] show ?thesis by (auto split: prod.splits)
  next
    case False
    have "4096 dvd unat (r_size r)" using low by (simp add: low_region_def)
    moreover have "unat (r_size r) \<noteq> 0" using False by (simp add: unat_eq_zero)
    ultimately have "4096 \<le> unat (r_size r)" by (meson dvd_imp_le neq0_conv)
    then have "4096 \<le> r_size r" by (simp add: word_le_nat_alt)
    with False 3(3) show ?thesis by (auto simp: PAGESIZE_def)
  qed
qed simp_all

lemma early_page_spec:
  assumes "pool_ok (usable (mem_free (gBootParams s)))" and "hi_pages s \<noteq> {}"
  obtains f rs where "early_page s = (f, s\<lparr>gBootParams := (gBootParams s)\<lparr>mem_free := rs\<rparr>\<rparr>)"
    and "f \<in> hi_pages s" and "pages_of (usable rs) = hi_pages s - {f}" and "pool_ok (usable rs)" and "is_frame f"
proof -
  obtain f rs where f: "take_hi 32 (mem_free (gBootParams s)) = Some (f, rs)" "f \<in> hi_pages s"
      "pages_of (usable rs) = hi_pages s - {f}" "pool_ok (usable rs)"
    using take_hi_spec [OF assms(1) [unfolded usable_def]] assms(2) by (auto simp: hi_pages_def usable_def)
  have "take_early 4096 (take 32 (mem_free (gBootParams s))) = (f, take 32 rs) \<and> drop 32 rs = drop 32 (mem_free (gBootParams s))"
    using f(1) assms(2) by (intro take_early_hi) (auto simp: hi_pages_def usable_def)
  then have "alloc_phys_early 1 (mem_free (gBootParams s)) = (f, take 32 rs @ drop 32 rs)"
    by (simp add: alloc_phys_early_def)
  moreover have "is_frame f" using pool_frames [OF assms(1)] f(2) by (simp add: hi_pages_def)
  ultimately show thesis using f by (intro that) (simp_all add: early_page_def)
qed

section \<open>Tables filled by a loop\<close>

lemma fill_table:
  assumes "is_frame t" and "n \<le> 512" and "is_frame u" and "j < 512"
  shows "entry (direct_view (for_n n (\<lambda>i m. store64 m (word_at t i) (f i)) m)) u j
    = (if u = t \<and> j < n then f j else entry (direct_view m) u j)"
  using assms(2)
proof (induction n)
  case (Suc n)
  then have n: "n < 512" "n \<le> 512" by simp_all
  show ?case
    using Suc.IH [OF n(2)] entry_store [OF assms(1,3) n(1) assms(4)] by (auto simp: store_word_at [OF assms(1)] less_Suc_eq)
qed simp

lemma frame_walk: "is_frame f \<Longrightarrow> (f OR g) AND ADDR_MASK = f" if "\<And>k. bit g k \<Longrightarrow> k < 12"
proof -
  assume f: "is_frame f"
  have m: "ADDR_MASK = mask 52 AND NOT (mask 12)" by (simp add: ADDR_MASK_def mask_eq_exp_minus_1)
  show "(f OR g) AND ADDR_MASK = f"
    unfolding m using frame_bits [OF f] that
    by (intro bit_word_eqI) (fastforce simp: bit_and_iff bit_or_iff bit_not_iff bit_mask_iff)
qed

lemma frame_walk3: "is_frame f \<Longrightarrow> (f OR 3) AND ADDR_MASK = f" and frame_walk0: "is_frame f \<Longrightarrow> f AND ADDR_MASK = f"
proof -
  have "k < 12" if "bit (3 :: u64) k" for k using iffD1 [OF bit_3 that] by simp
  then show "is_frame f \<Longrightarrow> (f OR 3) AND ADDR_MASK = f" by (rule frame_walk)
  show "is_frame f \<Longrightarrow> f AND ADDR_MASK = f" using frame_walk [of 0 f] by simp
qed

lemma flag_bits: "w AND 1 = 0 \<longleftrightarrow> \<not> bit w 0" "w AND 0x80 = 0 \<longleftrightarrow> \<not> bit w 7" for w :: u64
proof -
  show "w AND 1 = 0 \<longleftrightarrow> \<not> bit w 0" using and_exp_zero [of w 0] by (simp del: bit_0 one_and_eq and_one_eq)
  show "w AND 0x80 = 0 \<longleftrightarrow> \<not> bit w 7" using and_exp_zero [of w 7] by simp
qed

section \<open>The walk\<close>

lemma walk_index: "unat (drop_bit n va AND 0x1ff) = unat va div 2 ^ n mod 512" for va :: u64
proof -
  have "(0x1ff :: u64) = mask 9" by (simp add: mask_eq_exp_minus_1)
  then show ?thesis
    by (simp only: take_bit_eq_mask [symmetric] unsigned_take_bit_eq unsigned_drop_bit_eq)
      (use unat_bound_u64 [of va] in \<open>simp add: drop_bit_eq_div take_bit_eq_mod\<close>)
qed

lemma direct_decompose:
  assumes "unat pa < 2 ^ 39"
  shows "decompose_addr (physical_to_virtual pa)
    = (PML4_PHYSICAL, unat pa div 2 ^ 30, unat pa div 2 ^ 21 mod 512, unat pa div 2 ^ 12 mod 512)"
proof -
  have u: "unat (physical_to_virtual pa) = 0xffff800000000000 + unat pa" using assms by (simp add: unat_physical_to_virtual)
  have e: "0xffff800000000000 + unat pa = unat pa + 33554176 * 549755813888"
    "0xffff800000000000 + unat pa = unat pa + 33554176 * 512 * 1073741824"
    "0xffff800000000000 + unat pa = unat pa + 33554176 * 512 * 512 * 2097152"
    "0xffff800000000000 + unat pa = unat pa + 33554176 * 262144 * 512 * 4096" by simp_all
  have a: "(0xffff800000000000 + unat pa) div 549755813888 mod 512 = 256"
    unfolding e(1) div_mult_self1 [OF zero_neq_numeral [symmetric]] using assms by simp
  have "(0xffff800000000000 + unat pa) div 1073741824 mod 512 = unat pa div 1073741824 mod 512"
    unfolding e(2) div_mult_self1 [OF zero_neq_numeral [symmetric]] by (rule mod_mult_self3)
  moreover have "unat pa div 1073741824 < 512" using assms by simp
  ultimately have b: "(0xffff800000000000 + unat pa) div 1073741824 mod 512 = unat pa div 1073741824" by simp
  have c: "(0xffff800000000000 + unat pa) div 2097152 mod 512 = unat pa div 2097152 mod 512"
    unfolding e(3) div_mult_self1 [OF zero_neq_numeral [symmetric]] by (rule mod_mult_self3)
  have d: "(0xffff800000000000 + unat pa) div 4096 mod 512 = unat pa div 4096 mod 512"
    unfolding e(4) div_mult_self1 [OF zero_neq_numeral [symmetric]] by (rule mod_mult_self3)
  show ?thesis unfolding decompose_addr_def walk_index u using a b c d by (simp add: PML4_PHYSICAL_def)
qed

lemma direct_low_bits: "unat pa < 2 ^ 39 \<Longrightarrow> n \<le> 39 \<Longrightarrow> physical_to_virtual pa AND mask n = take_bit n pa"
proof -
  assume "unat pa < 2 ^ 39" and n: "n \<le> 39"
  have m: "(0xffff800000000000 :: u64) = NOT (mask 47)" by (simp add: mask_eq_exp_minus_1)
  show "physical_to_virtual pa AND mask n = take_bit n pa"
    unfolding physical_to_virtual_def m using n
    by (intro bit_word_eqI) (auto simp: bit_and_iff bit_or_iff bit_not_iff bit_mask_iff bit_take_bit_iff)
qed

text \<open>An entry that maps the large page \<open>i\<close> of size \<open>2 ^ n\<close>.\<close>

lemma large_entry:
  assumes "i < 2 ^ (39 - n)" and "12 \<le> n" and "n \<le> 39"
  defines "e \<equiv> (of_nat i * 2 ^ n) OR PAGE_PRESENT OR PAGE_WRITE OR PAGE_LARGE :: u64"
  shows "bit e 0" and "bit e 7" and "e AND (mask 52 AND NOT (mask n)) = of_nat i * 2 ^ n"
proof -
  show "bit e 0" "bit e 7" by (simp_all add: e_def bit_or_iff PAGE_PRESENT_def PAGE_LARGE_def PAGE_WRITE_def)
  have p: "of_nat i * 2 ^ n = (push_bit n (of_nat i) :: u64)" by (simp add: push_bit_eq_mult)
  have "take_bit (39 - n) (of_nat i :: u64) = of_nat i"
    using assms(1) by (simp add: take_bit_of_nat take_bit_nat_eq_self)
  then have i: "j < 39 - n" if "bit (of_nat i :: u64) j" for j using that by (metis bit_take_bit_iff)
  have low: "k < 12" if "bit (PAGE_PRESENT OR PAGE_WRITE OR PAGE_LARGE) k" for k
  proof (rule ccontr)
    assume "\<not> k < 12"
    moreover have "PAGE_PRESENT OR PAGE_WRITE OR PAGE_LARGE = take_bit 12 (PAGE_PRESENT OR PAGE_WRITE OR PAGE_LARGE)"
      by (simp add: PAGE_PRESENT_def PAGE_WRITE_def PAGE_LARGE_def)
    ultimately show False using that by (metis bit_take_bit_iff)
  qed
  show "e AND (mask 52 AND NOT (mask n)) = of_nat i * 2 ^ n"
    unfolding e_def p or.assoc using i low assms(2,3)
    by (intro bit_word_eqI) (fastforce simp: bit_and_iff bit_or_iff bit_not_iff bit_mask_iff bit_push_bit_iff)
qed

lemma split_page: "of_nat (unat pa div 2 ^ n) * 2 ^ n + take_bit n pa = pa" for pa :: u64
proof -
  have u: "unat (take_bit n pa) = unat pa mod 2 ^ n" unfolding unsigned_take_bit_eq by (rule take_bit_eq_mod)
  have t: "take_bit n pa = of_nat (unat pa mod 2 ^ n)" by (subst u [symmetric]) simp
  have "of_nat (unat pa div 2 ^ n) * 2 ^ n + take_bit n pa = (of_nat (unat pa div 2 ^ n * 2 ^ n + unat pa mod 2 ^ n) :: u64)"
    unfolding t by simp
  then show ?thesis by (simp only: div_mult_mod_eq of_nat_unat) simp
qed

text \<open>What the walk finds, from the entries on its way.\<close>

lemma mmu_1gb:
  assumes "unat pa < 2 ^ 39" and "is_frame r" and "is_frame pdp" and "entry (direct_view m) r PML4_PHYSICAL = pdp OR 3"
    and "entry (direct_view m) pdp (unat pa div 2 ^ 30) = (of_nat (unat pa div 2 ^ 30) * 2 ^ 30) OR PAGE_PRESENT OR PAGE_WRITE OR PAGE_LARGE"
  shows "mmu m r (physical_to_virtual pa) = Some pa"
proof -
  have i: "unat pa div 2 ^ 30 < 2 ^ (39 - 30)" using assms(1) by simp
  have mk: "mask 52 AND NOT (mask 30) = (0x000fffffc0000000 :: u64)" by (simp add: mask_eq_exp_minus_1)
  let ?e = "of_nat (unat pa div 2 ^ 30) * 2 ^ 30 OR PAGE_PRESENT OR PAGE_WRITE OR PAGE_LARGE :: u64"
  have e: "bit ?e 0" "bit ?e 7" "?e AND 0x000fffffc0000000 = of_nat (unat pa div 2 ^ 30) * 2 ^ 30"
    using large_entry [OF i] mk by simp_all
  have lo: "physical_to_virtual pa AND 0x3fffffff = take_bit 30 pa"
    using direct_low_bits [OF assms(1), of 30] by (simp add: mask_eq_exp_minus_1)
  define x where "x = ?e"
  have x: "bit x 0" "bit x 7" "x AND 0x000fffffc0000000 = of_nat (unat pa div 2 ^ 30) * 2 ^ 30" using e by (simp_all only: x_def)
  have l: "load64 m (word_at r PML4_PHYSICAL) = pdp OR 3" "load64 m (word_at pdp (unat pa div 2 ^ 30)) = x"
    using assms(4,5) by (simp_all only: entry_direct_view [OF assms(2)] entry_direct_view [OF assms(3)] x_def)
  have p: "\<not> (pdp OR 3) AND 1 = 0" "(pdp OR 3) AND 0x80 = 0" using frame_bits [OF assms(3), of 7] by (auto simp: flag_bits bit_or_iff)
  show ?thesis
    unfolding mmu_def direct_decompose [OF assms(1)] Let_def prod.case frame_walk0 [OF assms(2)] l frame_walk3 [OF assms(3)] lo x(3) split_page
    using p x(1,2) by (simp add: flag_bits)
qed

lemma mmu_2mb:
  assumes "unat pa < 2 ^ 39" and "is_frame r" and "is_frame pdp" and "is_frame pd" and "entry (direct_view m) r PML4_PHYSICAL = pdp OR 3"
    and "entry (direct_view m) pdp (unat pa div 2 ^ 30) = pd OR 3"
    and "entry (direct_view m) pd (unat pa div 2 ^ 21 mod 512) = (of_nat (unat pa div 2 ^ 21) * 2 ^ 21) OR PAGE_PRESENT OR PAGE_WRITE OR PAGE_LARGE"
  shows "mmu m r (physical_to_virtual pa) = Some pa"
proof -
  have i: "unat pa div 2 ^ 21 < 2 ^ (39 - 21)" using assms(1) by simp
  have mk: "mask 52 AND NOT (mask 21) = (0x000fffffffe00000 :: u64)" by (simp add: mask_eq_exp_minus_1)
  let ?e = "of_nat (unat pa div 2 ^ 21) * 2 ^ 21 OR PAGE_PRESENT OR PAGE_WRITE OR PAGE_LARGE :: u64"
  have e: "bit ?e 0" "bit ?e 7" "?e AND 0x000fffffffe00000 = of_nat (unat pa div 2 ^ 21) * 2 ^ 21"
    using large_entry [OF i] mk by simp_all
  have lo: "physical_to_virtual pa AND 0x1fffff = take_bit 21 pa"
    using direct_low_bits [OF assms(1), of 21] by (simp add: mask_eq_exp_minus_1)
  define x where "x = ?e"
  have x: "bit x 0" "bit x 7" "x AND 0x000fffffffe00000 = of_nat (unat pa div 2 ^ 21) * 2 ^ 21" using e by (simp_all only: x_def)
  have l: "load64 m (word_at r PML4_PHYSICAL) = pdp OR 3" "load64 m (word_at pdp (unat pa div 2 ^ 30)) = pd OR 3"
    "load64 m (word_at pd (unat pa div 2 ^ 21 mod 512)) = x"
    using assms(5-7) by (simp_all only: entry_direct_view [OF assms(2)] entry_direct_view [OF assms(3)] entry_direct_view [OF assms(4)] x_def)
  have p: "\<not> (pdp OR 3) AND 1 = 0" "\<not> (pd OR 3) AND 1 = 0" by (simp_all add: flag_bits bit_or_iff)
  have big: "(pd OR 3) AND 0x80 = 0" "(pdp OR 3) AND 0x80 = 0"
    using frame_bits [OF assms(4), of 7] frame_bits [OF assms(3), of 7] by (auto simp: flag_bits bit_or_iff)
  show ?thesis
    unfolding mmu_def direct_decompose [OF assms(1)] Let_def prod.case frame_walk0 [OF assms(2)] l frame_walk3 [OF assms(3)] frame_walk3 [OF assms(4)] lo x(3) split_page
    using p big x(1,2) by (simp add: flag_bits)
qed

section \<open>The mapping\<close>

definition large_2mb :: "nat \<Rightarrow> nat \<Rightarrow> u64" where
  "large_2mb i j = (of_nat (i * 512 + j) * 0x200000) OR PAGE_PRESENT OR PAGE_WRITE OR PAGE_LARGE"

text \<open>After \<open>i\<close> rounds: a table of 512 large pages below each of the first \<open>i\<close> entries of \<open>pdp\<close>.\<close>

definition mapped_2mb :: "u64 \<Rightarrow> u64 \<Rightarrow> nat \<Rightarrow> nat \<Rightarrow> Boot \<Rightarrow> bool" where
  "mapped_2mb r pdp n i s \<longleftrightarrow> pool_ok (usable (mem_free (gBootParams s))) \<and> bp_cr3 (gBootParams s) = r
     \<and> r \<notin> hi_pages s \<and> pdp \<notin> hi_pages s \<and> n \<le> i + card (hi_pages s)
     \<and> (\<forall>k<i. \<exists>pd. is_frame pd \<and> pd \<notin> hi_pages s \<and> pd \<noteq> pdp \<and> pd \<noteq> r \<and> entry (direct_view (ram s)) pdp k = pd OR 3
          \<and> (\<forall>j<512. entry (direct_view (ram s)) pd j = large_2mb k j))"

lemma flags_3: "p OR PAGE_PRESENT OR PAGE_WRITE = p OR 3"
  by (simp add: PAGE_PRESENT_def PAGE_WRITE_def)

lemma round_2mb_step:
  assumes inv: "mapped_2mb r pdp n i s" and "is_frame pdp" and "is_frame r" and "r \<noteq> pdp" and "i < 512" and "i < n"
  shows "mapped_2mb r pdp n (Suc i) (round_2mb pdp i s)"
proof -
  note I = inv [unfolded mapped_2mb_def]
  have "n \<le> i + card (hi_pages s)" using I by blast
  then have "card (hi_pages s) \<noteq> 0" using assms(6) by linarith
  then have room: "hi_pages s \<noteq> {}" by auto
  obtain f rs where f: "early_page s = (f, s\<lparr>gBootParams := (gBootParams s)\<lparr>mem_free := rs\<rparr>\<rparr>)"
      "f \<in> hi_pages s" "pages_of (usable rs) = hi_pages s - {f}" "pool_ok (usable rs)" "is_frame f"
    by (rule early_page_spec [OF _ room]) (use I in blast)
  let ?m = "store64 (map_2mb i f (ram s)) (word_at pdp i) (f OR 3)"
  have s': "round_2mb pdp i s = s\<lparr>gBootParams := (gBootParams s)\<lparr>mem_free := rs\<rparr>, ram := ?m\<rparr>"
    by (simp add: round_2mb_def f(1) flags_3)
  have ne: "f \<noteq> pdp" "f \<noteq> r" using I f(2) by auto
  have ent: "entry (direct_view ?m) u j = (if u = pdp \<and> j = i then f OR 3 else if u = f then large_2mb i j else entry (direct_view (ram s)) u j)"
    if "is_frame u" "j < 512" for u j
    unfolding store_word_at [OF assms(2)] map_2mb_def entry_store [OF assms(2) that(1) assms(5) that(2)]
      fill_table [OF f(5) order_refl that] large_2mb_def using ne that(2) by auto
  have hp: "hi_pages (round_2mb pdp i s) = hi_pages s - {f}" unfolding s' using f(3) by (simp add: hi_pages_def)
  have card: "n \<le> Suc i + card (hi_pages s - {f})"
    using I f(2) card_Suc_Diff1 [of "hi_pages s" f] by simp
  have "\<exists>pd. is_frame pd \<and> pd \<notin> hi_pages s - {f} \<and> pd \<noteq> pdp \<and> pd \<noteq> r \<and> entry (direct_view ?m) pdp k = pd OR 3
      \<and> (\<forall>j<512. entry (direct_view ?m) pd j = large_2mb k j)" if k: "k < Suc i" for k
  proof (cases "k = i")
    case True
    then show ?thesis using f(5) ne assms(2,5) by (intro exI [of _ f]) (auto simp: ent)
  next
    case False
    with k I obtain pd where pd: "is_frame pd" "pd \<notin> hi_pages s" "pd \<noteq> pdp" "pd \<noteq> r"
        "entry (direct_view (ram s)) pdp k = pd OR 3" "\<forall>j<512. entry (direct_view (ram s)) pd j = large_2mb k j"
      by (meson less_SucE)
    have "k < 512" using k False assms(5) by simp
    with pd f(2) assms(2) False ne show ?thesis by (intro exI [of _ pd]) (auto simp: ent)
  qed
  moreover have "bp_cr3 (gBootParams (round_2mb pdp i s)) = r" "ram (round_2mb pdp i s) = ?m"
    "mem_free (gBootParams (round_2mb pdp i s)) = rs" using I by (simp_all add: s')
  moreover have "r \<notin> hi_pages s - {f}" "pdp \<notin> hi_pages s - {f}" using I by blast+
  ultimately show ?thesis using card f(4) unfolding mapped_2mb_def hp by simp
qed

lemma rounds_2mb:
  assumes "mapped_2mb r pdp n 0 s" and "is_frame pdp" and "is_frame r" and "r \<noteq> pdp" and "i \<le> 512" and "i \<le> n"
  shows "mapped_2mb r pdp n i (for_n i (round_2mb pdp) s)"
  using assms(5,6)
proof (induction i)
  case (Suc i)
  then show ?case using round_2mb_step [OF Suc.IH assms(2-4)] by simp
qed (simp add: assms(1))

text \<open>C36. After arch_init_physical_mapping the register CR3 holds the table of the boot loader, and the processor translates
  physical_to_virtual(p) to p for every physical address p below 512 GiB, with pages of 1 GiB as well as with pages of
  2 MiB, when there are enough free pages below 4 GiB apart from that table, which lies below 4 GiB too (the tables are
  written through the loader's map of the first 4 GiB to themselves).\<close>

theorem physical_mapping_is_direct:
  assumes "pool_ok (usable (mem_free (gBootParams s)))" and "is_frame (bp_cr3 (gBootParams s))"
    and "bp_cr3 (gBootParams s) \<in> identity_mapped - hi_pages s" and "513 \<le> card (hi_pages s)" and "unat pa < 2 ^ 39"
  shows "cr3_reg (arch_init_physical_mapping cpuid s) = bp_cr3 (gBootParams s)
    \<and> phys (arch_init_physical_mapping cpuid s) (physical_to_virtual pa) = Some pa"
proof -
  let ?r = "bp_cr3 (gBootParams s)"
  have "hi_pages s \<noteq> {}" using assms(4) by auto
  then obtain pdp rs where p: "early_page s = (pdp, s\<lparr>gBootParams := (gBootParams s)\<lparr>mem_free := rs\<rparr>\<rparr>)"
      "pdp \<in> hi_pages s" "pages_of (usable rs) = hi_pages s - {pdp}" "pool_ok (usable rs)" "is_frame pdp"
    by (rule early_page_spec [OF assms(1)])
  let ?s = "s\<lparr>gBootParams := (gBootParams s)\<lparr>mem_free := rs\<rparr>\<rparr>"
  have ne: "?r \<noteq> pdp" using assms(3) p(2) by auto
  have b: "unat pa div 2 ^ 30 < 512" using assms(5) by simp
  have c: "unat pa div 2 ^ 21 mod 512 < 512" by simp
  have P: "PML4_PHYSICAL < 512" by (simp add: PML4_PHYSICAL_def)
  have fin: "entry (direct_view (store64 m (word_at ?r PML4_PHYSICAL) (pdp OR 3))) u j
      = (if u = ?r \<and> j = PML4_PHYSICAL then pdp OR 3 else entry (direct_view m) u j)"
    if "is_frame u" "j < 512" for m u j
    using entry_store [OF assms(2) that(1) P that(2)] by (auto simp: store_word_at [OF assms(2)])
  show ?thesis
  proof (cases "is_1gb_pages_supported cpuid")
    case True
    have "entry (direct_view (map_1gb pdp (ram s))) pdp (unat pa div 2 ^ 30)
        = (of_nat (unat pa div 2 ^ 30) * 0x40000000) OR PAGE_PRESENT OR PAGE_WRITE OR PAGE_LARGE"
      unfolding map_1gb_def fill_table [OF p(5) order_refl p(5) b] using b by simp
    then have e: "entry (direct_view (map_1gb pdp (ram s))) pdp (unat pa div 2 ^ 30)
        = (of_nat (unat pa div 2 ^ 30) * 2 ^ 30) OR PAGE_PRESENT OR PAGE_WRITE OR PAGE_LARGE" by simp
    have "mmu (store64 (map_1gb pdp (ram s)) (word_at ?r PML4_PHYSICAL) (pdp OR 3)) ?r (physical_to_virtual pa) = Some pa"
      by (rule mmu_1gb [OF assms(5,2) p(5)]) (use ne ne [symmetric] e in \<open>simp_all only: fin [OF assms(2) P] fin [OF p(5) b] if_True if_False simp_thms\<close>)
    with True show ?thesis by (simp add: arch_init_physical_mapping_def phys_def p(1) flags_3 Let_def)
  next
    case False
    let ?t = "for_n 512 (round_2mb pdp) ?s"
    have hp: "hi_pages ?s = hi_pages s - {pdp}" using p(3) by (simp add: hi_pages_def)
    have "512 \<le> card (hi_pages ?s)" unfolding hp using assms(4) p(2) by (simp add: card_Diff_singleton)
    then have "mapped_2mb ?r pdp 512 0 ?s" using p(4) assms(3) by (simp add: mapped_2mb_def hp)
    from rounds_2mb [OF this p(5) assms(2) ne, of 512] have full: "mapped_2mb ?r pdp 512 512 ?t" by simp
    then obtain pd where pd: "is_frame pd" "pd \<noteq> pdp" "pd \<noteq> ?r"
        "entry (direct_view (ram ?t)) pdp (unat pa div 2 ^ 30) = pd OR 3"
        "\<forall>j<512. entry (direct_view (ram ?t)) pd j = large_2mb (unat pa div 2 ^ 30) j"
      using b unfolding mapped_2mb_def by blast
    have "unat pa div 2 ^ 30 * 512 + unat pa div 2 ^ 21 mod 512 = unat pa div 2 ^ 21"
      using div_mult_mod_eq [of "unat pa div 2 ^ 21" 512] by (simp add: div_mult2_eq [symmetric])
    then have e: "entry (direct_view (ram ?t)) pd (unat pa div 2 ^ 21 mod 512)
        = (of_nat (unat pa div 2 ^ 21) * 2 ^ 21) OR PAGE_PRESENT OR PAGE_WRITE OR PAGE_LARGE"
      using pd(5) by (simp add: large_2mb_def del: of_nat_add of_nat_mult)
    have "mmu (store64 (ram ?t) (word_at ?r PML4_PHYSICAL) (pdp OR 3)) ?r (physical_to_virtual pa) = Some pa"
      by (rule mmu_2mb [OF assms(5,2) p(5) pd(1)])
        (use ne ne [symmetric] pd(2-4) e in \<open>simp_all only: fin [OF assms(2) P] fin [OF p(5) b] fin [OF pd(1) c] if_True if_False simp_thms\<close>)
    moreover have "arch_init_physical_mapping cpuid s
        = ?t\<lparr>ram := store64 (ram ?t) (word_at ?r PML4_PHYSICAL) (pdp OR 3), cr3_reg := ?r\<rparr>"
      using False by (simp add: arch_init_physical_mapping_def p(1) flags_3 Let_def)
    ultimately show ?thesis by (simp add: phys_def)
  qed
qed

section \<open>Witness\<close>

text \<open>The tables at \<open>0x1000\<close>, 4 MiB of free pages, and a processor without pages of 1 GiB.\<close>

definition early_boot :: Boot where
  "early_boot = empty_tables\<lparr>gBootParams := (gBootParams empty_tables)\<lparr>mem_free := [\<lparr>r_base = 0x1000000, r_size = 0x400000\<rparr>]\<rparr>\<rparr>"

lemma early_boot_pages: "hi_pages early_boot = low_pages \<lparr>r_base = 0x1000000, r_size = 0x400000\<rparr>"
  by (simp add: hi_pages_def early_boot_def usable_all low_region_def)

lemma early_boot_room: "513 \<le> card (hi_pages early_boot)"
proof -
  have u: "unat (0x1000000 + of_nat (4096 * i) :: u64) = 0x1000000 + 4096 * i" if "i < 513" for i
    using that by (subst unat_add_nat) simp_all
  have "inj_on (\<lambda>i. 0x1000000 + of_nat (4096 * i) :: u64) {..<513}"
  proof (rule inj_onI)
    fix i j assume "i \<in> {..<513}" "j \<in> {..<513}" and e: "0x1000000 + of_nat (4096 * i) = (0x1000000 + of_nat (4096 * j) :: u64)"
    then have "i < 513" "j < 513" by simp_all
    from u [OF this(1)] u [OF this(2)] show "i = j" unfolding e by simp
  qed
  then have "card ((\<lambda>i. 0x1000000 + of_nat (4096 * i) :: u64) ` {..<513}) = 513" by (simp add: card_image)
  moreover have "(\<lambda>i. 0x1000000 + of_nat (4096 * i) :: u64) ` {..<513} \<subseteq> hi_pages early_boot"
  proof
    fix p :: u64 assume "p \<in> (\<lambda>i. 0x1000000 + of_nat (4096 * i)) ` {..<513}"
    then obtain i where "i < 513" "p = 0x1000000 + of_nat (4096 * i)" by auto
    then have i: "i < 513" "unat p = 0x1000000 + 4096 * i" using u by simp_all
    have "unat p = 4096 * (4096 + i)" using i(2) by simp
    then have "4096 dvd unat p" by (rule dvdI)
    with i show "p \<in> hi_pages early_boot" by (simp add: early_boot_pages low_pages_def)
  qed
  ultimately show ?thesis by (metis card_mono finite)
qed

lemma physical_mapping_is_direct_witness:
  "phys (arch_init_physical_mapping (\<lambda>_. [0, 0, 0, 0]) early_boot) 0xffff800123456789 = Some 0x123456789"
proof -
  have "pool_ok (usable (mem_free (gBootParams early_boot)))" by (simp add: early_boot_def usable_all low_region_def)
  moreover have "is_frame (bp_cr3 (gBootParams early_boot))" by (simp add: early_boot_def empty_tables_def is_frame_def)
  moreover have "bp_cr3 (gBootParams early_boot) \<in> identity_mapped - hi_pages early_boot"
    unfolding early_boot_pages by (simp add: early_boot_def empty_tables_def low_pages_def identity_mapped_def)
  ultimately have "phys (arch_init_physical_mapping (\<lambda>_. [0, 0, 0, 0]) early_boot) (physical_to_virtual 0x123456789) = Some 0x123456789"
    using physical_mapping_is_direct [OF _ _ _ early_boot_room, of "0x123456789"] by simp
  then show ?thesis by (simp add: physical_to_virtual_def)
qed

end
