(* ===== verification/BootAlloc.thy ===== *)
theory BootAlloc
  imports BootRead DirectMap
begin

text \<open>
  The memory that \<open>valloc\<close> of the boot loader gives: page after page of a range mapped to free pages,
  what the walk of the processor finds there afterwards, and the state in which the loader goes on to read files.
\<close>

section \<open>Page after page\<close>

text \<open>The pages from \<open>w\<close> on are added at \<open>P\<close>, as \<open>page_added\<close> says of one page.\<close>

definition pages_added :: "u64 set \<Rightarrow> nat \<Rightarrow> nat \<Rightarrow> (nat \<Rightarrow> u64) \<Rightarrow> Boot \<Rightarrow> Boot \<Rightarrow> bool" where
  "pages_added X w n P s s' \<longleftrightarrow> inj_on P {..<n} \<and> P ` {..<n} \<subseteq> hi_pages s
     \<and> (\<forall>i<n. translate (view s') (root s) (w + i) = Some (P i OR 1) \<and> (\<forall>k<4096. view s' (physical_to_virtual (P i) + of_nat k) = 0))
     \<and> boot_vm (X \<union> P ` {..<n}) s'
     \<and> (\<forall>v e. (\<forall>i<n. \<not> same_entry v (w + i)) \<longrightarrow> translate (view s) (root s) v = Some e \<longrightarrow> translate (view s') (root s) v = Some e)
     \<and> same_frames X (view s) (view s') \<and> root s' = root s \<and> hi_pages s' \<subseteq> hi_pages s - P ` {..<n}
     \<and> card (hi_pages s) \<le> 4 * n + card (hi_pages s') \<and> tables_grow {w..<w + n} (root s) (view s) (view s')
     \<and> (\<forall>v. clear_way (view s) (root s) v \<longrightarrow> clear_way (view s') (root s) v)
     \<and> tables (view s') (root s) \<subseteq> tables (view s) (root s) \<union> hi_pages s"

text \<open>What these two say of the other translations, of the tables and of the way to other pages.\<close>

lemma page_added_others:
  assumes "page_added X w p s s'"
  shows "\<not> same_entry v w \<Longrightarrow> translate (view s) (root s) v = Some e \<Longrightarrow> translate (view s') (root s) v = Some e"
    and "clear_way (view s) (root s) v \<Longrightarrow> clear_way (view s') (root s) v"
    and "tables_grow {w} (root s) (view s) (view s')"
  using assms by (simp_all add: page_added_def)

lemma pages_added_others:
  assumes "pages_added X w n P s s'"
  shows "(\<And>i. i < n \<Longrightarrow> \<not> same_entry v (w + i)) \<Longrightarrow> translate (view s) (root s) v = Some e \<Longrightarrow> translate (view s') (root s) v = Some e"
    and "clear_way (view s) (root s) v \<Longrightarrow> clear_way (view s') (root s) v"
    and "tables_grow {w..<w + n} (root s) (view s) (view s')"
  using assms by (simp_all add: pages_added_def)

lemma pages_added_step:
  assumes "pages_added X w n P s s1" and "page_added (X \<union> P ` {..<n}) (w + n) p s1 s'" and "\<And>i. i < n \<Longrightarrow> \<not> same_entry (w + i) (w + n)"
  shows "pages_added X w (Suc n) (P(n := p)) s s'"
proof -
  let ?Q = "P(n := p)"
  note a = assms(1) [unfolded pages_added_def] and b = assms(2) [unfolded page_added_def]
  have im: "?Q ` {..<Suc n} = insert p (P ` {..<n})" by (auto simp: lessThan_Suc)
  have rt: "root s1 = root s" using a by blast
  have p: "p \<in> hi_pages s" "p \<notin> P ` {..<n}" using a b by blast+
  then have "inj_on ?Q {..<Suc n}" using a by (auto simp: inj_on_def less_Suc_eq)
  moreover have "?Q ` {..<Suc n} \<subseteq> hi_pages s" using a p unfolding im by blast
  moreover have "translate (view s') (root s) (w + i) = Some (?Q i OR 1) \<and> (\<forall>k<4096. view s' (physical_to_virtual (?Q i) + of_nat k) = 0)"
    if "i < Suc n" for i
  proof (cases "i = n")
    case True
    then show ?thesis using b rt by simp
  next
    case False
    then have i: "i < n" using that by simp
    then have "P i \<in> X \<union> P ` {..<n}" by blast
    then have "\<forall>k<4096. view s' (physical_to_virtual (P i) + of_nat k) = view s1 (physical_to_virtual (P i) + of_nat k)"
      using b unfolding same_frames_def by blast
    moreover have "translate (view s') (root s) (w + i) = Some (P i OR 1)"
      using a b i assms(3) [OF i] unfolding rt by blast
    ultimately show ?thesis using a i by simp
  qed
  moreover have "boot_vm (X \<union> ?Q ` {..<Suc n}) s'" using b unfolding im by simp
  moreover have "translate (view s') (root s) v = Some e" if "\<forall>i<Suc n. \<not> same_entry v (w + i)" "translate (view s) (root s) v = Some e" for v e
    using that by (intro page_added_others(1) [OF assms(2), unfolded rt] pages_added_others(1) [OF assms(1)]) simp_all
  moreover have "same_frames X (view s) (view s')"
  proof (rule same_frames_trans)
    show "same_frames X (view s) (view s1)" using a by simp
    show "same_frames X (view s1) (view s')" by (rule same_frames_subset [where X = "X \<union> P ` {..<n}"]) (use b in simp_all)
  qed
  moreover have "root s' = root s" using b rt by simp
  moreover have "hi_pages s' \<subseteq> hi_pages s - ?Q ` {..<Suc n}" using a b unfolding im by blast
  moreover have "card (hi_pages s) \<le> 4 * Suc n + card (hi_pages s')" using a b by simp
  moreover have "tables_grow {w..<w + Suc n} (root s) (view s) (view s')"
  proof (rule tables_grow_trans)
    show "tables_grow {w..<w + Suc n} (root s) (view s) (view s1)" by (rule tables_grow_mono [where V = "{w..<w + n}"]) (use pages_added_others(3) [OF assms(1)] in auto)
    show "tables_grow {w..<w + Suc n} (root s) (view s1) (view s')" by (rule tables_grow_mono [where V = "{w + n}"]) (use page_added_others(3) [OF assms(2)] rt in auto)
  qed
  moreover have "clear_way (view s') (root s) v" if "clear_way (view s) (root s) v" for v
    using that by (intro page_added_others(2) [OF assms(2), unfolded rt] pages_added_others(2) [OF assms(1)])
  moreover have "tables (view s') (root s) \<subseteq> tables (view s) (root s) \<union> hi_pages s" using a b unfolding rt by blast
  ultimately show ?thesis unfolding pages_added_def by blast
qed

lemma map_pages_spec:
  assumes "boot_vm X s" and "\<And>i. i < n \<Longrightarrow> unat (va i) div 4096 = w + i" and "\<And>i. i < n \<Longrightarrow> clear_way (view s) (root s) (w + i)"
    and "4 * n \<le> card (hi_pages s)" and "n < 2 ^ 36"
  shows "\<exists>P. pages_added X w n P s (for_n n (\<lambda>i. map_single (va i)) s)"
  using assms
proof (induction n)
  case 0
  then show ?case by (simp add: pages_added_def same_frames_refl tables_grow_refl)
next
  case (Suc n)
  define s1 where "s1 = for_n n (\<lambda>i. map_single (va i)) s"
  obtain P where P: "pages_added X w n P s s1"
    using Suc.IH [OF Suc.prems(1)] Suc.prems(2-5) unfolding s1_def by auto
  note a = P [unfolded pages_added_def]
  have rt: "root s1 = root s" using a by blast
  have "boot_vm (X \<union> P ` {..<n}) s1" "4 \<le> card (hi_pages s1)" using a Suc.prems(4) by auto
  moreover have "clear_way (view s1) (root s1) (unat (va n) div 4096)"
    using pages_added_others(2) [OF P] Suc.prems(2,3) [of n] unfolding rt by simp
  ultimately obtain p where p: "page_added (X \<union> P ` {..<n}) (w + n) p s1 (map_single (va n) s1)"
    using map_single_spec [of "X \<union> P ` {..<n}" s1 "va n"] Suc.prems(2) [of n] by auto
  have "\<not> same_entry (w + i) (w + n)" if "i < n" for i
  proof
    assume "same_entry (w + i) (w + n)"
    then have "(w + n) mod 2 ^ 36 = (w + i) mod 2 ^ 36" by (rule same_entry_36 [symmetric])
    then have "2 ^ 36 dvd (w + n) - (w + i)" by (simp only: mod_eq_dvd_iff_nat that add_le_cancel_left less_imp_le)
    then have "2 ^ 36 dvd n - i" by simp
    then have "2 ^ 36 \<le> n - i" using that by (intro dvd_imp_le) simp_all
    then show False using Suc.prems(5) by simp
  qed
  from pages_added_step [OF P p this] show ?case unfolding s1_def by auto
qed

text \<open>The arithmetic of \<open>valloc\<close>: its first page, the number of pages and the address of each.\<close>

lemma page_start:
  fixes a :: u64
  shows "unat (a AND NOT (PAGESIZE - 1)) = 4096 * (unat a div 4096)" and "unat (a AND (PAGESIZE - 1)) = unat a mod 4096"
proof -
  have m: "PAGESIZE - 1 = (mask 12 :: u64)" by (simp add: PAGESIZE_def mask_eq_exp_minus_1)
  show l: "unat (a AND (PAGESIZE - 1)) = unat a mod 4096"
    unfolding m by (simp add: take_bit_eq_mask [symmetric] unsigned_take_bit_eq) (simp add: take_bit_eq_mod)
  have "a AND NOT (PAGESIZE - 1) = a - (a AND (PAGESIZE - 1))"
  proof -
    have high: "a AND NOT (mask 12) = push_bit 12 (drop_bit 12 a)"
      by (rule bit_word_eqI) (auto simp: bit_and_iff bit_not_iff bit_mask_iff bit_push_bit_iff bit_drop_bit_eq)
    have "(a AND NOT (mask 12)) + (a AND mask 12) = a" unfolding high take_bit_eq_mask [symmetric] by (rule bits_ident)
    then show ?thesis unfolding m by (simp only: eq_diff_eq)
  qed
  then have "unat (a AND NOT (PAGESIZE - 1)) = unat a - unat (a AND (PAGESIZE - 1))"
    using word_and_le2 [of a "PAGESIZE - 1"] by (simp add: unat_sub)
  then show "unat (a AND NOT (PAGESIZE - 1)) = 4096 * (unat a div 4096)"
    unfolding l by (simp add: minus_mod_eq_mult_div)
qed

lemma valloc_spec:
  assumes "boot_vm X s" and n: "n = (unat addr mod 4096 + unat sz + 4095) div 4096" and w: "w = unat addr div 4096"
    and "unat sz + 8192 \<le> 2 ^ 31" and "w + n \<le> 2 ^ 52" and "\<And>i. i < n \<Longrightarrow> clear_way (view s) (root s) (w + i)"
    and "4 * n \<le> card (hi_pages s)"
  obtains P s1 where "pages_added X w n P s s1" and "valloc addr sz s = s1\<lparr>cr3_reg := root s\<rparr>"
proof -
  let ?base = "addr AND NOT (PAGESIZE - 1)" and ?off = "addr AND (PAGESIZE - 1)"
  have n31: "n \<le> 2 ^ 19"
  proof -
    have "unat addr mod 4096 + unat sz + 4095 \<le> 4096 * 2 ^ 19" using assms(4) by simp
    then have "n \<le> 4096 * 2 ^ 19 div 4096" unfolding n by (rule div_le_mono)
    then show ?thesis by simp
  qed
  have "unat (sz + ?off + PAGESIZE - 1) = unat addr mod 4096 + unat sz + 4095"
  proof -
    have s: "unat (sz + ?off) = unat sz + unat addr mod 4096"
      using assms(4) page_start(2) [of addr] by (subst unat_add_u64) simp_all
    have "sz + ?off + PAGESIZE - 1 = (sz + ?off) + 4095" by (simp add: PAGESIZE_def)
    moreover have "unat ((sz + ?off) + 4095) = unat addr mod 4096 + unat sz + 4095"
      using assms(4) s by (subst unat_add_u64) simp_all
    ultimately show ?thesis by (simp only:)
  qed
  then have "unat (drop_bit 12 (sz + ?off + PAGESIZE - 1)) = n" unfolding n by (simp only: unat_drop_bit) simp
  then have np: "nat (c_int (drop_bit 12 (sz + ?off + PAGESIZE - 1))) = n" using n31 by (simp add: c_int_small)
  define va where "va i = ?base + of_int (c_int (of_nat i * PAGESIZE))" for i
  have "unat (va i) = 4096 * (w + i)" if "i < n" for i
  proof -
    have "i < 2 ^ 19" using that n31 by simp
    then have "unat (of_nat i * PAGESIZE) = 4096 * i" by (simp add: PAGESIZE_def unat_of_nat_u64 unat_mult_lem [THEN iffD1])
    moreover from this have "c_int (of_nat i * PAGESIZE) = int (4096 * i)" using \<open>i < 2 ^ 19\<close> by (simp add: c_int_small)
    then have "va i = ?base + of_nat (4096 * i)" by (simp add: va_def)
    moreover have "unat ?base + 4096 * i < 2 ^ 64" using assms(5) that page_start(1) [of addr] by (simp add: w)
    ultimately show ?thesis using page_start(1) [of addr] by (simp only: unat_add_nat) (simp add: w)
  qed
  then have "unat (va i) div 4096 = w + i" if "i < n" for i using that by simp
  moreover have "n < 2 ^ 36" using n31 by simp
  ultimately obtain P where P: "pages_added X w n P s (for_n n (\<lambda>i. map_single (va i)) s)"
    using map_pages_spec [OF assms(1)] assms(6,7) by blast
  then have "root (for_n n (\<lambda>i. map_single (va i)) s) = root s" by (simp add: pages_added_def)
  then show thesis using that [OF P] by (simp add: valloc_def Let_def np va_def)
qed

section \<open>What the walk finds\<close>

text \<open>An entry on the way of the walk, below the last level: null, a large page, or the table of the path.\<close>

lemma walk_entry:
  assumes "tables_ok (direct_view m) r" and "ok_path p" and "table_at (direct_view m) r p = Some t"
  shows "load64 m (word_at t i) = entry (direct_view m) t i"
    and "length p < 3 \<Longrightarrow> i < 512 \<Longrightarrow> entry (direct_view m) t i AND 1 \<noteq> 0 \<Longrightarrow> entry (direct_view m) t i AND 0x80 = 0
      \<Longrightarrow> table_at (direct_view m) r (p @ [i]) = Some (entry (direct_view m) t i AND ADDR_MASK)"
proof -
  let ?e = "entry (direct_view m) t i"
  show "load64 m (word_at t i) = ?e" using tables_okD(1) [OF assms] by (simp add: entry_direct_view)
  assume p: "length p < 3" "i < 512" and e: "?e AND 1 \<noteq> 0" "?e AND 0x80 = 0"
  have "child ?e = Some (?e AND MMASK_PHYS)" using e by (simp add: child_def flag_test_iff flag_bits)
  then have t: "table_at (direct_view m) r (p @ [i]) = Some (?e AND MMASK_PHYS)" using assms(3) by (simp add: table_at_snoc)
  have "ok_path (p @ [i])" using assms(2) p by (simp add: ok_path_def)
  then have "is_frame (?e AND MMASK_PHYS)" by (rule tables_okD(1) [OF assms(1) _ t])
  then have "(?e AND MMASK_PHYS) AND ADDR_MASK = ?e AND MMASK_PHYS" by (rule frame_walk0)
  moreover have "MMASK_PHYS AND ADDR_MASK = ADDR_MASK" by (simp add: MMASK_PHYS_def ADDR_MASK_def)
  ultimately show "table_at (direct_view m) r (p @ [i]) = Some (?e AND ADDR_MASK)" using t by (simp add: and.assoc)
qed

text \<open>A walk depends on the entries that it reads; one that finds a page reads no null entry.\<close>

lemma mmu_cong:
  assumes tok: "tables_ok (direct_view m) r" and dec: "decompose_addr va = (a, b, c, d)"
    and same: "\<And>q t j. ok_path q \<Longrightarrow> table_at (direct_view m) r q = Some t \<Longrightarrow> prefix (q @ [j]) [a, b, c, d] \<Longrightarrow>
      load64 m' (word_at t j) = load64 m (word_at t j) \<or> load64 m (word_at t j) = 0 \<and> mmu m r va \<noteq> None"
  shows "mmu m' r va = mmu m r va"
proof -
  have abc: "a < 512" "b < 512" "c < 512" using decompose_path(3-5) [OF dec] .
  have r0: "table_at (direct_view m) r [] = Some r" "ok_path []" by (simp_all add: ok_path_def)
  have rm: "r AND ADDR_MASK = r" by (rule frame_walk0) (rule tables_okD(1) [OF tok r0(2,1)])
  note walk = mmu_def dec Let_def prod.case rm
  define e4 where "e4 = load64 m (word_at r a)"
  note w4 = mmu_def dec Let_def prod.case rm e4_def [symmetric]
  have "mmu m r va = None" if "e4 = 0" using that unfolding w4 by simp
  then have p4: "load64 m' (word_at r a) = e4" using same [OF r0(2,1), of a] by (auto simp: e4_def)
  show ?thesis
  proof (cases "e4 AND 1 = 0 \<or> e4 AND 0x80 \<noteq> 0")
    case True
    then show ?thesis unfolding w4 p4 by simp
  next
    case f4: False
    define t3 where "t3 = e4 AND ADDR_MASK"
    have t3: "table_at (direct_view m) r [a] = Some t3" "ok_path [a]"
      using walk_entry(2) [OF tok r0(2,1) _ abc(1)] walk_entry(1) [OF tok r0(2,1)] f4 abc by (simp_all add: e4_def t3_def ok_path_def)
    define e3 where "e3 = load64 m (word_at t3 b)"
    note w3 = w4 t3_def [symmetric] if_not_P [OF f4] e3_def [symmetric]
    have "mmu m r va = None" if "e3 = 0" using that unfolding w3 by simp
    then have p3: "load64 m' (word_at t3 b) = e3" using same [OF t3(2,1), of b] by (auto simp: e3_def)
    show ?thesis
    proof (cases "e3 AND 1 = 0 \<or> e3 AND 0x80 \<noteq> 0")
      case True
      then show ?thesis unfolding w3 p4 p3 by (elim disjE) simp_all
    next
      case f3: False
      define t2 where "t2 = e3 AND ADDR_MASK"
      have t2: "table_at (direct_view m) r [a, b] = Some t2" "ok_path [a, b]"
        using walk_entry(2) [OF tok t3(2,1) _ abc(2)] walk_entry(1) [OF tok t3(2,1)] f3 abc by (simp_all add: e3_def t2_def ok_path_def)
      define e2 where "e2 = load64 m (word_at t2 c)"
      have f3': "\<not> e3 AND 1 = 0" "\<not> e3 AND 0x80 \<noteq> 0" using f3 by blast+
      note w2 = w3 t2_def [symmetric] if_not_P [OF f3'(1)] if_not_P [OF f3'(2)] e2_def [symmetric]
      have "mmu m r va = None" if "e2 = 0" using that unfolding w2 by simp
      then have p2: "load64 m' (word_at t2 c) = e2" using same [OF t2(2,1), of c] by (auto simp: e2_def)
      show ?thesis
      proof (cases "e2 AND 1 = 0 \<or> e2 AND 0x80 \<noteq> 0")
        case True
        then show ?thesis unfolding w2 p4 p3 p2 by (elim disjE) simp_all
      next
        case f2: False
        define t1 where "t1 = e2 AND ADDR_MASK"
        have t1: "table_at (direct_view m) r [a, b, c] = Some t1" "ok_path [a, b, c]"
          using walk_entry(2) [OF tok t2(2,1) _ abc(3)] walk_entry(1) [OF tok t2(2,1)] f2 abc by (simp_all add: e2_def t1_def ok_path_def)
        define e1 where "e1 = load64 m (word_at t1 d)"
        have f2': "\<not> e2 AND 1 = 0" "\<not> e2 AND 0x80 \<noteq> 0" using f2 by blast+
        note w1 = w2 t1_def [symmetric] if_not_P [OF f2'(1)] if_not_P [OF f2'(2)] e1_def [symmetric]
        have "mmu m r va = None" if "e1 = 0" using that unfolding w1 by simp
        then have p1: "load64 m' (word_at t1 d) = e1" using same [OF t1(2,1), of d] by (auto simp: e1_def)
        show ?thesis unfolding w1 p4 p3 p2 p1 by simp
      qed
    qed
  qed
qed

text \<open>The page that the tables name for a page of an address is where the walk ends.\<close>

lemma child_walk:
  assumes "tables_ok (direct_view m) r" and "ok_path p" and "table_at (direct_view m) r p = Some t" and "length p < 3" and "i < 512"
    and "child (entry (direct_view m) t i) = Some u"
  shows "load64 m (word_at t i) AND 1 \<noteq> 0" and "load64 m (word_at t i) AND 0x80 = 0" and "load64 m (word_at t i) AND ADDR_MASK = u"
    and "table_at (direct_view m) r (p @ [i]) = Some u"
proof -
  let ?e = "entry (direct_view m) t i"
  have e: "?e AND 1 \<noteq> 0" "?e AND 0x80 = 0"
    using assms(6) by (auto simp: child_def flag_test_iff flag_bits split: if_splits)
  show t: "table_at (direct_view m) r (p @ [i]) = Some u" using assms(3,6) by (simp add: table_at_snoc)
  then have "?e AND ADDR_MASK = u" using walk_entry(2) [OF assms(1-5) e] by simp
  then show "load64 m (word_at t i) AND 1 \<noteq> 0" "load64 m (word_at t i) AND 0x80 = 0" "load64 m (word_at t i) AND ADDR_MASK = u"
    unfolding walk_entry(1) [OF assms(1-3)] using e by blast+
qed

lemma mmu_frame:
  assumes tok: "tables_ok (direct_view m) r" and "translate (direct_view m) r (unat va div 4096) = Some (p OR 1)" and p: "is_frame p"
  shows "mmu m r va = Some (p + (va AND 0xfff))"
proof -
  obtain a b c d where dec: "decompose_addr va = (a, b, c, d)" by (cases "decompose_addr va")
  note path = decompose_path [OF dec]
  obtain t3 t2 t1 where t: "child (entry (direct_view m) r a) = Some t3" "child (entry (direct_view m) t3 b) = Some t2"
      "child (entry (direct_view m) t2 c) = Some t1" "entry (direct_view m) t1 d = p OR 1"
    using assms(2) path(1,2) by (auto simp: translate_def split: option.splits)
  have r0: "table_at (direct_view m) r [] = Some r" "ok_path []" by (simp_all add: ok_path_def)
  have rm: "r AND ADDR_MASK = r" by (rule frame_walk0) (rule tables_okD(1) [OF tok r0(2,1)])
  have ok: "ok_path ([] @ [a])" "ok_path (([] @ [a]) @ [b])" "ok_path ((([] @ [a]) @ [b]) @ [c])" using path(3-5) by (simp_all add: ok_path_def)
  note w3 = child_walk [OF tok r0(2,1) _ path(3) t(1), simplified]
  note w2 = child_walk [OF tok ok(1) _ _ path(4) t(2), simplified, OF w3(4)]
  note w1 = child_walk [OF tok ok(2) _ _ path(5) t(3), simplified, OF w2(4)]
  have leaf: "load64 m (word_at t1 d) = p OR 1"
    using walk_entry(1) [OF tok ok(3)] w1(4) t(4) by simp
  have pm: "(p OR 1) AND ADDR_MASK = p" by (rule frame_walk [OF _ p]) (simp add: bit_1_iff)
  have present: "(p OR 1) AND 1 \<noteq> 0" by (simp add: flag_bits bit_or_iff)
  show ?thesis
    unfolding mmu_def dec Let_def prod.case rm w3(3) w2(3) w1(3) leaf pm using w3(1,2) w2(1,2) w1(1,2) present by simp
qed

text \<open>Growing tables keep what the walk finds, but for the pages that are mapped.\<close>

lemma prefix_of_path: "prefix (q @ [j]) [a, b, c, d] \<Longrightarrow> length q = 3 \<Longrightarrow> q = [a, b, c] \<and> j = d"
  by (auto simp: prefix_def numeral_3_eq_3 length_Suc_conv)

lemma mmu_grow:
  assumes tok: "tables_ok (direct_view m) r" and grow: "tables_grow W r (direct_view m) (direct_view m')"
    and pa: "mmu m r va = Some pa" and W: "\<And>w. w \<in> W \<Longrightarrow> \<not> same_entry w (unat va div 4096)"
  shows "mmu m' r va = Some pa"
proof -
  obtain a b c d where dec: "decompose_addr va = (a, b, c, d)" by (cases "decompose_addr va")
  note path = decompose_path [OF dec]
  have "mmu m' r va = mmu m r va"
  proof (rule mmu_cong [OF tok dec])
    fix q t j assume q: "ok_path q" "table_at (direct_view m) r q = Some t" "prefix (q @ [j]) [a, b, c, d]"
    have "set (q @ [j]) \<subseteq> set [a, b, c, d]" using q(3) by (rule set_mono_prefix)
    then have j: "j < 512" using path(2-5) by auto
    have t: "is_frame t" using tables_okD(1) [OF tok q(1,2)] .
    have "entry (direct_view m') t j = entry (direct_view m) t j \<or> entry (direct_view m) t j = 0 \<or> (\<exists>w \<in> W. page_path w = q \<and> w mod 512 = j)"
      using grow q(1,2) j unfolding tables_grow_def by blast
    moreover have False if "w \<in> W" "page_path w = q" "w mod 512 = j" for w
    proof -
      have "q = [a, b, c] \<and> j = d" using prefix_of_path [OF q(3)] that(2) by auto
      then have "same_entry w (unat va div 4096)" using that path(1,2) by (simp add: same_entry_def)
      then show False using W that(1) by blast
    qed
    ultimately show "load64 m' (word_at t j) = load64 m (word_at t j) \<or> load64 m (word_at t j) = 0 \<and> mmu m r va \<noteq> None"
      unfolding entry_direct_view [OF t] using pa by blast
  qed
  then show ?thesis using pa by simp
qed

text \<open>The bytes of the tables: the walk depends on no other memory.\<close>

definition bytes_in_frames :: "u64 set \<Rightarrow> u64 set" where
  "bytes_in_frames F = {x. \<exists>f \<in> F. in_range f 4096 x}"

definition table_bytes :: "Boot \<Rightarrow> u64 set" where
  "table_bytes s = bytes_in_frames (tables (view s) (root s))"

lemma load_table_bytes:
  assumes "t \<in> tables (view s) (root s)" and "j < 512" and "\<forall>x \<in> table_bytes s. m' x = ram s x"
  shows "load64 m' (word_at t j) = load64 (ram s) (word_at t j)"
proof (rule load_cong)
  fix k :: nat assume "k < 8"
  then have "in_range t 4096 (t + of_nat (8 * j + k))" using assms(2) by (intro in_range_offset) simp_all
  then have "t + of_nat (8 * j + k) \<in> table_bytes s" using assms(1) unfolding table_bytes_def bytes_in_frames_def by blast
  moreover have "word_at t j + of_nat k = t + of_nat (8 * j + k)" by (simp add: word_at_def)
  ultimately show "m' (word_at t j + of_nat k) = ram s (word_at t j + of_nat k)" using assms(3) by (simp only:)
qed

lemma tables_in_bytes:
  assumes tok: "tables_ok (view s) (root s)" and "cr3_reg s = root s"
  shows "tables_in (table_bytes s) s"
  unfolding tables_in_def assms(2)
proof (intro allI impI ext)
  fix m' va assume m': "\<forall>x \<in> table_bytes s. m' x = ram s x"
  obtain a b c d where dec: "decompose_addr va = (a, b, c, d)" by (cases "decompose_addr va")
  note path = decompose_path [OF dec]
  show "mmu m' (root s) va = mmu (ram s) (root s) va"
  proof (rule mmu_cong [OF tok dec])
    fix q t j assume q: "ok_path q" "table_at (view s) (root s) q = Some t" "prefix (q @ [j]) [a, b, c, d]"
    have "set (q @ [j]) \<subseteq> set [a, b, c, d]" using q(3) by (rule set_mono_prefix)
    then have j: "j < 512" using path(2-5) by auto
    have t: "t \<in> tables (view s) (root s)" using q(1,2) unfolding tables_def by blast
    have "load64 m' (word_at t j) = load64 (ram s) (word_at t j)" by (rule load_table_bytes [OF t j m'])
    then show "load64 m' (word_at t j) = load64 (ram s) (word_at t j) \<or> load64 (ram s) (word_at t j) = 0 \<and> mmu (ram s) (root s) va \<noteq> None" by simp
  qed
qed

section \<open>A loader that can allocate\<close>

text \<open>
  The state in which the loader runs after paging is set up: its own tables, with free pages that are apart from
  them and from its variables.
\<close>

definition loader_ready :: "BootAddrs \<Rightarrow> u64 set \<Rightarrow> Boot \<Rightarrow> bool" where
  "loader_ready ad B s \<longleftrightarrow> loader_env ad (table_bytes s) B s \<and> cr3_reg s = root s \<and> boot_vm {} s
     \<and> bytes_in_frames (hi_pages s) \<inter> (scratch ad B \<union> statics ad) = {}"

lemma frame_of_byte:
  assumes "is_frame t" and "is_frame p" and "j < 4096" and "in_range t 4096 (p + of_nat j)"
  shows "t = p"
proof -
  obtain i where i: "i < 4096" "p + of_nat j = t + of_nat i" using assms(4) by (rule in_rangeE)
  have u: "unat (f + of_nat k) = unat f + k" if "is_frame f" "k < 4096" for f k
    using that by (intro unat_add_nat) (simp add: is_frame_def)
  have "unat p + j = unat t + i" using i u [OF assms(1) i(1)] u [OF assms(2,3)] by simp
  moreover obtain a b where "unat p = 4096 * a" "unat t = 4096 * b" using assms(1,2) by (auto simp: is_frame_def dvd_def)
  moreover have "(4096 * a + j) div 4096 = a" "(4096 * b + i) div 4096 = b" using i(1) assms(3) by simp_all
  ultimately have "a = b" by metis
  then show "t = p" using \<open>unat p = 4096 * a\<close> \<open>unat t = 4096 * b\<close> by (simp add: word_unat_eq_iff)
qed

text \<open>A change of memory outside the tables leaves the tables as they are.\<close>

lemma keeps_table_at:
  assumes tok: "tables_ok (view s) (root s)" and keep: "keeps (table_bytes s) s s'"
  shows "ok_path q \<Longrightarrow> table_at (view s') (root s) q = table_at (view s) (root s) q"
    and "t \<in> tables (view s) (root s) \<Longrightarrow> j < 512 \<Longrightarrow> entry (view s') t j = entry (view s) t j"
proof -
  have m': "\<forall>x \<in> table_bytes s. ram s' x = ram s x" using keep unfolding keeps_def by blast
  have ent: "entry (view s') t j = entry (view s) t j" if t: "t \<in> tables (view s) (root s)" and j: "j < 512" for t j
  proof -
    have "is_frame t" using t tables_okD(1) [OF tok] unfolding tables_def by blast
    then show ?thesis using load_table_bytes [OF t j m'] by (simp add: entry_direct_view)
  qed
  then show "t \<in> tables (view s) (root s) \<Longrightarrow> j < 512 \<Longrightarrow> entry (view s') t j = entry (view s) t j" .
  show "table_at (view s') (root s) q = table_at (view s) (root s) q" if "ok_path q"
    using that by (intro table_at_cong arg_cong [where f = child] ent) (auto simp: tables_def)
qed

lemma loader_ready_keeps:
  assumes "loader_ready ad B s" and "keeps (table_bytes s) s s'"
  shows "loader_ready ad B s'" and "table_bytes s' = table_bytes s"
    and "clear_way (view s) (root s) w \<Longrightarrow> clear_way (view s') (root s') w"
proof -
  have e: "loader_env ad (table_bytes s) B s" and vm: "boot_vm {} s" using assms(1) by (simp_all add: loader_ready_def)
  have tok: "tables_ok (view s) (root s)" using vm by (simp add: boot_vm_def)
  have k: "gBootParams s' = gBootParams s" "cr3_reg s' = cr3_reg s" using assms(2) by (simp_all add: keeps_def)
  note tab = keeps_table_at [OF tok assms(2)]
  have ts: "tables (view s') (root s) = tables (view s) (root s)" by (rule tables_cong [OF tab(1)])
  show tb: "table_bytes s' = table_bytes s" using ts k(1) by (simp add: table_bytes_def)
  have hp: "hi_pages s' = hi_pages s" using k(1) by (simp add: hi_pages_def)
  have "tables_ok (view s') (root s)" using tok tab(1) by (simp add: tables_ok_def)
  then have "boot_vm {} s'" using vm ts k(1) hp by (simp add: boot_vm_def)
  then show "loader_ready ad B s'"
    using loader_env_keeps [OF e assms(2)] assms(1) k hp tb by (simp add: loader_ready_def)
  show "clear_way (view s') (root s') w" if w: "clear_way (view s) (root s) w"
    unfolding clear_way_def k(1)
  proof (intro allI impI)
    fix q i p u assume q: "page_path w = q @ i # p" and u: "table_at (view s') (root s) q = Some u" "entry (view s') u i \<noteq> 0"
    have "ok_path (page_path w)" by simp
    then have ok: "ok_path q" "i < 512" unfolding q by (auto simp: ok_path_def)
    have u': "table_at (view s) (root s) q = Some u" using u(1) tab(1) [OF ok(1)] by simp
    then have "u \<in> tables (view s) (root s)" using ok(1) unfolding tables_def by blast
    then have "entry (view s') u i = entry (view s) u i" using tab(2) ok(2) by blast
    then show "child (entry (view s') u i) = Some (entry (view s') u i AND TABLE_MASK)" using clear_wayD [OF w q u'] u(2) by simp
  qed
qed

section \<open>What valloc does\<close>

text \<open>C34. valloc maps every page of a range of less than 2 GiB, on the way to whose tables every entry is null or leads to a
  table, when there are four free pages below 4 GiB per page of the range and the tables lie below 4 GiB as well (the loader
  writes both through its map of the first 4 GiB to themselves), to a page of its own that was free: the processor translates each address
  of the range into that page, whose bytes are zero, whose entry is the page with the present bit, and which counts as in use afterwards; no other
  translation of the tables changes, no frame in use is written, and CR3 points to the tables.\<close>

theorem valloc_maps:
  assumes "boot_vm X s" and "w = unat addr div 4096" and "n = (unat addr mod 4096 + unat sz + 4095) div 4096"
    and "unat sz + 8192 \<le> 2 ^ 31" and "w + n \<le> 2 ^ 52" and "\<forall>i<n. clear_way (view s) (root s) (w + i)"
    and "4 * n \<le> card (hi_pages s)" and "s' = valloc addr sz s"
  shows "\<exists>P. inj_on P {..<n} \<and> P ` {..<n} \<subseteq> hi_pages s
    \<and> (\<forall>i<n. translate (view s') (root s) (w + i) = Some (P i OR 1) \<and> (\<forall>k<4096. ram s' (P i + of_nat k) = 0)
         \<and> (\<forall>va. unat va div 4096 = w + i \<longrightarrow> phys s' va = Some (P i + (va AND 0xfff))))
    \<and> boot_vm (X \<union> P ` {..<n}) s'
    \<and> (\<forall>v e. (\<forall>i<n. \<not> same_entry v (w + i)) \<longrightarrow> translate (view s) (root s) v = Some e \<longrightarrow> translate (view s') (root s) v = Some e)
    \<and> same_frames X (view s) (view s') \<and> cr3_reg s' = root s \<and> root s' = root s"
proof -
  obtain P s1 where P: "pages_added X w n P s s1" and run: "s' = s1\<lparr>cr3_reg := root s\<rparr>"
    using valloc_spec [OF assms(1,3,2,4,5) _ assms(7)] assms(6,8) by metis
  note p = P [unfolded pages_added_def]
  have fields: "ram s' = ram s1" "cr3_reg s' = root s" "root s' = root s" "hi_pages s' = hi_pages s1" "mem_free (gBootParams s') = mem_free (gBootParams s1)"
    using run p by (simp_all add: hi_pages_def)
  have rt: "root s1 = root s" using p by simp
  have "boot_vm (X \<union> P ` {..<n}) s1" using p by simp
  then have vm: "boot_vm (X \<union> P ` {..<n}) s'" by (simp add: boot_vm_def fields rt)
  then have tok: "tables_ok (direct_view (ram s')) (root s)" by (simp add: boot_vm_def fields)
  have page: "translate (view s') (root s) (w + i) = Some (P i OR 1) \<and> (\<forall>k<4096. ram s' (P i + of_nat k) = 0)
      \<and> (\<forall>va. unat va div 4096 = w + i \<longrightarrow> phys s' va = Some (P i + (va AND 0xfff)))" if i: "i < n" for i
  proof -
    have f: "is_frame (P i)" using vm i by (auto simp: boot_vm_def)
    have tr: "translate (view s') (root s) (w + i) = Some (P i OR 1)" using p i by (simp add: fields)
    have "phys s' va = Some (P i + (va AND 0xfff))" if "unat va div 4096 = w + i" for va
      using mmu_frame [OF tok _ f, of va] tr that by (simp add: phys_def fields)
    moreover have "\<forall>k<4096. view s1 (physical_to_virtual (P i) + of_nat k) = 0" using p i by blast
    then have "\<forall>k<4096. ram s' (P i + of_nat k) = 0"
      unfolding fields frame_virtual [OF f] direct_view_def by (simp add: algebra_simps)
    ultimately show ?thesis using tr by blast
  qed
  have "inj_on P {..<n}" "P ` {..<n} \<subseteq> hi_pages s" "same_frames X (view s) (view s')" using p by (simp_all add: fields)
  moreover have "translate (view s') (root s) v = Some e"
    if "\<forall>i<n. \<not> same_entry v (w + i)" "translate (view s) (root s) v = Some e" for v e
    using pages_added_others(1) [OF P _ that(2)] that(1) by (simp add: fields)
  ultimately show ?thesis using page vm fields(2,3) by blast
qed

lemma valloc_maps_witness:
  "\<exists>P. P 0 \<noteq> P 1 \<and> phys (valloc 0xffffffff00003000 8192 empty_tables) 0xffffffff00004abc = Some (P (1 :: nat) + 0xabc)"
proof -
  have way: "\<forall>i<2. clear_way (view empty_tables) (root empty_tables) (0xffffffff00003 + i)"
    by (simp add: clear_way_def empty_tables_def entry_zero_view)
  have room: "4 * 2 \<le> card (hi_pages empty_tables)"
  proof -
    have "{0x1000000, 0x1001000, 0x1002000, 0x1003000, 0x1004000, 0x1005000, 0x1006000, 0x1007000} \<subseteq> hi_pages empty_tables"
      by (simp add: empty_tables_pages low_pages_def dvd_def)
    from card_mono [OF finite this] show ?thesis by simp
  qed
  have num: "0xffffffff00003 = unat (0xffffffff00003000 :: 64 word) div 4096"
    "2 = (unat (0xffffffff00003000 :: 64 word) mod 4096 + unat (8192 :: 64 word) + 4095) div 4096"
    "unat (8192 :: 64 word) + 8192 \<le> 2 ^ 31" "0xffffffff00003 + 2 \<le> (2 :: nat) ^ 52" by simp_all
  obtain P where P: "inj_on P {..<2}" and all: "\<forall>i<2. translate (view (valloc 0xffffffff00003000 8192 empty_tables)) (root empty_tables) (0xffffffff00003 + i) = Some (P i OR 1)
        \<and> (\<forall>k<4096. ram (valloc 0xffffffff00003000 8192 empty_tables) (P i + of_nat k) = 0)
        \<and> (\<forall>va. unat va div 4096 = 0xffffffff00003 + i \<longrightarrow> phys (valloc 0xffffffff00003000 8192 empty_tables) va = Some (P i + (va AND 0xfff)))"
    using valloc_maps [OF empty_tables_ok num way room refl] by blast
  have "P 0 \<noteq> P 1" using inj_onD [OF P, of 0 1] by auto
  moreover have "phys (valloc 0xffffffff00003000 8192 empty_tables) 0xffffffff00004abc = Some (P 1 + (0xffffffff00004abc AND 0xfff))"
    using all [rule_format, of 1] by simp
  ultimately show ?thesis by (intro exI [of _ P]) simp
qed

end
