(* ===== verification/BootInitRam.thy ===== *)
theory BootInitRam
  imports BootAlloc
begin

text \<open>
  \<open>initram_init\<close> of the boot loader: the file is found on the volume, memory for it is mapped at its fixed
  address, and its bytes are read there.
\<close>

section \<open>An area to read into\<close>

text \<open>Byte \<open>k\<close> of the pages \<open>P\<close>.\<close>

definition page_byte :: "(nat \<Rightarrow> u64) \<Rightarrow> nat \<Rightarrow> u64" where
  "page_byte P k = P (k div 4096) + of_nat (k mod 4096)"

lemma page_byte_inj:
  assumes "inj_on P {..<n}" and "\<And>i. i < n \<Longrightarrow> is_frame (P i)"
  shows "inj_on (page_byte P) {..<4096 * n}"
proof (rule inj_onI)
  fix j k assume j: "j \<in> {..<4096 * n}" and k: "k \<in> {..<4096 * n}" and eq: "page_byte P j = page_byte P k"
  have jk: "j div 4096 < n" "k div 4096 < n" using j k by (simp_all add: less_mult_imp_div_less mult.commute)
  note f = assms(2) [OF jk(1)] assms(2) [OF jk(2)]
  have "in_range (P (k div 4096)) 4096 (P (j div 4096) + of_nat (j mod 4096))"
    using eq unfolding page_byte_def by (simp add: in_range_offset)
  from frame_of_byte [OF f(2,1) _ this] have P: "P (k div 4096) = P (j div 4096)" by simp
  then have d: "j div 4096 = k div 4096" using assms(1) jk by (simp add: inj_on_def)
  have "of_nat (j mod 4096) = (of_nat (k mod 4096) :: u64)" using eq P unfolding page_byte_def by simp
  then have "unat (of_nat (j mod 4096) :: u64) = unat (of_nat (k mod 4096) :: u64)" by (rule arg_cong)
  moreover have "j mod 4096 < 2 ^ 64" "k mod 4096 < 2 ^ 64" by (rule less_trans [of _ 4096]; simp)+
  ultimately have "j mod 4096 = k mod 4096" by (simp only: unat_of_nat_u64)
  with d show "j = k" by (metis div_mult_mod_eq)
qed

lemma valloc_params: "\<exists>rs. gBootParams (valloc addr sz s) = (gBootParams s)\<lparr>mem_free := rs\<rparr>"
proof -
  define ok where "ok t \<longleftrightarrow> (\<exists>rs. gBootParams t = (gBootParams s)\<lparr>mem_free := rs\<rparr>)" for t :: Boot
  have st: "ok (t\<lparr>ram := m\<rparr>) = ok t" for t m by (simp add: ok_def)
  have a: "ok t \<Longrightarrow> alloc_page_hi t = (p, t') \<Longrightarrow> ok t'" for t p t'
    by (auto simp: ok_def alloc_page_hi_def zero_page_def split: option.splits)
  have l: "ok t \<Longrightarrow> lower_table alloc_page_hi u i t = (v, t') \<Longrightarrow> ok t'" for u i t v t'
    using a [of t] by (auto simp: lower_table_def Let_def st split: prod.splits if_splits)
  have m: "ok (map_single va t)" if "ok t" for va t
  proof -
    obtain i j k d where 0: "decompose_addr va = (i, j, k, d)" by (cases "decompose_addr va")
    obtain t1 s1 where 1: "lower_table alloc_page_hi (root t) i t = (t1, s1)" by force
    obtain t2 s2 where 2: "lower_table alloc_page_hi t1 j s1 = (t2, s2)" by force
    obtain t3 s3 where 3: "lower_table alloc_page_hi t2 k s2 = (t3, s3)" by force
    obtain p s4 where 4: "alloc_page_hi s3 = (p, s4)" by force
    have "ok s4" by (rule a [OF l [OF l [OF l [OF that 1] 2] 3] 4])
    then show ?thesis by (simp add: map_single_def 0 1 2 3 4 st)
  qed
  have "ok s" by (auto simp: ok_def intro: exI [of _ "mem_free (gBootParams s)"])
  then have "ok (for_n n (\<lambda>i. map_single (va i)) s)" for n va by (induction n) (simp_all add: m)
  then show ?thesis by (simp add: valloc_def Let_def ok_def)
qed

lemma valloc_area:
  assumes ready: "loader_ready ad B s" and n: "n = (unat sz + 4095) div 4096" and w: "unat addr = 4096 * w"
    and "unat sz + 8192 \<le> 2 ^ 31" and "w + n \<le> 2 ^ 52" and way: "\<And>i. i < n \<Longrightarrow> clear_way (view s) (root s) (w + i)"
    and "4 * n \<le> card (hi_pages s)" and high: "\<And>i. i < n \<Longrightarrow> 2 ^ 20 \<le> (w + i) mod 2 ^ 36"
  obtains P where "area ad (table_bytes (valloc addr sz s)) B (valloc addr sz s) (4096 * n) addr P"
    and "loader_ready ad B (valloc addr sz s)"
proof -
  let ?s = "valloc addr sz s"
  have env: "loader_env ad (table_bytes s) B s" and cr: "cr3_reg s = root s" and vm: "boot_vm {} s"
    and apart: "bytes_in_frames (hi_pages s) \<inter> (scratch ad B \<union> statics ad) = {}" using ready by (simp_all add: loader_ready_def)
  have tok: "tables_ok (view s) (root s)" and pool: "pool_ok (usable (mem_free (gBootParams s)))" using vm by (simp_all add: boot_vm_def)
  have a: "unat addr mod 4096 = 0" "unat addr div 4096 = w" using w by simp_all
  obtain P s1 where P: "pages_added {} w n P s s1" and run: "?s = s1\<lparr>cr3_reg := root s\<rparr>"
    by (rule valloc_spec [OF vm, of n addr sz w]) (use a n assms(4-7) in simp_all)
  note p = P [unfolded pages_added_def]
  have fields: "ram ?s = ram s1" "cr3_reg ?s = root ?s" "root ?s = root s" "hi_pages ?s = hi_pages s1"
    using run p by (simp_all add: hi_pages_def)
  have gp: "gBootParams ?s = gBootParams s1" using run by simp
  have "boot_vm (P ` {..<n}) s1" using p by simp
  then have vm': "boot_vm (P ` {..<n}) ?s" unfolding boot_vm_def fields(1) gp by (simp add: hi_pages_def gp)
  have tok': "tables_ok (view ?s) (root s)" using vm' fields by (simp add: boot_vm_def)
  have Pf: "is_frame (P i)" "P i \<in> hi_pages s" "P i \<notin> tables (view ?s) (root s)" if "i < n" for i
    using vm' p that fields unfolding boot_vm_def by auto
  have P': "page_byte P k \<notin> scratch ad B \<union> statics ad" "page_byte P k \<notin> table_bytes ?s" if k: "k < 4096 * n" for k
  proof -
    have i: "k div 4096 < n" using k by (simp add: less_mult_imp_div_less mult.commute)
    have "in_range (P (k div 4096)) 4096 (page_byte P k)" unfolding page_byte_def by (intro in_range_offset) simp_all
    then have "page_byte P k \<in> bytes_in_frames (hi_pages s)" using Pf(2) [OF i] unfolding bytes_in_frames_def by blast
    then show "page_byte P k \<notin> scratch ad B \<union> statics ad" using apart by blast
    show "page_byte P k \<notin> table_bytes ?s"
    proof
      assume "page_byte P k \<in> table_bytes ?s"
      then obtain t where t: "t \<in> tables (view ?s) (root s)" "in_range t 4096 (P (k div 4096) + of_nat (k mod 4096))"
        unfolding table_bytes_def bytes_in_frames_def page_byte_def fields by blast
      have "is_frame t" using t(1) tables_okD(1) [OF tok'] unfolding tables_def by blast
      from frame_of_byte [OF this Pf(1) [OF i] _ t(2)] show False using t(1) Pf(3) [OF i] by simp
    qed
  qed
  have maps: "maps ?s (4096 * n) addr (page_byte P)" unfolding maps_def
  proof (intro allI impI)
    fix k assume k: "k < 4096 * n"
    then have i: "k div 4096 < n" by (simp add: less_mult_imp_div_less mult.commute)
    have ua: "unat (addr + of_nat k) = 4096 * w + k" using k assms(5) w by (subst unat_add_nat) simp_all
    then have uw: "unat (addr + of_nat k) div 4096 = w + k div 4096" by simp
    have "(addr + of_nat k) AND 0xfff = (addr + of_nat k) AND (PAGESIZE - 1)" by (simp add: PAGESIZE_def)
    then have "unat ((addr + of_nat k) AND 0xfff) = k mod 4096" using page_start(2) [of "addr + of_nat k"] ua by simp
    then have lo: "(addr + of_nat k) AND 0xfff = of_nat (k mod 4096)" by (metis of_nat_unat ucast_id)
    have "translate (view ?s) (root s) (unat (addr + of_nat k) div 4096) = Some (P (k div 4096) OR 1)"
      using p i unfolding uw fields by blast
    from mmu_frame [OF tok' this Pf(1) [OF i]] show "phys ?s (addr + of_nat k) = Some (page_byte P k)"
      unfolding phys_def fields lo page_byte_def by simp
  qed
  have "area ad (table_bytes ?s) B ?s (4096 * n) addr (page_byte P)"
  proof -
    have "inj_on P {..<n}" using p by simp
    then have "inj_on (page_byte P) {..<4096 * n}" using Pf(1) by (rule page_byte_inj)
    moreover have "page_byte P ` {..<4096 * n} \<inter> (table_bytes ?s \<union> scratch ad B \<union> statics ad) = {}" using P' by blast
    ultimately show ?thesis unfolding area_def using maps by blast
  qed
  moreover have "loader_ready ad B ?s"
  proof -
    have id: "phys ?s x = Some x" if x: "unat x < 2 ^ 32" for x
    proof -
      have m: "mmu (ram s) (root s) x = Some x" using env x cr by (simp add: loader_env_def phys_def)
      have far: "\<not> same_entry v (unat x div 4096)" if "v \<in> {w..<w + n}" for v
      proof
        assume "same_entry v (unat x div 4096)"
        then have "v mod 2 ^ 36 = unat x div 4096 mod 2 ^ 36" by (rule same_entry_36)
        moreover have "2 ^ 20 \<le> v mod 2 ^ 36" using high [of "v - w"] that by auto
        ultimately show False using x by simp
      qed
      have "tables_grow {w..<w + n} (root s) (view s) (view ?s)" using p fields by simp
      from mmu_grow [OF tok this m far] show ?thesis using fields by (simp add: phys_def)
    qed
    have ts: "tables (view ?s) (root s) \<subseteq> tables (view s) (root s) \<union> hi_pages s" using p fields by simp
    have "hi_pages ?s \<subseteq> hi_pages s - P ` {..<n}" using p fields by simp
    then have hs: "hi_pages ?s \<subseteq> hi_pages s" by blast
    have tb: "table_bytes ?s \<subseteq> table_bytes s \<union> bytes_in_frames (hi_pages s)"
      using ts unfolding table_bytes_def bytes_in_frames_def fields(3) by blast
    have "tables_in (table_bytes ?s) ?s" using tok' fields by (intro tables_in_bytes) simp_all
    then have "loader_env ad (table_bytes ?s) B ?s"
      using env id tb apart unfolding loader_env_def by blast
    moreover have "boot_vm {} ?s" using vm' by (auto simp: boot_vm_def)
    moreover have "bytes_in_frames (hi_pages ?s) \<inter> (scratch ad B \<union> statics ad) = {}"
      using apart hs unfolding bytes_in_frames_def by blast
    ultimately show ?thesis using fields by (simp add: loader_ready_def)
  qed
  ultimately show thesis by (rule that)
qed

section \<open>The file at its address\<close>

lemma loader_ready_params:
  assumes "loader_ready ad B s" and "root s' = root s" and "mem_free (gBootParams s') = mem_free (gBootParams s)" and "ram s' = ram s" and "cr3_reg s' = cr3_reg s"
  shows "loader_ready ad B s'" and "table_bytes s' = table_bytes s"
proof -
  have h: "hi_pages s' = hi_pages s" using assms(3) by (simp add: hi_pages_def)
  have "phys s' = phys s" by (rule ext) (simp only: phys_def assms(4,5))
  moreover show tb: "table_bytes s' = table_bytes s" using assms(2,4) by (simp add: table_bytes_def)
  moreover have "tables_in (table_bytes s) s" using assms(1) by (simp add: loader_ready_def loader_env_def)
  then have "tables_in (table_bytes s) s'" unfolding tables_in_def assms(4,5) .
  ultimately have "loader_env ad (table_bytes s') B s'" using assms(1) by (simp add: loader_ready_def loader_env_def)
  moreover have "boot_vm {} s'" using assms h by (simp add: loader_ready_def boot_vm_def)
  ultimately show "loader_ready ad B s'" using assms(1,2,5) h by (simp add: loader_ready_def)
qed

text \<open>The pages of the initial RAM disk end at the end of the address space.\<close>

lemma initram_pages:
  fixes i n :: nat
  shows "unat INITRAM_ADDR = 4096 * (2 ^ 52 - 2 ^ 20)" and "n \<le> 528 \<Longrightarrow> i < n \<Longrightarrow> 2 ^ 20 \<le> (2 ^ 52 - 2 ^ 20 + i) mod 2 ^ 36"
proof -
  show "unat INITRAM_ADDR = 4096 * (2 ^ 52 - 2 ^ 20)" by (simp add: INITRAM_ADDR_def)
  assume "n \<le> 528" "i < n"
  then have i: "2 ^ 36 - 2 ^ 20 + i < 2 ^ 36" by simp
  have "2 ^ 52 - 2 ^ 20 + i = (2 ^ 36 - 2 ^ 20 + i) + 65535 * 2 ^ 36" by simp
  then have "(2 ^ 52 - 2 ^ 20 + i) mod 2 ^ 36 = (2 ^ 36 - 2 ^ 20 + i) mod 2 ^ 36" by (simp only: mod_mult_self1)
  also have "\<dots> = 2 ^ 36 - 2 ^ 20 + i" using i by (rule mod_less)
  finally show "2 ^ 20 \<le> (2 ^ 52 - 2 ^ 20 + i) mod 2 ^ 36" by simp
qed

text \<open>What the functions of mfs.c keep: the parameters that they use, and a loader that can allocate.\<close>

definition same_disk :: "Boot \<Rightarrow> Boot \<Rightarrow> bool" where
  "same_disk s s' \<longleftrightarrow> boot_drive (gBootParams s') = boot_drive (gBootParams s) \<and> mbr_partition (gBootParams s') = mbr_partition (gBootParams s)"

lemma same_disk_volume: "same_disk s s' \<Longrightarrow> volume_on_disk disk s' v = volume_on_disk disk s v"
  by (simp add: same_disk_def volume_on_disk_def)

lemma initram_init_spec:
  assumes disk: "reads_disk bios (boot_drive (gBootParams s)) disk B" and ready: "loader_ready ad B s" and vol: "volume_on_disk disk s v"
    and tree: "tree_holds v files dirs" and meta: "load64 (virtual_ram s) (gMetadata_at ad + 16) = v_root v"
    and d1: "dirs (v_root v) = Some ents1" "length (dir_bytes ents1) \<le> 4096" "exact_match ents1 n1 = Some d"
    and d2: "dirs d = Some ents2" "length (dir_bytes ents2) \<le> 4096" "exact_match ents2 n2 = Some F"
    and f: "files F = Some bs" and names: "name_at ad B s a1 n1" "name_at ad B s a2 n2"
    and room: "4 * pages_for (length bs) \<le> card (hi_pages s)"
    and way: "\<And>i. i < pages_for (length bs) \<Longrightarrow> clear_way (view s) (root s) (2 ^ 52 - 2 ^ 20 + i)"
  obtains s' where "initram_init bios ad args a1 a2 s = Some s'" and "bp_initram (gBootParams s') = INITRAM_ADDR"
    and "bp_initram_size (gBootParams s') = of_nat (length bs)" and "\<And>k. k < length bs \<Longrightarrow> virtual_ram s' (INITRAM_ADDR + of_nat k) = bs ! k"
    and "loader_ready ad B s'" and "same_disk s s'"
proof -
  let ?n = "pages_for (length bs)"
  have h: "holds v (v_root v) (dir_bytes ents1)" "names_ok ents1" "holds v d (dir_bytes ents2)" "names_ok ents2" "holds v F bs"
    using tree d1(1) d2(1) f unfolding tree_holds_def volume_holds_def by blast+
  have n: "?n \<le> 528" using h(5) by (simp add: holds_def file_ok_def)
  then have len: "length bs \<le> 528 * 4096" by (rule pages_for_le)
  have env: "loader_env ad (table_bytes s) B s" using ready by (simp add: loader_ready_def)
  obtain s1 where s1: "mfs_lookup_at bios ad args (v_root v) a1 s = Some (d, s1)" "quiet ad B s s1"
    by (rule mfs_lookup_at_spec [OF disk env refl vol h(1,2) d1(2,3) names(1)])
  note k1 = quiet_keeps [OF env s1(2)] and r1 = loader_ready_keeps [OF ready quiet_keeps [OF env s1(2)]]
  have p1: "gBootParams s1 = gBootParams s" using s1(2) by (simp add: quiet_def)
  have env1: "loader_env ad (table_bytes s1) B s1" using r1(1) by (simp add: loader_ready_def)
  have v1: "volume_on_disk disk s1 v" using vol p1 by (simp add: volume_on_disk_def)
  note nm1 = name_at_quiet [OF env s1(2) names(2)]
  obtain s2 where s2: "mfs_lookup_at bios ad args d a2 s1 = Some (F, s2)" "quiet ad B s1 s2"
    by (rule mfs_lookup_at_spec [OF disk env1 _ v1 h(3,4) d2(2,3) nm1]) (simp add: p1)
  note r2 = loader_ready_keeps [OF r1(1) quiet_keeps [OF env1 s2(2)]]
  have p2: "gBootParams s2 = gBootParams s" using s2(2) p1 by (simp add: quiet_def)
  define t2 where "t2 = s2\<lparr>gBootParams := (gBootParams s2)\<lparr>bp_initram := INITRAM_ADDR\<rparr>\<rparr>"
  have q2: "loader_ready ad B t2" by (rule loader_ready_params(1) [OF r2(1)]) (simp_all add: t2_def)
  then have env2: "loader_env ad (table_bytes t2) B t2" by (simp add: loader_ready_def)
  have v2: "volume_on_disk disk t2 v" "boot_drive (gBootParams t2) = boot_drive (gBootParams s)" using vol p2 by (simp_all add: volume_on_disk_def t2_def)
  obtain s3 where s3: "mfs_file_size bios ad args F t2 = Some (of_nat (length bs), s3)" "keeps (table_bytes t2) t2 s3"
    by (rule mfs_file_size_spec [OF disk env2 v2(2,1) h(5)])
  note r3 = loader_ready_keeps [OF q2 s3(2)]
  have p3: "gBootParams s3 = (gBootParams s)\<lparr>bp_initram := INITRAM_ADDR\<rparr>" using s3(2) p2 by (simp add: keeps_def t2_def)
  define t3 where "t3 = s3\<lparr>gBootParams := (gBootParams s3)\<lparr>bp_initram_size := of_nat (length bs)\<rparr>\<rparr>"
  have t3_eq: "s3\<lparr>gBootParams := (gBootParams s)\<lparr>bp_initram := INITRAM_ADDR, bp_initram_size := of_nat (length bs)\<rparr>\<rparr> = t3"
    by (simp add: t3_def p3)
  have q3: "loader_ready ad B t3" by (rule loader_ready_params(1) [OF r3(1)]) (simp_all add: t3_def)
  have way3: "clear_way (view t3) (root t3) (2 ^ 52 - 2 ^ 20 + i)" if "i < ?n" for i
    using r3(3) [of "2 ^ 52 - 2 ^ 20 + i"] r2(3) [of "2 ^ 52 - 2 ^ 20 + i"] r1(3) [OF way [OF that]] by (simp add: t3_def t2_def)
  have room3: "4 * ?n \<le> card (hi_pages t3)" using room by (simp add: hi_pages_def t3_def p3)
  define t4 where "t4 = valloc INITRAM_ADDR (of_nat (length bs)) t3"
  have ul: "unat (of_nat (length bs) :: u64) = length bs" using len by (intro unat_of_nat_u64) simp
  have nn: "?n = (unat (of_nat (length bs) :: u64) + 4095) div 4096" "unat (of_nat (length bs) :: u64) + 8192 \<le> 2 ^ 31" "2 ^ 52 - 2 ^ 20 + ?n \<le> 2 ^ 52"
    using len n unfolding ul by (simp_all add: pages_for_def)
  obtain P where P: "area ad (table_bytes t4) B t4 (4096 * ?n) INITRAM_ADDR P" "loader_ready ad B t4"
    by (rule valloc_area [OF q3 nn(1) initram_pages(1) nn(2,3) way3 room3 initram_pages(2) [OF n], folded t4_def])
  obtain rs where "gBootParams t4 = (gBootParams t3)\<lparr>mem_free := rs\<rparr>" using valloc_params unfolding t4_def by blast
  then have p4: "gBootParams t4 = (gBootParams s)\<lparr>bp_initram := INITRAM_ADDR, bp_initram_size := of_nat (length bs), mem_free := rs\<rparr>"
    by (simp add: t3_def p3)
  have env4: "loader_env ad (table_bytes t4) B t4" using P(2) by (simp add: loader_ready_def)
  have v4: "volume_on_disk disk t4 v" "boot_drive (gBootParams t4) = boot_drive (gBootParams s)" using vol p4 by (simp_all add: volume_on_disk_def)
  obtain s' where s': "mfs_read bios ad args INITRAM_ADDR F t4 = Some s'" "keeps (table_bytes t4) t4 s'"
      "\<forall>k<length bs. virtual_ram s' (INITRAM_ADDR + of_nat k) = bs ! k"
    using mfs_read_spec [OF disk env4 v4(2,1) h(5) P(1)] by blast
  have p': "gBootParams s' = gBootParams t4" using s'(2) by (simp add: keeps_def)
  have "initram_init bios ad args a1 a2 s = Some s'"
    using s1(1) s2(1) s3(1) s'(1) t3_eq p3 p4
    by (simp add: initram_init_def mfs_lookup_root_def meta t2_def [symmetric] t4_def [symmetric] Let_def)
  then show thesis using that s'(3) loader_ready_keeps(1) [OF P(2) s'(2)] p' p4 by (simp add: same_disk_def)
qed

text \<open>\<open>mfs_init\<close> reads the page with the number of the root directory.\<close>

lemma mfs_init_spec:
  assumes "reads_disk bios drive disk B" and env: "loader_env ad T B s" and "boot_drive (gBootParams s) = drive" and "volume_on_disk disk s v"
  obtains s' where "mfs_init bios ad args s = Some s'" and "keeps T s s'"
    and "load64 (virtual_ram s') (gMetadata_at ad + 16) = load64 (v_data v) 0x3f010"
    and "\<And>x. x \<notin> scratch ad B \<union> statics ad \<Longrightarrow> ram s' x = ram s x"
proof -
  let ?P = "\<lambda>k. gMetadata_at ad + of_nat k :: u64" and ?lba = "unat (lba_start (mbr_partition (gBootParams s)))"
  have e: "tables_in T s" "\<And>a. unat a < 2 ^ 32 \<Longrightarrow> phys s a = Some a" "unat (gMetadata_at ad) + 4096 \<le> 2 ^ 32" "T \<inter> statics ad = {}"
    "statics ad \<inter> scratch ad B = {}" using env unfolding loader_env_def by blast+
  have "unat (?P k) < 2 ^ 32" if "k < 4096" for k using e(3) that by (subst unat_add_nat) simp_all
  then have m: "maps s 4096 (gMetadata_at ad) ?P" unfolding maps_def using e(2) by blast
  have inj: "inj_on ?P {..<4096}" by (rule inj_onI) (simp add: of_nat_u64_eq)
  have st: "?P k \<in> statics ad" if "k < 4096" for k
    using that in_range_offset [of k 4096 "gMetadata_at ad"] by (simp add: statics_def)
  then have apart: "\<forall>k<4096. ?P k \<notin> T \<union> scratch ad B" using e(4,5) by blast
  have lba: "unat (MFS_METADATA_PAGE * 8) = 504" by (simp add: MFS_METADATA_PAGE_def)
  have small: "unat (MFS_METADATA_PAGE * 8) + ?lba + 8 \<le> 2 ^ 50"
    using unsigned_less [of "lba_start (mbr_partition (gBootParams s))", where 'a = nat] unfolding lba by simp
  have vd: "512 * ?lba + unat (v_size v) \<le> length disk" "\<And>a. a < unat (v_size v) \<Longrightarrow> disk ! (512 * ?lba + a) = v_data v (of_nat a)"
    "4096 * (65 + unat (next_inode v)) \<le> unat (v_size v)" using assms(4) by (simp_all add: volume_on_disk_def Let_def)
  have off: "512 * (504 + ?lba) = 512 * (unat (MFS_METADATA_PAGE * 8) + ?lba)" unfolding lba ..
  have len: "512 * (504 + ?lba) + 4096 \<le> length disk" using vd(1,3) by simp
  obtain s' where s': "disk_read_raw bios ad args (gMetadata_at ad) (MFS_METADATA_PAGE * 8) 8 s = Some s'" "keeps T s s'"
      "\<forall>k<4096. ram s' (?P k) = disk ! (512 * (504 + ?lba) + k)" "\<forall>x. x \<notin> ?P ` {..<4096} \<longrightarrow> x \<notin> scratch ad B \<longrightarrow> ram s' x = ram s x"
    using disk_read_page [OF assms(1) env assms(3) m inj apart small off len, where args = args] by blast
  have m': "maps s' 4096 (gMetadata_at ad) ?P" using m keeps_maps [OF e(1) s'(2)] by simp
  have "load64 (virtual_ram s') (gMetadata_at ad + 16) = load64 (v_data v) 0x3f010"
    unfolding load_def
  proof (rule arg_cong [where f = word_le], rule map_cong [OF refl])
    fix i assume "i \<in> set [0..<8]"
    then have i: "16 + i < 4096" "i < 8" by simp_all
    have "virtual_ram s' (gMetadata_at ad + of_nat (16 + i)) = disk ! (512 * (504 + ?lba) + (16 + i))"
      using virtual_ram_maps [OF m' i(1)] s'(3) [rule_format, OF i(1)] by (rule trans)
    also have "512 * (504 + ?lba) + (16 + i) = 512 * ?lba + (0x3f010 + i)" by simp
    also have "disk ! (512 * ?lba + (0x3f010 + i)) = v_data v (of_nat (0x3f010 + i))"
      using vd(3) i(2) by (intro vd(2)) simp
    finally show "virtual_ram s' (gMetadata_at ad + 16 + of_nat i) = v_data v (0x3f010 + of_nat i)" by (simp add: add.assoc)
  qed
  moreover have "ram s' x = ram s x" if "x \<notin> scratch ad B \<union> statics ad" for x
  proof -
    have "?P ` {..<4096} \<subseteq> statics ad" using st by (intro image_subsetI) (simp only: lessThan_iff)
    then have "x \<notin> ?P ` {..<4096}" "x \<notin> scratch ad B" using that by blast+
    then show ?thesis using s'(4) by (simp only: not_False_eq_True simp_thms)
  qed
  ultimately show thesis using that s'(1,2) by (simp add: mfs_init_def)
qed

end
