(* ===== verification/BootChain.thy ===== *)
theory BootChain
  imports BootInitRam MkImage
begin

text \<open>
  From the tools to the memory of the loader: the files that mkvolume.c stores, on the disk that mkimage.c
  makes, are what mfs.c of the boot loader finds and reads.
\<close>

section \<open>The whole way of a file\<close>

lemma exact_first:
  assumes "\<And>e. e \<in> set ents \<Longrightarrow> prefix (snd e) n \<Longrightarrow> snd e = n"
  shows "exact_match ents n = first_match ents n"
proof -
  have "find (\<lambda>e. snd e = n) ents = find (\<lambda>e. prefix (snd e) n) ents" using assms by (intro find_cong refl) auto
  then show ?thesis by (simp add: exact_match_def first_match_def)
qed

text \<open>The names of the paths of a specification are apart: no file has the name of another or of a directory, and no name begins another one.\<close>

definition names_apart :: "u8 list list \<Rightarrow> bool" where
  "names_apart ps \<longleftrightarrow> clash_free [] ps \<and> fresh_names [] ps \<and> (\<forall>m \<in> path_names ps. \<forall>n \<in> path_names ps. prefix m n \<longrightarrow> m = n)"

text \<open>Such a volume, as the lookups of the loader see it.\<close>

lemma copied_file_found:
  assumes c: "files_copied host sps (527 * 4096) v0 [1 \<mapsto> []] [1 \<mapsto> []] v files dirs" and "v_root v0 = 1" and apart: "names_apart (paths_of sps)"
    and sp: "sp \<in> set sps" "parts_of (c_str (dst sp)) = ([n1], n2)"
  obtains ents1 d ents2 F where "dirs 1 = Some ents1" and "length (dir_bytes ents1) \<le> 4096" and "exact_match ents1 n1 = Some d"
    and "dirs d = Some ents2" and "length (dir_bytes ents2) \<le> 4096" and "exact_match ents2 n2 = Some F" and "files F = Some (bytes_of host sp)"
proof -
  note q = c [unfolded files_copied_def assms(2)]
  have empty: "all_names [1 \<mapsto> []] = {}" by (auto simp: all_names_def split: if_splits)
  have "fresh_names [] (paths_of sps)" using apart by (simp add: names_apart_def)
  then have "stored_first files dirs 1 (c_str (dst sp)) (bytes_of host sp)" using q sp(1) unfolding empty by blast
  then obtain d ents2 F where s: "resolve dirs 1 [n1] = Some d" "dirs d = Some ents2" "exact_match ents2 n2 = Some F" "files F = Some (bytes_of host sp)"
    unfolding stored_first_def sp(2) by auto
  obtain ents1 where e: "dirs 1 = Some ents1" "first_match ents1 n1 = Some d" using s(1) by (auto split: option.splits)
  have names: "all_names dirs \<subseteq> path_names (paths_of sps)" using q unfolding empty by simp
  have n1: "n1 \<in> path_names (paths_of sps)" using sp unfolding path_names_def paths_of_def by force
  have "snd x = n1" if x: "x \<in> set ents1" "prefix (snd x) n1" for x
  proof -
    have "snd x \<in> path_names (paths_of sps)" using all_names_dir [of dirs 1 ents1, OF e(1)] names x(1) by auto
    then show ?thesis using apart n1 x(2) by (simp add: names_apart_def)
  qed
  then have "exact_match ents1 n1 = Some d" using exact_first e(2) by metis
  moreover have "length (dir_bytes ents) \<le> 4096" if "dirs i = Some ents" for i ents
  proof -
    have "dirs_room (527 * 4096) dirs" using q by simp
    then have "length (dir_bytes ents) + 527 * 4096 \<le> 528 * 4096" using that unfolding dirs_room_def by blast
    then show ?thesis by simp
  qed
  ultimately show thesis using that e(1) s(2-4) by blast
qed

lemma image_volume:
  assumes "length mbr \<le> 32768" and "512 \<le> length mbr" and "vol = peek_bytes (v_data v) 0 (unat (v_size v))" and "unat (v_size v) < 2 ^ 31"
    and "4096 * (65 + unat (next_inode v)) \<le> unat (v_size v)" and "lba_start (mbr_partition (gBootParams s)) = word_le (take 4 (drop 0x1c6 (mkimage mbr vol)))"
  shows "volume_on_disk (mkimage mbr vol) s v"
proof -
  have len: "length vol = unat (v_size v)" using assms(3) by (simp add: peek_bytes_def)
  then have "length vol < 2 ^ 40" using assms(4) by simp
  note im = mkimage_image [OF assms(1,2) this refl]
  have "lba_start (mbr_partition (gBootParams s)) = 64" using im assms(6) by simp
  moreover have "mkimage mbr vol ! (64 * 512 + a) = v_data v (of_nat a)" if "a < unat (v_size v)" for a
    using im that len assms(3) by (simp add: peek_bytes_def)
  ultimately show ?thesis using im assms(5) len by (simp add: volume_on_disk_def Let_def)
qed

text \<open>C5. From the specification file to the memory of the boot loader: when mkvolume.c has written the files of a specification
  whose names are apart to a volume, and mkimage.c that volume to a disk image, then on this disk mfs_init and initram_init
  of the boot loader find the file of a path of one directory and one name, map free pages for it at the fixed address, and
  leave exactly the bytes of the source file there, with address and size in the boot parameters. The conditions are: the specification fits
  the tool and the volume is large enough, as for \<open>mkvolume_stores_files\<close>; the entries of all its paths take at most one page
  (\<open>names_taken\<close>, the names and 12 bytes for each component), because the loader reads the first page of a directory only; the boot
  record has one to 64 sectors; the BIOS reads sectors as documented, and the
  partition that the loader was given is the one of the boot record; the tables and variables of the loader are in order
  (\<open>loader_ready\<close>) and hold the two names; four pages below 4 GiB are free for each page of the file; and no large page is in the way of the
  addresses it is mapped to (\<open>clear_way\<close>).\<close>

theorem initram_reaches_memory:
  assumes "parse_specs (opened spec) = Some sps" and "spec_fits host sps" and "names_apart (paths_of sps)" and "names_taken sps \<le> 4096"
    and "length vbr \<le> 63 * 4096" and "4096 * (66 + int (pages_taken host sps)) \<le> sz" and "sz < 2 ^ 31 - 4096"
    and "mkvolume host sz time vbr spec = Some vol" and "length mbr \<le> 32768" and "512 \<le> length mbr" and "img = mkimage mbr vol"
    and "sp \<in> set sps" and "parts_of (c_str (dst sp)) = ([n1], n2)" and "bs = bytes_of host sp"
    and "reads_disk bios (boot_drive (gBootParams s)) img B" and "lba_start (mbr_partition (gBootParams s)) = word_le (take 4 (drop 0x1c6 img))"
    and "loader_ready ad B s" and "name_at ad B s a1 n1" and "name_at ad B s a2 n2" and "4 * pages_for (length bs) \<le> card (hi_pages s)"
    and "\<forall>i<pages_for (length bs). clear_way (view s) (root s) (unat INITRAM_ADDR div 4096 + i)"
  shows "\<exists>s0 s'. mfs_init bios ad args s = Some s0 \<and> initram_init bios ad args a1 a2 s0 = Some s'
    \<and> bp_initram (gBootParams s') = INITRAM_ADDR \<and> bp_initram_size (gBootParams s') = of_nat (length bs)
    \<and> (\<forall>k<length bs. virtual_ram s' (INITRAM_ADDR + of_nat k) = bs ! k) \<and> loader_ready ad B s'"
proof -
  have K: "names_taken sps + 527 * 4096 \<le> 528 * 4096" using assms(4) by simp
  have cf: "clash_free [] (paths_of sps)" using assms(3) by (simp add: names_apart_def)
  obtain v0 v files dirs where v: "mkvolume host sz time vbr spec = Some (peek_bytes (v_data v) 0 (unat (v_size v)))"
      "files_copied host sps (527 * 4096) v0 [1 \<mapsto> []] [1 \<mapsto> []] v files dirs" "v_root v0 = 1" "v_root v = 1"
      "4096 * (65 + unat (next_inode v)) \<le> unat (v_size v)" "load64 (v_data v) 0x3f010 = 1" "unat (v_size v) < 2 ^ 31"
    by (rule mkvolume_spec [OF assms(1,2) cf assms(5-7) K])
  have vol: "vol = peek_bytes (v_data v) 0 (unat (v_size v))" using v(1) assms(8) by simp
  have tree: "tree_holds v files dirs" using v(2) by (simp add: files_copied_def tree_grows_def)
  obtain ents1 d ents2 F where f: "dirs 1 = Some ents1" "length (dir_bytes ents1) \<le> 4096" "exact_match ents1 n1 = Some d"
      "dirs d = Some ents2" "length (dir_bytes ents2) \<le> 4096" "exact_match ents2 n2 = Some F" "files F = Some bs"
    by (rule copied_file_found [OF v(2,3) assms(3,12,13)]) (use assms(14) in blast)
  have vd: "volume_on_disk img s v"
    unfolding assms(11) by (rule image_volume [OF assms(9,10) vol v(7,5)]) (use assms(11,16) in simp)
  have env: "loader_env ad (table_bytes s) B s" using assms(17) by (simp add: loader_ready_def)
  obtain s0 where s0: "mfs_init bios ad args s = Some s0" "keeps (table_bytes s) s s0"
      "load64 (virtual_ram s0) (gMetadata_at ad + 16) = load64 (v_data v) 0x3f010"
      "\<And>x. x \<notin> scratch ad B \<union> statics ad \<Longrightarrow> ram s0 x = ram s x"
    by (rule mfs_init_spec [OF assms(15) env refl vd, of args]) (rule that)
  note r = loader_ready_keeps [OF assms(17) s0(2)] and nm = name_at_keeps [OF env s0(2,4)]
  have p: "gBootParams s0 = gBootParams s" using s0(2) by (simp add: keeps_def)
  have vd0: "volume_on_disk img s0 v" using vd p by (simp add: volume_on_disk_def)
  have disk: "reads_disk bios (boot_drive (gBootParams s0)) img B" using assms(15) p by simp
  have meta: "load64 (virtual_ram s0) (gMetadata_at ad + 16) = v_root v" using s0(3) v(4,6) by simp
  have d1: "dirs (v_root v) = Some ents1" using f(1) v(4) by simp
  have room: "4 * pages_for (length bs) \<le> card (hi_pages s0)" using assms(20) p by (simp add: hi_pages_def)
  have way: "clear_way (view s0) (root s0) (2 ^ 52 - 2 ^ 20 + i)" if "i < pages_for (length bs)" for i
    using assms(21) that r(3) by (simp add: initram_pages(1))
  obtain s' where "initram_init bios ad args a1 a2 s0 = Some s'" "bp_initram (gBootParams s') = INITRAM_ADDR"
      "bp_initram_size (gBootParams s') = of_nat (length bs)" "\<And>k. k < length bs \<Longrightarrow> virtual_ram s' (INITRAM_ADDR + of_nat k) = bs ! k"
      "loader_ready ad B s'"
    by (rule initram_init_spec [OF disk r(1) vd0 tree meta d1 f(2-7) nm(1) [OF _ assms(18)] nm(1) [OF _ assms(19)] room way]) (use s0(4) in blast)+
  then show ?thesis using s0(1) by blast
qed

section \<open>A loader to run\<close>

text \<open>A BIOS that reads sectors, and a loader whose tables at \<open>0x1000\<close> map the low 4 GiB with pages of 1 GiB.\<close>

definition disk_bios :: "u8 list \<Rightarrow> bios" where
  "disk_bios disk num args m =
     (let dap = ucast (esi args); n = unat (load16 m (dap + 2)); lba = unat (load64 m (dap + 8));
          buf = 16 * ucast (load16 m (dap + 6)) + ucast (load16 m (dap + 4))
      in (False, args, \<lambda>x. if in_range buf (512 * n) x then disk ! (512 * lba + unat (x - buf)) else m x))"

lemma disk_bios_reads: "reads_disk (disk_bios disk) drive disk {}"
  unfolding reads_disk_def by (auto simp: disk_bios_def Let_def in_range_def unat_of_nat_u64)

definition put_word :: "nat \<Rightarrow> u64 \<Rightarrow> mem \<Rightarrow> mem" where
  "put_word i w m = store64 m (0x1000 + of_nat (8 * i)) w"

definition low_ram :: mem where
  "low_ram = put_word 515 0xc0000083 (put_word 514 0x80000083 (put_word 513 0x40000083 (put_word 512 0x83 (put_word 0 0x2003 ((\<lambda>_. 0)(0x500 := 98, 0x510 := 99))))))"

definition low_addrs :: BootAddrs where
  "low_addrs = \<lparr>dap_at = 0x7000, buffer_at = 0x8000, gMetadata_at = 0x10000, gPages_at = 0x20000\<rparr>"

definition low_boot :: Boot where
  "low_boot = empty_tables\<lparr>gBootParams := (gBootParams empty_tables)\<lparr>mbr_partition := \<lparr>unused = replicate 8 0, lba_start = 64, lba_size = 1024\<rparr>\<rparr>,
     ram := low_ram, cr3_reg := 0x1000\<rparr>"

lemma load_put_word: "i < 1024 \<Longrightarrow> j < 1024 \<Longrightarrow> load64 (put_word i w m) (0x1000 + of_nat (8 * j)) = (if i = j then w else load64 m (0x1000 + of_nat (8 * j)))"
  using load_store_element [of i j 8 m "0x1000" w] by (auto simp: put_word_def simp del: of_nat_mult)

lemma low_ram_word:
  assumes "i < 1024"
  shows "load64 low_ram (0x1000 + of_nat (8 * i)) = (if i = 0 then 0x2003 else if 512 \<le> i \<and> i < 516 then of_nat (i - 512) * 0x40000000 OR 0x83 else 0)"
proof -
  have "load64 ((\<lambda>_. 0)((0x500 :: u64) := 98, 0x510 := 99)) (0x1000 + of_nat (8 * i)) = 0"
  proof -
    have "((\<lambda>_. 0)((0x500 :: u64) := 98, 0x510 := 99)) (0x1000 + of_nat (8 * i) + of_nat k) = (0 :: u8)" if "k < 8" for k
    proof -
      have u: "unat (0x1000 + of_nat (8 * i + k) :: u64) = 0x1000 + (8 * i + k)" using assms that by (subst unat_add_nat) simp_all
      have "0x1000 + of_nat (8 * i + k) \<noteq> a" if "unat a < 0x1000" for a :: u64
        using that u by auto
      then have "0x1000 + of_nat (8 * i + k) \<noteq> (0x500 :: u64)" "0x1000 + of_nat (8 * i + k) \<noteq> (0x510 :: u64)" by simp_all
      moreover have "0x1000 + of_nat (8 * i) + of_nat k = (0x1000 + of_nat (8 * i + k) :: u64)" by simp
      ultimately show ?thesis by (simp only: fun_upd_other simp_thms)
    qed
    then show ?thesis unfolding load_def by (intro word_le_zeros) auto
  qed
  then have "load64 low_ram (0x1000 + of_nat (8 * i)) = (if i = 515 then 0xc0000083 else if i = 514 then 0x80000083 else if i = 513 then 0x40000083
      else if i = 512 then 0x83 else if i = 0 then 0x2003 else 0)"
    unfolding low_ram_def using assms by (simp add: load_put_word del: of_nat_mult)
  moreover have "512 \<le> i \<and> i < 516 \<longleftrightarrow> i = 512 \<or> i = 513 \<or> i = 514 \<or> i = 515" by auto
  ultimately show ?thesis by auto
qed


lemma word_at_low:
  "word_at 0x1000 i = 0x1000 + of_nat (8 * i)" "word_at 0x2000 i = 0x1000 + of_nat (8 * (512 + i))"
  by (simp_all add: word_at_def)

lemma low_frames: "is_frame 0x1000" "is_frame 0x2000"
  by (simp_all add: is_frame_def)

lemma low_entry:
  assumes "i < 512"
  shows "entry (view low_boot) 0x1000 i = (if i = 0 then 0x2003 else 0)"
    and "entry (view low_boot) 0x2000 i = (if i < 4 then of_nat i * 0x40000000 OR 0x83 else 0)"
  using low_ram_word [of i] low_ram_word [of "512 + i"] assms
  by (simp_all add: entry_direct_view low_frames word_at_low low_boot_def)

text \<open>The four entries that map memory are large pages.\<close>

lemma low_large:
  assumes "i < 4"
  shows "(of_nat i * 0x40000000 OR 0x83) AND 1 \<noteq> (0 :: u64)" and "(of_nat i * 0x40000000 OR 0x83) AND 0x80 \<noteq> (0 :: u64)"
    and "(of_nat i * 0x40000000 OR 0x83) AND 0x000fffffc0000000 = (of_nat i * 0x40000000 :: u64)"
    and "child (of_nat i * 0x40000000 OR 0x83) = None"
proof -
  have "i = 0 \<or> i = 1 \<or> i = 2 \<or> i = 3" using assms by auto
  then show "(of_nat i * 0x40000000 OR 0x83) AND 1 \<noteq> (0 :: u64)" "(of_nat i * 0x40000000 OR 0x83) AND 0x80 \<noteq> (0 :: u64)"
    "(of_nat i * 0x40000000 OR 0x83) AND 0x000fffffc0000000 = (of_nat i * 0x40000000 :: u64)"
    "child (of_nat i * 0x40000000 OR 0x83) = None" by (auto simp: child_def X86_PAGE_PRESENT_def X86_PAGE_LARGE_def)
qed

lemma low_walk:
  "mmu low_ram 0x1000 va = (if unat va div 2 ^ 39 mod 512 = 0 \<and> unat va div 2 ^ 30 mod 512 < 4
    then Some (of_nat (unat va div 2 ^ 30 mod 512) * 0x40000000 + (va AND 0x3fffffff)) else None)"
proof -
  define a where "a = unat va div 2 ^ 39 mod 512"
  define b where "b = unat va div 2 ^ 30 mod 512"
  have ab: "a < 512" "b < 512" by (simp_all add: a_def b_def)
  obtain c d where dec: "decompose_addr va = (a, b, c, d)" by (simp add: decompose_addr_def walk_index a_def b_def)
  have m: "0x1000 AND ADDR_MASK = 0x1000" "0x2003 AND ADDR_MASK = 0x2000" by (simp_all add: ADDR_MASK_def)
  have e4: "load64 low_ram (word_at 0x1000 a) = (if a = 0 then 0x2003 else 0)"
    using low_ram_word [of a] ab by (simp add: word_at_low)
  have e3: "load64 low_ram (word_at 0x2000 b) = (if b < 4 then of_nat b * 0x40000000 OR 0x83 else 0)"
    using low_ram_word [of "512 + b"] ab by (simp add: word_at_low)
  show ?thesis
    unfolding mmu_def dec Let_def prod.case m e4 a_def [symmetric] b_def [symmetric] using low_large [of b]
    by (simp add: m(2) e3)
qed

lemma low_identity:
  assumes "unat va < 2 ^ 32"
  shows "phys low_boot va = Some va"
proof -
  have "unat va div 2 ^ 30 < 4" "unat va div 2 ^ 39 = 0" using assms by simp_all
  moreover have "va AND 0x3fffffff = take_bit 30 va" by (simp add: take_bit_eq_mask mask_eq_exp_minus_1)
  ultimately show ?thesis using low_walk [of va] split_page [of va 30] by (simp add: phys_def low_boot_def)
qed

lemma low_table_at:
  assumes "ok_path q"
  shows "table_at (view low_boot) 0x1000 q = (if q = [] then Some 0x1000 else if q = [0] then Some 0x2000 else None)"
proof (cases q)
  case (Cons i p)
  have c: "child 0x2003 = Some 0x2000" by (simp add: child_def X86_PAGE_PRESENT_def X86_PAGE_LARGE_def MMASK_PHYS_def)
  have i: "i < 512" using assms Cons by (simp add: ok_path_def)
  show ?thesis
  proof (cases p)
    case (Cons j r)
    then have j: "j < 512" using assms \<open>q = i # p\<close> by (simp add: ok_path_def)
    show ?thesis using \<open>q = i # p\<close> Cons low_entry(1) [OF i] low_entry(2) [OF j] low_large(4) [of j] c by auto
  qed (use Cons low_entry(1) [OF i] c in simp)
qed simp

lemma low_root: "root low_boot = 0x1000" "cr3_reg low_boot = 0x1000" "boot_drive (gBootParams low_boot) = 0x80"
  by (simp_all add: low_boot_def empty_tables_def)

lemma low_tables: "tables (view low_boot) 0x1000 = {0x1000, 0x2000}"
proof (intro set_eqI iffI)
  fix u assume "u \<in> tables (view low_boot) 0x1000"
  then show "u \<in> {0x1000, 0x2000}" unfolding tables_def by (auto simp: low_table_at split: if_splits)
next
  fix u :: u64 assume "u \<in> {0x1000, 0x2000}"
  moreover have "ok_path [0]" by (simp add: ok_path_def)
  then have "table_at (view low_boot) 0x1000 [0] = Some 0x2000" by (simp only: low_table_at) simp
  moreover have "table_at (view low_boot) 0x1000 [] = Some 0x1000" by simp
  ultimately show "u \<in> tables (view low_boot) 0x1000"
    unfolding tables_def using ok_path_Nil \<open>ok_path [0]\<close> by blast
qed

lemma low_tables_ok: "tables_ok (view low_boot) 0x1000"
  by (auto simp: tables_ok_def low_table_at low_frames split: if_splits)

lemma in_range_iff:
  assumes "unat a + n \<le> 2 ^ 64"
  shows "in_range a n x \<longleftrightarrow> unat a \<le> unat x \<and> unat x < unat a + n"
proof
  assume "in_range a n x"
  then obtain i where i: "i < n" "x = a + of_nat i" by (rule in_rangeE)
  then show "unat a \<le> unat x \<and> unat x < unat a + n" using assms unat_add_nat [of a i] by simp
next
  assume x: "unat a \<le> unat x \<and> unat x < unat a + n"
  then have "unat (x - a) = unat x - unat a" by (simp add: unat_sub word_le_nat_alt)
  then show "in_range a n x" using x unfolding in_range_def by linarith
qed

lemma low_pages_high: "hi_pages low_boot = low_pages \<lparr>r_base = 0x1000000, r_size = 0x8000\<rparr>"
  by (simp add: hi_pages_def low_boot_def empty_tables_def usable_all low_region_def)

lemma low_ready: "loader_ready low_addrs {} low_boot"
proof -
  have bytes: "table_bytes low_boot = {x. unat x < 0x3000 \<and> 0x1000 \<le> unat x}"
    unfolding table_bytes_def bytes_in_frames_def low_root(1) low_tables by (auto simp: in_range_iff)
  have st: "statics low_addrs \<subseteq> {x. 0x10000 \<le> unat x \<and> unat x < 0x24000}" "scratch low_addrs {} \<subseteq> {x. 0x7000 \<le> unat x \<and> unat x < 0x9000}"
    by (auto simp: statics_def scratch_def low_addrs_def in_range_iff)
  have "tables_in (table_bytes low_boot) low_boot" by (rule tables_in_bytes) (simp_all add: low_root low_tables_ok)
  moreover have "statics low_addrs \<inter> scratch low_addrs {} = {}" "table_bytes low_boot \<inter> scratch low_addrs {} = {}" "table_bytes low_boot \<inter> statics low_addrs = {}"
    using st unfolding bytes by fastforce+
  moreover have "\<forall>x. in_range (gPages_at low_addrs) (4 * 4096) x \<longrightarrow> \<not> in_range (gMetadata_at low_addrs) 4096 x"
    by (auto simp: low_addrs_def in_range_iff)
  ultimately have "loader_env low_addrs (table_bytes low_boot) {} low_boot"
    using low_identity unfolding loader_env_def by (simp add: low_addrs_def)
  moreover have "boot_vm {} low_boot"
    using low_tables_ok low_tables low_pages_high by (simp add: boot_vm_def low_root) (simp add: low_boot_def empty_tables_def usable_all low_region_def low_pages_def identity_mapped_def)
  moreover have "bytes_in_frames (hi_pages low_boot) \<inter> (scratch low_addrs {} \<union> statics low_addrs) = {}"
  proof -
    have "0x1000000 \<le> unat x" if x: "x \<in> bytes_in_frames (hi_pages low_boot)" for x
    proof -
      obtain f where f: "0x1000000 \<le> unat f" "unat f < 0x1008000" "in_range f 4096 x"
        using x unfolding bytes_in_frames_def low_pages_high low_pages_def by auto
      then show ?thesis by (simp add: in_range_iff)
    qed
    then show ?thesis using st by fastforce
  qed
  ultimately show ?thesis by (simp add: loader_ready_def low_root)
qed

lemma low_clear:
  assumes "w div 134217728 mod 512 \<noteq> 0"
  shows "clear_way (view low_boot) (root low_boot) w"
  unfolding clear_way_def low_root
proof (intro allI impI)
  fix q i r u assume q: "page_path w = q @ i # r" and u: "table_at (view low_boot) 0x1000 q = Some u" "entry (view low_boot) u i \<noteq> 0"
  have "ok_path (page_path w)" by simp
  then have ok: "ok_path q" "i < 512" unfolding q by (auto simp: ok_path_def)
  have "hd (q @ i # r) \<noteq> 0" using assms unfolding q [symmetric] page_path_def by simp
  then have "q = [] \<and> i \<noteq> 0" using u(1) low_table_at [OF ok(1)] by (auto split: if_splits)
  then have False using u low_entry(1) [OF ok(2)] by simp
  then show "child (entry (view low_boot) u i) = Some (entry (view low_boot) u i AND TABLE_MASK)" ..
qed

lemma low_name:
  assumes "low_ram a = c" and "low_ram (a + 1) = 0" and "c \<noteq> 0" and "unat a < 0x1000"
  shows "name_at low_addrs {} low_boot a [c]"
proof -
  have u: "unat (a + of_nat k) = unat a + k" if "k < 2" for k using assms(4) that by (subst unat_add_nat) simp_all
  have p: "phys low_boot (a + of_nat k) = Some (a + of_nat k)" if "k < 2" for k using u [OF that] assms(4) that by (intro low_identity) simp
  have "virtual_ram low_boot a = c" "virtual_ram low_boot (a + 1) = 0"
    using p [of 0] p [of 1] assms(1,2) by (simp_all add: virtual_ram_def) (simp_all add: low_boot_def)
  then have "cstr_at (virtual_ram low_boot) a [c]" using assms(3) by (simp add: cstr_at_def)
  moreover have "maps low_boot (Suc (length [c])) a (\<lambda>k. a + of_nat k)" using p by (simp add: maps_def)
  moreover have "(\<lambda>k. a + of_nat k) ` {..<Suc (length [c])} \<inter> (scratch low_addrs {} \<union> statics low_addrs) = {}"
    using u [of 1] assms(4) by (auto simp: scratch_def statics_def low_addrs_def in_range_iff less_Suc_eq)
  ultimately show ?thesis unfolding name_at_def by (intro conjI exI) simp_all
qed

lemma low_names: "name_at low_addrs {} low_boot 0x500 [98]" "name_at low_addrs {} low_boot 0x510 [99]"
  by (rule low_name; simp add: low_ram_def put_word_def store_def)+

text \<open>A specification with the file \<open>/b/c\<close>.\<close>

definition tree_spec :: "u8 list" where
  "tree_spec = [70, 44, 47, 98, 47, 99, 44, 120]"

lemma tree_spec_records: "parse_specs (opened tree_spec) = Some [\<lparr>spec_type = 70, src = [120], dst = [47, 98, 47, 99]\<rparr>]"
proof -
  let ?l = "Record \<lparr>spec_type = 70, src = [120], dst = [47, 98, 47, 99]\<rparr>"
  have "line_ok ?l" by (simp add: NL_def CR_def COMMA_def HASH_def SPEC_STR_SIZE_def)
  from parse_specs_last [OF this] show ?thesis by (simp add: tree_spec_def COMMA_def)
qed

lemma initram_reaches_memory_witness:
  "\<exists>disk args s0 s'. mfs_init (disk_bios disk) low_addrs args low_boot = Some s0
     \<and> initram_init (disk_bios disk) low_addrs args 0x500 0x510 s0 = Some s' \<and> virtual_ram s' (INITRAM_ADDR + 2) = 3"
proof -
  let ?sp = "\<lparr>spec_type = 70, src = [120], dst = [47, 98, 47, 99]\<rparr>"
  define sps where sps: "sps = [?sp]"
  have parsed: "parse_specs (opened tree_spec) = Some sps" by (simp add: sps tree_spec_records)
  have parts: "parts_of [47, 98, 47, 99] = ([[98]], [99])" by (simp add: parts_of_def SLASH_def)
  have fits: "spec_fits sample_files sps" "names_taken sps \<le> 4096" "4096 * (66 + int (pages_taken sample_files sps)) \<le> 4194304"
    by (simp_all add: sps spec_fits_def bytes_of_def c_str_def sample_files_def names_taken_def pages_taken_def
        entries_size_def file_cost_def pages_cost_def pages_for_def SLASH_def)
  have apart: "names_apart (paths_of sps)" by (simp add: names_apart_def paths_of_def sps c_str_def parts path_names_def)
  have K: "names_taken sps + 0 \<le> 528 * 4096" using fits(2) by simp
  have cf: "clash_free [] (paths_of sps)" using apart by (simp add: names_apart_def)
  have sz: "(4194304 :: int) < 2 ^ 31 - 4096" and vbr: "length [0xeb, 0xfe :: u8] \<le> 63 * 4096" by simp_all
  obtain v0 v files dirs where v: "mkvolume sample_files 4194304 0 [0xeb, 0xfe] tree_spec = Some (peek_bytes (v_data v) 0 (unat (v_size v)))"
      "files_copied sample_files sps 0 v0 [1 \<mapsto> []] [1 \<mapsto> []] v files dirs" "v_root v0 = 1" "v_root v = 1"
      "4096 * (65 + unat (next_inode v)) \<le> unat (v_size v)" "load64 (v_data v) 0x3f010 = 1" "unat (v_size v) < 2 ^ 31"
    by (rule mkvolume_spec [OF parsed fits(1) cf vbr fits(3) sz K])
  let ?vol = "peek_bytes (v_data v) 0 (unat (v_size v))" and ?mbr = "replicate 512 0 :: u8 list"
  have mbr: "length ?mbr \<le> 32768" "512 \<le> length ?mbr" by simp_all
  have "length ?vol < 2 ^ 40" using v(7) by (simp add: peek_bytes_def)
  from mkimage_image [OF mbr this refl] have lba: "lba_start (mbr_partition (gBootParams low_boot)) = word_le (take 4 (drop 0x1c6 (mkimage ?mbr ?vol)))"
    by (simp add: low_boot_def)
  have sp: "?sp \<in> set sps" "parts_of (c_str (dst ?sp)) = ([[98]], [99])" "[1, 2, 3] = bytes_of sample_files ?sp"
    by (simp_all add: sps c_str_def parts bytes_of_def sample_files_def)
  have "{0x1000000, 0x1001000, 0x1002000, 0x1003000} \<subseteq> hi_pages low_boot" by (simp add: low_pages_high low_pages_def dvd_def)
  moreover have "finite (hi_pages low_boot)" by (rule finite)
  ultimately have room: "4 * pages_for (length [1, 2, 3 :: u8]) \<le> card (hi_pages low_boot)"
    using card_mono [of "hi_pages low_boot" "{0x1000000, 0x1001000, 0x1002000, 0x1003000}"] by (simp add: pages_for_def)
  have way: "\<forall>i<pages_for (length [1, 2, 3 :: u8]). clear_way (view low_boot) (root low_boot) (unat INITRAM_ADDR div 4096 + i)"
    by (auto intro!: low_clear simp: pages_for_def INITRAM_ADDR_def)
  have disk: "reads_disk (disk_bios (mkimage ?mbr ?vol)) (boot_drive (gBootParams low_boot)) (mkimage ?mbr ?vol) {}" by (rule disk_bios_reads)
  obtain s0 s' where "mfs_init (disk_bios (mkimage ?mbr ?vol)) low_addrs args low_boot = Some s0"
      "initram_init (disk_bios (mkimage ?mbr ?vol)) low_addrs args 0x500 0x510 s0 = Some s'"
      "\<forall>k<length [1, 2, 3 :: u8]. virtual_ram s' (INITRAM_ADDR + of_nat k) = [1, 2, 3] ! k"
    using initram_reaches_memory [OF parsed fits(1) apart fits(2) vbr fits(3) sz v(1) mbr refl sp disk lba low_ready low_names room way] by blast
  moreover from this(3) have "virtual_ram s' (INITRAM_ADDR + 2) = 3" by (auto dest: spec [of _ 2])
  ultimately show ?thesis by blast
qed

end
