(* ===== verification/Spec2Isabelle.thy ===== *)
theory Spec2Isabelle
  imports CString PhysMemInit KernelMap KHeap X86 InitRam MkImage MkVolume BootPrint Sched AddrSpace Boot LibcSys MapHistory MfsTool BootChain
begin

text \<open>
  FuseeOS: a small operating system for x86-64 (src/), with the tools that build its disk (tools/). This
  library models the boot loader, the kernel, the C library and the tools, in the order in which they run,
  and proves what each part promises to the next.

  \<^bold>\<open>The program.\<close> The tools write a disk: mkinitram packs the files of a specification into an initial RAM
  disk, mkvolume writes a volume of the Miaou file system (MFS), mkimage puts a boot record and a volume into an
  image. The boot loader (src/boot/bootloader) asks the BIOS for the memory of the machine, makes page tables,
  chooses a graphical mode, reads the RAM disk and the kernel from the volume, and calls the kernel with the
  record \<open>BootParams\<close> (src/libboot), which is all they share. The kernel (src/kernel) maps the physical
  memory, starts its page allocator, its heap and the tables of the processor, and then runs processes in turn,
  interrupted by a timer; processes call it through the stub of the C library (src/libc).

  \<^bold>\<open>Memory.\<close> \<open>Prelude\<close> has the machine integers (\<open>u8\<close> to \<open>u64\<close>, so arithmetic wraps), the memory (a function
  from 64-bit addresses to bytes) with its little-endian loads and stores, and the counting loop \<open>for_n\<close>. A C
  structure that the code reaches through pointers is its bytes at an address, with accessor definitions at the
  offsets of the layout; a global structure is a record. In the boot loader the memory is the physical one, and
  the few routines that use virtual addresses translate them with the walk of the processor (\<open>mmu\<close>, \<open>phys\<close> in
  \<open>BootDisk\<close>). In the kernel it is the memory as the kernel addresses it: a physical page is at
  \<open>physical_to_virtual\<close> of its address, which \<open>DirectMap\<close> proves of the tables that the kernel makes at its start.
  An access to an unmapped address, an unbounded search that finds nothing, and an allocation that cannot go on
  have no result: they are \<open>None\<close>. So is a string of a specification file or a text of \<open>boot_printf\<close> that
  does not fit the array of the code. The boot loader, and the kernel until it has its direct map, write tables
  and pages at their physical addresses, through a map of the first 4 GiB to themselves: the theorems about
  them take their pages and tables below 4 GiB (\<open>identity_mapped\<close>, \<open>usable\<close>).

  \<^bold>\<open>Theories and code.\<close>
  \<^item> \<open>CString\<close>: src/libc/string, src/libc/strings.
  \<^item> \<open>PhysMem\<close>, \<open>PhysMemInit\<close>: src/kernel/mem/alloc_page.c. One bitmap per block and order; \<open>pm_inv\<close> is the
    invariant, \<open>free_pages\<close> the abstraction to a set, and the locale \<open>page_allocator\<close> the contract of an
    allocator, interpreted on the code. \<open>PhysMemInit\<close> shows that initialisation establishes it, when the free
    regions have room for the bitmaps, and that the memory of the bitmaps, which are lists here, overlaps neither
    another bitmap nor a free page; an initialisation whose early allocations fail has no result.
  \<^item> \<open>Mmap\<close>: src/kernel/mem/mmap.c and alloc_io.c. The iterator over page tables is a coroutine in the code and a
    state machine here. \<open>PageTree\<close>, \<open>PageIter\<close>, \<open>PageMap\<close>, \<open>PageOps\<close>, \<open>KernelMap\<close>: the tables as a tree of
    paths (\<open>table_at\<close>, \<open>translate\<close>), the invariant \<open>vm_ok\<close> that keeps tables, free pages and pages in use apart,
    what the iterator visits, and what each mapping operation does to the translations. \<open>MapHistory\<close>: sequences of
    mapping operations as a step relation, whose invariant keeps the mapped pages apart.
  \<^item> \<open>KHeap\<close>: src/kernel/mem/kmalloc.c. \<open>heap_ok\<close> relates the headers in memory to a list of blocks, on which
    best fit, growth and release are stated.
  \<^item> \<open>X86\<close>: the tables, controllers and registers of src/kernel/arch/x86.
  \<^item> \<open>Elf\<close>, \<open>Procs\<close>, \<open>Sched\<close>, \<open>AddrSpace\<close>: src/kernel/proc.c, common/array.c. The ready queue is proved to be a
    first-in first-out queue (locale \<open>fifo\<close>, interpreted on the code), the scheduler to be a round robin, and
    the address spaces of processes to share the kernel's half.
  \<^item> \<open>Instr\<close>, \<open>Context\<close>: the assembly routines that enter and leave the kernel (interrupts/common.S, timer.S,
    arch/x86/proc.S, syscall.S), instruction by instruction; \<open>LibcSys\<close>: the system call stub of src/libc/arch/x86,
    sys/irq.c and user/init.c. They show that a process finds its registers again after an interrupt and after
    a system call, and that the arguments of a C call reach the handler.
  \<^item> \<open>KernelInit\<close>, \<open>DirectMap\<close>: arch/x86/mem.c, arch/x86/init.c, mem/mem.c, thread.c, sys/sys.c and kmain.c, and the
    direct map they make.
  \<^item> \<open>Video\<close>, \<open>BootPrint\<close>: src/libboot/video and src/libboot/print.c.
  \<^item> \<open>BootMem\<close>, \<open>BootDetect\<close>, \<open>BootTables\<close>, \<open>BootDisk\<close>, \<open>Boot\<close>: src/boot/bootloader. The tables of the boot loader
    are viewed through the direct map, so that the theory of page tables is used for them as well: \<open>map_single_spec\<close>
    in \<open>BootTables\<close> says what one mapping adds. Entries with reserved bits have no translation in \<open>mmu\<close>.
  \<^item> \<open>SpecParser\<close>, \<open>InitRam\<close>, \<open>MkImage\<close>, \<open>MkVolume\<close>: tools/ and src/libboot/initram.c.
  \<^item> \<open>MfsPages\<close>, \<open>MfsFiles\<close>, \<open>MfsDirs\<close>, \<open>MfsTree\<close>, \<open>MfsTool\<close>: what \<open>MkVolume\<close> does to a volume, level by level: its
    pages, files as sequences of bytes (\<open>content\<close>), the map from inodes to files (\<open>volume_holds\<close>), the tree of directories
    (\<open>tree_holds\<close>), and the volume that mkvolume writes for a specification. The pair of maps is a typing of the inodes,
    which copying a file keeps and extends; a specification fits (\<open>spec_fits\<close>) when its sources exist, files and
    directories are at most as large as an inode can address, and paths fit the buffer of 1024 bytes of the tool.
  \<^item> \<open>BootRead\<close>, \<open>BootAlloc\<close>, \<open>BootInitRam\<close>, \<open>BootChain\<close>: the boot loader on such a disk. \<open>BootRead\<close>: finding and reading
    the files of a volume; the contract of the BIOS call that reads sectors is \<open>reads_disk\<close>, and \<open>loader_env\<close> says that
    tables and variables of the loader do not overlap. \<open>BootAlloc\<close>: valloc, by induction over the pages of the range,
    and the walk of the processor (\<open>mmu_frame\<close>) through the tables it makes; \<open>loader_ready\<close> is the state between two
    allocations. \<open>BootInitRam\<close>: mfs_init and initram_init. \<open>BootChain\<close>: from a specification file through volume and image to
    the file in the memory of the loader.

  \<^bold>\<open>What is outside.\<close> The BIOS is a parameter (\<open>bios\<close>: the registers and the memory after a call), so are the
  answers of CPUID and of ports, the addresses the linker gives to code and static variables, and the files and
  the clock of the host that runs a tool.

  \<^bold>\<open>Termination and bounds.\<close> Loops with a counter are structural recursions or \<open>for_n\<close>; the driving loop of the
  page table iterator is a \<open>function\<close> with a lexicographic measure, and takes no fuel. Loops without a bound in
  the code (\<open>strlen\<close>, \<open>strcmp\<close>, the walks over heap headers, directory entries, BIOS regions and graphical modes,
  the copies of files in pieces) are \<open>partial_function\<close>s, whose \<open>None\<close> is a run that does not end; the theorems
  about them prove that they return. Ranges of pages are those the iterator can cover (\<open>fits\<close>: within one page
  directory, with as many tables as the length alone suggests); \<open>page_iter_misses_tail\<close> shows what happens
  to others whose counted tables lie in one page directory, and ranges beyond that are not covered by a theorem. Heaps are below 16 TiB, the size of their window.

  \<^bold>\<open>Simplifications.\<close> Messages (kprintf, boot_printf calls for the log) are left out of the routines that print
  them. Writes of a tool or of the boot loader beyond one of its other fixed arrays are dropped, where C would
  overwrite what follows. Caches of translations are not modelled: CR3 is kept, with the value last loaded.
  The kernel's memory has one contents per virtual address for all address spaces.

  \<^bold>\<open>Not modelled.\<close> The start of the machine in 16-bit mode and its changes of mode (boot/mbr/mbr.S,
  boot/bootloader/_start.S, a20.S, mode_*.S, paging.S), the first instructions of the kernel and of a program
  (kernel/_start.S, libc/crt0.S), the linker scripts and build files. Headers that only declare or number things
  (elf_common.h, most of elf64.h, stdint.h, errno constants) are modelled where a definition uses them.
\<close>

end
